(* ===== verification/Prelude.thy ===== *)
theory Prelude
  imports Main "HOL-Library.Word" "HOL-Library.List_Lexorder" "HOL-Library.Sublist"
begin

text \<open>
  Shared vocabulary of the development: the result type of fallible Rust functions and its
  \<open>?\<close> operator, the string operations of the Rust standard library that the modelled code
  calls, and the generic list lemmas that several components use.

  Two views of Rust text are used. Where the code works on bytes or on ASCII delimiters, a
  \<open>str\<close> is its UTF-8 byte sequence, a HOL \<open>string\<close>: \<open>len()\<close> is \<open>length\<close>, and splitting at
  an ASCII character on bytes is the same as on characters. Where the code iterates over
  \<open>char\<close>s, a \<open>str\<close> is the list of its Unicode scalar values (\<open>scalars\<close>).
\<close>

section \<open>Collections of the development\<close>

named_theorems res_simps "equations of the result combinators"
named_theorems str_simps "equations of the string operations"

section \<open>Types\<close>

type_synonym scalar = nat
type_synonym scalars = "nat list"
type_synonym byte = "8 word"
type_synonym u64 = "64 word"

text \<open>A string literal where the code works on \<open>char\<close>s.\<close>

definition lit :: "string \<Rightarrow> scalars" where
  "lit s = map of_char s"

section \<open>Machine integers\<close>

text \<open>
  Signed 64-bit values are integers with their range written out, \<open>usize\<close> is \<open>nat\<close> bounded by the
  64-bit platforms the program is released for. \<open>try_from\<close> and the checked operations give
  \<open>None\<close> outside the range.
\<close>

definition i64_max :: int where "i64_max = 2 ^ 63 - 1"
definition i64_min :: int where "i64_min = - (2 ^ 63)"

definition i64 :: "int \<Rightarrow> bool" where
  "i64 x \<longleftrightarrow> i64_min \<le> x \<and> x \<le> i64_max"

definition usize_max :: nat where "usize_max = 2 ^ 64 - 1"

definition i64_try_from :: "nat \<Rightarrow> int option" where
  "i64_try_from n = (if int n \<le> i64_max then Some (int n) else None)"

definition usize_try_from :: "int \<Rightarrow> nat option" where
  "usize_try_from x = (if 0 \<le> x \<and> x \<le> int usize_max then Some (nat x) else None)"

definition usize_checked_add :: "nat \<Rightarrow> nat \<Rightarrow> nat option" where
  "usize_checked_add a b = (if a + b \<le> usize_max then Some (a + b) else None)"

definition i64_checked_add :: "int \<Rightarrow> int \<Rightarrow> int option" where
  "i64_checked_add a b = (if i64 (a + b) then Some (a + b) else None)"

definition i64_checked_abs :: "int \<Rightarrow> int option" where
  "i64_checked_abs x = (if x = i64_min then None else Some \<bar>x\<bar>)"

definition non_zero :: "nat \<Rightarrow> nat option" where
  "non_zero n = (if n = 0 then None else Some n)"

section \<open>Results\<close>

text \<open>
  \<open>Result<T, E>\<close> is \<open>'e + 'a\<close>: \<open>Inl\<close> is \<open>Err\<close>, \<open>Inr\<close> is \<open>Ok\<close>. The question mark operator
  is \<open>res_bind\<close>.
\<close>

definition res_bind :: "'e + 'a \<Rightarrow> ('a \<Rightarrow> 'e + 'b) \<Rightarrow> 'e + 'b" where
  "res_bind r f = (case r of Inl e \<Rightarrow> Inl e | Inr v \<Rightarrow> f v)"

definition res_map :: "('a \<Rightarrow> 'b) \<Rightarrow> 'e + 'a \<Rightarrow> 'e + 'b" where
  "res_map f r = (case r of Inl e \<Rightarrow> Inl e | Inr v \<Rightarrow> Inr (f v))"

definition ok_or :: "'e \<Rightarrow> 'a option \<Rightarrow> 'e + 'a" where
  "ok_or e x = (case x of None \<Rightarrow> Inl e | Some v \<Rightarrow> Inr v)"

definition is_ok :: "'e + 'a \<Rightarrow> bool" where
  "is_ok r = (case r of Inl _ \<Rightarrow> False | Inr _ \<Rightarrow> True)"

lemma res_bind_simps [simp, res_simps]:
  "res_bind (Inl e) f = Inl e"
  "res_bind (Inr v) f = f v"
  by (simp_all add: res_bind_def)

lemma res_map_simps [simp, res_simps]:
  "res_map f (Inl e) = Inl e"
  "res_map f (Inr v) = Inr (f v)"
  by (simp_all add: res_map_def)

lemma ok_or_simps [simp, res_simps]:
  "ok_or e None = Inl e"
  "ok_or e (Some v) = Inr v"
  by (simp_all add: ok_or_def)

lemma is_ok_simps [simp, res_simps]:
  "\<not> is_ok (Inl e)"
  "is_ok (Inr v)"
  by (simp_all add: is_ok_def)

lemma res_bind_eq_Inr: "res_bind r f = Inr w \<longleftrightarrow> (\<exists>v. r = Inr v \<and> f v = Inr w)"
  by (cases r) auto

lemma res_bind_eq_Inl: "res_bind r f = Inl e \<longleftrightarrow> r = Inl e \<or> (\<exists>v. r = Inr v \<and> f v = Inl e)"
  by (cases r) auto

lemma res_map_eq_Inr: "res_map f r = Inr w \<longleftrightarrow> (\<exists>v. r = Inr v \<and> w = f v)"
  by (cases r) auto

lemma ok_or_eq_Inr: "ok_or e x = Inr v \<longleftrightarrow> x = Some v"
  by (cases x) auto

lemmas res_cases = res_bind_eq_Inr res_bind_eq_Inl res_map_eq_Inr ok_or_eq_Inr

text \<open>\<open>iter().map(f).collect::<Result<Vec<_>>>()\<close>: the first error wins.\<close>

fun res_collect :: "('e + 'a) list \<Rightarrow> 'e + 'a list" where
  "res_collect [] = Inr []"
| "res_collect (r # rs) = res_bind r (\<lambda>v. res_map ((#) v) (res_collect rs))"

lemma res_collect_Inr: "res_collect rs = Inr vs \<longleftrightarrow> rs = map Inr vs"
proof (induction rs arbitrary: vs)
  case Nil
  then show ?case by auto
next
  case (Cons r rs)
  then show ?case by (cases vs) (auto simp: res_cases)
qed

section \<open>Byte-string operations\<close>

definition ascii_lower_char :: "char \<Rightarrow> char" where
  "ascii_lower_char c =
     (let n = (of_char c :: nat) in if 65 \<le> n \<and> n \<le> 90 then char_of (n + 32) else c)"

definition to_ascii_lowercase :: "string \<Rightarrow> string" where
  "to_ascii_lowercase s = map ascii_lower_char s"

definition is_ascii_digit :: "char \<Rightarrow> bool" where
  "is_ascii_digit c = (let n = (of_char c :: nat) in 48 \<le> n \<and> n \<le> 57)"

definition digit_value :: "char \<Rightarrow> nat" where
  "digit_value c = (of_char c :: nat) - 48"

text \<open>\<open>replace(from, to)\<close> for single characters.\<close>

definition replace_char :: "char \<Rightarrow> char \<Rightarrow> string \<Rightarrow> string" where
  "replace_char a b s = map (\<lambda>c. if c = a then b else c) s"

text \<open>\<open>char::is_whitespace\<close>: the Unicode property White_Space.\<close>

definition is_whitespace :: "scalar \<Rightarrow> bool" where
  "is_whitespace c \<longleftrightarrow>
     9 \<le> c \<and> c \<le> 13 \<or> c = 0x20 \<or> c = 0x85 \<or> c = 0xa0 \<or> c = 0x1680 \<or>
     0x2000 \<le> c \<and> c \<le> 0x200a \<or> c = 0x2028 \<or> c = 0x2029 \<or> c = 0x202f \<or>
     c = 0x205f \<or> c = 0x3000"

definition trim :: "scalars \<Rightarrow> scalars" where
  "trim s = rev (dropWhile is_whitespace (rev (dropWhile is_whitespace s)))"

fun split_once :: "char \<Rightarrow> string \<Rightarrow> (string \<times> string) option" where
  "split_once d [] = None"
| "split_once d (c # cs) =
     (if c = d then Some ([], cs)
      else map_option (\<lambda>(a, b). (c # a, b)) (split_once d cs))"

definition rsplit_once :: "char \<Rightarrow> string \<Rightarrow> (string \<times> string) option" where
  "rsplit_once d s = map_option (\<lambda>(a, b). (rev b, rev a)) (split_once d (rev s))"

definition strip_prefix :: "string \<Rightarrow> string \<Rightarrow> string option" where
  "strip_prefix p s = (if prefix p s then Some (drop (length p) s) else None)"

definition trim_end_matches :: "('a \<Rightarrow> bool) \<Rightarrow> 'a list \<Rightarrow> 'a list" where
  "trim_end_matches P s = rev (dropWhile P (rev s))"

definition trim_start_matches :: "('a \<Rightarrow> bool) \<Rightarrow> 'a list \<Rightarrow> 'a list" where
  "trim_start_matches P s = dropWhile P s"

text \<open>\<open>split(d)\<close>: the pieces between delimiters; always at least one piece.\<close>

fun split_on :: "'a \<Rightarrow> 'a list \<Rightarrow> 'a list list" where
  "split_on d [] = [[]]"
| "split_on d (c # cs) =
     (if c = d then [] # split_on d cs
      else (case split_on d cs of [] \<Rightarrow> [[c]] | p # ps \<Rightarrow> (c # p) # ps))"

text \<open>\<open>slice.join(sep)\<close>.\<close>

fun join :: "'a list \<Rightarrow> 'a list list \<Rightarrow> 'a list" where
  "join sep [] = []"
| "join sep [x] = x"
| "join sep (x # y # ys) = x @ sep @ join sep (y # ys)"

text \<open>\<open>str::parse::<u64>\<close> and its kin: an optional plus sign, at least one digit, and the bound.\<close>

definition digits_value :: "string \<Rightarrow> nat" where
  "digits_value s = foldl (\<lambda>n c. 10 * n + digit_value c) 0 s"

definition parse_unsigned :: "nat \<Rightarrow> string \<Rightarrow> nat option" where
  "parse_unsigned bound s =
     (let ds = (case s of [] \<Rightarrow> [] | c # cs \<Rightarrow> if c = CHR ''+'' then cs else s)
      in if ds \<noteq> [] \<and> list_all is_ascii_digit ds \<and> digits_value ds \<le> bound
         then Some (digits_value ds) else None)"

text \<open>Decimal output of an unsigned integer, as \<open>format!("{n}")\<close> writes it.\<close>

definition digit_char :: "nat \<Rightarrow> char" where
  "digit_char d = char_of (48 + d)"

fun decimal :: "nat \<Rightarrow> string" where
  "decimal n = (if n < 10 then [digit_char n] else decimal (n div 10) @ [digit_char (n mod 10)])"

declare decimal.simps [simp del]

lemma of_char_digit_char [simp]: "d < 10 \<Longrightarrow> (of_char (digit_char d) :: nat) = 48 + d"
  by (simp add: digit_char_def)

lemma digit_char_props [simp]:
  "d < 10 \<Longrightarrow> is_ascii_digit (digit_char d)"
  "d < 10 \<Longrightarrow> digit_value (digit_char d) = d"
  by (simp_all add: is_ascii_digit_def digit_value_def)

lemma decimal_props: "decimal n \<noteq> [] \<and> list_all is_ascii_digit (decimal n) \<and> digits_value (decimal n) = n"
proof (induction n rule: decimal.induct)
  case (1 n)
  show ?case
  proof (cases "n < 10")
    case True
    then show ?thesis by (simp add: decimal.simps [of n] digits_value_def)
  next
    case False
    have "decimal n = decimal (n div 10) @ [digit_char (n mod 10)]"
      using False by (subst decimal.simps) simp
    then show ?thesis using 1 False by (simp add: digits_value_def)
  qed
qed

lemma not_digit_plus: "\<not> is_ascii_digit (CHR ''+'')"
  by (simp add: is_ascii_digit_def)

lemma parse_decimal [str_simps]: "n \<le> bound \<Longrightarrow> parse_unsigned bound (decimal n) = Some n"
  using decimal_props [of n] not_digit_plus
  by (cases "decimal n") (auto simp: parse_unsigned_def)

lemma decimal_no_char: "\<not> is_ascii_digit c \<Longrightarrow> c \<notin> set (decimal n)"
  using decimal_props [of n] by (auto simp: list_all_iff)

lemma split_once_Some:
  "split_once d s = Some (a, b) \<Longrightarrow> s = a @ d # b \<and> d \<notin> set a"
  by (induction s arbitrary: a) (auto split: if_splits)

lemma split_once_None [str_simps]: "split_once d s = None \<longleftrightarrow> d \<notin> set s"
  by (induction s) auto

lemma split_once_append [str_simps]: "d \<notin> set a \<Longrightarrow> split_once d (a @ d # b) = Some (a, b)"
  by (induction a) auto

lemma rsplit_once_Some:
  assumes "rsplit_once d s = Some (a, b)"
  shows "s = a @ d # b \<and> d \<notin> set b"
proof -
  from assms have "split_once d (rev s) = Some (rev b, rev a)"
    by (auto simp: rsplit_once_def)
  then have "rev s = rev b @ d # rev a" and "d \<notin> set (rev b)"
    using split_once_Some by blast+
  then show ?thesis by (auto simp: rev_swap)
qed

lemma rsplit_once_append [str_simps]:
  "d \<notin> set b \<Longrightarrow> rsplit_once d (a @ d # b) = Some (a, b)"
  by (simp add: rsplit_once_def split_once_append)

lemma rsplit_once_None [str_simps]: "rsplit_once d s = None \<longleftrightarrow> d \<notin> set s"
  by (simp add: rsplit_once_def split_once_None)

lemma strip_prefix_Some: "strip_prefix p s = Some r \<longleftrightarrow> s = p @ r"
  by (auto simp: strip_prefix_def prefix_def)

lemma split_on_ne [simp]: "split_on d s \<noteq> []"
  by (induction s) (auto split: list.splits)

lemma join_split_on: "join [d] (split_on d s) = s"
proof (induction s)
  case (Cons c cs)
  then show ?case
    by (cases "split_on d cs"; cases "tl (split_on d cs)") auto
qed simp

lemma trim_end_suffix: "\<exists>t. s = trim_end_matches P s @ t \<and> list_all P t"
proof -
  have "rev s = takeWhile P (rev s) @ dropWhile P (rev s)" by simp
  then have "s = rev (dropWhile P (rev s)) @ rev (takeWhile P (rev s))"
    by (metis rev_append rev_rev_ident)
  moreover have "list_all P (rev (takeWhile P (rev s)))"
    by (auto simp: list_all_iff dest: set_takeWhileD)
  ultimately show ?thesis unfolding trim_end_matches_def by blast
qed

lemma trim_end_last: "trim_end_matches P s \<noteq> [] \<Longrightarrow> \<not> P (last (trim_end_matches P s))"
  by (simp add: trim_end_matches_def last_rev hd_dropWhile)

lemma trim_Nil_iff: "trim s = [] \<longleftrightarrow> list_all is_whitespace s"
proof -
  have "trim s = [] \<longleftrightarrow> list_all is_whitespace (dropWhile is_whitespace s)"
    by (auto simp: trim_def list_all_iff)
  also have "\<dots> \<longleftrightarrow> list_all is_whitespace s"
    by (induction s) auto
  finally show ?thesis .
qed

lemma to_ascii_lowercase_map: "to_ascii_lowercase (c # cs) = ascii_lower_char c # to_ascii_lowercase cs"
  "to_ascii_lowercase [] = []"
  by (simp_all add: to_ascii_lowercase_def)

lemma find_SomeD: "find P xs = Some x \<Longrightarrow> x \<in> set xs \<and> P x"
  by (auto simp: find_Some_iff)

section \<open>Windows\<close>

text \<open>\<open>slice.windows(k)\<close> for \<open>k > 0\<close>.\<close>

definition windows :: "nat \<Rightarrow> 'a list \<Rightarrow> 'a list list" where
  "windows k xs = map (\<lambda>i. take k (drop i xs)) [0..<Suc (length xs) - k]"

lemma set_windows:
  assumes "0 < k"
  shows "set (windows k xs) = {w. length w = k \<and> sublist w xs}"
proof (intro equalityI subsetI)
  fix w
  assume "w \<in> set (windows k xs)"
  then obtain i where i: "i < Suc (length xs) - k" and w: "w = take k (drop i xs)"
    by (auto simp: windows_def)
  then have "length w = k" using assms by auto
  moreover have "sublist w xs"
    using w sublist_order.order_trans [OF sublist_take sublist_drop] by blast
  ultimately show "w \<in> {w. length w = k \<and> sublist w xs}" by simp
next
  fix w
  assume "w \<in> {w. length w = k \<and> sublist w xs}"
  then obtain ps ss where len: "length w = k" and xs: "xs = ps @ w @ ss"
    by (auto simp: sublist_def)
  then have "w = take k (drop (length ps) xs)" by simp
  moreover have "length ps < Suc (length xs) - k" using len xs by simp
  ultimately show "w \<in> set (windows k xs)"
    unfolding windows_def set_map set_upt by (metis (lifting) atLeastLessThan_iff image_eqI zero_le)
qed

lemma windows_short: "length xs < k \<Longrightarrow> windows k xs = []"
  by (simp add: windows_def)

section \<open>Sorting and deduplication\<close>

text \<open>\<open>v.sort(); v.dedup();\<close>\<close>

definition sort_dedup :: "'a::linorder list \<Rightarrow> 'a list" where
  "sort_dedup xs = remdups_adj (sort xs)"

lemma set_sort_dedup [simp]: "set (sort_dedup xs) = set xs"
  by (simp add: sort_dedup_def)

lemma sorted_remdups_adj_strict: "sorted xs \<Longrightarrow> sorted_wrt (<) (remdups_adj xs)"
  by (induction xs rule: remdups_adj.induct) (auto simp: less_le)

lemma sort_dedup_strict: "sorted_wrt (<) (sort_dedup xs)"
  by (simp add: sort_dedup_def sorted_remdups_adj_strict)

lemma sort_dedup_Nil_iff [simp]: "sort_dedup xs = [] \<longleftrightarrow> xs = []"
  by (metis set_empty set_sort_dedup)

lemma sort_dedup_eq: "sort_dedup xs = sorted_list_of_set (set xs)"
  using sort_dedup_strict [of xs] set_sort_dedup [of xs]
  by (metis List.finite_set sorted_list_of_set.idem_if_sorted_distinct strict_sorted_iff)

end
