(* ===== verification/TrigramIndex.thy ===== *)
theory TrigramIndex
  imports Prelude
begin

text \<open>
  The custom trigram index (\<open>trigram_index.rs\<close>): the on-disk posting codec (delta encoding
  followed by LEB128 varints), the parallel map-reduce build, and the candidate query.

  An \<open>i64\<close> is an \<open>int\<close> with its range written out; the bit work of the varint codec is on
  machine words. \<open>str::to_lowercase\<close> is the parameter \<open>lc\<close> (the Unicode case tables of the
  standard library). SQLite is reduced to the table \<open>trigram_postings\<close> it stores, a map from
  trigram to blob. Rayon's \<open>fold\<close>/\<open>reduce\<close> is modelled with the split of the rows into
  chunks explicit, so the theorems hold for every schedule.
\<close>

unbundle bit_operations_syntax

section \<open>The varint codec\<close>

datatype posting_error =
    OverflowingVarint
  | DeltaExceedsI64
  | IdExceedsI64
  | TruncatedVarint

text \<open>The inner \<open>loop\<close> of \<open>encode_ids\<close>: one delta as a varint.\<close>

function encode_varint :: "u64 \<Rightarrow> byte list" where
  "encode_varint delta =
     (let b = (ucast (delta AND 0x7f) :: byte); delta' = drop_bit 7 delta
      in if delta' = 0 then [b] else (b OR 0x80) # encode_varint delta')"
  by pat_completeness auto
termination
proof (relation "measure unat", simp)
  fix delta :: u64 and b :: byte and delta' :: u64
  assume d': "delta' = drop_bit 7 delta" and nz: "delta' \<noteq> 0"
  then have "unat delta \<noteq> 0" by (metis drop_bit_of_0 unat_eq_zero)
  then have "unat delta div 2 ^ 7 < unat delta" by simp
  then show "(delta', delta) \<in> measure unat"
    by (simp add: d' unat_drop_bit_eq) (simp add: drop_bit_eq_div)
qed

declare encode_varint.simps [simp del]

fun encode_from :: "int \<Rightarrow> int list \<Rightarrow> byte list" where
  "encode_from prev [] = []"
| "encode_from prev (i # ids) = encode_varint (word_of_int (i - prev)) @ encode_from i ids"

definition encode_ids :: "int list \<Rightarrow> byte list" where
  "encode_ids ids = encode_from 0 ids"

text \<open>\<open>decode_ids\<close>: the loop over the bytes with its four variables.\<close>

record decode_state =
  ds_out :: "int list"
  ds_prev :: int
  ds_cur :: u64
  ds_shift :: nat

definition decode_emit :: "decode_state \<Rightarrow> u64 \<Rightarrow> posting_error + decode_state" where
  "decode_emit s cur =
     (if uint cur > i64_max then Inl DeltaExceedsI64
      else let i = ds_prev s + uint cur
           in if \<not> i64 i then Inl IdExceedsI64
              else Inr (s\<lparr>ds_out := ds_out s @ [i], ds_prev := i, ds_cur := 0, ds_shift := 0\<rparr>))"

definition decode_step :: "decode_state \<Rightarrow> byte \<Rightarrow> posting_error + decode_state" where
  "decode_step s b =
     (if \<not> (ds_shift s < 64 \<and> (ds_shift s < 63 \<or> b AND 0x7f \<le> 1)) then Inl OverflowingVarint
      else
        let cur = ds_cur s OR push_bit (ds_shift s) (ucast (b AND 0x7f))
        in if b AND 0x80 = 0 then decode_emit s cur
           else Inr (s\<lparr>ds_cur := cur, ds_shift := ds_shift s + 7\<rparr>))"

fun decode_loop :: "decode_state \<Rightarrow> byte list \<Rightarrow> posting_error + decode_state" where
  "decode_loop s [] = Inr s"
| "decode_loop s (b # bs) = res_bind (decode_step s b) (\<lambda>s'. decode_loop s' bs)"

definition decode_init :: decode_state where
  "decode_init = \<lparr>ds_out = [], ds_prev = 0, ds_cur = 0, ds_shift = 0\<rparr>"

definition decode_ids :: "byte list \<Rightarrow> posting_error + int list" where
  "decode_ids buf =
     res_bind (decode_loop decode_init buf)
       (\<lambda>s. if ds_shift s = 0 then Inr (ds_out s) else Inl TruncatedVarint)"

lemma decode_loop_append:
  "decode_loop s (xs @ ys) = res_bind (decode_loop s xs) (\<lambda>t. decode_loop t ys)"
  by (induction xs arbitrary: s) (auto simp: res_bind_def split: sum.splits)

section \<open>The codec on words\<close>

lemma uint_word_u64: "0 \<le> x \<Longrightarrow> x < 2 ^ 64 \<Longrightarrow> uint (word_of_int x :: u64) = x"
  by (simp only: uint_word_of_int_eq) (simp add: take_bit_int_eq_self_iff)

lemma low7: "uint ((ucast (d AND 0x7f :: u64)) :: byte) = uint d mod 128"
proof -
  have "d AND 0x7f = take_bit 7 d"
    by (simp add: take_bit_eq_mask mask_numeral)
  then have "uint (d AND 0x7f) = uint d mod 128"
    by (simp only: unsigned_take_bit_eq) (simp add: take_bit_eq_mod)
  moreover have "uint (ucast (w :: u64) :: byte) = uint w mod 256" for w
    by (simp add: unsigned_ucast_eq take_bit_eq_mod)
  moreover have "uint d mod 128 mod 256 = uint d mod 128" by simp
  ultimately show ?thesis by simp
qed
lemma ucast_low7: "(ucast (d AND 0x7f :: u64) :: byte) = ucast d AND 0x7f"
  by (rule bit_word_eqI) (auto simp: bit_simps)
lemma or_push_bit:
  assumes "uint (cur::u64) < 2 ^ sh" "uint c * 2 ^ sh + uint cur < 2 ^ 64"
  shows "uint (cur OR push_bit sh (ucast (c::byte))) = uint c * 2 ^ sh + uint cur"
proof -
  have cb: "uint c * 2 ^ sh < 2 ^ 64" using assms(2) by (smt (verit) uint_ge_0)
  have cu: "uint (ucast c :: u64) = uint c"
    by (simp add: unsigned_ucast_eq take_bit_int_eq_self_iff order.strict_trans2 [OF uint_lt2p])
  have "uint (push_bit sh (ucast c :: u64)) = push_bit sh (uint c)"
    using cb unfolding unsigned_push_bit_eq cu
    by (simp only: push_bit_eq_mult take_bit_int_eq_self_iff) simp
  moreover have "take_bit sh (uint cur) = uint cur"
    using assms(1) by (simp add: take_bit_int_eq_self_iff)
  ultimately have "uint (cur OR push_bit sh (ucast c)) = concat_bit sh (uint cur) (uint c)"
    by (simp add: unsigned_or_eq concat_bit_def)
  also have "\<dots> = uint cur + uint c * 2 ^ sh"
    using \<open>take_bit sh (uint cur) = uint cur\<close> by (simp add: concat_bit_eq push_bit_eq_mult)
  finally show ?thesis by simp
qed

lemma low7_and_high: "((b :: byte) AND 0x7f) AND 0x80 = 0"
  by (simp add: and.assoc)
lemma high_set: "((b :: byte) AND 0x7f OR 0x80) AND 0x80 \<noteq> 0"
  by (simp add: bit.conj_disj_distrib2 and.assoc)
lemma high_low7: "((b :: byte) AND 0x7f OR 0x80) AND 0x7f = b AND 0x7f"
  by (simp add: bit.conj_disj_distrib2 and.assoc)

lemma decode_last:
  assumes inv: "uint (ds_cur s) < 2 ^ ds_shift s" and sh: "ds_shift s < 64"
    and bound: "uint b * 2 ^ ds_shift s + uint (ds_cur s) < 2 ^ 64" and low: "b AND 0x7f = b"
  shows "decode_step s b =
    decode_emit s (word_of_int (uint b * 2 ^ ds_shift s + uint (ds_cur s)))"
    "ds_shift s < 57 \<Longrightarrow> decode_step s (b OR 0x80) =
    Inr (s\<lparr>ds_cur := word_of_int (uint b * 2 ^ ds_shift s + uint (ds_cur s)),
           ds_shift := ds_shift s + 7\<rparr>)"
proof -
  have cur: "ds_cur s OR push_bit (ds_shift s) (ucast b) =
      word_of_int (uint b * 2 ^ ds_shift s + uint (ds_cur s))"
    using or_push_bit [OF inv bound] by (metis word_of_int_uint)
  have "b \<le> 1" if "\<not> ds_shift s < 63"
  proof -
    have "ds_shift s = 63" using that sh by simp
    then have "uint b * 2 ^ 63 < 2 ^ 64" using bound by (smt (verit) uint_ge_0)
    then have "uint b \<le> 1" by simp
    then show ?thesis by (simp add: word_le_def)
  qed
  moreover have "b AND 0x80 = 0"
  proof -
    have "(b AND 0x7f) AND 0x80 = 0" by (rule low7_and_high)
    then show ?thesis by (simp only: low)
  qed
  ultimately show "decode_step s b =
    decode_emit s (word_of_int (uint b * 2 ^ ds_shift s + uint (ds_cur s)))"
    using sh low cur by (auto simp: decode_step_def Let_def)
  have "(b OR 0x80) AND 0x80 \<noteq> 0" using high_set [of b] low by simp
  moreover have "(b OR 0x80) AND 0x7f = b" using high_low7 [of b] low by simp
  ultimately show "ds_shift s < 57 \<Longrightarrow> decode_step s (b OR 0x80) =
    Inr (s\<lparr>ds_cur := word_of_int (uint b * 2 ^ ds_shift s + uint (ds_cur s)),
           ds_shift := ds_shift s + 7\<rparr>)"
    using cur by (simp add: decode_step_def Let_def)
qed

lemma decode_varint:
  assumes "uint (ds_cur s) < 2 ^ ds_shift s" "ds_shift s < 64"
    "uint d * 2 ^ ds_shift s + uint (ds_cur s) < 2 ^ 64"
  shows "decode_loop s (encode_varint d @ bs) =
    res_bind (decode_emit s (word_of_int (uint d * 2 ^ ds_shift s + uint (ds_cur s))))
      (\<lambda>t. decode_loop t bs)"
  using assms
proof (induction d arbitrary: s rule: encode_varint.induct)
  case (1 d)
  define b where "b = (ucast (d AND 0x7f) :: byte)"
  define sh where "sh = ds_shift s"
  define cur where "cur = ds_cur s"
  have ub: "uint b = uint d mod 128" by (simp add: b_def low7)
  have lowb: "b AND 0x7f = b" by (simp add: b_def ucast_low7 and.assoc)
  have split: "uint d = (uint d div 128) * 128 + uint d mod 128" by simp
  have le: "uint b * 2 ^ sh \<le> uint d * 2 ^ sh"
    unfolding ub by (intro mult_right_mono) (auto simp: zmod_le_nonneg_dividend)
  have bb: "uint b * 2 ^ sh + uint cur < 2 ^ 64"
    using le "1.prems"(3) unfolding sh_def cur_def by linarith
  note last = decode_last [OF "1.prems"(1,2) bb [unfolded sh_def cur_def] lowb]
  have dd: "uint (drop_bit 7 d) = uint d div 128"
    by (simp add: drop_bit_eq_div uint_div_distrib)
  show ?case
  proof (cases "drop_bit 7 d = 0")
    case True
    then have "uint d div 128 = 0"
      using dd by simp
    then have "uint b = uint d" using split ub by simp
    then show ?thesis
      using last(1) True by (simp add: encode_varint.simps [of d] flip: b_def)
  next
    case False
    have "uint (drop_bit 7 d) \<noteq> 0" using False by (simp only: uint_0_iff) simp
    then have "1 \<le> uint d div 128" using dd by (smt (verit) uint_ge_0)
    then have "128 \<le> uint d" by linarith
    then have "128 * 2 ^ sh \<le> uint d * 2 ^ sh" by (intro mult_right_mono) auto
    moreover have "uint d * 2 ^ sh < 2 ^ 64"
      using "1.prems"(3) uint_ge_0 [of "ds_cur s"] unfolding sh_def by linarith
    moreover have "(2::int) ^ (sh + 7) = 128 * 2 ^ sh" by (simp add: power_add)
    ultimately have "(2::int) ^ (sh + 7) < 2 ^ 64" by linarith
    then have "sh + 7 < 64" by (rule power_less_imp_less_exp [rotated]) simp
    then have sh57: "sh < 57" by simp
    define s' where "s' = s\<lparr>ds_cur := word_of_int (uint b * 2 ^ sh + uint cur), ds_shift := sh + 7\<rparr>"
    have ucur: "uint (ds_cur s') = uint b * 2 ^ sh + uint cur"
      using uint_word_u64 [OF _ bb] by (simp only: s'_def decode_state.simps) simp
    have total: "uint (drop_bit 7 d) * 2 ^ ds_shift s' + uint (ds_cur s') =
        uint d * 2 ^ sh + uint cur"
    proof -
      have "uint (drop_bit 7 d) * 2 ^ ds_shift s' + uint (ds_cur s') =
          ((uint d div 128) * 128 + uint d mod 128) * 2 ^ sh + uint cur"
        unfolding dd ucur ub by (simp only: s'_def decode_state.simps power_add distrib_right)
          (simp add: power_add)
      then show ?thesis by (simp only: split [symmetric])
    qed
    have "uint (ds_cur s') < 2 ^ ds_shift s'"
    proof -
      have "uint b \<le> 127" using ub by simp
      then have "uint b * 2 ^ sh \<le> 127 * 2 ^ sh" by (intro mult_right_mono) auto
      then have "uint b * 2 ^ sh + uint cur < 128 * 2 ^ sh"
        using "1.prems"(1) unfolding sh_def cur_def by linarith
      then show ?thesis
        unfolding ucur by (simp add: s'_def power_add)
    qed
    moreover have "ds_shift s' < 64" using sh57 by (simp add: s'_def)
    moreover have "decode_emit s' x = decode_emit s x" for x
      by (simp add: decode_emit_def s'_def Let_def)
    ultimately have "decode_loop s' (encode_varint (drop_bit 7 d) @ bs) =
        res_bind (decode_emit s (word_of_int (uint d * 2 ^ sh + uint cur))) (\<lambda>t. decode_loop t bs)"
      using "1.IH" [OF b_def refl False, of s'] "1.prems"(3) total by (simp add: sh_def cur_def)
    moreover have "decode_step s (b OR 0x80) = Inr s'"
      using last(2) sh57 by (simp add: s'_def sh_def cur_def)
    ultimately show ?thesis
      using False by (simp add: encode_varint.simps [of d] sh_def cur_def flip: b_def)
  qed
qed


section \<open>The codec round trip\<close>

text \<open>The id lists the index stores: ascending, non-negative row ids.\<close>

definition valid_ids :: "int list \<Rightarrow> bool" where
  "valid_ids ids \<longleftrightarrow> sorted ids \<and> list_all (\<lambda>i. 0 \<le> i \<and> i \<le> i64_max) ids"

lemma encode_varint_ne [simp]: "encode_varint d \<noteq> []"
  by (subst encode_varint.simps) (simp add: Let_def)

lemma decode_delta:
  assumes "ds_cur s = 0" "ds_shift s = 0" "0 \<le> ds_prev s" "ds_prev s \<le> i" "i \<le> i64_max"
  shows "decode_loop s (encode_varint (word_of_int (i - ds_prev s)) @ bs) =
    decode_loop (s\<lparr>ds_out := ds_out s @ [i], ds_prev := i\<rparr>) bs"
proof -
  have u: "uint (word_of_int (i - ds_prev s) :: u64) = i - ds_prev s"
    using assms by (intro uint_word_u64) (auto simp: i64_max_def)
  then have "decode_loop s (encode_varint (word_of_int (i - ds_prev s)) @ bs) =
      res_bind (decode_emit s (word_of_int (i - ds_prev s))) (\<lambda>t. decode_loop t bs)"
    using assms decode_varint [of s "word_of_int (i - ds_prev s)" bs] u
    by (simp add: i64_max_def)
  moreover have "decode_emit s (word_of_int (i - ds_prev s)) =
      Inr (s\<lparr>ds_out := ds_out s @ [i], ds_prev := i\<rparr>)"
    using assms unfolding decode_emit_def u by (simp add: i64_def i64_min_def i64_max_def)
  ultimately show ?thesis by simp
qed

lemma decode_encode_from:
  assumes "sorted (p # ids)" "0 \<le> p" "list_all (\<lambda>i. i \<le> i64_max) ids"
    "ds_prev s = p" "ds_cur s = 0" "ds_shift s = 0"
  shows "decode_loop s (encode_from p ids) =
    Inr (s\<lparr>ds_out := ds_out s @ ids, ds_prev := last (p # ids)\<rparr>)"
  using assms
proof (induction ids arbitrary: p s)
  case Nil
  then show ?case by simp
next
  case (Cons i ids)
  then have "decode_loop s (encode_from p (i # ids)) =
      decode_loop (s\<lparr>ds_out := ds_out s @ [i], ds_prev := i\<rparr>) (encode_from i ids)"
    using decode_delta [of s i "encode_from i ids"] by simp
  then show ?case using Cons by simp
qed

lemma decode_encode_valid: "valid_ids ids \<Longrightarrow> decode_ids (encode_ids ids) = Inr ids"
proof -
  assume v: "valid_ids ids"
  then have "sorted (0 # ids)" and "list_all (\<lambda>i. i \<le> i64_max) ids"
    by (auto simp: valid_ids_def list_all_iff)
  then show "decode_ids (encode_ids ids) = Inr ids"
    using decode_encode_from [of 0 ids decode_init]
    by (simp add: decode_ids_def encode_ids_def decode_init_def)
qed

text \<open>
  Whatever the bytes are, a blob that decodes gives an ascending list of \<open>i64\<close> ids: a
  malformed posting is either refused or safe for the two-pointer intersection.
\<close>

definition decode_inv :: "decode_state \<Rightarrow> bool" where
  "decode_inv s \<longleftrightarrow> valid_ids (ds_out s) \<and> ds_prev s = last (0 # ds_out s)"

lemma valid_ids_snoc:
  assumes v: "valid_ids xs" and le: "last (0 # xs) \<le> i" and m: "i \<le> i64_max"
  shows "valid_ids (xs @ [i])"
proof (cases xs rule: rev_cases)
  case Nil
  then show ?thesis using le m by (simp add: valid_ids_def)
next
  case (snoc ys y)
  have "x \<le> i" if "x \<in> set xs" for x
    using that v le snoc by (auto simp: valid_ids_def sorted_append)
  moreover have "0 \<le> i" using v le snoc by (auto simp: valid_ids_def)
  ultimately show ?thesis using v m by (simp add: valid_ids_def sorted_append)
qed

lemma decode_emit_inv:
  assumes "decode_inv s" "decode_emit s cur = Inr t"
  shows "decode_inv t"
proof -
  have v: "valid_ids (ds_out s)" and l: "ds_prev s = last (0 # ds_out s)"
    using assms(1) by (auto simp: decode_inv_def)
  have t: "t = s\<lparr>ds_out := ds_out s @ [ds_prev s + uint cur], ds_prev := ds_prev s + uint cur,
      ds_cur := 0, ds_shift := 0\<rparr>" and m: "ds_prev s + uint cur \<le> i64_max"
    using assms(2) by (auto simp: decode_emit_def Let_def i64_def split: if_splits)
  have "valid_ids (ds_out s @ [ds_prev s + uint cur])"
    by (rule valid_ids_snoc [OF v _ m]) (simp add: l)
  then show ?thesis by (simp add: t decode_inv_def)
qed

lemma decode_step_inv: "decode_inv s \<Longrightarrow> decode_step s b = Inr t \<Longrightarrow> decode_inv t"
  by (auto simp: decode_step_def Let_def split: if_splits intro: decode_emit_inv)
    (simp_all add: decode_inv_def)

lemma decode_loop_inv: "decode_inv s \<Longrightarrow> decode_loop s bs = Inr t \<Longrightarrow> decode_inv t"
proof (induction bs arbitrary: s)
  case (Cons b bs)
  then show ?case by (auto simp: res_cases intro: decode_step_inv)
qed simp

lemma decode_ids_valid: "decode_ids buf = Inr ids \<Longrightarrow> valid_ids ids"
  using decode_loop_inv [of decode_init buf]
  by (auto simp: decode_ids_def res_cases decode_inv_def decode_init_def valid_ids_def
      split: if_splits)

section \<open>Candidate query\<close>

text \<open>\<open>intersect_sorted\<close>: the two-pointer loop, on the unread suffixes of the two slices.\<close>

fun intersect_sorted :: "int list \<Rightarrow> int list \<Rightarrow> int list" where
  "intersect_sorted (a # as) (b # bs) =
     (if a = b then a # intersect_sorted as bs
      else if a < b then intersect_sorted as (b # bs)
      else intersect_sorted (a # as) bs)"
| "intersect_sorted _ _ = []"

type_synonym posting_table = "scalars \<Rightarrow> byte list option"

definition posting :: "posting_table \<Rightarrow> scalars \<Rightarrow> posting_error + int list" where
  "posting tbl tg = (case tbl tg of None \<Rightarrow> Inr [] | Some blob \<Rightarrow> decode_ids blob)"

text \<open>The inner loop of \<open>candidates\<close>: one AND-group, stopping at an empty intersection.\<close>

fun group_candidates ::
    "posting_table \<Rightarrow> scalars list \<Rightarrow> int list option \<Rightarrow> posting_error + int list option" where
  "group_candidates tbl [] acc = Inr acc"
| "group_candidates tbl (tg # tgs) acc =
     res_bind (posting tbl tg) (\<lambda>ids.
       let acc' = (case acc of None \<Rightarrow> ids | Some prev \<Rightarrow> intersect_sorted prev ids)
       in if acc' = [] then Inr (Some acc') else group_candidates tbl tgs (Some acc'))"

fun candidates_from ::
    "posting_table \<Rightarrow> scalars list list \<Rightarrow> int set \<Rightarrow> posting_error + int set" where
  "candidates_from tbl [] result = Inr result"
| "candidates_from tbl (g # gs) result =
     res_bind (group_candidates tbl g None) (\<lambda>acc.
       candidates_from tbl gs (case acc of None \<Rightarrow> result | Some ids \<Rightarrow> result \<union> set ids))"

definition candidates :: "posting_table \<Rightarrow> scalars list list \<Rightarrow> posting_error + int set" where
  "candidates tbl groups = candidates_from tbl groups {}"

lemma intersect_sorted_subset: "set (intersect_sorted xs ys) \<subseteq> set xs \<inter> set ys"
  by (induction xs ys rule: intersect_sorted.induct) auto

lemma intersect_sorted_set:
  "sorted xs \<Longrightarrow> sorted ys \<Longrightarrow> set (intersect_sorted xs ys) = set xs \<inter> set ys"
proof (induction xs ys rule: intersect_sorted.induct)
  case (1 a as b bs)
  have above: "a \<notin> set (b # bs)" if "a < b" using that "1.prems" by auto
  have below: "b \<notin> set (a # as)" if "b < a" using that "1.prems" by auto
  consider "a = b" | "a < b" | "b < a" by linarith
  then show ?case
  proof cases
    case 1
    then show ?thesis using "1.IH"(1) "1.prems" by auto
  next
    case 2
    then show ?thesis using "1.IH"(2) "1.prems" above by auto
  next
    case 3
    then show ?thesis using "1.IH"(3) "1.prems" below by auto
  qed
qed auto

lemma intersect_sorted_sorted: "sorted xs \<Longrightarrow> sorted ys \<Longrightarrow> sorted (intersect_sorted xs ys)"
  by (induction xs ys rule: intersect_sorted.induct)
    (auto dest: subsetD [OF intersect_sorted_subset])

section \<open>Parallel build\<close>

type_synonym row = "int \<times> scalars"
type_synonym posting_map = "scalars \<Rightarrow> int list option"

definition doc_trigrams :: "(scalars \<Rightarrow> scalars) \<Rightarrow> scalars \<Rightarrow> scalars set" where
  "doc_trigrams lc content =
     (let chars = lc content in if 3 \<le> length chars then set (windows 3 chars) else {})"

definition entry_push :: "(scalars \<Rightarrow> scalars) \<Rightarrow> posting_map \<Rightarrow> row \<Rightarrow> posting_map" where
  "entry_push lc acc r =
     (\<lambda>tg. if tg \<in> doc_trigrams lc (snd r)
           then Some ((case acc tg of None \<Rightarrow> [] | Some v \<Rightarrow> v) @ [fst r]) else acc tg)"

definition merge_maps :: "posting_map \<Rightarrow> posting_map \<Rightarrow> posting_map" where
  "merge_maps a b =
     (\<lambda>tg. case b tg of None \<Rightarrow> a tg
           | Some v \<Rightarrow> Some ((case a tg of None \<Rightarrow> [] | Some u \<Rightarrow> u) @ v))"

text \<open>
  A Rayon schedule: \<open>Chunk\<close> is a sequential \<open>fold\<close> over consecutive rows, \<open>Join\<close> a
  \<open>reduce\<close> of two neighbours.
\<close>

datatype schedule = Chunk "row list" | Join schedule schedule

fun schedule_rows :: "schedule \<Rightarrow> row list" where
  "schedule_rows (Chunk rows) = rows"
| "schedule_rows (Join s t) = schedule_rows s @ schedule_rows t"

fun run_schedule :: "(scalars \<Rightarrow> scalars) \<Rightarrow> schedule \<Rightarrow> posting_map" where
  "run_schedule lc (Chunk rows) = foldl (entry_push lc) (\<lambda>_. None) rows"
| "run_schedule lc (Join s t) = merge_maps (run_schedule lc s) (run_schedule lc t)"

definition build_postings :: "(scalars \<Rightarrow> scalars) \<Rightarrow> schedule \<Rightarrow> posting_map" where
  "build_postings lc s = (\<lambda>tg. map_option sort_dedup (run_schedule lc s tg))"

record index_tables =
  trigram_postings :: "scalars \<Rightarrow> (byte list \<times> nat) option"
  meta_base_max_id :: "int option"

definition base_max_of :: "row list \<Rightarrow> int" where
  "base_max_of rows = (case rows of [] \<Rightarrow> 0 | _ \<Rightarrow> Max (set (map fst rows)))"

definition write_postings :: "int \<Rightarrow> posting_map \<Rightarrow> index_tables \<Rightarrow> index_tables" where
  "write_postings base_max postings t =
     t\<lparr>trigram_postings := (\<lambda>tg. map_option (\<lambda>ids. (encode_ids ids, length ids)) (postings tg)),
       meta_base_max_id := Some base_max\<rparr>"

definition build_index :: "(scalars \<Rightarrow> scalars) \<Rightarrow> schedule \<Rightarrow> index_tables \<Rightarrow> index_tables \<times> int" where
  "build_index lc s t =
     (let base_max = base_max_of (schedule_rows s)
      in (write_postings base_max (build_postings lc s) t, base_max))"

definition base_max_id :: "index_tables \<Rightarrow> int" where
  "base_max_id t = (case meta_base_max_id t of None \<Rightarrow> 0 | Some v \<Rightarrow> v)"

definition posting_blobs :: "index_tables \<Rightarrow> posting_table" where
  "posting_blobs t = (\<lambda>tg. map_option fst (trigram_postings t tg))"

lemma foldl_entry_push:
  "foldl (entry_push lc) acc rows tg =
     (case map fst (filter (\<lambda>r. tg \<in> doc_trigrams lc (snd r)) rows) of
        [] \<Rightarrow> acc tg
      | ids \<Rightarrow> Some ((case acc tg of None \<Rightarrow> [] | Some v \<Rightarrow> v) @ ids))"
  by (induction rows arbitrary: acc)
    (auto simp: entry_push_def split: list.splits option.splits)

lemma run_schedule_eq:
  "run_schedule lc s tg =
     (case map fst (filter (\<lambda>r. tg \<in> doc_trigrams lc (snd r)) (schedule_rows s)) of
        [] \<Rightarrow> None | ids \<Rightarrow> Some ids)"
proof (induction s)
  case (Chunk rows)
  then show ?case by (simp add: foldl_entry_push split: list.splits)
next
  case (Join s t)
  then show ?case by (auto simp: merge_maps_def split: list.splits option.splits)
qed

lemma build_postings_valid:
  assumes "list_all (\<lambda>r. 0 \<le> fst r \<and> fst r \<le> i64_max) (schedule_rows s)"
    and "build_postings lc s tg = Some ids"
  shows "valid_ids ids"
proof -
  from assms(2) have "ids = sort_dedup (map fst
      (filter (\<lambda>r. tg \<in> doc_trigrams lc (snd r)) (schedule_rows s)))"
    by (auto simp: build_postings_def run_schedule_eq split: list.splits)
  then show ?thesis
    using assms(1) strict_sorted_imp_sorted [OF sort_dedup_strict]
    by (auto simp: valid_ids_def list_all_iff)
qed

text \<open>The contents of the stored postings: exactly the rows whose text has the trigram.\<close>

definition rows_with :: "(scalars \<Rightarrow> scalars) \<Rightarrow> row list \<Rightarrow> scalars \<Rightarrow> int set" where
  "rows_with lc rows tg = {i. \<exists>c. (i, c) \<in> set rows \<and> tg \<in> doc_trigrams lc c}"

lemma posting_built:
  assumes "list_all (\<lambda>r. 0 \<le> fst r \<and> fst r \<le> i64_max) (schedule_rows s)"
  shows "\<exists>ids. posting (posting_blobs (fst (build_index lc s t))) tg = Inr ids \<and>
    sorted ids \<and> set ids = rows_with lc (schedule_rows s) tg"
proof (cases "build_postings lc s tg")
  case None
  then have "rows_with lc (schedule_rows s) tg = {}"
    by (auto simp: build_postings_def run_schedule_eq rows_with_def filter_empty_conv
        split: list.splits)
  then show ?thesis
    using None by (simp add: posting_def posting_blobs_def build_index_def write_postings_def Let_def)
next
  case (Some ids)
  then have v: "valid_ids ids" using build_postings_valid assms by blast
  have "ids = sort_dedup (map fst
      (filter (\<lambda>r. tg \<in> doc_trigrams lc (snd r)) (schedule_rows s)))"
    using Some by (auto simp: build_postings_def run_schedule_eq split: list.splits)
  then have "set ids = rows_with lc (schedule_rows s) tg"
    by (force simp: rows_with_def)
  then show ?thesis
    using Some v decode_encode_valid [OF v]
    by (simp add: posting_def posting_blobs_def build_index_def write_postings_def Let_def
        valid_ids_def)
qed

lemma group_candidates_exact:
  assumes post: "\<And>tg. \<exists>ids. posting tbl tg = Inr ids \<and> sorted ids \<and> set ids = S tg"
    and acc: "\<And>v. acc = Some v \<Longrightarrow> sorted v"
    and ne: "g \<noteq> [] \<or> acc \<noteq> None"
  shows "\<exists>ids. group_candidates tbl g acc = Inr (Some ids) \<and> sorted ids \<and>
    set ids = (case acc of None \<Rightarrow> UNIV | Some v \<Rightarrow> set v) \<inter> (\<Inter>tg \<in> set g. S tg)"
  using acc ne
proof (induction g arbitrary: acc)
  case Nil
  then show ?case by auto
next
  case (Cons tg g)
  obtain ids where ids: "posting tbl tg = Inr ids" "sorted ids" "set ids = S tg"
    using post by blast
  define acc' where "acc' = (case acc of None \<Rightarrow> ids | Some prev \<Rightarrow> intersect_sorted prev ids)"
  have s': "sorted acc'" and set': "set acc' = (case acc of None \<Rightarrow> UNIV | Some v \<Rightarrow> set v) \<inter> S tg"
    using Cons.prems ids
    by (auto simp: acc'_def intersect_sorted_sorted intersect_sorted_set split: option.splits)
  show ?case
  proof (cases "acc' = []")
    case True
    then have "(case acc of None \<Rightarrow> UNIV | Some v \<Rightarrow> set v) \<inter> S tg = {}" using set' by simp
    then show ?thesis using True ids(1) by (auto simp: acc'_def)
  next
    case False
    then show ?thesis
      using Cons.IH [of "Some acc'"] s' set' ids(1) by (auto simp: acc'_def)
  qed
qed

lemma candidates_from_exact:
  assumes "\<And>tg. \<exists>ids. posting tbl tg = Inr ids \<and> sorted ids \<and> set ids = S tg"
  shows "candidates_from tbl gs R =
    Inr (R \<union> {i. \<exists>g \<in> set gs. g \<noteq> [] \<and> (\<forall>tg \<in> set g. i \<in> S tg)})"
proof (induction gs arbitrary: R)
  case Nil
  then show ?case by simp
next
  case (Cons g gs)
  show ?case
  proof (cases "g = []")
    case True
    then show ?thesis using Cons.IH by simp
  next
    case False
    then obtain ids where "group_candidates tbl g None = Inr (Some ids)"
      "set ids = (\<Inter>tg \<in> set g. S tg)"
      using group_candidates_exact [OF assms, of None g] by auto
    then show ?thesis using Cons.IH False by auto
  qed
qed

lemma candidates_built:
  assumes "list_all (\<lambda>r. 0 \<le> fst r \<and> fst r \<le> i64_max) (schedule_rows s)"
  shows "candidates (posting_blobs (fst (build_index lc s t))) groups =
    Inr {i. \<exists>g \<in> set groups. g \<noteq> [] \<and> (\<forall>tg \<in> set g. i \<in> rows_with lc (schedule_rows s) tg)}"
  unfolding candidates_def using candidates_from_exact [OF posting_built [OF assms]] by simp

section \<open>The candidate contract\<close>

text \<open>
  What a caller of an index relies on: for the rows the base covers, the candidates of an
  OR-of-AND query are exactly the rows whose token set satisfies it. Whatever verification the
  caller then runs, it sees every row it would accept, provided the query is a necessary
  condition and the rows outside the base are scanned directly.
\<close>

definition satisfies :: "'g list list \<Rightarrow> 'g set \<Rightarrow> bool" where
  "satisfies gs ts \<longleftrightarrow> (\<exists>g \<in> set gs. g \<noteq> [] \<and> set g \<subseteq> ts)"

locale candidate_source =
  fixes cand :: "'g list list \<Rightarrow> int set"
    and tokens_of :: "int \<Rightarrow> 'g set"
    and covered :: "int set"
  assumes cand_iff: "i \<in> covered \<Longrightarrow> i \<in> cand gs \<longleftrightarrow> satisfies gs (tokens_of i)"
begin

lemma scan_complete:
  assumes necessary: "\<And>i. i \<in> ids \<Longrightarrow> verify i \<Longrightarrow> satisfies gs (tokens_of i)"
  shows "{i \<in> ids. (i \<in> cand gs \<or> i \<notin> covered) \<and> verify i} = {i \<in> ids. verify i}"
  using necessary cand_iff by blast

lemma cand_alternatives:
  "cand (gs @ hs) \<inter> covered = (cand gs \<union> cand hs) \<inter> covered"
  using cand_iff by (auto simp: satisfies_def)

lemma cand_stronger_group:
  assumes "set g \<subseteq> set g'" "g \<noteq> []"
  shows "cand [g'] \<inter> covered \<subseteq> cand [g] \<inter> covered"
proof
  fix i
  assume "i \<in> cand [g'] \<inter> covered"
  then show "i \<in> cand [g] \<inter> covered"
    using assms cand_iff [of i "[g']"] cand_iff [of i "[g]"] by (auto simp: satisfies_def)
qed

end

text \<open>The built index provides it, for rows whose ids are distinct and in range.\<close>

definition rows_ok :: "row list \<Rightarrow> bool" where
  "rows_ok rows \<longleftrightarrow> distinct (map fst rows) \<and> list_all (\<lambda>r. 0 \<le> fst r \<and> fst r \<le> i64_max) rows"

definition index_candidates ::
    "(scalars \<Rightarrow> scalars) \<Rightarrow> schedule \<Rightarrow> index_tables \<Rightarrow> scalars list list \<Rightarrow> int set" where
  "index_candidates lc s t gs =
     (case candidates (posting_blobs (fst (build_index lc s t))) gs of Inl _ \<Rightarrow> {} | Inr ids \<Rightarrow> ids)"

definition row_tokens :: "(scalars \<Rightarrow> scalars) \<Rightarrow> schedule \<Rightarrow> int \<Rightarrow> scalars set" where
  "row_tokens lc s i =
     (case map_of (schedule_rows s) i of None \<Rightarrow> {} | Some c \<Rightarrow> doc_trigrams lc c)"

definition covered_rows :: "schedule \<Rightarrow> int set" where
  "covered_rows s = (if rows_ok (schedule_rows s) then fst ` set (schedule_rows s) else {})"

lemma rows_with_iff:
  assumes "distinct (map fst rows)" "(i, c) \<in> set rows"
  shows "i \<in> rows_with lc rows tg \<longleftrightarrow> tg \<in> doc_trigrams lc c"
  unfolding rows_with_def using assms eq_key_imp_eq_value [OF assms(1)] by blast

lemma rows_with_group:
  assumes "distinct (map fst rows)"
  shows "(\<exists>g \<in> set gs. g \<noteq> [] \<and> (\<forall>tg \<in> set g. i \<in> rows_with lc rows tg)) \<longleftrightarrow>
    (\<exists>c. (i, c) \<in> set rows \<and> satisfies gs (doc_trigrams lc c))"
proof (cases "\<exists>c. (i, c) \<in> set rows")
  case True
  then obtain c where c: "(i, c) \<in> set rows" by blast
  have "c' = c" if "(i, c') \<in> set rows" for c' using eq_key_imp_eq_value [OF assms c that] by simp
  then have "(\<exists>c. (i, c) \<in> set rows \<and> satisfies gs (doc_trigrams lc c)) \<longleftrightarrow>
      satisfies gs (doc_trigrams lc c)"
    using c by blast
  then show ?thesis
    unfolding satisfies_def subset_iff by (simp add: rows_with_iff [OF assms c] Ball_def)
next
  case False
  then have "i \<notin> rows_with lc rows tg" for tg by (auto simp: rows_with_def)
  then have "\<not> (\<forall>tg \<in> set g. i \<in> rows_with lc rows tg)" if "g \<noteq> []" for g
    using that by (cases g) auto
  then show ?thesis using False by blast
qed

lemma index_candidates_iff:
  assumes "i \<in> covered_rows s"
  shows "i \<in> index_candidates lc s t gs \<longleftrightarrow> satisfies gs (row_tokens lc s i)"
proof -
  have ok: "rows_ok (schedule_rows s)" and mem: "i \<in> fst ` set (schedule_rows s)"
    using assms by (auto simp: covered_rows_def split: if_splits)
  then obtain c where c: "(i, c) \<in> set (schedule_rows s)" by auto
  have d: "distinct (map fst (schedule_rows s))" using ok by (simp add: rows_ok_def)
  then have mo: "map_of (schedule_rows s) i = Some c" using c by (rule map_of_is_SomeI)
  note rows_with_iff [OF d c]
  moreover have "list_all (\<lambda>r. 0 \<le> fst r \<and> fst r \<le> i64_max) (schedule_rows s)"
    using ok by (simp add: rows_ok_def)
  ultimately show ?thesis
    by (auto simp: index_candidates_def candidates_built mo row_tokens_def satisfies_def subset_iff)
qed

interpretation built_index: candidate_source
  "index_candidates lc s t" "row_tokens lc s" "covered_rows s" for lc s t
  by unfold_locales (rule index_candidates_iff)

section \<open>Properties\<close>

text \<open>
  An ascending list of row ids in the i64 range survives the posting codec: decoding what
  encode_ids wrote gives the list back.
\<close>

theorem posting_codec_round_trip: "valid_ids ids \<Longrightarrow> decode_ids (encode_ids ids) = Inr ids"
  by (rule decode_encode_valid)

theorem posting_codec_round_trip_witness:
  "valid_ids [1, 5, 300] \<and> decode_ids (encode_ids [1, 5, 300]) = Inr [1, 5, 300]"
proof -
  have v: "valid_ids [1, 5, 300]" by (simp add: valid_ids_def i64_max_def)
  show ?thesis using v posting_codec_round_trip [OF v] by simp
qed

text \<open>
  Whatever bytes a stored posting holds, decoding either refuses them or gives an ascending
  list of ids between 0 and i64::MAX, the precondition of the two-pointer intersection.
\<close>

theorem decoded_postings_are_sorted:
  "case decode_ids buf of
     Inl _ \<Rightarrow> True
   | Inr ids \<Rightarrow> sorted ids \<and> list_all (\<lambda>i. 0 \<le> i \<and> i \<le> i64_max) ids"
  using decode_ids_valid [of buf] by (auto simp: valid_ids_def split: sum.splits)

text \<open>
  C3: for every Rayon schedule of the build, the candidate query on the stored postings succeeds
  and returns exactly the ids of the rows that contain every trigram of some group.
\<close>

theorem candidates_exact_for_every_schedule:
  assumes "rows_ok rows" and "schedule_rows s = rows"
  shows "candidates (posting_blobs (fst (build_index lc s t))) groups =
    Inr {i. \<exists>c. (i, c) \<in> set rows \<and> satisfies groups (doc_trigrams lc c)}"
proof -
  have d: "distinct (map fst rows)" and r: "list_all (\<lambda>r. 0 \<le> fst r \<and> fst r \<le> i64_max) (schedule_rows s)"
    using assms by (auto simp: rows_ok_def)
  then show ?thesis
    unfolding candidates_built [OF r] using assms(2) rows_with_group [OF d] by simp
qed

theorem candidates_exact_for_every_schedule_witness:
  "candidates (posting_blobs (fst (build_index (\<lambda>c. c)
      (Join (Chunk [(1, [97, 98, 99])]) (Chunk [(2, [98, 99, 100])]))
      \<lparr>trigram_postings = (\<lambda>_. None), meta_base_max_id = None\<rparr>))) [[[98, 99, 100]]] =
    Inr {i. \<exists>c. (i, c) \<in> set [(1, [97, 98, 99]), (2, [98, 99, 100])] \<and>
      satisfies [[[98, 99, 100]]] (doc_trigrams (\<lambda>c. c) c)}"
  by (rule candidates_exact_for_every_schedule) (simp_all add: rows_ok_def i64_max_def)

end
