(* ===== verification/Trigram.thy ===== *)
theory Trigram
  imports TrigramIndex
begin

text \<open>
  The regex prefilter (\<open>trigram.rs\<close>): from the literals every match of a regular expression
  must contain to OR-of-AND groups of trigrams.

  The crates \<open>regex-syntax\<close> and \<open>unicode-segmentation\<close> are not part of the repository; what
  the code calls of them is the record \<open>regex_lib\<close>, an argument of every definition. So are the
  Unicode tables behind \<open>str::to_lowercase\<close> and \<open>str::from_utf8\<close>.
\<close>

section \<open>The libraries the code calls\<close>

datatype extract_kind = ExPrefix | ExSuffix

record 'h regex_lib =
  rl_parse :: "scalars \<Rightarrow> 'h option"
  rl_concat :: "'h \<Rightarrow> 'h list option"
  rl_rep_min :: "'h \<Rightarrow> nat option"
  rl_extract :: "extract_kind \<Rightarrow> nat \<Rightarrow> 'h \<Rightarrow> byte list list option"
  rl_from_utf8 :: "byte list \<Rightarrow> scalars option"
  rl_lower :: "scalars \<Rightarrow> scalars"
  rl_graphemes :: "scalars \<Rightarrow> scalars list"

section \<open>Constants\<close>

definition min_trigram_chars :: nat where "min_trigram_chars = 3"
definition class_limit :: nat where "class_limit = 10"

type_synonym groups = "scalars list list"

section \<open>The table of lowercase forms FTS5 does not fold\<close>

definition fts5_unfolded_lowercase :: "(nat \<times> nat) list" where
  "fts5_unfolded_lowercase =
    [(0x019b, 0x019b), (0x025c, 0x025c), (0x0261, 0x0261), (0x0264, 0x0264), (0x026a, 0x026a),
     (0x026c, 0x026c), (0x0282, 0x0282), (0x0287, 0x0287), (0x029d, 0x029e), (0x03f3, 0x03f3),
     (0x0529, 0x0529), (0x052b, 0x052b), (0x052d, 0x052d), (0x052f, 0x052f), (0x10d0, 0x10fa),
     (0x10fd, 0x10ff), (0x13f8, 0x13fd), (0x1c8a, 0x1c8a), (0x1d8e, 0x1d8e), (0x2c5f, 0x2c5f),
     (0xa699, 0xa699), (0xa69b, 0xa69b), (0xa794, 0xa794), (0xa797, 0xa797), (0xa799, 0xa799),
     (0xa79b, 0xa79b), (0xa79d, 0xa79d), (0xa79f, 0xa79f), (0xa7b5, 0xa7b5), (0xa7b7, 0xa7b7),
     (0xa7b9, 0xa7b9), (0xa7bb, 0xa7bb), (0xa7bd, 0xa7bd), (0xa7bf, 0xa7bf), (0xa7c1, 0xa7c1),
     (0xa7c3, 0xa7c3), (0xa7c8, 0xa7c8), (0xa7ca, 0xa7ca), (0xa7cd, 0xa7cd), (0xa7cf, 0xa7cf),
     (0xa7d1, 0xa7d1), (0xa7d3, 0xa7d3), (0xa7d5, 0xa7d5), (0xa7d7, 0xa7d7), (0xa7d9, 0xa7d9),
     (0xa7db, 0xa7db), (0xa7f6, 0xa7f6), (0xab53, 0xab53), (0xab70, 0xabbf), (0x104d8,
     0x104fb), (0x10597, 0x105a1), (0x105a3, 0x105b1), (0x105b3, 0x105b9), (0x105bb, 0x105bc),
     (0x10cc0, 0x10cf2), (0x10d70, 0x10d85), (0x118c0, 0x118df), (0x16e60, 0x16e7f), (0x16ebb,
     0x16ed3), (0x1e922, 0x1e943)]"

datatype cmp = CmpLess | CmpEqual | CmpGreater

definition range_cmp :: "nat \<Rightarrow> nat \<times> nat \<Rightarrow> cmp" where
  "range_cmp code r =
     (if snd r < code then CmpLess else if fst r > code then CmpGreater else CmpEqual)"

text \<open>
  \<open>slice::binary_search_by\<close> of the Rust standard library, reduced to whether it returns
  \<open>Ok\<close>: halve the window \<open>[base, base + size)\<close>, then compare the one element left.
\<close>

function binary_search_loop :: "('a \<Rightarrow> cmp) \<Rightarrow> 'a list \<Rightarrow> nat \<Rightarrow> nat \<Rightarrow> bool" where
  "binary_search_loop f xs base n =
     (if 1 < n then
        (let half = n div 2; mid = base + half
         in binary_search_loop f xs (if f (xs ! mid) = CmpGreater then base else mid) (n - half))
      else f (xs ! base) = CmpEqual)"
  by pat_completeness auto
termination
  by (relation "measure (\<lambda>(f, xs, base, n). n)") auto

declare binary_search_loop.simps [simp del]

definition binary_search_ok :: "('a \<Rightarrow> cmp) \<Rightarrow> 'a list \<Rightarrow> bool" where
  "binary_search_ok f xs = (if xs = [] then False else binary_search_loop f xs 0 (length xs))"

definition fts5_leaves_uppercase_unfolded :: "scalar \<Rightarrow> bool" where
  "fts5_leaves_uppercase_unfolded code = binary_search_ok (range_cmp code) fts5_unfolded_lowercase"

section \<open>One literal\<close>

definition mark_chars :: "'h regex_lib \<Rightarrow> scalars \<Rightarrow> (scalar \<times> bool) list" where
  "mark_chars lib lowercase =
     concat (map (\<lambda>g. let expands = length g > 1
                      in map (\<lambda>c. (c, \<not> expands \<and> \<not> fts5_leaves_uppercase_unfolded c)) g)
       (rl_graphemes lib lowercase))"

definition mark_first :: "(scalar \<times> bool) list \<Rightarrow> (scalar \<times> bool) list" where
  "mark_first cs =
     (case cs of [] \<Rightarrow> [] | (c, ok) # rest \<Rightarrow> (c, if c = 0x307 then False else ok) # rest)"

type_synonym trigram_acc = "scalars list \<times> (scalars \<times> scalars) option"

text \<open>The loop over \<open>run.windows(3)\<close>; \<open>ends\<close> is \<open>ends_literal\<close>.\<close>

fun push_windows :: "bool \<Rightarrow> scalars list \<Rightarrow> trigram_acc \<Rightarrow> trigram_acc" where
  "push_windows ends [] acc = acc"
| "push_windows ends [w] (req, alts) =
     (if ends \<and> w ! 2 = of_char CHR ''i'' then (req, Some (w, [w ! 0, w ! 1, 0x130]))
      else (req @ [w], alts))"
| "push_windows ends (w # v # ws) (req, alts) = push_windows ends (v # ws) (req @ [w], alts)"

function literal_loop :: "(scalar \<times> bool) list \<Rightarrow> trigram_acc \<Rightarrow> trigram_acc" where
  "literal_loop [] acc = acc"
| "literal_loop ((c, ok) # rest) acc =
     (if \<not> ok then literal_loop rest acc
      else
        let run = map fst (takeWhile snd ((c, ok) # rest));
            remaining = dropWhile snd ((c, ok) # rest)
        in if length run < min_trigram_chars then literal_loop remaining acc
           else literal_loop remaining
                  (push_windows (remaining = []) (windows min_trigram_chars run) acc))"
  by pat_completeness auto
termination
  by (relation "measure (\<lambda>(cs, acc). length cs)") (auto simp: le_imp_less_Suc length_dropWhile_le)

definition literal_to_trigrams :: "'h regex_lib \<Rightarrow> scalars \<Rightarrow> groups option" where
  "literal_to_trigrams lib text =
     (let (required, final_alternatives) =
        literal_loop (mark_first (mark_chars lib (rl_lower lib text))) ([], None)
      in case final_alternatives of
           Some (plain, dotted) \<Rightarrow>
             Some [sort_dedup (required @ [plain]), sort_dedup (required @ [dotted])]
         | None \<Rightarrow> if required = [] then None else Some [sort_dedup required])"

section \<open>Literal sequences and patterns\<close>

text \<open>The loop of \<open>seq_to_groups\<close>; \<open>None\<close> is any of its early returns.\<close>

fun seq_loop :: "'h regex_lib \<Rightarrow> byte list list \<Rightarrow> nat \<Rightarrow> groups \<Rightarrow> (nat \<times> groups) option" where
  "seq_loop lib [] min_len gs = Some (min_len, gs)"
| "seq_loop lib (l # ls) min_len gs =
     (case rl_from_utf8 lib l of
        None \<Rightarrow> None
      | Some text \<Rightarrow>
          let len = length text
          in if len < min_trigram_chars then None
             else (case literal_to_trigrams lib text of
                     None \<Rightarrow> None
                   | Some g \<Rightarrow> seq_loop lib ls (min min_len len) (gs @ g)))"

definition seq_to_groups :: "'h regex_lib \<Rightarrow> byte list list option \<Rightarrow> (nat \<times> groups) option" where
  "seq_to_groups lib seq =
     (case seq of
        None \<Rightarrow> None
      | Some literals \<Rightarrow>
          if literals = [] then None
          else map_option (\<lambda>(min_len, gs). (min_len, sort_dedup gs))
                 (seq_loop lib literals usize_max []))"

definition extract_groups :: "'h regex_lib \<Rightarrow> 'h \<Rightarrow> extract_kind \<Rightarrow> (nat \<times> groups) option" where
  "extract_groups lib h kind = seq_to_groups lib (rl_extract lib kind class_limit h)"

definition consider_more_selective ::
    "(nat \<times> groups) option \<Rightarrow> (nat \<times> groups) option \<Rightarrow> (nat \<times> groups) option" where
  "consider_more_selective best candidate =
     (case candidate of
        None \<Rightarrow> best
      | Some (min_len, gs) \<Rightarrow>
          (case best of
             None \<Rightarrow> Some (min_len, gs)
           | Some (best_len, _) \<Rightarrow> if min_len > best_len then Some (min_len, gs) else best))"

fun consider_elements ::
    "'h regex_lib \<Rightarrow> 'h list \<Rightarrow> (nat \<times> groups) option \<Rightarrow> (nat \<times> groups) option" where
  "consider_elements lib [] best = best"
| "consider_elements lib (e # es) best =
     (if rl_rep_min lib e = Some 0 then consider_elements lib es best
      else consider_elements lib es
             (consider_more_selective best (extract_groups lib e ExPrefix)))"

definition best_groups :: "'h regex_lib \<Rightarrow> scalars \<Rightarrow> (nat \<times> groups) option" where
  "best_groups lib pattern =
     (case rl_parse lib pattern of
        None \<Rightarrow> None
      | Some h \<Rightarrow>
          let best = foldl (\<lambda>b kind. consider_more_selective b (extract_groups lib h kind))
                       None [ExPrefix, ExSuffix]
          in (case rl_concat lib h of
                Some elements \<Rightarrow> consider_elements lib elements best
              | None \<Rightarrow> best))"


section \<open>Rendering as an FTS5 query\<close>

definition quote_trigram :: "scalars \<Rightarrow> scalars" where
  "quote_trigram tg =
     lit [CHR 0x22] @ concat (map (\<lambda>c. if c = 0x22 then [0x22, 0x22] else [c]) tg) @ lit [CHR 0x22]"

definition render_group :: "scalars list \<Rightarrow> scalars" where
  "render_group g = join (lit '' AND '') (map quote_trigram g)"

definition parenthesize :: "scalars \<Rightarrow> scalars" where
  "parenthesize q = lit ''('' @ q @ lit '')''"

definition render_prefilter_groups :: "groups \<Rightarrow> scalars" where
  "render_prefilter_groups gs =
     (case gs of
        [g] \<Rightarrow> render_group g
      | _ \<Rightarrow> join (lit '' OR '') (map (\<lambda>g. parenthesize (render_group g)) gs))"

definition trigram_prefilter :: "'h regex_lib \<Rightarrow> scalars \<Rightarrow> scalars option" where
  "trigram_prefilter lib pattern =
     map_option (\<lambda>(_, gs). render_prefilter_groups gs) (best_groups lib pattern)"

fun prefilter_terms :: "'h regex_lib \<Rightarrow> scalars list \<Rightarrow> scalars list \<Rightarrow> scalars list option" where
  "prefilter_terms lib [] terms = Some terms"
| "prefilter_terms lib (p # ps) terms =
     (case trigram_prefilter lib p of
        None \<Rightarrow> None
      | Some q \<Rightarrow> prefilter_terms lib ps (terms @ [parenthesize q]))"

definition trigram_prefilter_all :: "'h regex_lib \<Rightarrow> scalars list \<Rightarrow> scalars option" where
  "trigram_prefilter_all lib patterns =
     (case prefilter_terms lib patterns [] of
        None \<Rightarrow> None
      | Some terms \<Rightarrow> if terms = [] then None else Some (join (lit '' OR '') terms))"

section \<open>The binary search finds exactly the members\<close>

definition cmp_monotone :: "('a \<Rightarrow> cmp) \<Rightarrow> 'a list \<Rightarrow> bool" where
  "cmp_monotone f xs \<longleftrightarrow>
     sorted_wrt (\<lambda>x y. (f x = CmpGreater \<longrightarrow> f y = CmpGreater) \<and> (f y = CmpLess \<longrightarrow> f x = CmpLess)) xs"

lemma cmp_monotone_nth:
  assumes "cmp_monotone f xs" "i < j" "j < length xs"
  shows "f (xs ! i) = CmpGreater \<Longrightarrow> f (xs ! j) = CmpGreater"
    and "f (xs ! j) = CmpLess \<Longrightarrow> f (xs ! i) = CmpLess"
  using assms by (auto simp: cmp_monotone_def sorted_wrt_iff_nth_less)

lemma binary_search_loop_iff:
  assumes "cmp_monotone f xs" "0 < n" "base + n \<le> length xs"
  shows "binary_search_loop f xs base n \<longleftrightarrow>
    (\<exists>k. base \<le> k \<and> k < base + n \<and> f (xs ! k) = CmpEqual)"
  using assms
proof (induction f xs base n rule: binary_search_loop.induct)
  case (1 f xs base n)
  show ?case
  proof (cases "1 < n")
    case False
    then have "n = 1" using "1.prems" by simp
    then have "(\<exists>k. base \<le> k \<and> k < base + n \<and> f (xs ! k) = CmpEqual) \<longleftrightarrow> f (xs ! base) = CmpEqual"
      by (auto simp: le_less_Suc_eq)
    then show ?thesis
      using False binary_search_loop.simps [of f xs base n] by simp
  next
    case True
    define half where "half = n div 2"
    define mid where "mid = base + half"
    define base' where "base' = (if f (xs ! mid) = CmpGreater then base else mid)"
    have half: "0 < half" "half \<le> n - half" "half < n" using True by (auto simp: half_def)
    have mid: "mid < length xs" using half "1.prems" by (simp add: mid_def)
    have step: "binary_search_loop f xs base n = binary_search_loop f xs base' (n - half)"
      using True binary_search_loop.simps [of f xs base n]
      by (simp add: Let_def half_def mid_def base'_def)
    have IH: "binary_search_loop f xs base' (n - half) \<longleftrightarrow>
        (\<exists>k. base' \<le> k \<and> k < base' + (n - half) \<and> f (xs ! k) = CmpEqual)"
      using "1.IH" [OF True half_def mid_def] "1.prems" half
      unfolding base'_def [symmetric] by (auto simp: base'_def mid_def)
    have inwards: "\<exists>k. base' \<le> k \<and> k < base' + (n - half) \<and> f (xs ! k) = CmpEqual"
      if k: "base \<le> k" "k < base + n" "f (xs ! k) = CmpEqual" for k
    proof (cases "f (xs ! mid) = CmpGreater")
      case True
      have "\<not> mid \<le> k"
        using cmp_monotone_nth(1) [OF "1.prems"(1), of mid k] True k "1.prems"(3)
        by (cases "mid = k") auto
      then have "k < base + (n - half)" using half by (simp add: mid_def)
      then show ?thesis using k True by (auto simp: base'_def)
    next
      case False
      show ?thesis
      proof (cases "f (xs ! mid) = CmpEqual")
        case True
        then show ?thesis using False half by (auto simp: base'_def intro!: exI [of _ mid])
      next
        case neq: False
        then have less: "f (xs ! mid) = CmpLess" using False by (cases "f (xs ! mid)") auto
        have "mid \<le> k"
          using cmp_monotone_nth(2) [OF "1.prems"(1), of k mid] less k mid
          by (cases "k < mid") auto
        then show ?thesis using k False by (auto simp: base'_def mid_def)
      qed
    qed
    have outwards: "base \<le> k \<and> k < base + n"
      if "base' \<le> k" "k < base' + (n - half)" for k
      using that half by (auto simp: base'_def mid_def split: if_splits)
    show ?thesis unfolding step IH using inwards outwards by blast
  qed
qed

lemma binary_search_ok_iff:
  assumes "cmp_monotone f xs"
  shows "binary_search_ok f xs \<longleftrightarrow> (\<exists>x \<in> set xs. f x = CmpEqual)"
proof (cases "xs = []")
  case True
  then show ?thesis by (simp add: binary_search_ok_def)
next
  case False
  then have "binary_search_ok f xs \<longleftrightarrow> (\<exists>k < length xs. f (xs ! k) = CmpEqual)"
    using binary_search_loop_iff [OF assms, of "length xs" 0] by (simp add: binary_search_ok_def)
  then show ?thesis by (metis in_set_conv_nth)
qed

lemma range_cmp_monotone:
  assumes "sorted_wrt (\<lambda>a b. snd a < fst b) xs" "list_all (\<lambda>r. fst r \<le> snd r) xs"
  shows "cmp_monotone (range_cmp code) xs"
  unfolding cmp_monotone_def
  by (rule sorted_wrt_mono_rel [OF _ assms(1)])
    (use assms(2) in \<open>fastforce simp: range_cmp_def list_all_iff split: if_splits\<close>)

lemma fts5_table_sorted:
  "sorted_wrt (\<lambda>a b. snd a < fst b) fts5_unfolded_lowercase"
  "list_all (\<lambda>r. fst r \<le> snd r) fts5_unfolded_lowercase"
proof -
  define P :: "nat \<times> nat \<Rightarrow> nat \<times> nat \<Rightarrow> bool"
    where "P = (\<lambda>a b. snd a < fst b \<and> fst b \<le> snd b)"
  have "transp P" by (auto simp: P_def transp_def)
  moreover have "successively P fts5_unfolded_lowercase"
    by (simp add: fts5_unfolded_lowercase_def P_def)
  ultimately have "sorted_wrt P fts5_unfolded_lowercase"
    by (simp add: successively_conv_sorted_wrt)
  then show "sorted_wrt (\<lambda>a b. snd a < fst b) fts5_unfolded_lowercase"
    by (rule sorted_wrt_mono_rel [rotated]) (simp add: P_def)
  show "list_all (\<lambda>r. fst r \<le> snd r) fts5_unfolded_lowercase"
    by (simp add: fts5_unfolded_lowercase_def)
qed

lemma range_cmp_equal: "range_cmp code r = CmpEqual \<longleftrightarrow> fst r \<le> code \<and> code \<le> snd r"
  by (auto simp: range_cmp_def)

lemma fts5_lookup_iff:
  "fts5_leaves_uppercase_unfolded code \<longleftrightarrow>
     (\<exists>r \<in> set fts5_unfolded_lowercase. fst r \<le> code \<and> code \<le> snd r)"
  using binary_search_ok_iff [OF range_cmp_monotone [OF fts5_table_sorted]]
  by (simp add: fts5_leaves_uppercase_unfolded_def range_cmp_equal)

section \<open>Windows of a literal\<close>

lemma push_windows_shape:
  assumes "push_windows ends ws (req, alts) = (req', alts')"
  shows "\<exists>new. req' = req @ new \<and> set new \<subseteq> set ws \<and>
    (alts' = alts \<and> set new = set ws \<or>
     (\<exists>w. w \<in> set ws \<and> alts' = Some (w, [w ! 0, w ! 1, 0x130]) \<and> set ws = insert w (set new)))"
  using assms
proof (induction ends ws "(req, alts)" arbitrary: req alts rule: push_windows.induct)
  case (3 ends w v ws req alts)
  then obtain new where "req' = (req @ [w]) @ new" "set new \<subseteq> set (v # ws)"
    "alts' = alts \<and> set new = set (v # ws) \<or>
     (\<exists>u. u \<in> set (v # ws) \<and> alts' = Some (u, [u ! 0, u ! 1, 0x130]) \<and>
       set (v # ws) = insert u (set new))"
    by force
  then show ?case by (intro exI [of _ "w # new"]) auto
qed (auto split: if_splits)

definition trigram_of :: "scalars \<Rightarrow> scalars \<Rightarrow> bool" where
  "trigram_of text w \<longleftrightarrow> length w = 3 \<and> sublist w text"

lemma trigram_of_mono: "trigram_of t w \<Longrightarrow> sublist t u \<Longrightarrow> trigram_of u w"
  using sublist_order.order_trans by (auto simp: trigram_of_def)

lemma run_parts:
  "sublist (map fst (takeWhile snd cs)) (map fst cs)"
  "sublist (map fst (dropWhile snd cs)) (map fst cs)"
proof -
  have "map fst cs = map fst (takeWhile snd cs) @ map fst (dropWhile snd cs)"
    by (simp flip: map_append)
  then show "sublist (map fst (takeWhile snd cs)) (map fst cs)"
    "sublist (map fst (dropWhile snd cs)) (map fst cs)"
    by (metis sublist_append_rightI, metis sublist_append_leftI)
qed

text \<open>Everything the loop requires is a trigram of the literal.\<close>

lemma literal_loop_trigrams:
  assumes "literal_loop cs (req, alts) = (req', alts')"
  shows "(\<forall>w \<in> set req'. w \<in> set req \<or> trigram_of (map fst cs) w) \<and>
    (alts' = alts \<or> (\<exists>p d. alts' = Some (p, d) \<and> trigram_of (map fst cs) p \<and> length d = 3))"
  using assms
proof (induction "length cs" arbitrary: cs req alts rule: less_induct)
  case less
  show ?case
  proof (cases cs)
    case Nil
    then show ?thesis using less.prems by simp
  next
    case (Cons x rest)
    obtain c ok where x: "x = (c, ok)" by (cases x)
    show ?thesis
    proof (cases ok)
      case False
      have "sublist (map fst rest) (map fst cs)" by (simp add: Cons sublist_Cons_right)
      then show ?thesis
        using less.hyps [of rest req alts] less.prems False Cons x trigram_of_mono
        by fastforce
    next
      case True
      define run where "run = map fst (takeWhile snd cs)"
      define rem where "rem = dropWhile snd cs"
      have len: "length rem < length cs"
        using True Cons x by (simp add: rem_def le_imp_less_Suc length_dropWhile_le)
      have sub: "sublist run (map fst cs)" "sublist (map fst rem) (map fst cs)"
        unfolding run_def rem_def by (rule run_parts)+
      obtain req1 alts1 where acc1: "(if length run < min_trigram_chars then (req, alts)
          else push_windows (rem = []) (windows min_trigram_chars run) (req, alts)) = (req1, alts1)"
        by (metis surj_pair)
      have eq: "literal_loop rem (req1, alts1) = (req', alts')"
        using less.prems True acc1 unfolding Cons x
        by (simp add: run_def rem_def Cons x Let_def split: if_splits)
      have win: "trigram_of (map fst cs) w" if "w \<in> set (windows min_trigram_chars run)" for w
        using that sub(1) sublist_order.order_trans
        by (auto simp: min_trigram_chars_def set_windows trigram_of_def)
      have one: "(\<forall>w \<in> set req1. w \<in> set req \<or> trigram_of (map fst cs) w) \<and>
          (alts1 = alts \<or> (\<exists>p d. alts1 = Some (p, d) \<and> trigram_of (map fst cs) p \<and> length d = 3))"
      proof (cases "length run < min_trigram_chars")
        case True
        then show ?thesis using acc1 by simp
      next
        case False
        then have "push_windows (rem = []) (windows min_trigram_chars run) (req, alts) = (req1, alts1)"
          using acc1 by simp
        from push_windows_shape [OF this] show ?thesis using win by fastforce
      qed
      moreover have "(\<forall>w \<in> set req'. w \<in> set req1 \<or> trigram_of (map fst rem) w) \<and>
          (alts' = alts1 \<or>
           (\<exists>p d. alts' = Some (p, d) \<and> trigram_of (map fst rem) p \<and> length d = 3))"
        using less.hyps [OF len eq] .
      ultimately show ?thesis using trigram_of_mono [OF _ sub(2)] by metis
    qed
  qed
qed




lemma literal_groups_wf:
  assumes "literal_to_trigrams lib text = Some gs" "g \<in> set gs"
  shows "g \<noteq> [] \<and> sorted_wrt (<) g \<and> (\<forall>tg \<in> set g. length tg = 3)"
proof -
  obtain req alts where
    loop: "literal_loop (mark_first (mark_chars lib (rl_lower lib text))) ([], None) = (req, alts)"
    by (metis surj_pair)
  have len: "\<forall>w \<in> set req. length w = 3"
    "\<And>p d. alts = Some (p, d) \<Longrightarrow> length p = 3 \<and> length d = 3"
    using literal_loop_trigrams [OF loop] by (auto simp: trigram_of_def)
  obtain xs where g: "g = sort_dedup xs" "xs \<noteq> []" "\<forall>w \<in> set xs. length w = 3"
    using assms loop len by (fastforce simp: literal_to_trigrams_def split: option.splits if_splits)
  then show ?thesis using sort_dedup_strict [of xs] by auto
qed


section \<open>Patterns\<close>












text \<open>The longest minimum literal wins.\<close>

definition at_least :: "(nat \<times> groups) option \<Rightarrow> (nat \<times> groups) option \<Rightarrow> bool" where
  "at_least b c \<longleftrightarrow> (\<forall>n gs. c = Some (n, gs) \<longrightarrow> (\<exists>k hs. b = Some (k, hs) \<and> n \<le> k))"

lemma at_least_trans: "at_least a b \<Longrightarrow> at_least b c \<Longrightarrow> at_least a c"
  unfolding at_least_def by fastforce

lemma consider_at_least:
  "at_least (consider_more_selective b c) b" "at_least (consider_more_selective b c) c"
  by (auto simp: at_least_def consider_more_selective_def split: option.splits)

lemma consider_elements_at_least:
  "at_least (consider_elements lib es b) b"
  "e \<in> set es \<Longrightarrow> rl_rep_min lib e \<noteq> Some 0 \<Longrightarrow>
    at_least (consider_elements lib es b) (extract_groups lib e ExPrefix)"
proof -
  have base: "at_least (consider_elements lib es b) b" for es b
  proof (induction es arbitrary: b)
    case Nil
    then show ?case by (auto simp: at_least_def)
  next
    case (Cons e es)
    then show ?case using at_least_trans consider_at_least(1) by fastforce
  qed
  show "at_least (consider_elements lib es b) b" by (rule base)
  show "e \<in> set es \<Longrightarrow> rl_rep_min lib e \<noteq> Some 0 \<Longrightarrow>
    at_least (consider_elements lib es b) (extract_groups lib e ExPrefix)"
  proof (induction es arbitrary: b)
    case (Cons d es)
    then show ?case
      using at_least_trans [OF base consider_at_least(2)] by auto
  qed simp
qed


section \<open>Properties\<close>


text \<open>A library for the witness: patterns are literal text, lowercased by identity.\<close>

definition literal_lib :: "scalars regex_lib" where
  "literal_lib =
     \<lparr>rl_parse = Some, rl_concat = (\<lambda>_. None), rl_rep_min = (\<lambda>_. None),
      rl_extract = (\<lambda>kind limit h. Some [map word_of_nat h]),
      rl_from_utf8 = (\<lambda>bs. Some (map unat bs)),
      rl_lower = (\<lambda>s. s), rl_graphemes = map (\<lambda>c. [c])\<rparr>"




text \<open>
  Of all the literal sets the code considers (prefix and suffix of the whole pattern, prefix
  of each required element) it keeps one with the longest minimum literal, and it gives up only
  if none of them is usable.
\<close>

theorem best_groups_most_selective:
  assumes "rl_parse lib pattern = Some h"
  shows "(\<forall>kind. at_least (best_groups lib pattern) (extract_groups lib h kind)) \<and>
    (\<forall>es e. rl_concat lib h = Some es \<and> e \<in> set es \<and> rl_rep_min lib e \<noteq> Some 0 \<longrightarrow>
      at_least (best_groups lib pattern) (extract_groups lib e ExPrefix))"
proof -
  define b where "b = foldl (\<lambda>b kind. consider_more_selective b (extract_groups lib h kind))
    None [ExPrefix, ExSuffix]"
  have b: "at_least b (extract_groups lib h kind)" for kind
  proof (cases kind)
    case ExPrefix
    show ?thesis
      unfolding b_def ExPrefix foldl_Cons foldl_Nil
      by (rule at_least_trans [OF consider_at_least(1) consider_at_least(2)])
  next
    case ExSuffix
    show ?thesis unfolding b_def ExSuffix foldl_Cons foldl_Nil by (rule consider_at_least(2))
  qed
  have bg: "best_groups lib pattern =
      (case rl_concat lib h of Some elements \<Rightarrow> consider_elements lib elements b | None \<Rightarrow> b)"
    using assms unfolding best_groups_def b_def Let_def by simp
  have "at_least (best_groups lib pattern) (extract_groups lib h kind)" for kind
    unfolding bg
    by (simp add: b at_least_trans [OF consider_elements_at_least(1) b] split: option.splits)
  moreover have "at_least (best_groups lib pattern) (extract_groups lib e ExPrefix)"
    if "rl_concat lib h = Some es" "e \<in> set es" "rl_rep_min lib e \<noteq> Some 0" for es e
    unfolding bg using consider_elements_at_least(2) that by simp
  ultimately show ?thesis by blast
qed

theorem best_groups_most_selective_witness:
  "at_least (best_groups literal_lib [97, 98, 99]) (extract_groups literal_lib [97, 98, 99] ExPrefix)"
  by (rule best_groups_most_selective [THEN conjunct1, THEN spec]) (simp add: literal_lib_def)

text \<open>
  The stdlib binary search over the table of lowercase forms FTS5 leaves unfolded answers
  exactly membership in one of its sixty ranges.
\<close>

theorem unfolded_lowercase_lookup_correct:
  "fts5_leaves_uppercase_unfolded code \<longleftrightarrow>
     (\<exists>r \<in> set fts5_unfolded_lowercase. fst r \<le> code \<and> code \<le> snd r)"
  by (rule fts5_lookup_iff)

end
