(* ===== verification/ContentSearch.thy ===== *)
theory ContentSearch
  imports Trigram
begin

text \<open>
  Content search over the compatibility index (\<open>db.rs\<close>): when the base of the trigram index is
  built, which rows a prefiltered query verifies, and the answer it returns. This is where the
  prefilter (\<open>Trigram\<close>) and the index (\<open>TrigramIndex\<close>) meet the message table.

  The message table is a list of rows; the parallel build reads it in any Rayon schedule. The
  writer lock is an input: \<open>ev_lock_busy\<close> says that another process holds it.
\<close>

section \<open>The index over the message table\<close>













section \<open>The index follows the table\<close>
















section \<open>The answer is complete\<close>













end
