(* ===== verification/TailParse.thy ===== *)
theory TailParse
  imports Prelude
begin

text \<open>
  Incremental tail parse of append-only session logs (\<open>tail.rs\<close>).

  A file is its byte list; \<open>None\<close> is a path that cannot be opened. The provider's line parser
  is the argument \<open>parse_slice\<close>, as in the code. \<open>should_cancel\<close> is a closure that may
  answer differently each time: it is a function of the number of polls so far, and every
  operation that polls returns the next poll number.
\<close>

unbundle bit_operations_syntax

section \<open>Constants\<close>

definition fingerprint_len :: nat where "fingerprint_len = 4096"
definition newline :: byte where "newline = 10"

datatype tail_error =
    OpenFailed
  | UnexpectedEof
  | SlicePanic
  | ParseFailed string
  | NonCancellingTokenCancelled

section \<open>Head fingerprint\<close>

definition fnv1a :: "byte list \<Rightarrow> u64" where
  "fnv1a bytes = foldl (\<lambda>h b. (h XOR ucast b) * 0x100000001b3) 0xcbf29ce484222325 bytes"

definition hex_digit :: "nat \<Rightarrow> char" where
  "hex_digit d = (if d < 10 then char_of (48 + d) else char_of (87 + d))"

definition hex16 :: "u64 \<Rightarrow> string" where
  "hex16 h = map (\<lambda>i. hex_digit (unat (drop_bit (4 * i) h AND 0xf))) (rev [0..<16])"

definition fnv1a_hex :: "byte list \<Rightarrow> string" where
  "fnv1a_hex bytes = hex16 (fnv1a bytes)"

text \<open>
  \<open>read_up_to\<close>: a read may return fewer bytes than asked for, but at least one while bytes are
  left. \<open>short k\<close> is the operating system's limit on the read made at position \<open>k\<close>.
\<close>

function read_up_to :: "(nat \<Rightarrow> nat) \<Rightarrow> byte list \<Rightarrow> nat \<Rightarrow> byte list \<Rightarrow> byte list" where
  "read_up_to short content len buf =
     (let filled = length buf in
      if filled < len then
        let n = min (min (len - filled) (length content - filled)) (max 1 (short filled))
        in if n = 0 then buf
           else read_up_to short content len (buf @ take n (drop filled content))
      else buf)"
  by pat_completeness auto
termination
  by (relation "measure (\<lambda>(short, content, len, buf). len - length buf)") auto

declare read_up_to.simps [simp del]

definition prefix_fingerprint :: "(nat \<Rightarrow> nat) \<Rightarrow> byte list option \<Rightarrow> tail_error + string" where
  "prefix_fingerprint short file =
     res_bind (ok_or OpenFailed file) (\<lambda>content.
       let buf = read_up_to short content fingerprint_len []; n = length buf
       in Inr (decimal n @ '':'' @ fnv1a_hex buf))"

definition fingerprint_matches ::
    "(nat \<Rightarrow> nat) \<Rightarrow> byte list option \<Rightarrow> string \<Rightarrow> tail_error + bool" where
  "fingerprint_matches short file stored =
     (case split_once (CHR '':'') stored of
        None \<Rightarrow> Inr False
      | Some (len_str, hash) \<Rightarrow>
          (case parse_unsigned (2 ^ 64 - 1) len_str of
             None \<Rightarrow> Inr False
           | Some len \<Rightarrow>
               res_bind (ok_or OpenFailed file) (\<lambda>content.
                 let buf = read_up_to short content len []; n = length buf
                 in if n < len then Inr False else Inr (fnv1a_hex (take len buf) = hash))))"

section \<open>The complete-line boundary\<close>

text \<open>\<open>slice.iter().rposition(|b| b == x)\<close>.\<close>

definition rposition :: "'a \<Rightarrow> 'a list \<Rightarrow> nat option" where
  "rposition x xs =
     (let tl = dropWhile (\<lambda>y. y \<noteq> x) (rev xs) in if tl = [] then None else Some (length tl - 1))"

text \<open>
  The backward scan in 8 KiB chunks. The result is \<open>None\<close> when cancelled, and the number of
  polls of the token.
\<close>

function offset_loop :: "byte list \<Rightarrow> (nat \<Rightarrow> bool) \<Rightarrow> nat \<Rightarrow> nat \<Rightarrow> int option \<times> nat" where
  "offset_loop content cancel polls pos =
     (if pos = 0 then (Some 0, polls)
      else if cancel polls then (None, Suc polls)
      else
        let chunk = min pos 8192; pos' = pos - chunk; slice = take chunk (drop pos' content)
        in (case rposition newline slice of
              Some rel \<Rightarrow> (Some (int (pos' + rel + 1)), Suc polls)
            | None \<Rightarrow> offset_loop content cancel (Suc polls) pos'))"
  by pat_completeness auto
termination
  by (relation "measure (\<lambda>(content, cancel, polls, pos). pos)") auto

declare offset_loop.simps [simp del]

definition complete_prefix_offset_until ::
    "byte list \<Rightarrow> (nat \<Rightarrow> bool) \<Rightarrow> nat \<Rightarrow> int option \<times> nat" where
  "complete_prefix_offset_until content cancel polls =
     (if length content = 0 then (Some 0, polls)
      else offset_loop content cancel polls (length content))"

definition complete_prefix_offset :: "byte list option \<Rightarrow> tail_error + int" where
  "complete_prefix_offset file =
     res_bind (ok_or OpenFailed file) (\<lambda>content.
       ok_or NonCancellingTokenCancelled (fst (complete_prefix_offset_until content (\<lambda>_. False) 0)))"

section \<open>The tail parse\<close>













section \<open>Short reads do not matter\<close>

lemma read_up_to_take:
  assumes "buf = take (length buf) content"
  shows "read_up_to short content len buf = take (max len (length buf)) content"
  using assms
proof (induction short content len buf rule: read_up_to.induct)
  case (1 short content len buf)
  define filled where "filled = length buf"
  define n where "n = min (min (len - filled) (length content - filled)) (max 1 (short filled))"
  have eq: "read_up_to short content len buf =
      (if filled < len then
         if n = 0 then buf else read_up_to short content len (buf @ take n (drop filled content))
       else buf)"
    unfolding n_def filled_def by (subst read_up_to.simps) (simp only: Let_def)
  have fl: "filled \<le> length content" using "1.prems" by (metis filled_def length_take min.cobounded1)
  show ?case
  proof (cases "filled < len")
    case False
    then show ?thesis
      using "1.prems" by (subst read_up_to.simps) (simp add: filled_def max_absorb2)
  next
    case True
    show ?thesis
    proof (cases "n = 0")
      case n0: True
      then have "length content \<le> filled" using True by (auto simp: n_def)
      then have "buf = content" using "1.prems" fl by (simp add: filled_def)
      moreover have "read_up_to short content len buf = buf"
        using True n0 eq by simp
      ultimately show ?thesis by simp
    next
      case False
      have ext: "buf @ take n (drop filled content) = take (filled + n) content"
      proof -
        have "take filled content = buf" unfolding filled_def by (rule "1.prems" [symmetric])
        then show ?thesis by (metis take_add)
      qed
      have len': "length (buf @ take n (drop filled content)) = filled + n"
        unfolding filled_def n_def by simp
      have "read_up_to short content len buf =
          read_up_to short content len (buf @ take n (drop filled content))"
        using True False eq by simp
      also have "\<dots> = take (max len (filled + n)) content"
        using "1.IH" [OF filled_def True n_def False] len' ext by simp
      also have "max len (filled + n) = max len filled" using True by (simp add: n_def)
      finally show ?thesis by (simp add: filled_def)
    qed
  qed
qed

lemma read_up_to_eq [simp]: "read_up_to short content len [] = take len content"
  using read_up_to_take [of "[]"] by simp


section \<open>The boundary scan\<close>

definition is_boundary :: "byte list \<Rightarrow> nat \<Rightarrow> bool" where
  "is_boundary content b \<longleftrightarrow>
     b \<le> length content \<and> newline \<notin> set (drop b content) \<and>
     (b = 0 \<or> content ! (b - 1) = newline)"

lemma rposition_None: "rposition x xs = None \<longleftrightarrow> x \<notin> set xs"
  by (auto simp: rposition_def Let_def)

lemma rposition_Some:
  assumes "rposition x xs = Some r"
  shows "r < length xs \<and> xs ! r = x \<and> x \<notin> set (drop (Suc r) xs)"
proof -
  define tl where "tl = dropWhile (\<lambda>y. y \<noteq> x) (rev xs)"
  define front where "front = takeWhile (\<lambda>y. y \<noteq> x) (rev xs)"
  have ne: "tl \<noteq> []" and r: "r = length tl - 1"
    using assms by (auto simp: rposition_def tl_def Let_def split: if_splits)
  have "rev xs = front @ tl" by (simp add: front_def tl_def)
  then have xs: "xs = rev tl @ rev front" by (metis rev_append rev_rev_ident)
  have hd: "hd tl = x" using ne hd_dropWhile [of "\<lambda>y. y \<noteq> x" "rev xs"] by (simp add: tl_def)
  have "x \<notin> set front" by (auto simp: front_def dest: set_takeWhileD)
  moreover have "xs ! r = x"
    using ne r hd by (simp add: xs nth_append rev_nth hd_conv_nth)
  moreover have "length tl - 1 < length tl" using ne by simp
  ultimately show ?thesis using r by (simp add: xs)
qed

lemma offset_loop_result:
  assumes "pos \<le> length content" "newline \<notin> set (drop pos content)"
    "offset_loop content cancel polls pos = (Some b, polls')"
  shows "\<exists>n. b = int n \<and> is_boundary content n"
  using assms
proof (induction content cancel polls pos rule: offset_loop.induct)
  case (1 content cancel polls pos)
  define chunk where "chunk = min pos 8192"
  define pos' where "pos' = pos - chunk"
  define slice where "slice = take chunk (drop pos' content)"
  have eq: "offset_loop content cancel polls pos =
      (if pos = 0 then (Some 0, polls) else if cancel polls then (None, Suc polls)
       else case rposition newline slice of
              Some rel \<Rightarrow> (Some (int (pos' + rel + 1)), Suc polls)
            | None \<Rightarrow> offset_loop content cancel (Suc polls) pos')"
    unfolding slice_def pos'_def chunk_def by (subst offset_loop.simps) (simp only: Let_def)
  show ?case
  proof (cases "pos = 0")
    case True
    then show ?thesis using "1.prems" eq by (intro exI [of _ 0]) (simp add: is_boundary_def)
  next
    case False
    then have nc: "\<not> cancel polls" using "1.prems"(3) eq by (auto split: if_splits)
    have pos: "pos = pos' + chunk" by (simp add: pos'_def chunk_def)
    have parts: "drop pos' content = slice @ drop pos content"
      using pos by (metis add.commute append_take_drop_id drop_drop slice_def)
    show ?thesis
    proof (cases "rposition newline slice")
      case None
      then have "newline \<notin> set (drop pos' content)"
        using "1.prems"(2) by (simp add: parts rposition_None)
      moreover have "offset_loop content cancel (Suc polls) pos' = (Some b, polls')"
        using "1.prems"(3) eq False nc None by simp
      ultimately show ?thesis
        using "1.IH" [OF False nc chunk_def pos'_def slice_def None] "1.prems"(1)
        by (simp add: pos'_def)
    next
      case (Some rel)
      have rel: "rel < length slice" "slice ! rel = newline" "newline \<notin> set (drop (Suc rel) slice)"
        using rposition_Some [OF Some] by auto
      have b: "b = int (pos' + rel + 1)" using "1.prems"(3) eq False nc Some by simp
      have ls: "length slice \<le> chunk" by (simp add: slice_def)
      have "drop (pos' + rel + 1) content = drop (Suc rel) slice @ drop pos content"
      proof -
        have "drop (Suc rel) (drop pos' content) = drop (Suc rel) slice @ drop pos content"
          using rel(1) by (simp add: parts)
        then show ?thesis by (simp add: add.commute)
      qed
      then have "newline \<notin> set (drop (pos' + rel + 1) content)"
        using rel(3) "1.prems"(2) by simp
      moreover have "content ! (pos' + rel) = newline"
      proof -
        have "content ! (pos' + rel) = (drop pos' content) ! rel"
          using "1.prems"(1) pos by (simp add: add.commute)
        then show ?thesis using rel(1,2) by (simp add: parts nth_append)
      qed
      moreover have "pos' + rel + 1 \<le> length content"
        using rel(1) ls pos "1.prems"(1) by linarith
      ultimately show ?thesis using b by (intro exI [of _ "pos' + rel + 1"]) (simp add: is_boundary_def)
    qed
  qed
qed

lemma offset_loop_cancelled:
  "offset_loop content cancel polls pos = (None, polls') \<Longrightarrow> \<exists>k. cancel k"
proof (induction content cancel polls pos rule: offset_loop.induct)
  case (1 content cancel polls pos)
  show ?case
  proof (cases "pos = 0 \<or> cancel polls")
    case True
    then show ?thesis using "1.prems" by (subst (asm) offset_loop.simps) (auto split: if_splits)
  next
    case False
    then show ?thesis
      using "1.prems" "1.IH" by (subst (asm) offset_loop.simps) (auto simp: Let_def split: option.splits)
  qed
qed

lemma boundary_until:
  "complete_prefix_offset_until content cancel polls = (Some b, polls') \<Longrightarrow>
    \<exists>n. b = int n \<and> is_boundary content n"
  using offset_loop_result [of "length content"]
  by (auto simp: complete_prefix_offset_until_def is_boundary_def split: if_splits)

lemma boundary_until_cancelled:
  "complete_prefix_offset_until content cancel polls = (None, polls') \<Longrightarrow> \<exists>k. cancel k"
  using offset_loop_cancelled by (auto simp: complete_prefix_offset_until_def split: if_splits)

lemma is_boundary_unique: "is_boundary content a \<Longrightarrow> is_boundary content b \<Longrightarrow> a = b"
proof -
  have le: "b \<le> a" if "is_boundary content a" "is_boundary content b" for a b
  proof (rule ccontr)
    assume "\<not> b \<le> a"
    then have "content ! (b - 1) = drop a content ! (b - 1 - a)" "b - 1 - a < length (drop a content)"
      using that by (auto simp: is_boundary_def)
    then show False using that \<open>\<not> b \<le> a\<close>
      by (metis is_boundary_def le0 nle_le nth_mem)
  qed
  show "is_boundary content a \<Longrightarrow> is_boundary content b \<Longrightarrow> a = b"
    using le by (simp add: le_antisym)
qed

section \<open>Correctness of a parser for incremental use\<close>








section \<open>Properties\<close>

text \<open>
  The backward chunked scan finds the offset just past the last newline of the file: nothing
  after it is a complete line, and it is 0 or follows a newline.
\<close>

theorem complete_prefix_offset_is_last_newline:
  "\<exists>b. complete_prefix_offset (Some content) = Inr (int b) \<and> is_boundary content b"
proof -
  obtain b polls where "complete_prefix_offset_until content (\<lambda>_. False) 0 = (Some b, polls)"
    using boundary_until_cancelled by (metis option.exhaust surj_pair)
  then show ?thesis using boundary_until [of content] by (fastforce simp: complete_prefix_offset_def)
qed

text \<open>
  A stored head fingerprint still matches after any append, whatever short reads the operating
  system makes while computing and checking it.
\<close>

theorem fingerprint_survives_append:
  assumes "prefix_fingerprint short (Some content) = Inr stored"
  shows "fingerprint_matches short' (Some (content @ appended)) stored = Inr True"
proof -
  define n where "n = length (take fingerprint_len content)"
  have st: "stored = decimal n @ CHR '':'' # fnv1a_hex (take fingerprint_len content)"
    using assms by (simp add: prefix_fingerprint_def Let_def n_def)
  have nb: "n \<le> 2 ^ 64 - 1" by (simp add: n_def fingerprint_len_def)
  have "CHR '':'' \<notin> set (decimal n)" by (rule decimal_no_char) (simp add: is_ascii_digit_def)
  then have "split_once (CHR '':'') stored =
      Some (decimal n, fnv1a_hex (take fingerprint_len content))"
    by (simp add: st split_once_append)
  moreover have "take n (content @ appended) = take fingerprint_len content"
    by (simp add: n_def min_def)
  ultimately show ?thesis
    using parse_decimal [OF nb] by (simp add: fingerprint_matches_def Let_def n_def)
qed

theorem fingerprint_survives_append_witness:
  "fingerprint_matches (\<lambda>_. 2) (Some ([72, 10] @ [73, 10]))
     (decimal 2 @ CHR '':'' # fnv1a_hex [72, 10]) = Inr True"
  by (rule fingerprint_survives_append [of "\<lambda>_. 1"])
    (simp add: prefix_fingerprint_def fingerprint_len_def numeral_2_eq_2)





end
