(* ===== verification/Models.thy ===== *)
theory Models
  imports Prelude
begin

text \<open>
  The data model (\<open>models.rs\<close>): the closed vocabularies with their printed names, aliases and
  parsers, message provenance and its validation, and the search filters.

  A name is its UTF-8 bytes. A parse error carries the normalized text the message quotes.
\<close>

section \<open>Vocabularies\<close>

datatype parse_error =
    UnsupportedProvider string
  | UnknownRole string
  | UnknownSearchMode string
  | UnknownSearchField string
  | UnknownMessageKind string
  | UnknownMessageAuthorship string
  | UnknownPartAuthorship string
  | UnknownPartOrigin string
  | UnknownAuthority string
  | UnknownRelation string
  | UnknownSessionKind string

datatype provider =
    Claude
  | ClaudeDesktop
  | Codex
  | Cursor
  | Antigravity
  | Pi
  | PrimeAgent
  | AiStudio
  | GeminiCli

fun provider_as_str :: "provider \<Rightarrow> string" where
  "provider_as_str Claude = ''claude''"
| "provider_as_str ClaudeDesktop = ''claude-desktop''"
| "provider_as_str Codex = ''codex''"
| "provider_as_str Cursor = ''cursor''"
| "provider_as_str Antigravity = ''antigravity''"
| "provider_as_str Pi = ''pi''"
| "provider_as_str PrimeAgent = ''prime-agent''"
| "provider_as_str AiStudio = ''aistudio''"
| "provider_as_str GeminiCli = ''gemini-cli''"

definition provider_from_str :: "string \<Rightarrow> parse_error + provider" where
  "provider_from_str value =
     (let s = to_ascii_lowercase value in
      if s = ''claude'' then Inr Claude
      else if s \<in> set [''claude-desktop'', ''claude_desktop'', ''claudedesktop''] then Inr ClaudeDesktop
      else if s = ''codex'' then Inr Codex
      else if s = ''cursor'' then Inr Cursor
      else if s = ''antigravity'' then Inr Antigravity
      else if s = ''pi'' then Inr Pi
      else if s \<in> set [''prime-agent'', ''prime_agent'', ''primeagent''] then Inr PrimeAgent
      else if s \<in> set [''aistudio'', ''ai-studio'', ''ai_studio''] then Inr AiStudio
      else if s \<in> set [''gemini-cli'', ''gemini_cli'', ''geminicli''] then Inr GeminiCli
      else Inl (UnsupportedProvider s))"

datatype role =
    RoleUser
  | RoleAssistant
  | RoleTool
  | RoleSlash
  | RoleCompaction

fun role_as_str :: "role \<Rightarrow> string" where
  "role_as_str RoleUser = ''user''"
| "role_as_str RoleAssistant = ''assistant''"
| "role_as_str RoleTool = ''tool''"
| "role_as_str RoleSlash = ''slash''"
| "role_as_str RoleCompaction = ''compaction''"

definition role_from_str :: "string \<Rightarrow> parse_error + role" where
  "role_from_str value =
     (let s = to_ascii_lowercase value in
      if s = ''user'' then Inr RoleUser
      else if s = ''assistant'' then Inr RoleAssistant
      else if s = ''tool'' then Inr RoleTool
      else if s = ''slash'' then Inr RoleSlash
      else if s = ''compaction'' then Inr RoleCompaction
      else Inl (UnknownRole s))"

datatype message_search_mode =
    ModeLiteral
  | ModeRegex
  | ModeFuzzy

fun message_search_mode_as_str :: "message_search_mode \<Rightarrow> string" where
  "message_search_mode_as_str ModeLiteral = ''literal''"
| "message_search_mode_as_str ModeRegex = ''regex''"
| "message_search_mode_as_str ModeFuzzy = ''fuzzy''"

definition message_search_mode_from_str :: "string \<Rightarrow> parse_error + message_search_mode" where
  "message_search_mode_from_str value =
     (let s = to_ascii_lowercase value in
      if s = ''literal'' then Inr ModeLiteral
      else if s = ''regex'' then Inr ModeRegex
      else if s = ''fuzzy'' then Inr ModeFuzzy
      else Inl (UnknownSearchMode s))"

datatype search_field =
    FieldContent
  | FieldToolName
  | FieldToolArgument

fun search_field_as_str :: "search_field \<Rightarrow> string" where
  "search_field_as_str FieldContent = ''content''"
| "search_field_as_str FieldToolName = ''tool_name''"
| "search_field_as_str FieldToolArgument = ''tool_argument''"

definition search_field_from_str :: "string \<Rightarrow> parse_error + search_field" where
  "search_field_from_str value =
     (let s = replace_char (CHR ''-'') (CHR ''_'') (to_ascii_lowercase value) in
      if s = ''content'' then Inr FieldContent
      else if s = ''tool_name'' then Inr FieldToolName
      else if s = ''tool_argument'' then Inr FieldToolArgument
      else Inl (UnknownSearchField s))"

datatype message_kind =
    KindConversation
  | KindCompaction
  | KindToolCall
  | KindToolResult
  | KindHarnessNotice
  | KindUnknown

fun message_kind_as_str :: "message_kind \<Rightarrow> string" where
  "message_kind_as_str KindConversation = ''conversation''"
| "message_kind_as_str KindCompaction = ''compaction''"
| "message_kind_as_str KindToolCall = ''tool_call''"
| "message_kind_as_str KindToolResult = ''tool_result''"
| "message_kind_as_str KindHarnessNotice = ''harness_notice''"
| "message_kind_as_str KindUnknown = ''unknown''"

definition message_kind_from_str :: "string \<Rightarrow> parse_error + message_kind" where
  "message_kind_from_str value =
     (let s = replace_char (CHR ''-'') (CHR ''_'') (to_ascii_lowercase value) in
      if s = ''conversation'' then Inr KindConversation
      else if s = ''compaction'' then Inr KindCompaction
      else if s = ''tool_call'' then Inr KindToolCall
      else if s = ''tool_result'' then Inr KindToolResult
      else if s = ''harness_notice'' then Inr KindHarnessNotice
      else if s = ''unknown'' then Inr KindUnknown
      else Inl (UnknownMessageKind s))"

datatype message_authorship =
    AuthHuman
  | AuthAgent
  | AuthHarness
  | AuthGenerated
  | AuthMixed
  | AuthUnknown

fun message_authorship_as_str :: "message_authorship \<Rightarrow> string" where
  "message_authorship_as_str AuthHuman = ''human''"
| "message_authorship_as_str AuthAgent = ''agent''"
| "message_authorship_as_str AuthHarness = ''harness''"
| "message_authorship_as_str AuthGenerated = ''generated''"
| "message_authorship_as_str AuthMixed = ''mixed''"
| "message_authorship_as_str AuthUnknown = ''unknown''"

definition message_authorship_from_str :: "string \<Rightarrow> parse_error + message_authorship" where
  "message_authorship_from_str value =
     (let s = replace_char (CHR ''-'') (CHR ''_'') (to_ascii_lowercase value) in
      if s = ''human'' then Inr AuthHuman
      else if s = ''agent'' then Inr AuthAgent
      else if s = ''harness'' then Inr AuthHarness
      else if s = ''generated'' then Inr AuthGenerated
      else if s = ''mixed'' then Inr AuthMixed
      else if s = ''unknown'' then Inr AuthUnknown
      else Inl (UnknownMessageAuthorship s))"

datatype content_part_authorship =
    PartHuman
  | PartAgent
  | PartHarness
  | PartGenerated
  | PartUnknown

fun content_part_authorship_as_str :: "content_part_authorship \<Rightarrow> string" where
  "content_part_authorship_as_str PartHuman = ''human''"
| "content_part_authorship_as_str PartAgent = ''agent''"
| "content_part_authorship_as_str PartHarness = ''harness''"
| "content_part_authorship_as_str PartGenerated = ''generated''"
| "content_part_authorship_as_str PartUnknown = ''unknown''"

definition content_part_authorship_from_str :: "string \<Rightarrow> parse_error + content_part_authorship" where
  "content_part_authorship_from_str value =
     (let s = replace_char (CHR ''-'') (CHR ''_'') (to_ascii_lowercase value) in
      if s = ''human'' then Inr PartHuman
      else if s = ''agent'' then Inr PartAgent
      else if s = ''harness'' then Inr PartHarness
      else if s = ''generated'' then Inr PartGenerated
      else if s = ''unknown'' then Inr PartUnknown
      else Inl (UnknownPartAuthorship s))"

datatype content_part_origin =
    DirectInput
  | QuotedContent
  | HarnessContext
  | GeneratedSummary
  | ToolPayload
  | OriginUnknown

fun content_part_origin_as_str :: "content_part_origin \<Rightarrow> string" where
  "content_part_origin_as_str DirectInput = ''direct_input''"
| "content_part_origin_as_str QuotedContent = ''quoted_content''"
| "content_part_origin_as_str HarnessContext = ''harness_context''"
| "content_part_origin_as_str GeneratedSummary = ''generated_summary''"
| "content_part_origin_as_str ToolPayload = ''tool_payload''"
| "content_part_origin_as_str OriginUnknown = ''unknown''"

definition content_part_origin_from_str :: "string \<Rightarrow> parse_error + content_part_origin" where
  "content_part_origin_from_str value =
     (let s = replace_char (CHR ''-'') (CHR ''_'') (to_ascii_lowercase value) in
      if s = ''direct_input'' then Inr DirectInput
      else if s = ''quoted_content'' then Inr QuotedContent
      else if s = ''harness_context'' then Inr HarnessContext
      else if s = ''generated_summary'' then Inr GeneratedSummary
      else if s = ''tool_payload'' then Inr ToolPayload
      else if s = ''unknown'' then Inr OriginUnknown
      else Inl (UnknownPartOrigin s))"

datatype correlation_authority =
    AuthorityAnthropic
  | AuthorityOpenAi
  | AuthorityCursor
  | AuthorityGoogle
  | AuthorityPi
  | AuthorityPrimeAgent

fun correlation_authority_as_str :: "correlation_authority \<Rightarrow> string" where
  "correlation_authority_as_str AuthorityAnthropic = ''anthropic''"
| "correlation_authority_as_str AuthorityOpenAi = ''open_ai''"
| "correlation_authority_as_str AuthorityCursor = ''cursor''"
| "correlation_authority_as_str AuthorityGoogle = ''google''"
| "correlation_authority_as_str AuthorityPi = ''pi''"
| "correlation_authority_as_str AuthorityPrimeAgent = ''prime_agent''"

definition correlation_authority_from_str :: "string \<Rightarrow> parse_error + correlation_authority" where
  "correlation_authority_from_str value =
     (let s = replace_char (CHR ''-'') (CHR ''_'') (to_ascii_lowercase value) in
      if s = ''anthropic'' then Inr AuthorityAnthropic
      else if s \<in> set [''open_ai'', ''openai''] then Inr AuthorityOpenAi
      else if s = ''cursor'' then Inr AuthorityCursor
      else if s = ''google'' then Inr AuthorityGoogle
      else if s = ''pi'' then Inr AuthorityPi
      else if s \<in> set [''prime_agent'', ''primeagent''] then Inr AuthorityPrimeAgent
      else Inl (UnknownAuthority s))"

datatype record_relation =
    RelOriginal
  | RelMirror
  | RelUnknown

fun record_relation_as_str :: "record_relation \<Rightarrow> string" where
  "record_relation_as_str RelOriginal = ''original''"
| "record_relation_as_str RelMirror = ''mirror''"
| "record_relation_as_str RelUnknown = ''unknown''"

definition record_relation_from_str :: "string \<Rightarrow> parse_error + record_relation" where
  "record_relation_from_str value =
     (let s = to_ascii_lowercase value in
      if s = ''original'' then Inr RelOriginal
      else if s = ''mirror'' then Inr RelMirror
      else if s = ''unknown'' then Inr RelUnknown
      else Inl (UnknownRelation s))"

datatype session_kind =
    SessionUser
  | SessionSubagent

fun session_kind_as_str :: "session_kind \<Rightarrow> string" where
  "session_kind_as_str SessionUser = ''user''"
| "session_kind_as_str SessionSubagent = ''subagent''"

definition session_kind_from_str :: "string \<Rightarrow> parse_error + session_kind" where
  "session_kind_from_str value =
     (let s = replace_char (CHR ''-'') (CHR ''_'') (to_ascii_lowercase value) in
      if s = ''user'' then Inr SessionUser
      else if s = ''subagent'' then Inr SessionSubagent
      else Inl (UnknownSessionKind s))"

text \<open>Database spellings: unknown values are refused, read as unknown, or absent.\<close>

definition provider_from_db_str :: "string \<Rightarrow> parse_error + provider" where
  "provider_from_db_str value =
     (case provider_from_str value of Inl _ \<Rightarrow> Inl (UnsupportedProvider value) | Inr p \<Rightarrow> Inr p)"

definition role_from_db_str :: "string \<Rightarrow> parse_error + role" where
  "role_from_db_str value =
     (case role_from_str value of Inl _ \<Rightarrow> Inl (UnknownRole value) | Inr r \<Rightarrow> Inr r)"

definition unwrap_or :: "'a \<Rightarrow> 'e + 'a \<Rightarrow> 'a" where
  "unwrap_or d r = (case r of Inl _ \<Rightarrow> d | Inr v \<Rightarrow> v)"

definition message_kind_from_db_str :: "string \<Rightarrow> message_kind" where
  "message_kind_from_db_str value = unwrap_or KindUnknown (message_kind_from_str value)"

definition message_authorship_from_db_str :: "string \<Rightarrow> message_authorship" where
  "message_authorship_from_db_str value = unwrap_or AuthUnknown (message_authorship_from_str value)"

definition content_part_authorship_from_db_str :: "string \<Rightarrow> content_part_authorship" where
  "content_part_authorship_from_db_str value =
     unwrap_or PartUnknown (content_part_authorship_from_str value)"

definition content_part_origin_from_db_str :: "string \<Rightarrow> content_part_origin" where
  "content_part_origin_from_db_str value = unwrap_or OriginUnknown (content_part_origin_from_str value)"

definition res_ok :: "'e + 'a \<Rightarrow> 'a option" where
  "res_ok r = (case r of Inl _ \<Rightarrow> None | Inr v \<Rightarrow> Some v)"

definition correlation_authority_from_db_str :: "string \<Rightarrow> correlation_authority option" where
  "correlation_authority_from_db_str value = res_ok (correlation_authority_from_str value)"

definition record_relation_from_db_str :: "string \<Rightarrow> record_relation option" where
  "record_relation_from_db_str value = res_ok (record_relation_from_str value)"

fun provider_display_name :: "provider \<Rightarrow> string" where
  "provider_display_name Claude = ''Claude Code''"
| "provider_display_name ClaudeDesktop = ''Claude Desktop local agent''"
| "provider_display_name Codex = ''Codex''"
| "provider_display_name Cursor = ''Cursor''"
| "provider_display_name Antigravity = ''Antigravity''"
| "provider_display_name Pi = ''Pi coding agent''"
| "provider_display_name PrimeAgent = ''Prime Agent''"
| "provider_display_name AiStudio = ''Google AI Studio''"
| "provider_display_name GeminiCli = ''Gemini CLI''"

definition supports_native_resume :: "provider \<Rightarrow> bool" where
  "supports_native_resume p \<longleftrightarrow> p \<in> {Claude, Codex, Pi, PrimeAgent}"

definition session_kind_sql_predicate :: "session_kind \<Rightarrow> string \<Rightarrow> string" where
  "session_kind_sql_predicate k al =
     (case k of
        SessionUser \<Rightarrow> al @ ''.parent_session_id is null''
      | SessionSubagent \<Rightarrow> al @ ''.parent_session_id is not null'')"

section \<open>The vocabulary contract\<close>

text \<open>
  What every caller of a vocabulary relies on: the printed name parses back, and parsing ignores
  ASCII case.
\<close>

locale vocabulary =
  fixes as_str :: "'a \<Rightarrow> string"
    and from_str :: "string \<Rightarrow> 'e + 'a"
  assumes parse_print: "from_str (as_str x) = Inr x"
    and case_blind: "to_ascii_lowercase s = to_ascii_lowercase t \<Longrightarrow> from_str s = from_str t"
begin

lemma as_str_inject: "as_str x = as_str y \<longleftrightarrow> x = y"
  using parse_print by (metis Inr_inject)

lemma any_case: "to_ascii_lowercase s = to_ascii_lowercase (as_str x) \<Longrightarrow> from_str s = Inr x"
  using case_blind parse_print by metis

lemma canonical: "from_str s = Inr x \<Longrightarrow> from_str (as_str x) = from_str s"
  using parse_print by simp

end

interpretation provider: vocabulary provider_as_str provider_from_str
proof
  show "provider_from_str (provider_as_str x) = Inr x" for x
    by (cases x) (simp_all add: provider_from_str_def to_ascii_lowercase_def ascii_lower_char_def replace_char_def Let_def)
qed (simp add: provider_from_str_def)

interpretation role: vocabulary role_as_str role_from_str
proof
  show "role_from_str (role_as_str x) = Inr x" for x
    by (cases x) (simp_all add: role_from_str_def to_ascii_lowercase_def ascii_lower_char_def replace_char_def Let_def)
qed (simp add: role_from_str_def)

interpretation message_search_mode: vocabulary message_search_mode_as_str message_search_mode_from_str
proof
  show "message_search_mode_from_str (message_search_mode_as_str x) = Inr x" for x
    by (cases x) (simp_all add: message_search_mode_from_str_def to_ascii_lowercase_def ascii_lower_char_def replace_char_def Let_def)
qed (simp add: message_search_mode_from_str_def)

interpretation search_field: vocabulary search_field_as_str search_field_from_str
proof
  show "search_field_from_str (search_field_as_str x) = Inr x" for x
    by (cases x) (simp_all add: search_field_from_str_def to_ascii_lowercase_def ascii_lower_char_def replace_char_def Let_def)
qed (simp add: search_field_from_str_def)

interpretation message_kind: vocabulary message_kind_as_str message_kind_from_str
proof
  show "message_kind_from_str (message_kind_as_str x) = Inr x" for x
    by (cases x) (simp_all add: message_kind_from_str_def to_ascii_lowercase_def ascii_lower_char_def replace_char_def Let_def)
qed (simp add: message_kind_from_str_def)

interpretation message_authorship: vocabulary message_authorship_as_str message_authorship_from_str
proof
  show "message_authorship_from_str (message_authorship_as_str x) = Inr x" for x
    by (cases x) (simp_all add: message_authorship_from_str_def to_ascii_lowercase_def ascii_lower_char_def replace_char_def Let_def)
qed (simp add: message_authorship_from_str_def)

interpretation content_part_authorship: vocabulary content_part_authorship_as_str content_part_authorship_from_str
proof
  show "content_part_authorship_from_str (content_part_authorship_as_str x) = Inr x" for x
    by (cases x) (simp_all add: content_part_authorship_from_str_def to_ascii_lowercase_def ascii_lower_char_def replace_char_def Let_def)
qed (simp add: content_part_authorship_from_str_def)

interpretation content_part_origin: vocabulary content_part_origin_as_str content_part_origin_from_str
proof
  show "content_part_origin_from_str (content_part_origin_as_str x) = Inr x" for x
    by (cases x) (simp_all add: content_part_origin_from_str_def to_ascii_lowercase_def ascii_lower_char_def replace_char_def Let_def)
qed (simp add: content_part_origin_from_str_def)

interpretation correlation_authority: vocabulary correlation_authority_as_str correlation_authority_from_str
proof
  show "correlation_authority_from_str (correlation_authority_as_str x) = Inr x" for x
    by (cases x) (simp_all add: correlation_authority_from_str_def to_ascii_lowercase_def ascii_lower_char_def replace_char_def Let_def)
qed (simp add: correlation_authority_from_str_def)

interpretation record_relation: vocabulary record_relation_as_str record_relation_from_str
proof
  show "record_relation_from_str (record_relation_as_str x) = Inr x" for x
    by (cases x) (simp_all add: record_relation_from_str_def to_ascii_lowercase_def ascii_lower_char_def replace_char_def Let_def)
qed (simp add: record_relation_from_str_def)

interpretation session_kind: vocabulary session_kind_as_str session_kind_from_str
proof
  show "session_kind_from_str (session_kind_as_str x) = Inr x" for x
    by (cases x) (simp_all add: session_kind_from_str_def to_ascii_lowercase_def ascii_lower_char_def replace_char_def Let_def)
qed (simp add: session_kind_from_str_def)

section \<open>Provenance\<close>

record content_part =
  cp_ordinal :: nat
  cp_start :: nat
  cp_end :: nat
  cp_authorship :: content_part_authorship
  cp_origin :: content_part_origin

record correlation_identity =
  ci_authority :: correlation_authority
  ci_scope :: scalars
  ci_id :: scalars

record provenance =
  pv_authorship :: message_authorship
  pv_relation :: record_relation
  pv_identity :: "correlation_identity option"
  pv_parts :: "content_part list"

datatype provenance_error =
    EmptyCorrelationScope
  | EmptyCorrelationId
  | PartsWithoutMixed
  | MixedWithoutParts
  | OrdinalMismatch nat nat
  | StartMismatch nat nat nat
  | EmptyPartRange nat
  | EndBeyondMessage nat nat nat
  | GapAtEnd nat nat
  | OneAuthorship

text \<open>
  The loop of \<open>MessageProvenance::validate\<close>: \<open>index\<close>, \<open>expected_start\<close>,
  \<open>first_authorship\<close> and \<open>has_distinct_authorship\<close> are its variables.
\<close>

fun validate_parts ::
    "nat \<Rightarrow> content_part list \<Rightarrow> nat \<Rightarrow> nat \<Rightarrow> content_part_authorship option \<Rightarrow> bool \<Rightarrow>
     provenance_error + (nat \<times> bool)" where
  "validate_parts chars [] index expected first distinct_auth = Inr (expected, distinct_auth)"
| "validate_parts chars (p # ps) index expected first distinct_auth =
     (if cp_ordinal p \<noteq> index then Inl (OrdinalMismatch (cp_ordinal p) index)
      else if cp_start p \<noteq> expected then Inl (StartMismatch index expected (cp_start p))
      else if cp_end p \<le> cp_start p then Inl (EmptyPartRange index)
      else if cp_end p > chars then Inl (EndBeyondMessage index (cp_end p) chars)
      else
        (case first of
           Some a \<Rightarrow>
             validate_parts chars ps (Suc index) (cp_end p) first
               (distinct_auth \<or> a \<noteq> cp_authorship p)
         | None \<Rightarrow>
             validate_parts chars ps (Suc index) (cp_end p) (Some (cp_authorship p)) distinct_auth))"

definition validate_identity :: "correlation_identity option \<Rightarrow> provenance_error + unit" where
  "validate_identity i =
     (case i of
        None \<Rightarrow> Inr ()
      | Some identity \<Rightarrow>
          if trim (ci_scope identity) = [] then Inl EmptyCorrelationScope
          else if trim (ci_id identity) = [] then Inl EmptyCorrelationId
          else Inr ())"

definition validate_provenance :: "provenance \<Rightarrow> scalars \<Rightarrow> provenance_error + unit" where
  "validate_provenance pv content =
     res_bind (validate_identity (pv_identity pv)) (\<lambda>_.
       if pv_authorship pv \<noteq> AuthMixed then
         (if pv_parts pv \<noteq> [] then Inl PartsWithoutMixed else Inr ())
       else if pv_parts pv = [] then Inl MixedWithoutParts
       else
         let content_chars = length content
         in res_bind (validate_parts content_chars (pv_parts pv) 0 0 None False)
              (\<lambda>(expected_start, has_distinct).
                if expected_start \<noteq> content_chars then Inl (GapAtEnd expected_start content_chars)
                else if \<not> has_distinct then Inl OneAuthorship
                else Inr ()))"

text \<open>What the loop checks: the parts tile the message from \<open>s\<close> to \<open>e\<close>.\<close>

fun tiles :: "content_part list \<Rightarrow> nat \<Rightarrow> nat \<Rightarrow> nat \<Rightarrow> bool" where
  "tiles [] index s e \<longleftrightarrow> s = e"
| "tiles (p # ps) index s e \<longleftrightarrow>
     cp_ordinal p = index \<and> cp_start p = s \<and> s < cp_end p \<and> cp_end p \<le> e \<and>
     tiles ps (Suc index) (cp_end p) e"

definition part_has :: "nat \<Rightarrow> content_part \<Rightarrow> bool" where
  "part_has i p \<longleftrightarrow> cp_start p \<le> i \<and> i < cp_end p"

lemma tiles_le: "tiles ps k s e \<Longrightarrow> s \<le> e"
  by (induction ps k s e rule: tiles.induct) auto

lemma tiles_above: "tiles ps k s e \<Longrightarrow> p \<in> set ps \<Longrightarrow> s \<le> cp_start p"
  by (induction ps k s e rule: tiles.induct) fastforce+

lemma tiles_cover:
  assumes "tiles ps k s e" "s \<le> i" "i < e"
  shows "length (filter (part_has i) ps) = 1"
  using assms
proof (induction ps k s e rule: tiles.induct)
  case (2 p ps k s e)
  show ?case
  proof (cases "i < cp_end p")
    case True
    then have "\<not> part_has i q" if "q \<in> set ps" for q
      using tiles_above [of ps "Suc k" "cp_end p" e q] "2.prems"(1) that by (auto simp: part_has_def)
    then have none: "filter (part_has i) ps = []" by (simp add: filter_empty_conv)
    have "part_has i p" using True "2.prems" by (simp add: part_has_def)
    with none show ?thesis by simp
  next
    case False
    then have "\<not> part_has i p" by (simp add: part_has_def)
    with False 2 show ?thesis by simp
  qed
qed simp

lemma validate_parts_Inr:
  "validate_parts n ps k s first d = Inr (e, d') \<Longrightarrow> e \<le> n \<or> ps = []"
  by (induction n ps k s first d rule: validate_parts.induct)
    (auto split: if_splits option.splits)

fun authorship_seen :: "content_part_authorship option \<Rightarrow> content_part list \<Rightarrow> bool" where
  "authorship_seen first [] = False"
| "authorship_seen None (p # ps) = authorship_seen (Some (cp_authorship p)) ps"
| "authorship_seen (Some a) (p # ps) = (a \<noteq> cp_authorship p \<or> authorship_seen (Some a) ps)"

lemma authorship_seen_Some: "authorship_seen (Some a) ps \<longleftrightarrow> (\<exists>p \<in> set ps. cp_authorship p \<noteq> a)"
  by (induction ps) auto

lemma validate_parts_iff:
  "validate_parts n ps k s first d = Inr (n, d') \<longleftrightarrow>
     tiles ps k s n \<and> d' = (d \<or> authorship_seen first ps)"
proof (induction n ps k s first d rule: validate_parts.induct)
  case (1 n k s first d)
  then show ?case by auto
next
  case (2 n p ps k s first d)
  show ?case
  proof (cases "cp_ordinal p = k \<and> cp_start p = s \<and> s < cp_end p \<and> cp_end p \<le> n")
    case True
    then show ?thesis using 2 by (cases first) simp_all
  next
    case False
    then have "validate_parts n (p # ps) k s first d \<noteq> Inr (n, d')" by auto
    with False show ?thesis by auto
  qed
qed

section \<open>Session filters\<close>

type_synonym instant = int

record search_filters =
  sf_provider :: "provider option"
  sf_session_kinds :: "session_kind list option"
  sf_path_prefix :: "string option"
  sf_exclude_path_prefixes :: "string list"
  sf_exclude_session_ids :: "string list"
  sf_parent_session_id :: "string option"
  sf_since :: "instant option"
  sf_until :: "instant option"
  sf_limit :: nat
  sf_warnings_only :: bool

datatype filter_error = OnlyUserSessionsWithParent | AnalysisLimit nat

definition all_session_kinds :: "session_kind list" where
  "all_session_kinds = [SessionUser, SessionSubagent]"

definition effective_session_kinds :: "search_filters \<Rightarrow> session_kind list" where
  "effective_session_kinds f =
     (case sf_session_kinds f of None \<Rightarrow> all_session_kinds | Some ks \<Rightarrow> ks)"

definition validate_search_filters :: "search_filters \<Rightarrow> filter_error + unit" where
  "validate_search_filters f =
     (let only_user_sessions =
        (case sf_session_kinds f of
           None \<Rightarrow> False
         | Some kinds \<Rightarrow> kinds \<noteq> [] \<and> list_all (\<lambda>k. k = SessionUser) kinds)
      in if sf_parent_session_id f \<noteq> None \<and> only_user_sessions
         then Inl OnlyUserSessionsWithParent else Inr ())"

datatype analysis_session_selection = AllEligible | FirstCanonicalSessions nat

definition max_sessions :: "analysis_session_selection \<Rightarrow> nat option" where
  "max_sessions s = (case s of AllEligible \<Rightarrow> None | FirstCanonicalSessions n \<Rightarrow> Some n)"

record analysis_request =
  ar_scope :: search_filters
  ar_selection :: analysis_session_selection

definition new_analysis_request ::
    "search_filters \<Rightarrow> analysis_session_selection \<Rightarrow> filter_error + analysis_request" where
  "new_analysis_request scope selection =
     res_bind (validate_search_filters scope) (\<lambda>_.
       if sf_limit scope \<noteq> 0 then Inl (AnalysisLimit (sf_limit scope))
       else Inr \<lparr>ar_scope = scope, ar_selection = selection\<rparr>)"

section \<open>Message kinds of a search\<close>

definition message_kind_variants :: "message_kind list" where
  "message_kind_variants =
     [KindConversation, KindCompaction, KindToolCall, KindToolResult, KindHarnessNotice, KindUnknown]"

definition default_kind_set :: "message_kind list" where
  "default_kind_set = filter (\<lambda>k. k \<noteq> KindHarnessNotice) message_kind_variants"

datatype kind_predicate = AllExcept "message_kind list" | OnlyKinds "message_kind list"

definition effective_kinds_of :: "message_kind list option \<Rightarrow> bool \<Rightarrow> message_kind list" where
  "effective_kinds_of kinds no_compaction =
     (let ks = (case kinds of None \<Rightarrow> default_kind_set | Some ks \<Rightarrow> ks)
      in if no_compaction then filter (\<lambda>k. k \<noteq> KindCompaction) ks else ks)"

definition kind_predicate_of :: "message_kind list option \<Rightarrow> bool \<Rightarrow> kind_predicate" where
  "kind_predicate_of kinds no_compaction =
     (if kinds \<noteq> None then OnlyKinds (effective_kinds_of kinds no_compaction)
      else AllExcept ([KindHarnessNotice] @ (if no_compaction then [KindCompaction] else [])))"

fun predicate_admits :: "kind_predicate \<Rightarrow> message_kind \<Rightarrow> bool" where
  "predicate_admits (AllExcept ks) k \<longleftrightarrow> k \<notin> set ks"
| "predicate_admits (OnlyKinds ks) k \<longleftrightarrow> k \<in> set ks"

section \<open>Properties\<close>

text \<open>
  The names the index stores read back to the value they were written for, for every closed
  vocabulary of the data model.
\<close>

theorem stored_names_read_back:
  "provider_from_str (provider_as_str p) = Inr p \<and> role_from_db_str (role_as_str r) = Inr r \<and>
   message_kind_from_db_str (message_kind_as_str k) = k \<and>
   message_authorship_from_db_str (message_authorship_as_str a) = a \<and>
   content_part_authorship_from_db_str (content_part_authorship_as_str c) = c \<and>
   content_part_origin_from_db_str (content_part_origin_as_str g) = g \<and>
   correlation_authority_from_db_str (correlation_authority_as_str u) = Some u \<and>
   record_relation_from_db_str (record_relation_as_str l) = Some l \<and>
   session_kind_from_str (to_ascii_lowercase (session_kind_as_str s)) = Inr s"
proof -
  have "session_kind_from_str (to_ascii_lowercase (session_kind_as_str s)) = Inr s"
    by (rule session_kind.any_case) (cases s; simp add: to_ascii_lowercase_def ascii_lower_char_def)
  then show ?thesis
    by (simp add: provider.parse_print role_from_db_str_def role.parse_print
        message_kind_from_db_str_def message_kind.parse_print unwrap_or_def
        message_authorship_from_db_str_def message_authorship.parse_print
        content_part_authorship_from_db_str_def content_part_authorship.parse_print
        content_part_origin_from_db_str_def content_part_origin.parse_print
        correlation_authority_from_db_str_def correlation_authority.parse_print res_ok_def
        record_relation_from_db_str_def record_relation.parse_print)
qed

text \<open>
  A message whose provenance validates as mixed is partitioned by its content parts: every
  character of the message lies in exactly one part, and two parts differ in authorship.
\<close>

theorem validated_parts_partition_message:
  assumes "validate_provenance pv content = Inr ()" and "pv_authorship pv = AuthMixed"
  shows "(\<forall>i < length content. length (filter (part_has i) (pv_parts pv)) = 1) \<and>
    (\<exists>p \<in> set (pv_parts pv). \<exists>q \<in> set (pv_parts pv). cp_authorship p \<noteq> cp_authorship q)"
proof -
  have v: "validate_parts (length content) (pv_parts pv) 0 0 None False = Inr (length content, True)"
    and ne: "pv_parts pv \<noteq> []"
    using assms by (auto simp: validate_provenance_def Let_def res_cases split: if_splits)
  from ne obtain q qs where parts: "pv_parts pv = q # qs" by (cases "pv_parts pv") auto
  from v have t: "tiles (pv_parts pv) 0 0 (length content)" and seen: "authorship_seen None (pv_parts pv)"
    by (simp_all only: validate_parts_iff simp_thms)
  from seen obtain p where "p \<in> set qs" "cp_authorship p \<noteq> cp_authorship q"
    by (auto simp: parts authorship_seen_Some)
  then have "\<exists>p \<in> set (pv_parts pv). \<exists>q \<in> set (pv_parts pv). cp_authorship p \<noteq> cp_authorship q"
    unfolding parts by (meson list.set_intros)
  with tiles_cover [OF t] show ?thesis by simp
qed

definition mixed_example :: provenance where
  "mixed_example =
     \<lparr>pv_authorship = AuthMixed, pv_relation = RelOriginal, pv_identity = None,
      pv_parts = [\<lparr>cp_ordinal = 0, cp_start = 0, cp_end = 2, cp_authorship = PartHuman, cp_origin = DirectInput\<rparr>,
                  \<lparr>cp_ordinal = 1, cp_start = 2, cp_end = 3, cp_authorship = PartHarness, cp_origin = HarnessContext\<rparr>]\<rparr>"

theorem validated_parts_partition_message_witness:
  "length (filter (part_has 1) (pv_parts mixed_example)) = 1"
proof -
  have "validate_provenance mixed_example [65, 66, 67] = Inr ()" "pv_authorship mixed_example = AuthMixed"
    by (simp_all add: mixed_example_def validate_provenance_def validate_identity_def)
  from validated_parts_partition_message [OF this, THEN conjunct1, THEN spec, of 1, THEN mp]
  show ?thesis by simp
qed

text \<open>
  The two ways the code decides which message kinds a search returns agree: the SQL predicate
  admits exactly the kinds of the effective set.
\<close>

theorem kind_predicate_matches_effective_kinds:
  "predicate_admits (kind_predicate_of kinds no_compaction) k \<longleftrightarrow>
     k \<in> set (effective_kinds_of kinds no_compaction)"
  by (cases k)
    (auto simp: kind_predicate_of_def effective_kinds_of_def default_kind_set_def
      message_kind_variants_def Let_def split: option.splits)

end
