(* ===== verification/MessageSearch.thy ===== *)
theory MessageSearch
  imports Models "HOL-Library.Char_ord"
begin

text \<open>
  The typed message-search request (\<open>message_search.rs\<close>): its validated values, the builder with
  its operations, the registry of cross-parameter rules and the page description of a response.

  A query is scalar values (its length is counted in characters); names, ids, paths and pointers
  are UTF-8 bytes. \<open>NonZeroUsize\<close> is a \<open>nat\<close> that the constructors keep positive. A reason whose
  text embeds values is its format string with the values.
\<close>

section \<open>Errors\<close>

datatype reason = Reason string | ReasonArgs string "string list" "int list"

datatype message_search_error =
    EmptyQuery string
  | ShortFuzzyQuery
  | BlankFuzzyQuery
  | InvalidRegex string
  | InvalidJsonPointer string
  | InvalidParameter string reason
  | Conflict reason

fun error_code :: "message_search_error \<Rightarrow> string" where
  "error_code (EmptyQuery _) = ''invalid-query''"
| "error_code ShortFuzzyQuery = ''invalid-query''"
| "error_code BlankFuzzyQuery = ''invalid-query''"
| "error_code (InvalidRegex _) = ''invalid-query''"
| "error_code (InvalidJsonPointer _) = ''invalid-json-pointer''"
| "error_code (InvalidParameter _ _) = ''invalid-parameter''"
| "error_code (Conflict _) = ''parameter-conflict''"

section \<open>Queries\<close>

datatype message_query =
    QueryAll
  | QueryLiteral scalars
  | QueryRegex scalars
  | QueryFuzzy scalars

definition nonempty_query :: "scalars \<Rightarrow> string \<Rightarrow> message_search_error + scalars" where
  "nonempty_query value kind = (if value = [] then Inl (EmptyQuery kind) else Inr value)"

definition literal_query :: "scalars \<Rightarrow> message_search_error + scalars" where
  "literal_query value = nonempty_query value ''literal''"

definition fuzzy_query :: "scalars \<Rightarrow> message_search_error + scalars" where
  "fuzzy_query value0 =
     res_bind (nonempty_query value0 ''fuzzy'') (\<lambda>value.
       if trim value = [] then Inl BlankFuzzyQuery
       else if length (take 3 value) < 3 then Inl ShortFuzzyQuery
       else Inr value)"

text \<open>\<open>regex::Regex::new\<close> is the parameter \<open>compile\<close>: the error text, or nothing.\<close>

definition validated_regex ::
    "(scalars \<Rightarrow> string option) \<Rightarrow> scalars \<Rightarrow> message_search_error + scalars" where
  "validated_regex compile value0 =
     res_bind (nonempty_query value0 ''regex'') (\<lambda>value.
       case compile value of Some e \<Rightarrow> Inl (InvalidRegex e) | None \<Rightarrow> Inr value)"

definition query_literal :: "scalars \<Rightarrow> message_search_error + message_query" where
  "query_literal value = res_map QueryLiteral (literal_query value)"

definition query_regex ::
    "(scalars \<Rightarrow> string option) \<Rightarrow> scalars \<Rightarrow> message_search_error + message_query" where
  "query_regex compile value = res_map QueryRegex (validated_regex compile value)"

definition query_fuzzy :: "scalars \<Rightarrow> message_search_error + message_query" where
  "query_fuzzy value = res_map QueryFuzzy (fuzzy_query value)"

fun query_text :: "message_query \<Rightarrow> scalars option" where
  "query_text QueryAll = None"
| "query_text (QueryLiteral v) = Some v"
| "query_text (QueryRegex v) = Some v"
| "query_text (QueryFuzzy v) = Some v"

fun query_mode :: "message_query \<Rightarrow> message_search_mode option" where
  "query_mode QueryAll = None"
| "query_mode (QueryLiteral _) = Some ModeLiteral"
| "query_mode (QueryRegex _) = Some ModeRegex"
| "query_mode (QueryFuzzy _) = Some ModeFuzzy"

text \<open>What the constructors establish of a query.\<close>

fun query_ok :: "message_query \<Rightarrow> bool" where
  "query_ok QueryAll \<longleftrightarrow> True"
| "query_ok (QueryLiteral v) \<longleftrightarrow> v \<noteq> []"
| "query_ok (QueryRegex v) \<longleftrightarrow> v \<noteq> []"
| "query_ok (QueryFuzzy v) \<longleftrightarrow> 3 \<le> length v \<and> \<not> list_all is_whitespace v"

lemma query_constructors_ok:
  "query_literal v = Inr q \<Longrightarrow> query_ok q"
  "query_regex compile v = Inr q \<Longrightarrow> query_ok q"
  "query_fuzzy v = Inr q \<Longrightarrow> query_ok q"
  by (auto simp: query_literal_def query_regex_def query_fuzzy_def literal_query_def
      validated_regex_def fuzzy_query_def nonempty_query_def res_cases trim_Nil_iff
      split: if_splits option.splits)

section \<open>JSON pointers and targets\<close>

text \<open>The byte loop of \<open>JsonPointer::new\<close>: \<open>index\<close> advances by one, or by two over an escape.\<close>

function pointer_loop :: "string \<Rightarrow> nat \<Rightarrow> message_search_error + unit" where
  "pointer_loop bytes index =
     (if length bytes \<le> index then Inr ()
      else if bytes ! index = CHR ''~'' then
        (if index + 1 < length bytes \<and> bytes ! (index + 1) \<in> {CHR ''0'', CHR ''1''}
         then pointer_loop bytes (index + 2)
         else Inl (InvalidJsonPointer ('''~' must be followed by '0' or '1'' @ [CHR 0x27])))
      else pointer_loop bytes (index + 1))"
  by pat_completeness auto
termination by (relation "measure (\<lambda>(bytes, index). length bytes - index)") auto

definition json_pointer :: "string \<Rightarrow> message_search_error + string" where
  "json_pointer value =
     (if value \<noteq> [] \<and> hd value \<noteq> CHR ''/''
      then Inl (InvalidJsonPointer (''a nonempty pointer must start with '/'' @ [CHR 0x27]))
      else res_bind (pointer_loop value 0) (\<lambda>_. Inr value))"

record message_target =
  mt_field :: search_field
  mt_argument_path :: "string option"

definition target_content :: message_target where
  "target_content = \<lparr>mt_field = FieldContent, mt_argument_path = None\<rparr>"

definition target_tool_name :: message_target where
  "target_tool_name = \<lparr>mt_field = FieldToolName, mt_argument_path = None\<rparr>"

definition target_tool_argument :: "string \<Rightarrow> message_search_error + message_target" where
  "target_tool_argument path =
     res_bind (json_pointer path) (\<lambda>p. Inr \<lparr>mt_field = FieldToolArgument, mt_argument_path = Some p\<rparr>)"

text \<open>
  The grammar of RFC 6901: a pointer is a sequence of reference tokens, each behind a slash; in a
  token the characters slash and tilde are written \<open>~1\<close> and \<open>~0\<close>.
\<close>

fun escape_token :: "string \<Rightarrow> string" where
  "escape_token [] = []"
| "escape_token (c # cs) =
     (if c = CHR ''~'' then ''~0'' else if c = CHR ''/'' then ''~1'' else [c]) @ escape_token cs"

definition pointer_of :: "string list \<Rightarrow> string" where
  "pointer_of tokens = concat (map (\<lambda>t. CHR ''/'' # escape_token t) tokens)"

fun tildes_ok :: "string \<Rightarrow> bool" where
  "tildes_ok [] = True"
| "tildes_ok (c # cs) =
     (if c = CHR ''~''
      then (case cs of [] \<Rightarrow> False | d # ds \<Rightarrow> d \<in> {CHR ''0'', CHR ''1''} \<and> tildes_ok ds)
      else tildes_ok cs)"

declare pointer_loop.simps [simp del]

lemma pointer_loop_iff: "pointer_loop bytes index = Inr () \<longleftrightarrow> tildes_ok (drop index bytes)"
proof (induction bytes index rule: pointer_loop.induct)
  case (1 bytes index)
  note eq = pointer_loop.simps [of bytes index]
  show ?case
  proof (cases "length bytes \<le> index")
    case True
    then show ?thesis by (simp add: eq)
  next
    case False
    then have d: "drop index bytes = bytes ! index # drop (Suc index) bytes"
      by (simp add: Cons_nth_drop_Suc)
    show ?thesis
    proof (cases "bytes ! index = CHR ''~''")
      case True
      show ?thesis
      proof (cases "index + 1 < length bytes")
        case in2: True
        then have d2: "drop (Suc index) bytes = bytes ! Suc index # drop (Suc (Suc index)) bytes"
          by (simp add: Cons_nth_drop_Suc)
        show ?thesis using 1(1) False True in2 by (simp add: eq d d2)
      next
        case False
        then show ?thesis using True \<open>\<not> length bytes \<le> index\<close> by (simp add: eq d)
      qed
    next
      case not: False
      then show ?thesis using 1(2) False by (simp add: eq d)
    qed
  qed
qed

lemma pointer_loop_unit: "pointer_loop bytes index = Inr u \<longleftrightarrow> pointer_loop bytes index = Inr ()"
  by (cases u) simp

lemma tildes_ok_escape: "tildes_ok (escape_token t @ s) \<longleftrightarrow> tildes_ok s"
  by (induction t) auto

lemma tildes_ok_pointer_of: "tildes_ok (pointer_of ts)"
  by (induction ts) (auto simp: pointer_of_def tildes_ok_escape)

lemma tildes_ok_tokens: "tildes_ok s \<Longrightarrow> \<exists>t ts. s = escape_token t @ pointer_of ts"
proof (induction s rule: tildes_ok.induct)
  case 1
  have "[] = escape_token [] @ pointer_of []" by (simp add: pointer_of_def)
  then show ?case by blast
next
  case (2 c cs)
  show ?case
  proof (cases "c = CHR ''~''")
    case True
    with "2.prems" obtain d ds where cs: "cs = d # ds" and d: "d = CHR ''0'' \<or> d = CHR ''1''"
      and ok: "tildes_ok ds" by (auto split: list.splits)
    from "2.IH"(1) [OF True cs ok] obtain t ts where "ds = escape_token t @ pointer_of ts" by blast
    then have "c # cs = escape_token ((if d = CHR ''0'' then CHR ''~'' else CHR ''/'') # t) @ pointer_of ts"
      using cs d True by auto
    then show ?thesis by blast
  next
    case False
    with "2.prems" have "tildes_ok cs" by simp
    from "2.IH"(2) [OF False this] obtain t ts where cs: "cs = escape_token t @ pointer_of ts" by blast
    show ?thesis
    proof (cases "c = CHR ''/''")
      case True
      then have "c # cs = escape_token [] @ pointer_of (t # ts)" by (simp add: cs pointer_of_def)
      then show ?thesis by blast
    next
      case slash: False
      then have "c # cs = escape_token (c # t) @ pointer_of ts" using False by (simp add: cs)
      then show ?thesis by blast
    qed
  qed
qed

lemma json_pointer_Inr:
  "json_pointer v = Inr p \<longleftrightarrow> p = v \<and> (v = [] \<or> hd v = CHR ''/'') \<and> tildes_ok v"
proof (cases "v \<noteq> [] \<and> hd v \<noteq> CHR ''/''")
  case True
  then show ?thesis by (simp add: json_pointer_def)
next
  case False
  then have "json_pointer v = res_bind (pointer_loop v 0) (\<lambda>_. Inr v)"
    by (simp only: json_pointer_def if_False)
  then show ?thesis using False pointer_loop_iff [of v 0]
    by (cases "pointer_loop v 0") auto
qed

lemma escape_token_hd: "escape_token t @ s = CHR ''/'' # r \<Longrightarrow> t = []"
  by (cases t) (auto split: if_splits)

lemma json_pointer_grammar: "json_pointer v = Inr v \<longleftrightarrow> (\<exists>ts. v = pointer_of ts)"
proof
  assume "json_pointer v = Inr v"
  then have ok: "tildes_ok v" and hd: "v = [] \<or> hd v = CHR ''/''" by (simp_all add: json_pointer_Inr)
  from tildes_ok_tokens [OF ok] obtain t ts where v: "v = escape_token t @ pointer_of ts" by blast
  show "\<exists>ts. v = pointer_of ts"
  proof (cases v)
    case Nil
    then have "v = pointer_of []" by (simp add: pointer_of_def)
    then show ?thesis by blast
  next
    case (Cons c cs)
    with hd have "c = CHR ''/''" by simp
    with Cons v have "escape_token t @ pointer_of ts = CHR ''/'' # cs" by simp
    then have "t = []" by (rule escape_token_hd)
    with v show ?thesis by auto
  qed
next
  assume "\<exists>ts. v = pointer_of ts"
  then obtain ts where v: "v = pointer_of ts" by blast
  have "v = [] \<or> hd v = CHR ''/''" by (cases ts) (simp_all add: v pointer_of_def)
  then show "json_pointer v = Inr v" using tildes_ok_pointer_of [of ts] by (simp add: json_pointer_Inr v)
qed

definition target_ok :: "message_target \<Rightarrow> bool" where
  "target_ok t \<longleftrightarrow>
     (case mt_argument_path t of
        None \<Rightarrow> mt_field t \<noteq> FieldToolArgument
      | Some p \<Rightarrow> mt_field t = FieldToolArgument \<and> json_pointer p = Inr p)"

lemma target_constructors_ok:
  "target_ok target_content"
  "target_ok target_tool_name"
  "target_tool_argument path = Inr t \<Longrightarrow> target_ok t"
  by (auto simp: target_ok_def target_content_def target_tool_name_def target_tool_argument_def
      res_cases json_pointer_Inr)

section \<open>Windows, extents and ranges\<close>

datatype match_window = Earliest | Latest

datatype receipt_level = ReceiptNone | ReceiptSummary | ReceiptFull

datatype detail_level = DetailCompact | DetailFull

datatype field_view_budget = FieldNoCharLimit | FieldMaxChars nat

datatype match_view_budget = MinimalSpan | MatchMaxChars nat

definition field_view_max_chars :: "nat \<Rightarrow> message_search_error + field_view_budget" where
  "field_view_max_chars max_chars =
     ok_or (InvalidParameter ''field_view'' (Reason ''max_chars must be a positive character count; use kind=no_char_limit to apply no additional character limit after line selection''))
       (map_option FieldMaxChars (non_zero max_chars))"

definition match_view_max_chars :: "nat \<Rightarrow> message_search_error + match_view_budget" where
  "match_view_max_chars max_chars =
     ok_or (InvalidParameter ''match_view'' (Reason ''max_chars must be a positive character count; use kind=minimal_span for only the match span''))
       (map_option MatchMaxChars (non_zero max_chars))"

datatype message_include =
    NormalizedSessionMetadata
  | ParsedReferences
  | RawProviderMetadata
  | RuntimeDiagnostics

text \<open>The derived order of the include groups is their declaration order.\<close>

fun include_index :: "message_include \<Rightarrow> nat" where
  "include_index NormalizedSessionMetadata = 0"
| "include_index ParsedReferences = 1"
| "include_index RawProviderMetadata = 2"
| "include_index RuntimeDiagnostics = 3"

lemma include_index_inject: "include_index x = include_index y \<longleftrightarrow> x = y"
  by (cases x; cases y) simp_all

instantiation message_include :: linorder
begin

definition less_eq_message_include :: "message_include \<Rightarrow> message_include \<Rightarrow> bool" where
  "less_eq_message_include x y = (include_index x \<le> include_index y)"

definition less_message_include :: "message_include \<Rightarrow> message_include \<Rightarrow> bool" where
  "less_message_include x y = (include_index x < include_index y)"

instance
  by standard (auto simp: less_eq_message_include_def less_message_include_def include_index_inject)

end

text \<open>Session sources are ordered by their canonical identifier.\<close>

instantiation provider :: linorder
begin

definition less_eq_provider :: "provider \<Rightarrow> provider \<Rightarrow> bool" where
  "less_eq_provider x y = (provider_as_str x \<le> provider_as_str y)"

definition less_provider :: "provider \<Rightarrow> provider \<Rightarrow> bool" where
  "less_provider x y = (provider_as_str x < provider_as_str y)"

instance
  by standard (auto simp: less_eq_provider_def less_provider_def provider.as_str_inject less_le)

end

record context_window =
  cw_before :: nat
  cw_after :: nat

definition context_symmetric :: "nat \<Rightarrow> context_window" where
  "context_symmetric count = \<lparr>cw_before = count, cw_after = count\<rparr>"

datatype line_window = LinesFull | LinesHead nat | LinesTail nat

definition line_window_from_signed :: "int \<Rightarrow> message_search_error + line_window" where
  "line_window_from_signed value =
     (if value = 0 then Inr LinesFull
      else if 0 < value then
        ok_or (InvalidParameter ''lines_per_message'' (Reason ''positive value exceeds usize''))
          (map_option LinesHead (Option.bind (usize_try_from value) non_zero))
      else
        ok_or (InvalidParameter ''lines_per_message'' (Reason ''negative magnitude exceeds usize''))
          (map_option LinesTail
            (Option.bind (Option.bind (i64_checked_abs value) usize_try_from) non_zero)))"

fun line_window_to_signed :: "line_window \<Rightarrow> message_search_error + int" where
  "line_window_to_signed LinesFull = Inr 0"
| "line_window_to_signed (LinesHead n) =
     ok_or (InvalidParameter ''lines_per_message'' (Reason ''head line count exceeds i64''))
       (i64_try_from n)"
| "line_window_to_signed (LinesTail n) =
     ok_or (InvalidParameter ''lines_per_message'' (Reason ''tail line count exceeds i64''))
       (map_option uminus (i64_try_from n))"

lemma line_window_from_signed_Some:
  assumes "i64 v" "v \<noteq> i64_min"
  shows "line_window_from_signed v =
    Inr (if v = 0 then LinesFull else if 0 < v then LinesHead (nat v) else LinesTail (nat (- v)))"
  using assms
  by (auto simp: line_window_from_signed_def usize_try_from_def i64_checked_abs_def non_zero_def
      i64_def i64_max_def i64_min_def usize_max_def)

lemma line_window_round_trip:
  assumes "i64 v" "v \<noteq> i64_min"
  shows "res_bind (line_window_from_signed v) line_window_to_signed = Inr v"
  using assms
  by (auto simp: line_window_from_signed_Some i64_try_from_def i64_def i64_max_def i64_min_def)

lemma line_window_min: "is_ok (line_window_from_signed i64_min) = False"
  by (simp add: line_window_from_signed_def i64_checked_abs_def i64_min_def)

datatype requested_extent = RequestedPage "nat option" nat | RequestedAll nat

definition requested_page :: "nat option \<Rightarrow> nat \<Rightarrow> message_search_error + requested_extent" where
  "requested_page limit offset =
     (case limit of
        Some 0 \<Rightarrow> Inl (InvalidParameter ''limit'' (Reason ''use all_results instead of zero''))
      | Some value \<Rightarrow> Inr (RequestedPage (non_zero value) offset)
      | None \<Rightarrow> Inr (RequestedPage None offset))"

definition non_empty_value :: "string \<Rightarrow> string \<Rightarrow> message_search_error + string" where
  "non_empty_value parameter value =
     (if value = [] then Inl (InvalidParameter parameter (Reason ''must not be empty'')) else Inr value)"

record sequence_range =
  sr_from :: "int option"
  sr_to :: "int option"

definition new_sequence_range :: "int option \<Rightarrow> int option \<Rightarrow> message_search_error + sequence_range" where
  "new_sequence_range from to =
     (if (case from of Some v \<Rightarrow> v < 0 | None \<Rightarrow> False) \<or> (case to of Some v \<Rightarrow> v < 0 | None \<Rightarrow> False)
      then Inl (InvalidParameter ''sequence'' (Reason ''bounds must be nonnegative''))
      else
        (case (from, to) of
           (Some f, Some t) \<Rightarrow>
             if f > t
             then Inl (InvalidParameter ''sequence'' (ReasonArgs ''seq_from {} exceeds seq_to {}'' [] [f, t]))
             else Inr \<lparr>sr_from = from, sr_to = to\<rparr>
         | _ \<Rightarrow> Inr \<lparr>sr_from = from, sr_to = to\<rparr>))"

record requested_time =
  rt_since :: "instant option"
  rt_until :: "instant option"

definition requested_time_range ::
    "instant option \<Rightarrow> instant option \<Rightarrow> message_search_error + requested_time" where
  "requested_time_range since until =
     (case (since, until) of
        (Some s, Some u) \<Rightarrow>
          if s > u
          then Inl (InvalidParameter ''time'' (Reason ''since must not be later than until''))
          else Inr \<lparr>rt_since = since, rt_until = until\<rparr>
      | _ \<Rightarrow> Inr \<lparr>rt_since = since, rt_until = until\<rparr>)"

text \<open>An interval with optional inclusive ends, and what it means for it to be in order.\<close>

definition bounds_ordered :: "int option \<Rightarrow> int option \<Rightarrow> bool" where
  "bounds_ordered a b \<longleftrightarrow> (case (a, b) of (Some x, Some y) \<Rightarrow> x \<le> y | _ \<Rightarrow> True)"

definition sequence_ok :: "sequence_range \<Rightarrow> bool" where
  "sequence_ok s \<longleftrightarrow> bounds_ordered (sr_from s) (sr_to s) \<and>
     (\<forall>v \<in> set_option (sr_from s) \<union> set_option (sr_to s). 0 \<le> v)"

definition time_ok :: "requested_time \<Rightarrow> bool" where
  "time_ok t \<longleftrightarrow> bounds_ordered (rt_since t) (rt_until t)"

lemma range_constructors_ok:
  "new_sequence_range a b = Inr s \<Longrightarrow> sequence_ok s"
  "requested_time_range c d = Inr t \<Longrightarrow> time_ok t"
  by (auto simp: new_sequence_range_def sequence_ok_def bounds_ordered_def requested_time_range_def
      time_ok_def split: option.splits if_splits)

section \<open>The request\<close>

record predicates =
  mp_role :: "role option"
  mp_kinds :: "message_kind list option"
  mp_providers :: "provider list option"
  mp_session :: "string option"
  mp_workspace_path_prefix :: "string option"
  mp_transcript_path_prefix :: "string option"
  mp_exclude_workspace_path_prefixes :: "string list"
  mp_exclude_transcript_path_prefixes :: "string list"
  mp_exclude_session_ids :: "string list"
  mp_time :: requested_time
  mp_sequence :: "sequence_range option"
  mp_tool_name_contains :: "string option"
  mp_include_compaction :: bool

definition default_predicates :: predicates where
  "default_predicates =
     \<lparr>mp_role = None, mp_kinds = None, mp_providers = None, mp_session = None,
      mp_workspace_path_prefix = None, mp_transcript_path_prefix = None,
      mp_exclude_workspace_path_prefixes = [], mp_exclude_transcript_path_prefixes = [],
      mp_exclude_session_ids = [], mp_time = \<lparr>rt_since = None, rt_until = None\<rparr>,
      mp_sequence = None, mp_tool_name_contains = None, mp_include_compaction = True\<rparr>"

record presentation =
  mv_message_lines :: "line_window option"
  mv_detail :: "detail_level option"
  mv_field_view :: "field_view_budget option"
  mv_match_view :: "match_view_budget option"

definition default_presentation :: presentation where
  "default_presentation =
     \<lparr>mv_message_lines = None, mv_detail = None, mv_field_view = None, mv_match_view = None\<rparr>"

definition is_ascii_lowercase :: "char \<Rightarrow> bool" where
  "is_ascii_lowercase c = (let n = (of_char c :: nat) in 97 \<le> n \<and> n \<le> 122)"

definition is_dash_separated_phrase :: "string \<Rightarrow> bool" where
  "is_dash_separated_phrase value \<longleftrightarrow>
     value \<noteq> [] \<and>
     list_all (\<lambda>part. part \<noteq> [] \<and> list_all is_ascii_lowercase part) (split_on (CHR ''-'') value)"

record purpose_selection =
  ps_name :: string
  ps_version :: "nat option"

definition new_purpose_selection ::
    "string \<Rightarrow> nat option \<Rightarrow> message_search_error + purpose_selection" where
  "new_purpose_selection name0 version =
     res_bind (non_empty_value ''purpose'' name0) (\<lambda>name.
       if \<not> is_dash_separated_phrase name
       then Inl (InvalidParameter ''purpose'' (Reason ''must be a lowercase dash-separated phrase''))
       else Inr \<lparr>ps_name = name, ps_version = version\<rparr>)"

datatype search_surface = SurfaceRust | SurfaceCli | SurfaceMcp | SurfacePython

datatype search_rule =
    DetailOwnsPresentationBudgets
  | SequenceRequiresSession
  | KindsMustRemainSatisfiable
  | CompactionRoleRequiresCompactionKind
  | ToolArgumentRequiresToolCallKind
  | MatchViewRequiresQuery
  | FuzzyRejectsMatchWindow
  | LatestWindowRequiresSession
  | FuzzyRejectsAllResults

definition all_rules :: "search_rule list" where
  "all_rules =
     [DetailOwnsPresentationBudgets, SequenceRequiresSession, KindsMustRemainSatisfiable,
      CompactionRoleRequiresCompactionKind, ToolArgumentRequiresToolCallKind, MatchViewRequiresQuery,
      FuzzyRejectsMatchWindow, LatestWindowRequiresSession, FuzzyRejectsAllResults]"

fun rule_as_str :: "search_rule \<Rightarrow> string" where
  "rule_as_str DetailOwnsPresentationBudgets = ''detail_owns_presentation_budgets''"
| "rule_as_str SequenceRequiresSession = ''sequence_requires_session''"
| "rule_as_str KindsMustRemainSatisfiable = ''kinds_must_remain_satisfiable''"
| "rule_as_str CompactionRoleRequiresCompactionKind = ''compaction_role_requires_compaction_kind''"
| "rule_as_str ToolArgumentRequiresToolCallKind = ''tool_argument_requires_tool_call_kind''"
| "rule_as_str MatchViewRequiresQuery = ''match_view_requires_query''"
| "rule_as_str FuzzyRejectsMatchWindow = ''fuzzy_rejects_match_window''"
| "rule_as_str LatestWindowRequiresSession = ''latest_window_requires_session''"
| "rule_as_str FuzzyRejectsAllResults = ''fuzzy_rejects_all_results''"

fun rule_message :: "search_rule \<Rightarrow> string" where
  "rule_message DetailOwnsPresentationBudgets = ''detail conflicts with lines_per_message, field_view, and match_view; omit detail to compose custom presentation budgets''"
| "rule_message SequenceRequiresSession = ''sequence bounds require one session''"
| "rule_message KindsMustRemainSatisfiable = ''the selected kinds exclude every message class, so nothing can match''"
| "rule_message CompactionRoleRequiresCompactionKind = ''role=compaction requires compaction among the selected kinds; include_compaction=false or a kinds set without it removes every match''"
| "rule_message ToolArgumentRequiresToolCallKind = ''tool-argument target requires tool_call among the selected kinds''"
| "rule_message MatchViewRequiresQuery = ''match_view requires a literal, regex, or fuzzy query''"
| "rule_message FuzzyRejectsMatchWindow = ''match_window does not apply to fuzzy queries''"
| "rule_message LatestWindowRequiresSession = ''match_window=latest requires one session''"
| "rule_message FuzzyRejectsAllResults = ''fuzzy search does not support all_results''"

definition rule_error :: "search_rule \<Rightarrow> message_search_error" where
  "rule_error r = Conflict (Reason (rule_as_str r @ '': '' @ rule_message r))"

record request =
  rq_query :: message_query
  rq_target :: message_target
  rq_predicates :: predicates
  rq_match_window :: "match_window option"
  rq_context :: "context_window option"
  rq_presentation :: presentation
  rq_extent :: requested_extent
  rq_purpose :: "purpose_selection option"
  rq_receipt :: "receipt_level option"
  rq_includes :: "message_include list option"

definition request_builder :: "message_query \<Rightarrow> message_target \<Rightarrow> request" where
  "request_builder query target =
     \<lparr>rq_query = query, rq_target = target, rq_predicates = default_predicates,
      rq_match_window = None, rq_context = None, rq_presentation = default_presentation,
      rq_extent = RequestedPage None 0, rq_purpose = None, rq_receipt = None, rq_includes = None\<rparr>"

definition is_fuzzy :: "message_query \<Rightarrow> bool" where
  "is_fuzzy q = (case q of QueryFuzzy _ \<Rightarrow> True | _ \<Rightarrow> False)"

definition validate_request :: "request \<Rightarrow> message_search_error + unit" where
  "validate_request r =
     (let p = rq_predicates r; v = rq_presentation r;
          effective0 = (case mp_kinds p of None \<Rightarrow> default_kind_set | Some ks \<Rightarrow> ks);
          effective = (if \<not> mp_include_compaction p
                       then filter (\<lambda>k. k \<noteq> KindCompaction) effective0 else effective0)
      in if mv_detail v \<noteq> None \<and>
            (mv_message_lines v \<noteq> None \<or> mv_field_view v \<noteq> None \<or> mv_match_view v \<noteq> None)
         then Inl (rule_error DetailOwnsPresentationBudgets)
         else if mp_sequence p \<noteq> None \<and> mp_session p = None
         then Inl (rule_error SequenceRequiresSession)
         else if effective = []
         then Inl (rule_error KindsMustRemainSatisfiable)
         else if mp_role p = Some RoleCompaction \<and> KindCompaction \<notin> set effective
         then Inl (rule_error CompactionRoleRequiresCompactionKind)
         else if mt_field (rq_target r) = FieldToolArgument \<and>
                 (case mp_kinds p of None \<Rightarrow> False | Some kinds \<Rightarrow> KindToolCall \<notin> set kinds)
         then Inl (rule_error ToolArgumentRequiresToolCallKind)
         else if rq_query r = QueryAll \<and> mv_match_view v \<noteq> None
         then Inl (rule_error MatchViewRequiresQuery)
         else if rq_match_window r \<noteq> None \<and> is_fuzzy (rq_query r)
         then Inl (rule_error FuzzyRejectsMatchWindow)
         else if rq_match_window r = Some Latest \<and> mp_session p = None
         then Inl (rule_error LatestWindowRequiresSession)
         else
           (case rq_query r of
              QueryFuzzy _ \<Rightarrow>
                (case rq_extent r of
                   RequestedPage _ _ \<Rightarrow> Inr ()
                 | RequestedAll _ \<Rightarrow> Inl (rule_error FuzzyRejectsAllResults))
            | _ \<Rightarrow> Inr ()))"

section \<open>The builder\<close>

definition update_predicates :: "(predicates \<Rightarrow> predicates) \<Rightarrow> request \<Rightarrow> request" where
  "update_predicates f r = r\<lparr>rq_predicates := f (rq_predicates r)\<rparr>"

definition update_presentation :: "(presentation \<Rightarrow> presentation) \<Rightarrow> request \<Rightarrow> request" where
  "update_presentation f r = r\<lparr>rq_presentation := f (rq_presentation r)\<rparr>"

definition set_providers :: "provider list \<Rightarrow> request \<Rightarrow> message_search_error + request" where
  "set_providers providers r =
     (if providers = []
      then Inl (InvalidParameter ''providers'' (Reason ''must contain at least one provider''))
      else Inr (update_predicates (\<lambda>p. p\<lparr>mp_providers := Some (sort_dedup providers)\<rparr>) r))"

definition set_includes :: "message_include list \<Rightarrow> request \<Rightarrow> request" where
  "set_includes includes r = r\<lparr>rq_includes := Some (sort_dedup includes)\<rparr>"

text \<open>The fallible setters share one shape: a nonempty value, then a field update.\<close>

definition set_non_empty ::
    "string \<Rightarrow> (string \<Rightarrow> predicates \<Rightarrow> predicates) \<Rightarrow> string \<Rightarrow> request \<Rightarrow> message_search_error + request" where
  "set_non_empty parameter update value r =
     res_bind (non_empty_value parameter value) (\<lambda>v. Inr (update_predicates (update v) r))"

datatype builder_call =
    CallRole role
  | CallKind message_kind
  | CallKinds "message_kind list"
  | CallProvider provider
  | CallProviders "provider list"
  | CallSessionId string
  | CallWorkspacePathPrefix string
  | CallTranscriptPathPrefix string
  | CallExcludeWorkspacePathPrefix string
  | CallExcludeTranscriptPathPrefix string
  | CallExcludeSessionId string
  | CallTime requested_time
  | CallSequence sequence_range
  | CallToolNameContains string
  | CallIncludeCompaction bool
  | CallMatchWindow match_window
  | CallContext context_window
  | CallMessageLines line_window
  | CallDetail detail_level
  | CallFieldView field_view_budget
  | CallMatchView match_view_budget
  | CallExtent requested_extent
  | CallPurpose purpose_selection
  | CallReceiptLevel receipt_level
  | CallIncludes "message_include list"

fun builder_step :: "builder_call \<Rightarrow> request \<Rightarrow> message_search_error + request" where
  "builder_step (CallRole x) r = Inr (update_predicates (\<lambda>p. p\<lparr>mp_role := Some x\<rparr>) r)"
| "builder_step (CallKind x) r = Inr (update_predicates (\<lambda>p. p\<lparr>mp_kinds := Some [x]\<rparr>) r)"
| "builder_step (CallKinds xs) r = Inr (update_predicates (\<lambda>p. p\<lparr>mp_kinds := Some xs\<rparr>) r)"
| "builder_step (CallProvider x) r = Inr (update_predicates (\<lambda>p. p\<lparr>mp_providers := Some [x]\<rparr>) r)"
| "builder_step (CallProviders xs) r = set_providers xs r"
| "builder_step (CallSessionId v) r =
     set_non_empty ''session_id'' (\<lambda>x p. p\<lparr>mp_session := Some x\<rparr>) v r"
| "builder_step (CallWorkspacePathPrefix v) r =
     set_non_empty ''workspace_path_prefix'' (\<lambda>x p. p\<lparr>mp_workspace_path_prefix := Some x\<rparr>) v r"
| "builder_step (CallTranscriptPathPrefix v) r =
     set_non_empty ''transcript_path_prefix'' (\<lambda>x p. p\<lparr>mp_transcript_path_prefix := Some x\<rparr>) v r"
| "builder_step (CallExcludeWorkspacePathPrefix v) r =
     set_non_empty ''exclude_workspace_path_prefix''
       (\<lambda>x p. p\<lparr>mp_exclude_workspace_path_prefixes := mp_exclude_workspace_path_prefixes p @ [x]\<rparr>) v r"
| "builder_step (CallExcludeTranscriptPathPrefix v) r =
     set_non_empty ''exclude_transcript_path_prefix''
       (\<lambda>x p. p\<lparr>mp_exclude_transcript_path_prefixes := mp_exclude_transcript_path_prefixes p @ [x]\<rparr>) v r"
| "builder_step (CallExcludeSessionId v) r =
     set_non_empty ''exclude_session_id''
       (\<lambda>x p. p\<lparr>mp_exclude_session_ids := mp_exclude_session_ids p @ [x]\<rparr>) v r"
| "builder_step (CallTime t) r = Inr (update_predicates (\<lambda>p. p\<lparr>mp_time := t\<rparr>) r)"
| "builder_step (CallSequence s) r = Inr (update_predicates (\<lambda>p. p\<lparr>mp_sequence := Some s\<rparr>) r)"
| "builder_step (CallToolNameContains v) r =
     set_non_empty ''tool_name_contains'' (\<lambda>x p. p\<lparr>mp_tool_name_contains := Some x\<rparr>) v r"
| "builder_step (CallIncludeCompaction b) r =
     Inr (update_predicates (\<lambda>p. p\<lparr>mp_include_compaction := b\<rparr>) r)"
| "builder_step (CallMatchWindow w) r = Inr (r\<lparr>rq_match_window := Some w\<rparr>)"
| "builder_step (CallContext c) r = Inr (r\<lparr>rq_context := Some c\<rparr>)"
| "builder_step (CallMessageLines w) r =
     Inr (update_presentation (\<lambda>v. v\<lparr>mv_message_lines := Some w\<rparr>) r)"
| "builder_step (CallDetail d) r = Inr (update_presentation (\<lambda>v. v\<lparr>mv_detail := Some d\<rparr>) r)"
| "builder_step (CallFieldView b) r = Inr (update_presentation (\<lambda>v. v\<lparr>mv_field_view := Some b\<rparr>) r)"
| "builder_step (CallMatchView b) r = Inr (update_presentation (\<lambda>v. v\<lparr>mv_match_view := Some b\<rparr>) r)"
| "builder_step (CallExtent e) r = Inr (r\<lparr>rq_extent := e\<rparr>)"
| "builder_step (CallPurpose p) r = Inr (r\<lparr>rq_purpose := Some p\<rparr>)"
| "builder_step (CallReceiptLevel l) r = Inr (r\<lparr>rq_receipt := Some l\<rparr>)"
| "builder_step (CallIncludes xs) r = Inr (set_includes xs r)"

fun builder_calls :: "builder_call list \<Rightarrow> request \<Rightarrow> message_search_error + request" where
  "builder_calls [] r = Inr r"
| "builder_calls (c # cs) r = res_bind (builder_step c r) (builder_calls cs)"

definition build :: "request \<Rightarrow> message_search_error + request" where
  "build r = res_bind (validate_request r) (\<lambda>_. Inr r)"

section \<open>Rules\<close>

text \<open>
  The rules of the registry, each stated on its own. A rule about the selected kinds is stated
  with the predicate the storage layer runs, not with the list the validation computes.
\<close>

definition admits_kind :: "request \<Rightarrow> message_kind \<Rightarrow> bool" where
  "admits_kind r k =
     predicate_admits
       (kind_predicate_of (mp_kinds (rq_predicates r)) (\<not> mp_include_compaction (rq_predicates r))) k"

fun rule_broken :: "search_rule \<Rightarrow> request \<Rightarrow> bool" where
  "rule_broken DetailOwnsPresentationBudgets r \<longleftrightarrow>
     mv_detail (rq_presentation r) \<noteq> None \<and>
     \<not> (mv_message_lines (rq_presentation r) = None \<and> mv_field_view (rq_presentation r) = None \<and>
        mv_match_view (rq_presentation r) = None)"
| "rule_broken SequenceRequiresSession r \<longleftrightarrow>
     mp_sequence (rq_predicates r) \<noteq> None \<and> mp_session (rq_predicates r) = None"
| "rule_broken KindsMustRemainSatisfiable r \<longleftrightarrow> (\<forall>k. \<not> admits_kind r k)"
| "rule_broken CompactionRoleRequiresCompactionKind r \<longleftrightarrow>
     mp_role (rq_predicates r) = Some RoleCompaction \<and> \<not> admits_kind r KindCompaction"
| "rule_broken ToolArgumentRequiresToolCallKind r \<longleftrightarrow>
     mt_field (rq_target r) = FieldToolArgument \<and> \<not> admits_kind r KindToolCall"
| "rule_broken MatchViewRequiresQuery r \<longleftrightarrow>
     query_text (rq_query r) = None \<and> mv_match_view (rq_presentation r) \<noteq> None"
| "rule_broken FuzzyRejectsMatchWindow r \<longleftrightarrow>
     query_mode (rq_query r) = Some ModeFuzzy \<and> rq_match_window r \<noteq> None"
| "rule_broken LatestWindowRequiresSession r \<longleftrightarrow>
     rq_match_window r = Some Latest \<and> mp_session (rq_predicates r) = None"
| "rule_broken FuzzyRejectsAllResults r \<longleftrightarrow>
     query_mode (rq_query r) = Some ModeFuzzy \<and> (\<exists>offset. rq_extent r = RequestedAll offset)"

lemma admits_kind_iff:
  "admits_kind r k \<longleftrightarrow>
     k \<in> set (effective_kinds_of (mp_kinds (rq_predicates r)) (\<not> mp_include_compaction (rq_predicates r)))"
  by (cases k)
    (auto simp: admits_kind_def kind_predicate_of_def effective_kinds_of_def default_kind_set_def
      message_kind_variants_def Let_def split: option.splits)

lemma default_has_tool_call: "KindToolCall \<in> set default_kind_set"
  by (simp add: default_kind_set_def message_kind_variants_def)

lemma admits_tool_call:
  "admits_kind r KindToolCall \<longleftrightarrow>
     (case mp_kinds (rq_predicates r) of None \<Rightarrow> True | Some kinds \<Rightarrow> KindToolCall \<in> set kinds)"
  by (simp add: admits_kind_iff effective_kinds_of_def default_has_tool_call Let_def split: option.split)

lemma query_mode_fuzzy: "query_mode q = Some ModeFuzzy \<longleftrightarrow> is_fuzzy q"
  by (cases q) (simp_all add: is_fuzzy_def)

lemma query_text_None: "query_text q = None \<longleftrightarrow> q = QueryAll"
  by (cases q) simp_all

lemma fuzzy_all_split:
  "(case rq_query r of
      QueryFuzzy _ \<Rightarrow>
        (case rq_extent r of RequestedPage _ _ \<Rightarrow> Inr () | RequestedAll _ \<Rightarrow> Inl e)
    | _ \<Rightarrow> Inr ()) =
   (if rule_broken FuzzyRejectsAllResults r then Inl e else Inr ())"
  by (cases "rq_query r"; cases "rq_extent r") simp_all

lemma find_rule_Cons:
  "(case find P (x # xs) of None \<Rightarrow> Inr () | Some y \<Rightarrow> Inl (f y)) =
   (if P x then Inl (f x) else (case find P xs of None \<Rightarrow> Inr () | Some y \<Rightarrow> Inl (f y)))"
  by simp

lemma effective_empty:
  "(if \<not> mp_include_compaction p
    then filter (\<lambda>k. k \<noteq> KindCompaction) (case mp_kinds p of None \<Rightarrow> default_kind_set | Some ks \<Rightarrow> ks)
    else (case mp_kinds p of None \<Rightarrow> default_kind_set | Some ks \<Rightarrow> ks)) =
   effective_kinds_of (mp_kinds p) (\<not> mp_include_compaction p)"
  by (simp add: effective_kinds_of_def Let_def)

lemma rule_conditions:
  "rule_broken DetailOwnsPresentationBudgets r \<longleftrightarrow>
     mv_detail (rq_presentation r) \<noteq> None \<and>
     (mv_message_lines (rq_presentation r) \<noteq> None \<or> mv_field_view (rq_presentation r) \<noteq> None \<or>
      mv_match_view (rq_presentation r) \<noteq> None)"
  "rule_broken SequenceRequiresSession r \<longleftrightarrow>
     mp_sequence (rq_predicates r) \<noteq> None \<and> mp_session (rq_predicates r) = None"
  "rule_broken KindsMustRemainSatisfiable r \<longleftrightarrow>
     effective_kinds_of (mp_kinds (rq_predicates r)) (\<not> mp_include_compaction (rq_predicates r)) = []"
  "rule_broken CompactionRoleRequiresCompactionKind r \<longleftrightarrow>
     mp_role (rq_predicates r) = Some RoleCompaction \<and>
     KindCompaction \<notin>
       set (effective_kinds_of (mp_kinds (rq_predicates r)) (\<not> mp_include_compaction (rq_predicates r)))"
  "rule_broken ToolArgumentRequiresToolCallKind r \<longleftrightarrow>
     mt_field (rq_target r) = FieldToolArgument \<and>
     (case mp_kinds (rq_predicates r) of None \<Rightarrow> False | Some kinds \<Rightarrow> KindToolCall \<notin> set kinds)"
  "rule_broken MatchViewRequiresQuery r \<longleftrightarrow>
     rq_query r = QueryAll \<and> mv_match_view (rq_presentation r) \<noteq> None"
  "rule_broken FuzzyRejectsMatchWindow r \<longleftrightarrow> rq_match_window r \<noteq> None \<and> is_fuzzy (rq_query r)"
  "rule_broken LatestWindowRequiresSession r \<longleftrightarrow>
     rq_match_window r = Some Latest \<and> mp_session (rq_predicates r) = None"
proof -
  show "rule_broken KindsMustRemainSatisfiable r \<longleftrightarrow>
     effective_kinds_of (mp_kinds (rq_predicates r)) (\<not> mp_include_compaction (rq_predicates r)) = []"
    unfolding rule_broken.simps admits_kind_iff by (metis all_not_in_conv set_empty)
  show "rule_broken ToolArgumentRequiresToolCallKind r \<longleftrightarrow>
     mt_field (rq_target r) = FieldToolArgument \<and>
     (case mp_kinds (rq_predicates r) of None \<Rightarrow> False | Some kinds \<Rightarrow> KindToolCall \<notin> set kinds)"
    by (simp add: admits_tool_call split: option.split)
qed (auto simp: admits_kind_iff query_mode_fuzzy query_text_None)

lemma first_broken_rule:
  "validate_request r =
     (case find (\<lambda>rule. rule_broken rule r) all_rules of
        None \<Rightarrow> Inr ()
      | Some rule \<Rightarrow> Inl (rule_error rule))"
  unfolding validate_request_def Let_def effective_empty fuzzy_all_split all_rules_def find_rule_Cons
    rule_conditions
  by (simp only: find.simps option.case)

lemma in_all_rules: "rule \<in> set all_rules"
  by (cases rule) (simp_all add: all_rules_def)

lemma validated_rule:
  assumes "validate_request r = Inr ()"
  shows "\<not> rule_broken rule r"
proof -
  from assms have "find (\<lambda>rule. rule_broken rule r) all_rules = None"
    by (simp add: first_broken_rule split: option.splits)
  then show ?thesis using in_all_rules [of rule] unfolding find_None_iff by blast
qed

section \<open>What a built request guarantees\<close>

definition predicates_ok :: "predicates \<Rightarrow> bool" where
  "predicates_ok p \<longleftrightarrow>
     (case mp_providers p of None \<Rightarrow> True | Some ps \<Rightarrow> ps \<noteq> [] \<and> sorted_wrt (<) ps) \<and>
     list_all (\<lambda>v. v \<noteq> Some [])
       [mp_session p, mp_workspace_path_prefix p, mp_transcript_path_prefix p, mp_tool_name_contains p] \<and>
     [] \<notin> set (mp_exclude_workspace_path_prefixes p) \<and>
     [] \<notin> set (mp_exclude_transcript_path_prefixes p) \<and>
     [] \<notin> set (mp_exclude_session_ids p) \<and>
     time_ok (mp_time p) \<and>
     (case mp_sequence p of None \<Rightarrow> True | Some s \<Rightarrow> sequence_ok s)"

definition request_ok :: "request \<Rightarrow> bool" where
  "request_ok r \<longleftrightarrow>
     query_ok (rq_query r) \<and> target_ok (rq_target r) \<and> predicates_ok (rq_predicates r) \<and>
     (case rq_includes r of None \<Rightarrow> True | Some is \<Rightarrow> sorted_wrt (<) is)"

text \<open>
  The arguments of the setters that take a constructed value: a range that its constructor
  accepted.
\<close>

fun call_ok :: "builder_call \<Rightarrow> bool" where
  "call_ok (CallTime t) \<longleftrightarrow> (\<exists>a b. requested_time_range a b = Inr t)"
| "call_ok (CallSequence s) \<longleftrightarrow> (\<exists>a b. new_sequence_range a b = Inr s)"
| "call_ok _ \<longleftrightarrow> True"

lemma new_request_ok: "query_ok q \<Longrightarrow> target_ok t \<Longrightarrow> request_ok (request_builder q t)"
  by (simp add: request_ok_def request_builder_def predicates_ok_def default_predicates_def
      time_ok_def bounds_ordered_def)

lemma update_predicates_ok:
  "request_ok r \<Longrightarrow> predicates_ok (f (rq_predicates r)) \<Longrightarrow> request_ok (update_predicates f r)"
  by (simp add: request_ok_def update_predicates_def)

lemma update_presentation_ok: "request_ok (update_presentation f r) \<longleftrightarrow> request_ok r"
  by (simp add: request_ok_def update_presentation_def)

lemma set_non_empty_ok:
  assumes "set_non_empty parameter update v r = Inr r'" and "request_ok r"
    and "\<And>x p. x \<noteq> [] \<Longrightarrow> predicates_ok p \<Longrightarrow> predicates_ok (update x p)"
  shows "request_ok r'"
  using assms
  by (auto simp: set_non_empty_def non_empty_value_def res_cases request_ok_def update_predicates_def
      split: if_splits)

lemma set_providers_ok: "set_providers ps r = Inr r' \<Longrightarrow> request_ok r \<Longrightarrow> request_ok r'"
  by (auto simp: set_providers_def request_ok_def update_predicates_def predicates_ok_def
      sort_dedup_strict split: if_splits)

lemma request_ok_predicates: "request_ok r \<Longrightarrow> predicates_ok (rq_predicates r)"
  by (simp add: request_ok_def)

lemma predicates_update_ok:
  "predicates_ok p \<Longrightarrow> requested_time_range a b = Inr t \<Longrightarrow> predicates_ok (p\<lparr>mp_time := t\<rparr>)"
  "predicates_ok p \<Longrightarrow> new_sequence_range a b = Inr s \<Longrightarrow> predicates_ok (p\<lparr>mp_sequence := Some s\<rparr>)"
  "predicates_ok p \<Longrightarrow> predicates_ok (p\<lparr>mp_role := role\<rparr>)"
  "predicates_ok p \<Longrightarrow> predicates_ok (p\<lparr>mp_kinds := kinds\<rparr>)"
  "predicates_ok p \<Longrightarrow> predicates_ok (p\<lparr>mp_include_compaction := c\<rparr>)"
  "predicates_ok p \<Longrightarrow> predicates_ok (p\<lparr>mp_providers := Some [v]\<rparr>)"
  by (simp_all add: predicates_ok_def range_constructors_ok)

lemma predicates_name_ok:
  assumes "x \<noteq> []" and "predicates_ok p"
  shows "predicates_ok (p\<lparr>mp_session := Some x\<rparr>)"
    and "predicates_ok (p\<lparr>mp_workspace_path_prefix := Some x\<rparr>)"
    and "predicates_ok (p\<lparr>mp_transcript_path_prefix := Some x\<rparr>)"
    and "predicates_ok (p\<lparr>mp_tool_name_contains := Some x\<rparr>)"
    and "predicates_ok (p\<lparr>mp_exclude_workspace_path_prefixes := mp_exclude_workspace_path_prefixes p @ [x]\<rparr>)"
    and "predicates_ok (p\<lparr>mp_exclude_transcript_path_prefixes := mp_exclude_transcript_path_prefixes p @ [x]\<rparr>)"
    and "predicates_ok (p\<lparr>mp_exclude_session_ids := mp_exclude_session_ids p @ [x]\<rparr>)"
  using assms by (simp_all add: predicates_ok_def)

lemma builder_step_ok:
  assumes "builder_step c r = Inr r'" and "call_ok c" and ok: "request_ok r"
  shows "request_ok r'"
proof -
  note p = request_ok_predicates [OF ok]
  note name = set_non_empty_ok [OF _ ok]
  show ?thesis
  proof (cases c)
    case (CallProviders ps)
    with assms show ?thesis using set_providers_ok by simp
  next
    case (CallIncludes xs)
    with assms show ?thesis by (auto simp: set_includes_def request_ok_def sort_dedup_strict)
  next
    case (CallTime t)
    with assms p show ?thesis by (auto intro: update_predicates_ok predicates_update_ok)
  next
    case (CallSequence s)
    with assms p show ?thesis by (auto intro: update_predicates_ok predicates_update_ok)
  next
    case (CallSessionId v)
    show ?thesis
      by (rule name [OF assms(1) [unfolded CallSessionId builder_step.simps]]) (rule predicates_name_ok)
  next
    case (CallWorkspacePathPrefix v)
    show ?thesis
      by (rule name [OF assms(1) [unfolded CallWorkspacePathPrefix builder_step.simps]]) (rule predicates_name_ok)
  next
    case (CallTranscriptPathPrefix v)
    show ?thesis
      by (rule name [OF assms(1) [unfolded CallTranscriptPathPrefix builder_step.simps]]) (rule predicates_name_ok)
  next
    case (CallExcludeWorkspacePathPrefix v)
    show ?thesis
      by (rule name [OF assms(1) [unfolded CallExcludeWorkspacePathPrefix builder_step.simps]]) (rule predicates_name_ok)
  next
    case (CallExcludeTranscriptPathPrefix v)
    show ?thesis
      by (rule name [OF assms(1) [unfolded CallExcludeTranscriptPathPrefix builder_step.simps]]) (rule predicates_name_ok)
  next
    case (CallExcludeSessionId v)
    show ?thesis
      by (rule name [OF assms(1) [unfolded CallExcludeSessionId builder_step.simps]]) (rule predicates_name_ok)
  next
    case (CallToolNameContains v)
    show ?thesis
      by (rule name [OF assms(1) [unfolded CallToolNameContains builder_step.simps]]) (rule predicates_name_ok)
  qed (use assms p in \<open>auto simp: update_presentation_ok intro!: update_predicates_ok predicates_update_ok\<close>,
      auto simp: request_ok_def)
qed

lemma builder_calls_ok:
  assumes "builder_calls cs r = Inr r'" and "list_all call_ok cs" and "request_ok r"
  shows "request_ok r'"
  using assms
proof (induction cs arbitrary: r)
  case (Cons c cs)
  then show ?case using builder_step_ok by (fastforce simp: res_cases)
qed simp

section \<open>Pages\<close>

datatype execution_order = SessionSequence | FuzzyRelevance

datatype resolved_extent = ResolvedPage nat nat | ResolvedAll nat

datatype page_side = SideNone | SidePresent | SideUnknown

datatype result_set_extent = ExtentAll | ExtentPartial | ExtentUnknown

record page_info =
  pg_extent :: resolved_extent
  pg_returned :: nat
  pg_next_offset :: "nat option"
  pg_ordering :: execution_order
  pg_earlier_results :: page_side
  pg_result_set_extent :: result_set_extent

definition extent_offset :: "resolved_extent \<Rightarrow> nat" where
  "extent_offset e = (case e of ResolvedPage limit offset \<Rightarrow> offset | ResolvedAll offset \<Rightarrow> offset)"

definition new_page_info ::
    "resolved_extent \<Rightarrow> nat \<Rightarrow> nat option \<Rightarrow> execution_order \<Rightarrow> page_info" where
  "new_page_info extent returned next_offset order_by =
     (let offset = extent_offset extent;
          earlier = (if offset = 0 then SideNone
                     else if 0 < returned then SidePresent else SideUnknown);
          result_set = (case (earlier, next_offset \<noteq> None) of
             (SidePresent, _) \<Rightarrow> ExtentPartial
           | (_, True) \<Rightarrow> ExtentPartial
           | (SideNone, False) \<Rightarrow> ExtentAll
           | _ \<Rightarrow> ExtentUnknown)
      in \<lparr>pg_extent = extent, pg_returned = returned, pg_next_offset = next_offset,
          pg_ordering = order_by, pg_earlier_results = earlier, pg_result_set_extent = result_set\<rparr>)"

section \<open>Properties\<close>

text \<open>
  Validation reports the first rule of the registry that the request breaks, in registry
  order, and accepts exactly the requests that break none. The rules on the selected kinds speak
  of the predicate the storage layer applies.
\<close>

theorem validation_reports_first_broken_rule:
  "validate_request r =
     (case find (\<lambda>rule. rule_broken rule r) all_rules of
        None \<Rightarrow> Inr ()
      | Some rule \<Rightarrow> Inl (rule_error rule))"
  by (rule first_broken_rule)

text \<open>
  C27: whatever sequence of builder calls made it, a built request is well formed (canonical provider
  and include sets, nonempty names, ordered ranges), breaks no rule, and selects at least one kind
  of message.
\<close>

theorem built_request_well_formed:
  assumes "query_ok q" and "target_ok t" and "list_all call_ok cs"
    and "res_bind (builder_calls cs (request_builder q t)) build = Inr r"
  shows "request_ok r \<and> \<not> (\<exists>rule \<in> set all_rules. rule_broken rule r) \<and> (\<exists>k. admits_kind r k)"
proof -
  from assms(4) have calls: "builder_calls cs (request_builder q t) = Inr r"
    and valid: "validate_request r = Inr ()"
    by (auto simp: build_def res_cases)
  have ok: "request_ok r"
    using builder_calls_ok [OF calls assms(3) new_request_ok [OF assms(1,2)]] .
  have "find (\<lambda>rule. rule_broken rule r) all_rules = None"
    using valid by (simp add: first_broken_rule split: option.splits)
  then have none: "\<not> rule_broken rule r" if "rule \<in> set all_rules" for rule
    using that by (auto simp: find_None_iff)
  have "KindsMustRemainSatisfiable \<in> set all_rules" by (simp add: all_rules_def)
  then have "\<not> rule_broken KindsMustRemainSatisfiable r" by (rule none)
  with ok none show ?thesis by auto
qed

definition example_calls :: "builder_call list" where
  "example_calls =
     [CallProviders [Codex, Claude, Codex], CallSessionId ''s1'', CallExcludeSessionId ''s2'',
      CallSequence \<lparr>sr_from = Some 2, sr_to = Some 9\<rparr>, CallMatchWindow Latest,
      CallIncludes [RuntimeDiagnostics, ParsedReferences, RuntimeDiagnostics]]"

definition example_request :: request where
  "example_request =
     (case builder_calls example_calls (request_builder (QueryLiteral (lit ''hi'')) target_content) of
        Inr r \<Rightarrow> r | Inl _ \<Rightarrow> request_builder QueryAll target_content)"

theorem built_request_well_formed_witness:
  "request_ok example_request \<and> \<not> (\<exists>rule \<in> set all_rules. rule_broken rule example_request) \<and>
   (\<exists>k. admits_kind example_request k)"
proof (rule built_request_well_formed)
  show "query_ok (QueryLiteral (lit ''hi''))" by (simp add: lit_def)
  show "target_ok target_content" by (simp add: target_constructors_ok)
  have "new_sequence_range (Some 2) (Some 9) = Inr \<lparr>sr_from = Some 2, sr_to = Some 9\<rparr>"
    by (simp add: new_sequence_range_def)
  then show "list_all call_ok example_calls" by (auto simp: example_calls_def)
  have "builder_calls example_calls (request_builder (QueryLiteral (lit ''hi'')) target_content) =
      Inr example_request"
    by (simp add: example_request_def example_calls_def set_providers_def set_non_empty_def
        non_empty_value_def)
  moreover have "validate_request example_request = Inr ()"
    by (simp add: example_request_def example_calls_def set_providers_def set_non_empty_def
        non_empty_value_def validate_request_def update_predicates_def request_builder_def
        default_predicates_def default_presentation_def is_fuzzy_def target_content_def
        set_includes_def default_kind_set_def message_kind_variants_def)
  ultimately show "res_bind (builder_calls example_calls
      (request_builder (QueryLiteral (lit ''hi'')) target_content)) build = Inr example_request"
    by (simp add: build_def)
qed

text \<open>
  The pointers that a tool-argument target accepts are exactly the RFC 6901 pointers: the
  encodings of a list of reference tokens.
\<close>

theorem json_pointers_are_rfc6901:
  "json_pointer v = Inr v \<longleftrightarrow> (\<exists>tokens. v = pointer_of tokens)"
  by (rule json_pointer_grammar)

text \<open>
  A signed line budget survives its conversion to a line window and back, for every 64-bit
  value but the one whose magnitude has no signed representation, which is refused.
\<close>

theorem line_budget_round_trip:
  assumes "i64 v"
  shows "(if v = i64_min then \<not> is_ok (line_window_from_signed v)
    else res_bind (line_window_from_signed v) line_window_to_signed = Inr v)"
  using line_window_round_trip [OF assms] line_window_min by simp

theorem line_budget_round_trip_witness:
  "(if (-5) = i64_min then \<not> is_ok (line_window_from_signed (-5))
    else res_bind (line_window_from_signed (-5)) line_window_to_signed = Inr (-5))"
  by (rule line_budget_round_trip) (simp add: i64_def i64_min_def i64_max_def)

end
