(* ===== verification/SearchPlan.thy ===== *)
theory SearchPlan
  imports MessageSearch
begin

text \<open>
  Planning and paging of a message search (\<open>service.rs\<close>, \<open>db.rs\<close>, \<open>models.rs\<close>): how a request and the
  configuration resolve to a plan, how the plan becomes the storage filters and their validation,
  how a page and an exhaustive traversal are cut from the ordered rows.

  The parameters are the session resolver of the catalog, and the file system behind path prefixes
  (\<open>canonicalize\<close>, \<open>absolute\<close>, the home directory). The build is the non-Windows one.
\<close>

section \<open>Path prefixes\<close>

record host =
  h_home :: "string option"
  h_canonicalize :: "string \<Rightarrow> string option"
  h_absolute :: "string \<Rightarrow> string option"

text \<open>\<open>Path::join\<close>.\<close>

definition path_join :: "string \<Rightarrow> string \<Rightarrow> string" where
  "path_join base rest =
     (if rest \<noteq> [] \<and> hd rest = CHR ''/'' then rest
      else if base = [] \<or> last base = CHR ''/'' then base @ rest
      else base @ CHR ''/'' # rest)"

definition expand_tilde :: "host \<Rightarrow> string \<Rightarrow> string" where
  "expand_tilde h input =
     (let home = (case h_home h of Some d \<Rightarrow> d | None \<Rightarrow> input) in
      case strip_prefix ''~'' input of
        Some rest \<Rightarrow>
          if rest = [] then home
          else if hd rest = CHR ''/'' then path_join home (tl rest)
          else input
      | None \<Rightarrow> input)"

definition is_ascii_alphabetic :: "char \<Rightarrow> bool" where
  "is_ascii_alphabetic c =
     (let n = (of_char c :: nat) in 65 \<le> n \<and> n \<le> 90 \<or> 97 \<le> n \<and> n \<le> 122)"

definition is_windows_absolute_path :: "string \<Rightarrow> bool" where
  "is_windows_absolute_path path =
     (prefix [CHR 0x5c, CHR 0x5c] path \<or>
      (case path of
         drive # colon # slash # _ \<Rightarrow>
           is_ascii_alphabetic drive \<and> colon = CHR '':'' \<and> slash \<in> {CHR 0x5c, CHR ''/''}
       | _ \<Rightarrow> False))"

definition normalize_path_prefix :: "host \<Rightarrow> string \<Rightarrow> string" where
  "normalize_path_prefix h path =
     (if is_windows_absolute_path path then path
      else
        let expanded = expand_tilde h path in
        case h_canonicalize h expanded of
          Some p \<Rightarrow> p
        | None \<Rightarrow> (case h_absolute h expanded of Some p \<Rightarrow> p | None \<Rightarrow> expanded))"

section \<open>Configuration\<close>

record preferences =
  pp_default_limit :: "nat option"
  pp_context_before :: "nat option"
  pp_context_after :: "nat option"
  pp_receipt_level :: "receipt_level option"
  pp_include_refs :: "bool option"
  pp_lines_per_message :: "int option"
  pp_match_evidence_max_chars :: "nat option"

record purpose_definition =
  pd_version :: nat
  pd_preferences :: preferences

record search_config =
  sc_default_limit :: "nat option"
  sc_match_evidence_max_chars :: "nat option"
  sc_context_before :: "nat option"
  sc_context_after :: "nat option"
  sc_max_hits_per_page :: "nat option"
  sc_max_context_neighbors :: "nat option"
  sc_purposes :: "(string \<times> purpose_definition) list"
  sc_mcp_search_messages_limit :: nat
  sc_mcp_preview_chars :: nat
  sc_mcp_lines_per_message :: int
  sc_cli_evidence_preview_chars :: nat
  sc_cli_lines_per_message :: int

definition default_match_evidence_max_chars :: nat where
  "default_match_evidence_max_chars = 220"

datatype config_error =
    McpLimitZero
  | DefaultLimitExceedsMaximum
  | McpLimitExceedsMaximum
  | ContextTotalOverflows
  | ContextExceedsMaximum
  | PurposeNameInvalid string
  | PurposeLinesInvalid string
  | PurposeLimitExceedsMaximum string
  | PurposeContextOverflows string
  | PurposeContextExceedsMaximum string
  | McpPreviewZero
  | CliPreviewZero

definition opt_or :: "'a \<Rightarrow> 'a option \<Rightarrow> 'a" where
  "opt_or d x = (case x of None \<Rightarrow> d | Some v \<Rightarrow> v)"

definition exceeds :: "nat \<Rightarrow> nat option \<Rightarrow> bool" where
  "exceeds n maximum = (case maximum of None \<Rightarrow> False | Some m \<Rightarrow> n > m)"

definition validate_purpose ::
    "search_config \<Rightarrow> string \<times> purpose_definition \<Rightarrow> config_error + unit" where
  "validate_purpose c entry =
     (let name = fst entry; pref = pd_preferences (snd entry) in
      if \<not> is_dash_separated_phrase name then Inl (PurposeNameInvalid name)
      else if (case pp_lines_per_message pref of None \<Rightarrow> False
               | Some lines \<Rightarrow> \<not> is_ok (line_window_from_signed lines)) then Inl (PurposeLinesInvalid name)
      else if (case pp_default_limit pref of None \<Rightarrow> False
               | Some limit \<Rightarrow> exceeds limit (sc_max_hits_per_page c))
        then Inl (PurposeLimitExceedsMaximum name)
      else
        (case sc_max_context_neighbors c of
           None \<Rightarrow> Inr ()
         | Some maximum \<Rightarrow>
             res_bind
               (ok_or (PurposeContextOverflows name)
                 (usize_checked_add (opt_or 0 (pp_context_before pref)) (opt_or 0 (pp_context_after pref))))
               (\<lambda>total. if total > maximum then Inl (PurposeContextExceedsMaximum name) else Inr ())))"

fun validate_purposes ::
    "search_config \<Rightarrow> (string \<times> purpose_definition) list \<Rightarrow> config_error + unit" where
  "validate_purposes c [] = Inr ()"
| "validate_purposes c (e # es) = res_bind (validate_purpose c e) (\<lambda>_. validate_purposes c es)"

text \<open>The part of \<open>Config::validate\<close> that governs message search.\<close>

definition validate_search_config :: "search_config \<Rightarrow> config_error + unit" where
  "validate_search_config c =
     (if sc_mcp_search_messages_limit c = 0 then Inl McpLimitZero
      else if (case sc_default_limit c of None \<Rightarrow> False | Some l \<Rightarrow> exceeds l (sc_max_hits_per_page c))
      then Inl DefaultLimitExceedsMaximum
      else if exceeds (sc_mcp_search_messages_limit c) (sc_max_hits_per_page c)
      then Inl McpLimitExceedsMaximum
      else
        res_bind
          (ok_or ContextTotalOverflows
            (usize_checked_add (opt_or 0 (sc_context_before c)) (opt_or 0 (sc_context_after c))))
          (\<lambda>total.
            if exceeds total (sc_max_context_neighbors c) then Inl ContextExceedsMaximum
            else
              res_bind (validate_purposes c (sc_purposes c)) (\<lambda>_.
                if sc_mcp_preview_chars c = 0 then Inl McpPreviewZero
                else if sc_cli_evidence_preview_chars c = 0 then Inl CliPreviewZero
                else Inr ())))"

section \<open>The plan\<close>

datatype value_origin =
    OriginExplicit
  | OriginDetailPreset detail_level
  | OriginPurpose string nat
  | OriginSurfaceConfig search_surface
  | OriginOperationConfig
  | OriginTypedDefault
  | OriginDerived

record resolved_predicates =
  rp_role :: "role option"
  rp_kinds :: "message_kind list option"
  rp_providers :: "provider list option"
  rp_session_id :: "string option"
  rp_workspace_path_prefix :: "string option"
  rp_transcript_path_prefix :: "string option"
  rp_exclude_workspace_path_prefixes :: "string list"
  rp_exclude_transcript_path_prefixes :: "string list"
  rp_exclude_session_ids :: "string list"
  rp_time :: requested_time
  rp_sequence :: "sequence_range option"
  rp_tool_name_contains :: "string option"
  rp_include_compaction :: bool

record retrieval_plan =
  rv_query :: message_query
  rv_target :: message_target
  rv_predicates :: resolved_predicates
  rv_match_window :: "match_window option"
  rv_ordering :: execution_order
  rv_extent :: resolved_extent

record resolved_presentation =
  rs_include_refs :: bool
  rs_message_lines :: line_window
  rs_match_evidence_max_chars :: nat
  rs_detail :: "detail_level option"
  rs_field_view :: field_view_budget
  rs_match_view :: match_view_budget

record response_plan =
  rn_context :: context_window
  rn_presentation :: resolved_presentation
  rn_includes :: "message_include list"

record search_origins =
  og_result_extent :: value_origin
  og_context_messages_before :: value_origin
  og_context_messages_after :: value_origin
  og_includes :: value_origin
  og_detail :: value_origin
  og_lines_per_message :: value_origin
  og_field_view :: value_origin
  og_match_view :: value_origin
  og_receipt_level :: value_origin
  og_result_order :: value_origin

record search_plan =
  pl_retrieval :: retrieval_plan
  pl_response :: response_plan
  pl_receipt :: receipt_level
  pl_origins :: search_origins

record session_record =
  ss_id :: string
  ss_provider :: provider

text \<open>A panic of the planner (\<open>expect\<close>, \<open>unwrap\<close>) is a value of its own.\<close>

datatype plan_error =
    SearchError message_search_error
  | SessionError string
  | PlanPanic string

type_synonym 'a plan_result = "plan_error + 'a"

definition param_error :: "string \<Rightarrow> reason \<Rightarrow> 'a plan_result" where
  "param_error parameter reason = Inl (SearchError (InvalidParameter parameter reason))"

fun lift_search :: "message_search_error + 'a \<Rightarrow> 'a plan_result" where
  "lift_search (Inl e) = Inl (SearchError e)"
| "lift_search (Inr v) = Inr v"

type_synonym purpose = "(string \<times> purpose_definition) option"

definition resolve_purpose :: "search_config \<Rightarrow> request \<Rightarrow> purpose plan_result" where
  "resolve_purpose c r =
     (case rq_purpose r of
        None \<Rightarrow> Inr None
      | Some selection \<Rightarrow>
          (case map_of (sc_purposes c) (ps_name selection) of
             None \<Rightarrow> param_error ''purpose'' (ReasonArgs ''unknown message-search purpose {:?}'' [ps_name selection] [])
           | Some definition \<Rightarrow>
               (case ps_version selection of
                  Some version \<Rightarrow>
                    if version \<noteq> pd_version definition
                    then param_error ''purpose_version''
                      (ReasonArgs ''purpose {:?} version {} is unavailable; configured version is {}''
                        [ps_name selection] [int version, int (pd_version definition)])
                    else Inr (Some (ps_name selection, definition))
                | None \<Rightarrow> Inr (Some (ps_name selection, definition)))))"

text \<open>
  \<open>purpose_preferences.and_then(f)\<close> together with \<open>purpose_origin().unwrap()\<close>: a preference exists only
  when a purpose does, so the origin is there.
\<close>

definition preferred :: "purpose \<Rightarrow> (preferences \<Rightarrow> 'a option) \<Rightarrow> ('a \<times> value_origin) option" where
  "preferred p f =
     (case p of
        None \<Rightarrow> None
      | Some (name, definition) \<Rightarrow>
          map_option (\<lambda>v. (v, OriginPurpose name (pd_version definition))) (f (pd_preferences definition)))"

definition resolve_limit ::
    "search_config \<Rightarrow> search_surface \<Rightarrow> request \<Rightarrow> purpose \<Rightarrow> nat option \<times> value_origin" where
  "resolve_limit c surface r p =
     (case rq_extent r of
        RequestedAll offset \<Rightarrow> (None, OriginExplicit)
      | RequestedPage (Some limit) offset \<Rightarrow> (Some limit, OriginExplicit)
      | RequestedPage None offset \<Rightarrow>
          (case preferred p pp_default_limit of
             Some (limit, origin) \<Rightarrow> (Some limit, origin)
           | None \<Rightarrow>
               (case sc_default_limit c of
                  Some limit \<Rightarrow> (Some limit, OriginOperationConfig)
                | None \<Rightarrow>
                    let surface_limit = (if surface = SurfaceMcp
                                         then non_zero (sc_mcp_search_messages_limit c) else None)
                    in case surface_limit of
                         Some limit \<Rightarrow> (Some limit, OriginSurfaceConfig surface)
                       | None \<Rightarrow> (None, OriginTypedDefault))))"

definition resolve_extent ::
    "search_config \<Rightarrow> request \<Rightarrow> nat option \<Rightarrow> resolved_extent plan_result" where
  "resolve_extent c r limit =
     res_bind (case (limit, sc_max_hits_per_page c) of
        (Some current, Some maximum) \<Rightarrow>
          if current > maximum
          then param_error ''limit''
            (ReasonArgs ''resolved message-search limit {} exceeds search.budgets.max_hits_per_page {}; lower the request, purpose, operation default, or MCP default''
              [] [int current, int maximum])
          else Inr ()
      | _ \<Rightarrow> Inr ())
     (\<lambda>_. case rq_extent r of
        RequestedAll offset \<Rightarrow> Inr (ResolvedAll offset)
      | RequestedPage _ offset \<Rightarrow>
          (case limit of
             Some l \<Rightarrow> Inr (ResolvedPage l offset)
           | None \<Rightarrow>
               if is_fuzzy (rq_query r)
               then param_error ''limit'' (Reason ''fuzzy search requires a positive page size from the request or configuration'')
               else Inr (ResolvedAll offset)))"

text \<open>\<open>context_before\<close> and \<open>context_after\<close> resolve separately.\<close>

definition resolve_side ::
    "purpose \<Rightarrow> (preferences \<Rightarrow> nat option) \<Rightarrow> nat option \<Rightarrow> nat \<times> value_origin" where
  "resolve_side p preference configured =
     (case preferred p preference of
        Some (value, origin) \<Rightarrow> (value, origin)
      | None \<Rightarrow>
          (case configured of
             Some value \<Rightarrow> (value, OriginOperationConfig)
           | None \<Rightarrow> (0, OriginTypedDefault)))"

definition resolve_context ::
    "search_config \<Rightarrow> request \<Rightarrow> purpose \<Rightarrow> (context_window \<times> value_origin \<times> value_origin) plan_result" where
  "resolve_context c r p =
     (let (context, before_origin, after_origin) =
        (case rq_context r of
           Some context \<Rightarrow> (context, OriginExplicit, OriginExplicit)
         | None \<Rightarrow>
             (let (before, before_origin) = resolve_side p pp_context_before (sc_context_before c);
                  (after, after_origin) = resolve_side p pp_context_after (sc_context_after c)
              in (\<lparr>cw_before = before, cw_after = after\<rparr>, before_origin, after_origin)))
      in case sc_max_context_neighbors c of
           None \<Rightarrow> Inr (context, before_origin, after_origin)
         | Some maximum \<Rightarrow>
             (case usize_checked_add (cw_before context) (cw_after context) of
                None \<Rightarrow> param_error ''context'' (Reason ''resolved message-search context total overflows'')
              | Some neighbors \<Rightarrow>
                  if neighbors > maximum
                  then param_error ''context''
                    (ReasonArgs ''resolved message-search context total {} exceeds search.budgets.max_context_neighbors_per_hit {}; lower context_before or context_after''
                      [] [int neighbors, int maximum])
                  else Inr (context, before_origin, after_origin)))"

definition resolve_includes ::
    "search_surface \<Rightarrow> request \<Rightarrow> purpose \<Rightarrow> message_include list \<times> value_origin" where
  "resolve_includes surface r p =
     (case rq_includes r of
        Some includes \<Rightarrow> (includes, OriginExplicit)
      | None \<Rightarrow>
          (case preferred p pp_include_refs of
             Some (value, origin) \<Rightarrow> (if value then [ParsedReferences] else [], origin)
           | None \<Rightarrow>
               if surface = SurfaceMcp then ([NormalizedSessionMetadata], OriginSurfaceConfig surface)
               else ([], OriginTypedDefault)))"

definition resolve_message_lines ::
    "search_config \<Rightarrow> search_surface \<Rightarrow> request \<Rightarrow> purpose \<Rightarrow> (line_window \<times> value_origin) plan_result" where
  "resolve_message_lines c surface r p =
     (case mv_message_lines (rq_presentation r) of
        Some value \<Rightarrow> Inr (value, OriginExplicit)
      | None \<Rightarrow>
          if mv_detail (rq_presentation r) = Some DetailFull
          then Inr (LinesFull, OriginDetailPreset DetailFull)
          else
            (case preferred p pp_lines_per_message of
               Some (value, origin) \<Rightarrow>
                 res_map (\<lambda>w. (w, origin)) (lift_search (line_window_from_signed value))
             | None \<Rightarrow>
                 let value = (case surface of
                       SurfaceCli \<Rightarrow> sc_cli_lines_per_message c
                     | SurfaceMcp \<Rightarrow> sc_mcp_lines_per_message c
                     | _ \<Rightarrow> 0)
                 in res_map (\<lambda>w. (w, OriginSurfaceConfig surface))
                      (lift_search (line_window_from_signed value))))"

definition resolve_match_evidence :: "search_config \<Rightarrow> purpose \<Rightarrow> nat \<times> value_origin" where
  "resolve_match_evidence c p =
     (case preferred p pp_match_evidence_max_chars of
        Some (value, origin) \<Rightarrow> (value, origin)
      | None \<Rightarrow>
          (case sc_match_evidence_max_chars c of
             Some value \<Rightarrow> (value, OriginOperationConfig)
           | None \<Rightarrow> (default_match_evidence_max_chars, OriginTypedDefault)))"

definition resolve_field_view ::
    "search_config \<Rightarrow> search_surface \<Rightarrow> request \<Rightarrow> (field_view_budget \<times> value_origin) plan_result" where
  "resolve_field_view c surface r =
     (let compact_boundary_chars = (case surface of
            SurfaceMcp \<Rightarrow> sc_mcp_preview_chars c
          | SurfaceCli \<Rightarrow> sc_cli_evidence_preview_chars c
          | _ \<Rightarrow> default_match_evidence_max_chars)
      in case mv_field_view (rq_presentation r) of
           Some value \<Rightarrow> Inr (value, OriginExplicit)
         | None \<Rightarrow>
             (case mv_detail (rq_presentation r) of
                Some DetailCompact \<Rightarrow>
                  (case non_zero compact_boundary_chars of
                     None \<Rightarrow> Inl (PlanPanic ''validated presentation defaults are positive'')
                   | Some n \<Rightarrow> Inr (FieldMaxChars n, OriginDetailPreset DetailCompact))
              | Some DetailFull \<Rightarrow> Inr (FieldNoCharLimit, OriginDetailPreset DetailFull)
              | None \<Rightarrow>
                  if surface = SurfaceMcp then
                    (case non_zero (sc_mcp_preview_chars c) of
                       None \<Rightarrow> Inl (PlanPanic ''validated MCP preview_chars is positive'')
                     | Some n \<Rightarrow> Inr (FieldMaxChars n, OriginSurfaceConfig surface))
                  else Inr (FieldNoCharLimit, OriginTypedDefault)))"

definition resolve_match_view ::
    "request \<Rightarrow> nat \<times> value_origin \<Rightarrow> match_view_budget \<times> value_origin" where
  "resolve_match_view r evidence =
     (case mv_match_view (rq_presentation r) of
        Some value \<Rightarrow> (value, OriginExplicit)
      | None \<Rightarrow>
          (case mv_detail (rq_presentation r) of
             Some DetailFull \<Rightarrow> (MinimalSpan, OriginDetailPreset DetailFull)
           | Some DetailCompact \<Rightarrow> (MatchMaxChars (fst evidence), OriginDetailPreset DetailCompact)
           | None \<Rightarrow> (MatchMaxChars (fst evidence), snd evidence)))"

definition resolve_receipt :: "request \<Rightarrow> purpose \<Rightarrow> receipt_level \<times> value_origin" where
  "resolve_receipt r p =
     (case rq_receipt r of
        Some value \<Rightarrow> (value, OriginExplicit)
      | None \<Rightarrow>
          (case preferred p pp_receipt_level of
             Some (value, origin) \<Rightarrow> (value, origin)
           | None \<Rightarrow> (ReceiptNone, OriginTypedDefault)))"

definition resolve_predicates ::
    "host \<Rightarrow> (string \<Rightarrow> string + session_record) \<Rightarrow> predicates \<Rightarrow> resolved_predicates plan_result" where
  "resolve_predicates h resolve_session p =
     res_bind
       (case mp_session p of
          None \<Rightarrow> Inr None
        | Some s \<Rightarrow> (case resolve_session s of Inl e \<Rightarrow> Inl (SessionError e) | Inr v \<Rightarrow> Inr (Some v)))
       (\<lambda>resolved.
         if (case (resolved, mp_providers p) of
               (Some session, Some providers) \<Rightarrow> ss_provider session \<notin> set providers
             | _ \<Rightarrow> False)
         then Inl (SearchError (Conflict (ReasonArgs
           ''session_id {:?} resolves to provider {}, outside providers=[{}]; include {} in providers or remove session_id''
           (case (resolved, mp_providers p) of
              (Some session, Some providers) \<Rightarrow>
                [opt_or [] (mp_session p), provider_as_str (ss_provider session),
                 join '', '' (map provider_as_str providers), provider_as_str (ss_provider session)]
            | _ \<Rightarrow> []) [])))
         else
           let normalize = normalize_path_prefix h in
           Inr \<lparr>rp_role = mp_role p, rp_kinds = mp_kinds p, rp_providers = mp_providers p,
             rp_session_id = map_option ss_id resolved,
             rp_workspace_path_prefix = map_option normalize (mp_workspace_path_prefix p),
             rp_transcript_path_prefix = map_option normalize (mp_transcript_path_prefix p),
             rp_exclude_workspace_path_prefixes = map normalize (mp_exclude_workspace_path_prefixes p),
             rp_exclude_transcript_path_prefixes = map normalize (mp_exclude_transcript_path_prefixes p),
             rp_exclude_session_ids = mp_exclude_session_ids p,
             rp_time = mp_time p, rp_sequence = mp_sequence p,
             rp_tool_name_contains = mp_tool_name_contains p,
             rp_include_compaction = mp_include_compaction p\<rparr>)"

definition effective_evidence :: "match_view_budget \<Rightarrow> nat \<Rightarrow> nat" where
  "effective_evidence view evidence =
     (case view of MinimalSpan \<Rightarrow> evidence | MatchMaxChars n \<Rightarrow> n)"

definition plan_request ::
    "host \<Rightarrow> search_config \<Rightarrow> search_surface \<Rightarrow> (string \<Rightarrow> string + session_record) \<Rightarrow> request \<Rightarrow>
     search_plan plan_result" where
  "plan_request h c surface resolve_session r =
     res_bind (resolve_purpose c r) (\<lambda>p.
     let (limit, limit_origin) = resolve_limit c surface r p in
     res_bind (resolve_extent c r limit) (\<lambda>extent.
     res_bind (resolve_context c r p) (\<lambda>(context, before_origin, after_origin).
     let (includes, includes_origin) = resolve_includes surface r p;
         detail = mv_detail (rq_presentation r);
         detail_origin = (if detail \<noteq> None then OriginExplicit else OriginTypedDefault) in
     res_bind (resolve_message_lines c surface r p) (\<lambda>(lines, lines_origin).
     let evidence = resolve_match_evidence c p in
     res_bind (resolve_field_view c surface r) (\<lambda>(field_view, field_view_origin).
     let (match_view, match_view_origin) = resolve_match_view r evidence;
         (receipt, receipt_origin) = resolve_receipt r p in
     res_bind (resolve_predicates h resolve_session (rq_predicates r)) (\<lambda>predicates.
     let order_by = (if is_fuzzy (rq_query r) then FuzzyRelevance else SessionSequence) in
     Inr \<lparr>pl_retrieval = \<lparr>rv_query = rq_query r, rv_target = rq_target r, rv_predicates = predicates,
              rv_match_window = rq_match_window r, rv_ordering = order_by, rv_extent = extent\<rparr>,
          pl_response = \<lparr>rn_context = context,
              rn_presentation =
                \<lparr>rs_include_refs = ParsedReferences \<in> set includes, rs_message_lines = lines,
                 rs_match_evidence_max_chars = effective_evidence match_view (fst evidence),
                 rs_detail = detail, rs_field_view = field_view, rs_match_view = match_view\<rparr>,
              rn_includes = includes\<rparr>,
          pl_receipt = receipt,
          pl_origins = \<lparr>og_result_extent = limit_origin, og_context_messages_before = before_origin,
              og_context_messages_after = after_origin, og_includes = includes_origin,
              og_detail = detail_origin, og_lines_per_message = lines_origin,
              og_field_view = field_view_origin, og_match_view = match_view_origin,
              og_receipt_level = receipt_origin, og_result_order = OriginDerived\<rparr>\<rparr>))))))"

section \<open>Storage filters\<close>

datatype message_order = OldestFirst | NewestFirst

record message_filters =
  mf_role :: "role option"
  mf_kinds :: "message_kind list option"
  mf_field :: "search_field option"
  mf_argument_path :: "string option"
  mf_providers :: "provider list option"
  mf_session_id :: "string option"
  mf_path_prefix :: "string option"
  mf_exclude_path_prefixes :: "string list"
  mf_workspace_path_prefix :: "string option"
  mf_transcript_path_prefix :: "string option"
  mf_exclude_workspace_path_prefixes :: "string list"
  mf_exclude_transcript_path_prefixes :: "string list"
  mf_exclude_session_ids :: "string list"
  mf_since :: "instant option"
  mf_until :: "instant option"
  mf_seq_from :: "int option"
  mf_seq_to :: "int option"
  mf_match_mode :: message_search_mode
  mf_tool :: "string option"
  mf_no_compaction :: bool
  mf_session_kinds :: "session_kind list option"
  mf_limit :: nat
  mf_offset :: nat

datatype filters_error =
    FuzzyTooShort
  | FuzzyBlank
  | FuzzyUnlimited
  | ModeNeedsQuery message_search_mode
  | OffsetExceedsI64
  | LimitExceedsI64
  | OffsetPlusLimitExceedsI64
  | NegativeSequence
  | ReversedSequence
  | ToolArgumentNeedsPath
  | ArgumentPathInvalid message_search_error
  | ToolArgumentNeedsToolCall
  | PathNeedsToolArgument

definition validate_fuzzy :: "message_filters \<Rightarrow> scalars \<Rightarrow> filters_error + unit" where
  "validate_fuzzy f query =
     (if mf_match_mode f = ModeFuzzy then
        (if length (take 3 query) < 3 then Inl FuzzyTooShort
         else if trim query = [] then Inl FuzzyBlank
         else if mf_limit f = 0 then Inl FuzzyUnlimited
         else Inr ())
      else Inr ())"

definition validate_window :: "message_filters \<Rightarrow> filters_error + unit" where
  "validate_window f =
     res_bind (ok_or OffsetExceedsI64 (i64_try_from (mf_offset f))) (\<lambda>offset.
       if 0 < mf_limit f then
         res_bind (ok_or LimitExceedsI64 (i64_try_from (mf_limit f))) (\<lambda>limit.
           res_bind (ok_or OffsetPlusLimitExceedsI64 (i64_checked_add offset limit)) (\<lambda>_. Inr ()))
       else Inr ())"

definition validate_sequence_bounds :: "message_filters \<Rightarrow> filters_error + unit" where
  "validate_sequence_bounds f =
     (if mf_seq_from f \<noteq> None \<or> mf_seq_to f \<noteq> None then
        (if (case mf_seq_from f of None \<Rightarrow> False | Some v \<Rightarrow> v < 0) \<or>
            (case mf_seq_to f of None \<Rightarrow> False | Some v \<Rightarrow> v < 0) then Inl NegativeSequence
         else
           (case (mf_seq_from f, mf_seq_to f) of
              (Some from, Some to) \<Rightarrow> if from \<le> to then Inr () else Inl ReversedSequence
            | _ \<Rightarrow> Inr ()))
      else Inr ())"

definition validate_argument :: "message_filters \<Rightarrow> filters_error + unit" where
  "validate_argument f =
     (let field = opt_or FieldContent (mf_field f) in
      if field = FieldToolArgument then
        res_bind (ok_or ToolArgumentNeedsPath (mf_argument_path f)) (\<lambda>pointer.
          (case json_pointer pointer of
             Inl e \<Rightarrow> Inl (ArgumentPathInvalid e)
           | Inr _ \<Rightarrow>
               if (case mf_kinds f of None \<Rightarrow> True | Some kinds \<Rightarrow> KindToolCall \<in> set kinds)
               then Inr () else Inl ToolArgumentNeedsToolCall))
      else if mf_argument_path f \<noteq> None then Inl PathNeedsToolArgument
      else Inr ())"

definition validate_filters :: "message_filters \<Rightarrow> scalars \<Rightarrow> filters_error + unit" where
  "validate_filters f query =
     res_bind (validate_fuzzy f query) (\<lambda>_.
       if query = [] \<and> mf_match_mode f \<noteq> ModeLiteral then Inl (ModeNeedsQuery (mf_match_mode f))
       else
         res_bind (validate_window f) (\<lambda>_.
           res_bind (validate_sequence_bounds f) (\<lambda>_. validate_argument f)))"

definition narrows_corpus :: "message_filters \<Rightarrow> bool" where
  "narrows_corpus f \<longleftrightarrow>
     mf_role f \<noteq> None \<or> mf_kinds f \<noteq> None \<or> mf_providers f \<noteq> None \<or> mf_session_id f \<noteq> None \<or>
     mf_path_prefix f \<noteq> None \<or> mf_exclude_path_prefixes f \<noteq> [] \<or>
     mf_workspace_path_prefix f \<noteq> None \<or> mf_transcript_path_prefix f \<noteq> None \<or>
     mf_exclude_workspace_path_prefixes f \<noteq> [] \<or> mf_exclude_transcript_path_prefixes f \<noteq> [] \<or>
     mf_exclude_session_ids f \<noteq> [] \<or> mf_since f \<noteq> None \<or> mf_until f \<noteq> None \<or>
     mf_seq_from f \<noteq> None \<or> mf_seq_to f \<noteq> None \<or> mf_tool f \<noteq> None \<or> mf_no_compaction f"

text \<open>\<open>Db::message_plan_execution\<close>: the query text, the filters and the order of a plan.\<close>

datatype execution_error = LookAheadOverflows

definition plan_limit :: "resolved_extent \<Rightarrow> execution_error + (nat \<times> nat)" where
  "plan_limit extent =
     (case extent of
        ResolvedPage limit offset \<Rightarrow>
          res_map (\<lambda>l. (l, offset)) (ok_or LookAheadOverflows (usize_checked_add limit 1))
      | ResolvedAll offset \<Rightarrow> Inr (0, offset))"

definition message_plan_execution ::
    "retrieval_plan \<Rightarrow> execution_error + (scalars \<times> message_filters \<times> message_order)" where
  "message_plan_execution plan =
     (let query = opt_or [] (query_text (rv_query plan));
          match_mode = (case rv_query plan of
             QueryAll \<Rightarrow> ModeLiteral
           | QueryLiteral _ \<Rightarrow> ModeLiteral
           | QueryRegex _ \<Rightarrow> ModeRegex
           | QueryFuzzy _ \<Rightarrow> ModeFuzzy);
          p = rv_predicates plan
      in res_bind (plan_limit (rv_extent plan)) (\<lambda>(limit, offset).
           Inr (query,
             \<lparr>mf_role = rp_role p, mf_kinds = rp_kinds p, mf_field = Some (mt_field (rv_target plan)),
              mf_argument_path = mt_argument_path (rv_target plan), mf_providers = rp_providers p,
              mf_session_id = rp_session_id p, mf_path_prefix = None, mf_exclude_path_prefixes = [],
              mf_workspace_path_prefix = rp_workspace_path_prefix p,
              mf_transcript_path_prefix = rp_transcript_path_prefix p,
              mf_exclude_workspace_path_prefixes = rp_exclude_workspace_path_prefixes p,
              mf_exclude_transcript_path_prefixes = rp_exclude_transcript_path_prefixes p,
              mf_exclude_session_ids = rp_exclude_session_ids p,
              mf_since = rt_since (rp_time p), mf_until = rt_until (rp_time p),
              mf_seq_from = Option.bind (rp_sequence p) sr_from,
              mf_seq_to = Option.bind (rp_sequence p) sr_to,
              mf_match_mode = match_mode, mf_tool = rp_tool_name_contains p,
              mf_no_compaction = (\<not> rp_include_compaction p), mf_session_kinds = None,
              mf_limit = limit, mf_offset = offset\<rparr>,
             if rv_match_window plan = Some Latest then NewestFirst else OldestFirst)))"


section \<open>What planning keeps\<close>

lemma plan_parts:
  assumes "plan_request h c surface rs r = Inr plan"
  obtains p extent cx bo ao lines lo fv fo predicates where
    "resolve_purpose c r = Inr p"
    "resolve_extent c r (fst (resolve_limit c surface r p)) = Inr extent"
    "resolve_context c r p = Inr (cx, bo, ao)"
    "resolve_message_lines c surface r p = Inr (lines, lo)"
    "resolve_field_view c surface r = Inr (fv, fo)"
    "resolve_predicates h rs (rq_predicates r) = Inr predicates"
    "pl_retrieval plan =
      \<lparr>rv_query = rq_query r, rv_target = rq_target r, rv_predicates = predicates,
       rv_match_window = rq_match_window r,
       rv_ordering = (if is_fuzzy (rq_query r) then FuzzyRelevance else SessionSequence),
       rv_extent = extent\<rparr>"
    "rn_context (pl_response plan) = cx"
    "rn_includes (pl_response plan) = fst (resolve_includes surface r p)"
    "rs_message_lines (rn_presentation (pl_response plan)) = lines"
    "rs_field_view (rn_presentation (pl_response plan)) = fv"
    "rs_match_view (rn_presentation (pl_response plan)) =
       fst (resolve_match_view r (resolve_match_evidence c p))"
    "pl_receipt plan = fst (resolve_receipt r p)"
  using assms
  by (auto simp: plan_request_def res_cases Let_def case_prod_beta)

lemma resolve_extent_Inr:
  "resolve_extent c r limit = Inr extent \<longleftrightarrow>
     \<not> (\<exists>n m. limit = Some n \<and> sc_max_hits_per_page c = Some m \<and> n > m) \<and>
     (case rq_extent r of
        RequestedAll offset \<Rightarrow> extent = ResolvedAll offset
      | RequestedPage _ offset \<Rightarrow>
          (case limit of
             Some l \<Rightarrow> extent = ResolvedPage l offset
           | None \<Rightarrow> \<not> is_fuzzy (rq_query r) \<and> extent = ResolvedAll offset))"
  by (cases "limit"; cases "sc_max_hits_per_page c"; cases "rq_extent r")
    (auto simp: resolve_extent_def param_error_def)

lemma resolve_predicates_cases:
  assumes "resolve_predicates h rs p = Inr q"
  obtains resolved where
    "mp_session p = None \<longleftrightarrow> resolved = None"
    "\<And>s. mp_session p = Some s \<Longrightarrow> rs s = Inr (the resolved)"
    "\<And>session providers. resolved = Some session \<Longrightarrow> mp_providers p = Some providers \<Longrightarrow>
       ss_provider session \<in> set providers"
    "q = \<lparr>rp_role = mp_role p, rp_kinds = mp_kinds p, rp_providers = mp_providers p,
       rp_session_id = map_option ss_id resolved,
       rp_workspace_path_prefix = map_option (normalize_path_prefix h) (mp_workspace_path_prefix p),
       rp_transcript_path_prefix = map_option (normalize_path_prefix h) (mp_transcript_path_prefix p),
       rp_exclude_workspace_path_prefixes =
         map (normalize_path_prefix h) (mp_exclude_workspace_path_prefixes p),
       rp_exclude_transcript_path_prefixes =
         map (normalize_path_prefix h) (mp_exclude_transcript_path_prefixes p),
       rp_exclude_session_ids = mp_exclude_session_ids p,
       rp_time = mp_time p, rp_sequence = mp_sequence p,
       rp_tool_name_contains = mp_tool_name_contains p,
       rp_include_compaction = mp_include_compaction p\<rparr>"
proof (cases "mp_session p")
  case None
  then show ?thesis using assms by (intro that [of None]) (simp_all add: resolve_predicates_def Let_def)
next
  case (Some s)
  with assms obtain v where v: "rs s = Inr v" by (cases "rs s") (simp_all add: resolve_predicates_def Let_def)
  show ?thesis
  proof (rule that [of "Some v"])
    show "mp_session p = None \<longleftrightarrow> Some v = None" using Some by simp
    show "rs t = Inr (the (Some v))" if "mp_session p = Some t" for t using that Some v by simp
    show "ss_provider session \<in> set providers"
      if "Some v = Some session" "mp_providers p = Some providers" for session providers
      using that assms Some v by (simp add: resolve_predicates_def split: if_splits)
  qed (use assms Some v in \<open>simp add: resolve_predicates_def Let_def split: option.splits if_splits\<close>)
qed

lemma resolve_predicates_Inr:
  assumes "resolve_predicates h rs p = Inr q"
  shows "rp_role q = mp_role p" "rp_kinds q = mp_kinds p" "rp_sequence q = mp_sequence p"
    "rp_time q = mp_time p" "rp_include_compaction q = mp_include_compaction p"
    "rp_session_id q = None \<longleftrightarrow> mp_session p = None"
  using assms by (rule resolve_predicates_cases; simp)+

lemma execution_parts:
  assumes "message_plan_execution plan = Inr (q, f, order)"
  shows "q = opt_or [] (query_text (rv_query plan))"
    and "mf_kinds f = rp_kinds (rv_predicates plan)"
    and "mf_field f = Some (mt_field (rv_target plan))"
    and "mf_argument_path f = mt_argument_path (rv_target plan)"
    and "mf_session_id f = rp_session_id (rv_predicates plan)"
    and "mf_seq_from f = Option.bind (rp_sequence (rv_predicates plan)) sr_from"
    and "mf_seq_to f = Option.bind (rp_sequence (rv_predicates plan)) sr_to"
    and "mf_match_mode f = opt_or ModeLiteral (query_mode (rv_query plan))"
    and "plan_limit (rv_extent plan) = Inr (mf_limit f, mf_offset f)"
    and "order = (if rv_match_window plan = Some Latest then NewestFirst else OldestFirst)"
  using assms
  by (auto simp: message_plan_execution_def res_cases Let_def opt_or_def split: message_query.splits)

lemma fuzzy_plan_is_page:
  assumes "resolve_extent c r limit = Inr extent" and "validate_request r = Inr ()"
    and "is_fuzzy (rq_query r)"
  shows "\<exists>l offset. extent = ResolvedPage l offset"
proof -
  have "\<not> rule_broken FuzzyRejectsAllResults r" by (rule validated_rule [OF assms(2)])
  then have "\<nexists>offset. rq_extent r = RequestedAll offset"
    using assms(3) by (simp add: query_mode_fuzzy)
  then obtain l offset where "rq_extent r = RequestedPage l offset" by (cases "rq_extent r") auto
  with assms(1,3) show ?thesis
    by (auto simp: resolve_extent_Inr split: option.splits)
qed

lemma validate_fuzzy_ok:
  assumes "query_ok q" and "is_fuzzy q \<longrightarrow> 0 < mf_limit f"
    and "mf_match_mode f = opt_or ModeLiteral (query_mode q)"
  shows "validate_fuzzy f (opt_or [] (query_text q)) = Inr ()"
  using assms by (cases q) (simp_all add: validate_fuzzy_def opt_or_def trim_Nil_iff is_fuzzy_def)

lemma query_nonempty_ok:
  assumes "query_ok q" and "mf_match_mode f = opt_or ModeLiteral (query_mode q)"
  shows "\<not> (opt_or [] (query_text q) = [] \<and> mf_match_mode f \<noteq> ModeLiteral)"
  using assms by (cases q) (auto simp: opt_or_def)

lemma validate_sequence_ok:
  assumes "case s of None \<Rightarrow> True | Some v \<Rightarrow> sequence_ok v"
    and "mf_seq_from f = Option.bind s sr_from" and "mf_seq_to f = Option.bind s sr_to"
  shows "validate_sequence_bounds f = Inr ()"
  using assms
  by (cases s) (auto simp: validate_sequence_bounds_def sequence_ok_def bounds_ordered_def
      split: option.splits)

lemma validate_argument_ok:
  assumes "target_ok t" and "mf_field f = Some (mt_field t)" and "mf_argument_path f = mt_argument_path t"
    and "mt_field t = FieldToolArgument \<longrightarrow>
      (case mf_kinds f of None \<Rightarrow> True | Some kinds \<Rightarrow> KindToolCall \<in> set kinds)"
  shows "validate_argument f = Inr ()"
  using assms
  by (auto simp: validate_argument_def target_ok_def opt_or_def Let_def split: option.splits)

text \<open>
  C9: a well-formed request that plans is accepted by the storage layer, whose own validation can
  only object to the numeric window (an offset or a limit beyond 64 bits); and a newest-first
  selection is always confined to one session.
\<close>

theorem planned_request_passes_filter_validation:
  assumes "request_ok r" and "validate_request r = Inr ()"
    and "plan_request h c surface rs r = Inr plan"
    and "message_plan_execution (pl_retrieval plan) = Inr (q, f, order)"
  shows "validate_filters f q = validate_window f \<and>
    (order = NewestFirst \<longrightarrow> mf_session_id f \<noteq> None)"
proof -
  from assms(3) obtain p extent cx bo ao lines lo fv fo predicates where
    extent: "resolve_extent c r (fst (resolve_limit c surface r p)) = Inr extent" and
    preds: "resolve_predicates h rs (rq_predicates r) = Inr predicates" and
    plan: "pl_retrieval plan =
      \<lparr>rv_query = rq_query r, rv_target = rq_target r, rv_predicates = predicates,
       rv_match_window = rq_match_window r,
       rv_ordering = (if is_fuzzy (rq_query r) then FuzzyRelevance else SessionSequence),
       rv_extent = extent\<rparr>"
    by (rule plan_parts)
  note x = execution_parts [OF assms(4), unfolded plan, simplified]
  note y = resolve_predicates_Inr [OF preds]
  from assms(1) have ok: "query_ok (rq_query r)" "target_ok (rq_target r)"
    "case mp_sequence (rq_predicates r) of None \<Rightarrow> True | Some s \<Rightarrow> sequence_ok s"
    by (simp_all add: request_ok_def predicates_ok_def)
  have none: "\<not> rule_broken ToolArgumentRequiresToolCallKind r"
      "\<not> rule_broken LatestWindowRequiresSession r"
    by (rule validated_rule [OF assms(2)])+
  have "is_fuzzy (rq_query r) \<longrightarrow> 0 < mf_limit f"
    using fuzzy_plan_is_page [OF extent assms(2)] x(9)
    by (auto simp: plan_limit_def res_cases usize_checked_add_def split: if_splits)
  then have "validate_fuzzy f q = Inr ()" and "\<not> (q = [] \<and> mf_match_mode f \<noteq> ModeLiteral)"
    unfolding x(1) using validate_fuzzy_ok [OF ok(1)] query_nonempty_ok [OF ok(1)] x(8) by blast+
  moreover have "validate_sequence_bounds f = Inr ()"
    using ok(3) x(6,7) y(3) by (intro validate_sequence_ok) simp_all
  moreover have "validate_argument f = Inr ()"
    using ok(2) x(2,3,4) y(2) none(1)
    by (intro validate_argument_ok) (auto simp: admits_tool_call)
  ultimately have "validate_filters f q = validate_window f"
    unfolding validate_filters_def by (cases "validate_window f") auto
  moreover have "order = NewestFirst \<longrightarrow> mf_session_id f \<noteq> None"
    using none(2) x(5,10) y(6) by auto
  ultimately show ?thesis by blast
qed


text \<open>A concrete configuration, request and plan.\<close>

definition example_host :: host where
  "example_host = \<lparr>h_home = Some ''/home/a'', h_canonicalize = (\<lambda>_. None), h_absolute = Some\<rparr>"

definition example_config :: search_config where
  "example_config =
     \<lparr>sc_default_limit = None, sc_match_evidence_max_chars = None, sc_context_before = None,
      sc_context_after = Some 8, sc_max_hits_per_page = Some 50, sc_max_context_neighbors = Some 8,
      sc_purposes =
        [(''recall'', \<lparr>pd_version = 1, pd_preferences =
           \<lparr>pp_default_limit = Some 5, pp_context_before = Some 4, pp_context_after = None,
            pp_receipt_level = None, pp_include_refs = None, pp_lines_per_message = None,
            pp_match_evidence_max_chars = None\<rparr>\<rparr>)],
      sc_mcp_search_messages_limit = 10, sc_mcp_preview_chars = 220, sc_mcp_lines_per_message = 0,
      sc_cli_evidence_preview_chars = 220, sc_cli_lines_per_message = 0\<rparr>"

definition example_resolver :: "string \<Rightarrow> string + session_record" where
  "example_resolver s = Inr \<lparr>ss_id = s, ss_provider = Codex\<rparr>"

lemma retrieval_independent:
  assumes "plan_request h c1 s1 rs r = Inr p1" and "plan_request h c2 s2 rs r = Inr p2"
  shows "(pl_retrieval p1)\<lparr>rv_extent := e\<rparr> = (pl_retrieval p2)\<lparr>rv_extent := e\<rparr>"
proof -
  from assms(1) obtain q1 where r1: "resolve_predicates h rs (rq_predicates r) = Inr q1"
    and p1: "(pl_retrieval p1)\<lparr>rv_extent := e\<rparr> =
      \<lparr>rv_query = rq_query r, rv_target = rq_target r, rv_predicates = q1,
       rv_match_window = rq_match_window r,
       rv_ordering = (if is_fuzzy (rq_query r) then FuzzyRelevance else SessionSequence),
       rv_extent = e\<rparr>"
    by (elim plan_parts) simp
  from assms(2) obtain q2 where r2: "resolve_predicates h rs (rq_predicates r) = Inr q2"
    and p2: "(pl_retrieval p2)\<lparr>rv_extent := e\<rparr> =
      \<lparr>rv_query = rq_query r, rv_target = rq_target r, rv_predicates = q2,
       rv_match_window = rq_match_window r,
       rv_ordering = (if is_fuzzy (rq_query r) then FuzzyRelevance else SessionSequence),
       rv_extent = e\<rparr>"
    by (elim plan_parts) simp
  from r1 r2 have "q1 = q2" by simp
  with p1 p2 show ?thesis by simp
qed

lemma planned_offset:
  assumes "resolve_extent c r limit = Inr extent"
  shows "extent_offset extent =
    (case rq_extent r of RequestedPage _ offset \<Rightarrow> offset | RequestedAll offset \<Rightarrow> offset)"
  using assms
  by (auto simp: resolve_extent_Inr extent_offset_def split: requested_extent.splits option.splits)

text \<open>
  Configuration, purpose preferences and the calling surface decide how much of the result is
  shown, never which messages are results: two plans of one request agree on query, target,
  predicates, window, order and offset.
\<close>

theorem plan_membership_independent_of_configuration:
  assumes "plan_request h c1 s1 rs r = Inr p1" and "plan_request h c2 s2 rs r = Inr p2"
  shows "(pl_retrieval p1)\<lparr>rv_extent := e\<rparr> = (pl_retrieval p2)\<lparr>rv_extent := e\<rparr> \<and>
    extent_offset (rv_extent (pl_retrieval p1)) = extent_offset (rv_extent (pl_retrieval p2))"
proof -
  have "extent_offset (rv_extent (pl_retrieval p1)) =
      (case rq_extent r of RequestedPage _ offset \<Rightarrow> offset | RequestedAll offset \<Rightarrow> offset)"
    using assms(1) by (rule plan_parts) (simp add: planned_offset)
  moreover have "extent_offset (rv_extent (pl_retrieval p2)) =
      (case rq_extent r of RequestedPage _ offset \<Rightarrow> offset | RequestedAll offset \<Rightarrow> offset)"
    using assms(2) by (rule plan_parts) (simp add: planned_offset)
  ultimately show ?thesis using retrieval_independent [OF assms] by simp
qed

definition example_plan :: "search_surface \<Rightarrow> request \<Rightarrow> search_plan" where
  "example_plan surface r =
     (case plan_request example_host example_config surface example_resolver r of
        Inr p \<Rightarrow> p | Inl _ \<Rightarrow> undefined)"

lemmas plan_eval = plan_request_def request_builder_def resolve_purpose_def resolve_limit_def
  preferred_def example_config_def resolve_extent_def resolve_context_def resolve_side_def
  resolve_includes_def resolve_message_lines_def default_presentation_def resolve_match_evidence_def
  resolve_field_view_def resolve_match_view_def resolve_receipt_def resolve_predicates_def
  default_predicates_def line_window_from_signed_def non_zero_def usize_checked_add_def
  usize_max_def is_fuzzy_def

definition plain_request :: request where
  "plain_request = request_builder (QueryLiteral (lit ''hi'')) target_content"

lemma plain_plan:
  "plan_request example_host example_config surface example_resolver plain_request =
     Inr (example_plan surface plain_request)"
  by (cases surface) (simp_all add: plan_eval example_plan_def plain_request_def Let_def)

theorem plan_membership_independent_of_configuration_witness:
  "(pl_retrieval (example_plan SurfaceMcp plain_request))\<lparr>rv_extent := ResolvedAll 0\<rparr> =
     (pl_retrieval (example_plan SurfaceCli plain_request))\<lparr>rv_extent := ResolvedAll 0\<rparr> \<and>
   extent_offset (rv_extent (pl_retrieval (example_plan SurfaceMcp plain_request))) =
     extent_offset (rv_extent (pl_retrieval (example_plan SurfaceCli plain_request)))"
  by (rule plan_membership_independent_of_configuration [OF plain_plan plain_plan])

section \<open>What configuration validation promises\<close>

lemma no_panic:
  "resolve_purpose c r \<noteq> Inl (PlanPanic m)"
  "resolve_extent c r limit \<noteq> Inl (PlanPanic m)"
  "resolve_context c r p \<noteq> Inl (PlanPanic m)"
  "resolve_message_lines c surface r p \<noteq> Inl (PlanPanic m)"
  "resolve_predicates h rs q \<noteq> Inl (PlanPanic m)"
proof -
  show "resolve_purpose c r \<noteq> Inl (PlanPanic m)"
    by (simp add: resolve_purpose_def param_error_def split: option.split)
  show "resolve_extent c r limit \<noteq> Inl (PlanPanic m)"
    by (cases "rq_extent r")
      (simp_all add: resolve_extent_def param_error_def res_bind_def split: option.split sum.split)
  show "resolve_context c r p \<noteq> Inl (PlanPanic m)"
    by (simp add: resolve_context_def param_error_def case_prod_beta Let_def split: option.split)
  have "res_map f (lift_search x) \<noteq> Inl (PlanPanic m)"
    for f :: "line_window \<Rightarrow> line_window \<times> value_origin" and x
    by (cases x) simp_all
  then show "resolve_message_lines c surface r p \<noteq> Inl (PlanPanic m)"
    by (simp add: resolve_message_lines_def Let_def split: option.split)
  show "resolve_predicates h rs q \<noteq> Inl (PlanPanic m)"
    by (simp add: resolve_predicates_def res_bind_def Let_def split: option.split sum.split)
qed

lemma field_view_panic:
  assumes "resolve_field_view c surface r = Inl e"
  shows "sc_mcp_preview_chars c = 0 \<or> sc_cli_evidence_preview_chars c = 0"
  using assms
  by (cases surface)
    (auto simp: resolve_field_view_def non_zero_def default_match_evidence_max_chars_def Let_def
      split: option.splits if_splits detail_level.splits)

lemma plan_panic_cases:
  assumes "plan_request h c surface rs r = Inl (PlanPanic m)"
  shows "sc_mcp_preview_chars c = 0 \<or> sc_cli_evidence_preview_chars c = 0"
proof -
  from assms have "\<exists>e. resolve_field_view c surface r = Inl e"
    by (auto simp: plan_request_def res_bind_eq_Inl no_panic case_prod_beta Let_def)
  then obtain e where "resolve_field_view c surface r = Inl e" by (elim exE)
  then show ?thesis by (rule field_view_panic)
qed

definition within_budget :: "search_config \<Rightarrow> search_plan \<Rightarrow> bool" where
  "within_budget c plan \<longleftrightarrow>
     (case rv_extent (pl_retrieval plan) of
        ResolvedPage limit _ \<Rightarrow> \<not> exceeds limit (sc_max_hits_per_page c)
      | ResolvedAll _ \<Rightarrow> True) \<and>
     (let w = rn_context (pl_response plan)
      in \<not> exceeds (cw_before w + cw_after w) (sc_max_context_neighbors c))"

lemma plan_within_budget:
  assumes "plan_request h c surface rs r = Inr plan"
  shows "within_budget c plan"
proof -
  from assms obtain p extent w bo ao where
    e: "resolve_extent c r (fst (resolve_limit c surface r p)) = Inr extent" and
    w: "resolve_context c r p = Inr (w, bo, ao)" and
    plan: "rv_extent (pl_retrieval plan) = extent" "rn_context (pl_response plan) = w"
    by (elim plan_parts) simp
  have "case extent of ResolvedPage limit _ \<Rightarrow> \<not> exceeds limit (sc_max_hits_per_page c) | ResolvedAll _ \<Rightarrow> True"
    using e by (auto simp: resolve_extent_Inr exceeds_def
        split: requested_extent.splits option.splits resolved_extent.splits)
  moreover have "\<not> exceeds (cw_before w + cw_after w) (sc_max_context_neighbors c)"
    using w by (auto simp: resolve_context_def exceeds_def usize_checked_add_def param_error_def
        case_prod_beta Let_def split: option.splits if_splits)
  ultimately show ?thesis by (simp add: within_budget_def plan Let_def)
qed

lemma validated_previews:
  assumes "validate_search_config c = Inr ()"
  shows "sc_mcp_preview_chars c \<noteq> 0" and "sc_cli_evidence_preview_chars c \<noteq> 0"
  using assms by (auto simp: validate_search_config_def res_cases split: if_splits)

text \<open>
  C28: under a configuration that validates, planning never panics, and a plan it produces keeps the
  configured budgets: the page size and the number of context messages around a hit.
\<close>

theorem validated_configuration_plans_within_budget:
  assumes "validate_search_config c = Inr ()"
  shows "case plan_request h c surface rs r of
      Inl e \<Rightarrow> (case e of PlanPanic m \<Rightarrow> False | _ \<Rightarrow> True)
    | Inr plan \<Rightarrow> within_budget c plan"
proof (cases "plan_request h c surface rs r")
  case (Inl e)
  then show ?thesis using plan_panic_cases [of h c surface rs r] validated_previews [OF assms]
    by (cases e) auto
next
  case (Inr plan)
  then show ?thesis by (simp add: plan_within_budget)
qed

lemma example_config_valid: "validate_search_config example_config = Inr ()"
  by (simp add: validate_search_config_def example_config_def exceeds_def opt_or_def
      usize_checked_add_def usize_max_def validate_purpose_def is_dash_separated_phrase_def
      is_ascii_lowercase_def)

theorem validated_configuration_plans_within_budget_witness:
  "case plan_request example_host example_config SurfaceMcp example_resolver plain_request of
     Inl e \<Rightarrow> (case e of PlanPanic m \<Rightarrow> False | _ \<Rightarrow> True)
   | Inr plan \<Rightarrow> within_budget example_config plan"
  by (rule validated_configuration_plans_within_budget [OF example_config_valid])

text \<open>
  Validation adds the context of a purpose with zero for the side it leaves out, while planning
  falls back to the configured context of the operation. A configuration can validate although
  every request that names its purpose is refused.
\<close>

theorem validated_purpose_can_be_unusable:
  "validate_search_config example_config = Inr () \<and>
   plan_request example_host example_config SurfaceCli example_resolver
     (plain_request\<lparr>rq_purpose := Some \<lparr>ps_name = ''recall'', ps_version = None\<rparr>\<rparr>) =
   param_error ''context''
     (ReasonArgs ''resolved message-search context total {} exceeds search.budgets.max_context_neighbors_per_hit {}; lower context_before or context_after''
       [] [12, 8])"
proof
  show "validate_search_config example_config = Inr ()" by (rule example_config_valid)
qed (simp add: plan_eval plain_request_def param_error_def Let_def)

text \<open>
  Without a home directory, expanding a path behind a tilde does not leave the input as it is
  but appends the rest of the path to it once more.
\<close>

theorem tilde_without_home_is_not_literal:
  "expand_tilde (example_host\<lparr>h_home := None\<rparr>) ''~/notes'' = ''~/notes/notes''"
  by (simp add: expand_tilde_def example_host_def strip_prefix_def path_join_def)

lemma example_request_eq:
  "example_request =
    \<lparr>rq_query = QueryLiteral (lit ''hi''), rq_target = target_content,
     rq_predicates = default_predicates
       \<lparr>mp_providers := Some [Claude, Codex], mp_session := Some ''s1'',
        mp_exclude_session_ids := [''s2''],
        mp_sequence := Some \<lparr>sr_from = Some 2, sr_to = Some 9\<rparr>\<rparr>,
     rq_match_window = Some Latest, rq_context = None, rq_presentation = default_presentation,
     rq_extent = RequestedPage None 0, rq_purpose = None, rq_receipt = None,
     rq_includes = Some [ParsedReferences, RuntimeDiagnostics]\<rparr>"
  by (simp add: example_request_def example_calls_def set_providers_def set_non_empty_def
      non_empty_value_def update_predicates_def request_builder_def set_includes_def
      default_predicates_def sort_dedup_def less_eq_provider_def less_eq_message_include_def)

lemma example_request_plan:
  "plan_request example_host example_config SurfaceMcp example_resolver example_request =
     Inr (example_plan SurfaceMcp example_request)"
  by (simp add: plan_eval example_plan_def example_request_eq example_resolver_def Let_def)

definition example_execution :: "scalars \<times> message_filters \<times> message_order" where
  "example_execution =
     (case message_plan_execution (pl_retrieval (example_plan SurfaceMcp example_request)) of
        Inr x \<Rightarrow> x | Inl _ \<Rightarrow> undefined)"

lemma example_execution_eq:
  "message_plan_execution (pl_retrieval (example_plan SurfaceMcp example_request)) =
     Inr (fst example_execution, fst (snd example_execution), snd (snd example_execution))"
  by (simp add: example_execution_def message_plan_execution_def plan_limit_def plan_eval
      example_plan_def example_request_eq example_resolver_def Let_def)

lemma example_request_ok: "request_ok example_request"
proof -
  have "query_ok (QueryLiteral (lit ''hi''))" by (simp add: lit_def)
  then show ?thesis
    by (simp add: example_request_eq request_ok_def target_constructors_ok predicates_ok_def
        default_predicates_def time_ok_def bounds_ordered_def sequence_ok_def less_provider_def
        less_message_include_def)
qed

lemma example_request_valid: "validate_request example_request = Inr ()"
  by (simp add: example_request_eq validate_request_def default_predicates_def
      default_presentation_def is_fuzzy_def target_content_def default_kind_set_def
      message_kind_variants_def)

theorem planned_request_passes_filter_validation_witness:
  "validate_filters (fst (snd example_execution)) (fst example_execution) =
     validate_window (fst (snd example_execution))"
  by (rule planned_request_passes_filter_validation [OF example_request_ok example_request_valid
        example_request_plan example_execution_eq, THEN conjunct1])

end
