(* ===== verification/SearchPages.thy ===== *)
theory SearchPages
  imports SearchPlan
begin

text \<open>
  How a page and an exhaustive traversal are cut from the ordered rows of a query (\<open>service.rs\<close>,
  \<open>db.rs\<close>): the look-ahead row, the offset of the next page, the reversal of a newest-first
  selection, and the batches of the traversal.
\<close>

section \<open>Pages\<close>

text \<open>
  The rows a query admits are given oldest first. The newest-first order is its reverse; a limit of
  zero means all rows.
\<close>

definition select_rows :: "message_order \<Rightarrow> nat \<Rightarrow> nat \<Rightarrow> 'r list \<Rightarrow> 'r list" where
  "select_rows order limit offset rows =
     (let ordered = (case order of OldestFirst \<Rightarrow> rows | NewestFirst \<Rightarrow> rev rows);
          skipped = drop offset ordered
      in if 0 < limit then take limit skipped else skipped)"

datatype page_error = PlanFailed execution_error | NextOffsetOverflows

definition order_of :: "match_window option \<Rightarrow> message_order" where
  "order_of w = (if w = Some Latest then NewestFirst else OldestFirst)"

text \<open>\<open>search_in_snapshot\<close>: the hits of one page and its description.\<close>

definition search_page ::
    "resolved_extent \<Rightarrow> match_window option \<Rightarrow> execution_order \<Rightarrow> 'r list \<Rightarrow> page_error + ('r list \<times> page_info)" where
  "search_page extent window order_by rows =
     (case plan_limit extent of
        Inl e \<Rightarrow> Inl (PlanFailed e)
      | Inr (sql_limit, sql_offset) \<Rightarrow>
          let hits = select_rows (order_of window) sql_limit sql_offset rows in
          res_bind
            (case extent of
               ResolvedPage limit offset \<Rightarrow>
                 (let has_more = length hits > limit;
                      kept = take limit hits
                  in if has_more
                     then res_map (\<lambda>next. (kept, Some next))
                            (ok_or NextOffsetOverflows (usize_checked_add offset limit))
                     else Inr (kept, None))
             | ResolvedAll offset \<Rightarrow> Inr (hits, None))
            (\<lambda>(kept, next_offset).
               let shown = (if window = Some Latest then rev kept else kept)
               in Inr (shown, new_page_info extent (length shown) next_offset order_by)))"

text \<open>A client that follows \<open>next_offset\<close> until it is absent, for at most \<open>fuel\<close> pages.\<close>

fun page_walk ::
    "nat \<Rightarrow> nat \<Rightarrow> nat \<Rightarrow> match_window option \<Rightarrow> execution_order \<Rightarrow> 'r list \<Rightarrow> (page_error + 'r list list) option" where
  "page_walk 0 limit offset window order_by rows = None"
| "page_walk (Suc fuel) limit offset window order_by rows =
     (case search_page (ResolvedPage limit offset) window order_by rows of
        Inl e \<Rightarrow> Some (Inl e)
      | Inr (hits, info) \<Rightarrow>
          (case pg_next_offset info of
             None \<Rightarrow> Some (Inr [hits])
           | Some next \<Rightarrow>
               map_option (res_map ((#) hits)) (page_walk fuel limit next window order_by rows)))"

section \<open>Exhaustive traversal\<close>

definition validate_batch_selection :: "bool \<Rightarrow> bool \<Rightarrow> message_search_error + unit" where
  "validate_batch_selection all_results fuzzy =
     (if \<not> all_results
      then Inl (InvalidParameter ''all_results'' (Reason ''batched message-search traversal requires all_results; use search() for a finite materialized page''))
      else if fuzzy
      then Inl (InvalidParameter ''query_mode'' (Reason ''batched message-search traversal supports literal, regex, and queryless all-results requests; pass a positive limit to search() for fuzzy results''))
      else Inr ())"

definition validate_batch_request :: "search_surface \<Rightarrow> request \<Rightarrow> message_search_error + unit" where
  "validate_batch_request surface r =
     (let without_surface_limit =
        (case rq_extent r of RequestedPage None _ \<Rightarrow> surface \<noteq> SurfaceMcp | _ \<Rightarrow> False)
      in validate_batch_selection
           ((case rq_extent r of RequestedAll _ \<Rightarrow> True | _ \<Rightarrow> False) \<or> without_surface_limit)
           (is_fuzzy (rq_query r)))"

definition validate_batch_plan :: "search_plan \<Rightarrow> message_search_error + unit" where
  "validate_batch_plan plan =
     validate_batch_selection
       (case rv_extent (pl_retrieval plan) of ResolvedAll _ \<Rightarrow> True | _ \<Rightarrow> False)
       (is_fuzzy (rv_query (pl_retrieval plan)))"

datatype 'e visit_error = VisitorError 'e | RowCountOverflows

text \<open>
  The loop of \<open>visit_messages_in_batches\<close>. The visitor gets a full batch, may fail, and says whether
  to stop; the result is its state, the number of rows visited and whether the rows were exhausted.
\<close>

fun visit_loop ::
    "nat \<Rightarrow> ('s \<Rightarrow> 'r list \<Rightarrow> 'e + ('s \<times> bool)) \<Rightarrow> 's \<Rightarrow> 'r list \<Rightarrow> nat \<Rightarrow> 'r list \<Rightarrow>
     'e visit_error + ('s \<times> nat \<times> bool)" where
  "visit_loop batch_rows visitor s batch visited [] =
     (if batch \<noteq> []
      then (case visitor s batch of
              Inl e \<Rightarrow> Inl (VisitorError e)
            | Inr (s', _) \<Rightarrow> Inr (s', visited, True))
      else Inr (s, visited, True))"
| "visit_loop batch_rows visitor s batch visited (row # rows) =
     (let batch' = batch @ [row] in
      case usize_checked_add visited 1 of
        None \<Rightarrow> Inl RowCountOverflows
      | Some visited' \<Rightarrow>
          if length batch' = batch_rows
          then (case visitor s batch' of
                  Inl e \<Rightarrow> Inl (VisitorError e)
                | Inr (s', stop) \<Rightarrow>
                    if stop then Inr (s', visited', False)
                    else visit_loop batch_rows visitor s' [] visited' rows)
          else visit_loop batch_rows visitor s batch' visited' rows)"

text \<open>
  A row of one session: its sequence number and its row id. The newest-first traversal finds the
  first row after the caller's offset, then runs oldest first up to that row's sequence number.
\<close>

record sql_row =
  row_seq :: int
  row_id :: int

definition batch_source :: "message_order \<Rightarrow> nat \<Rightarrow> sql_row list \<Rightarrow> sql_row list" where
  "batch_source order offset rows =
     (case order of
        OldestFirst \<Rightarrow> select_rows OldestFirst 0 offset rows
      | NewestFirst \<Rightarrow>
          (case select_rows NewestFirst 0 offset rows of
             [] \<Rightarrow> []
           | boundary # _ \<Rightarrow>
               select_rows OldestFirst 0 0 (filter (\<lambda>r. row_seq r \<le> row_seq boundary) rows)))"

definition visit_messages_in_batches ::
    "nat \<Rightarrow> nat \<Rightarrow> match_window option \<Rightarrow> ('s \<Rightarrow> sql_row list \<Rightarrow> 'e + ('s \<times> bool)) \<Rightarrow> 's \<Rightarrow> sql_row list \<Rightarrow>
     'e visit_error + ('s \<times> nat \<times> bool)" where
  "visit_messages_in_batches batch_rows offset window visitor s rows =
     visit_loop batch_rows visitor s [] 0 (batch_source (order_of window) offset rows)"

section \<open>Pages cover the result\<close>

lemma search_page_eq:
  assumes "limit + 1 \<le> usize_max" and "offset + limit \<le> usize_max" and "0 < limit"
  shows "search_page (ResolvedPage limit offset) window order_by rows =
    (let ordered = (if window = Some Latest then rev rows else rows);
         kept = take limit (drop offset ordered);
         shown = (if window = Some Latest then rev kept else kept)
     in Inr (shown, new_page_info (ResolvedPage limit offset) (length shown)
          (if offset + limit < length rows then Some (offset + limit) else None) order_by))"
proof -
  have ordered: "(case order_of window of OldestFirst \<Rightarrow> rows | NewestFirst \<Rightarrow> rev rows) =
      (if window = Some Latest then rev rows else rows)"
    by (simp add: order_of_def)
  let ?o = "if window = Some Latest then rev rows else rows"
  have len: "length ?o = length rows" by simp
  have more: "length (take (Suc limit) (drop offset ?o)) > limit \<longleftrightarrow> offset + limit < length rows"
    using len by auto
  show ?thesis
    using assms
    by (auto simp: search_page_def plan_limit_def usize_checked_add_def select_rows_def ordered more
        Let_def simp del: length_take length_drop)
qed

definition chronological :: "match_window option \<Rightarrow> 'r list list \<Rightarrow> 'r list" where
  "chronological w pages = (if w = Some Latest then concat (rev pages) else concat pages)"

lemma page_walk_covers:
  assumes "0 < limit" and "limit < usize_max" and "length rows + limit \<le> usize_max"
    and "offset \<le> length rows" and "length rows - offset < fuel"
  shows "\<exists>pages. page_walk fuel limit offset w order_by rows = Some (Inr pages) \<and>
    chronological w pages =
      (if w = Some Latest then rev (drop offset (rev rows)) else drop offset rows) \<and>
    (\<forall>p \<in> set pages. length p \<le> limit)"
  using assms
proof (induction fuel arbitrary: offset)
  case (Suc fuel)
  let ?ordered = "if w = Some Latest then rev rows else rows"
  let ?kept = "take limit (drop offset ?ordered)"
  let ?shown = "if w = Some Latest then rev ?kept else ?kept"
  have page: "search_page (ResolvedPage limit offset) w order_by rows =
      Inr (?shown, new_page_info (ResolvedPage limit offset) (length ?shown)
        (if offset + limit < length rows then Some (offset + limit) else None) order_by)"
    using Suc.prems by (subst search_page_eq) (simp_all add: Let_def)
  have next_offset: "pg_next_offset (new_page_info e n x order_by) = x" for e n x
    by (simp add: new_page_info_def Let_def)
  show ?case
  proof (cases "offset + limit < length rows")
    case True
    then obtain pages where walk: "page_walk fuel limit (offset + limit) w order_by rows = Some (Inr pages)"
      and cover: "chronological w pages =
        (if w = Some Latest then rev (drop (offset + limit) (rev rows)) else drop (offset + limit) rows)"
      and le: "\<forall>p \<in> set pages. length p \<le> limit"
    proof -
      have "offset + limit \<le> length rows" and "length rows - (offset + limit) < fuel"
        using True Suc.prems by linarith+
      from Suc.IH [OF Suc.prems(1,2,3) this] show ?thesis using that by blast
    qed
    have "page_walk (Suc fuel) limit offset w order_by rows = Some (Inr (?shown # pages))"
      by (simp only: page_walk.simps page sum.case prod.case next_offset True if_True option.case walk
          option.map res_map_simps)
    moreover have "?kept @ drop (offset + limit) ?ordered = drop offset ?ordered"
      by (metis add.commute append_take_drop_id drop_drop)
    then have "chronological w (?shown # pages) =
        (if w = Some Latest then rev (drop offset (rev rows)) else drop offset rows)"
      using cover by (auto simp: chronological_def simp flip: rev_append)
    moreover have "\<forall>p \<in> set (?shown # pages). length p \<le> limit" using le by simp
    ultimately show ?thesis by blast
  next
    case False
    have "page_walk (Suc fuel) limit offset w order_by rows = Some (Inr [?shown])"
      by (simp only: page_walk.simps page sum.case prod.case next_offset False if_False option.case)
    moreover have "chronological w [?shown] =
        (if w = Some Latest then rev (drop offset (rev rows)) else drop offset rows)"
      using False by (cases "w = Some Latest") (simp_all add: chronological_def)
    moreover have "\<forall>p \<in> set [?shown]. length p \<le> limit" by simp
    ultimately show ?thesis by blast
  qed
qed simp

text \<open>
  C10: a client that follows the offset of the next page from the start receives every row exactly
  once, in chronological order, in finitely many pages none of which exceeds the limit. Under a
  newest-first window the pages arrive latest first, each in chronological order.
\<close>

theorem pages_cover_the_result:
  assumes "0 < limit" and "limit < usize_max" and "length rows + limit \<le> usize_max"
  shows "\<exists>pages. page_walk (Suc (length rows)) limit 0 w order_by rows = Some (Inr pages) \<and>
    chronological w pages = rows \<and> (\<forall>p \<in> set pages. length p \<le> limit)"
  using page_walk_covers [of limit rows 0 "Suc (length rows)" w order_by] assms
  by (auto split: if_splits)

theorem pages_cover_the_result_witness:
  "\<exists>pages. page_walk (Suc (length [1, 2, 3, 4, 5 :: nat])) 2 0 (Some Latest) SessionSequence
      [1, 2, 3, 4, 5 :: nat] = Some (Inr pages) \<and>
    chronological (Some Latest) pages = [1, 2, 3, 4, 5 :: nat]"
proof -
  have "0 < (2 :: nat)" "2 < usize_max" "length [1, 2, 3, 4, 5 :: nat] + 2 \<le> usize_max"
    by (simp_all add: usize_max_def)
  from pages_cover_the_result [OF this] show ?thesis by blast
qed

section \<open>The page description\<close>

lemma shown_page:
  assumes "search_page extent w order_by rows = Inr (hits, info)"
  shows "\<exists>n next. hits =
        (if w = Some Latest then rev (take n (drop (extent_offset extent) (rev rows)))
         else take n (drop (extent_offset extent) rows)) \<and>
      info = new_page_info extent (length hits) next order_by \<and>
      (next \<noteq> None \<longleftrightarrow> extent_offset extent + length hits < length rows)"
proof -
  let ?ordered = "if w = Some Latest then rev rows else rows"
  let ?off = "extent_offset extent"
  have ordered: "(case order_of w of OldestFirst \<Rightarrow> rows | NewestFirst \<Rightarrow> rev rows) = ?ordered"
    by (simp add: order_of_def)
  have shape: "\<exists>n next. (if w = Some Latest then rev (take m (drop ?off ?ordered)) else take m (drop ?off ?ordered)) =
        (if w = Some Latest then rev (take n (drop ?off (rev rows))) else take n (drop ?off rows)) \<and>
      new_page_info extent k x order_by = new_page_info extent k next order_by \<and>
      (next \<noteq> None \<longleftrightarrow> ?off + k < length rows)"
    if "x \<noteq> None \<longleftrightarrow> ?off + k < length rows" for m k x
    using that by (intro exI [of _ m] exI [of _ x]) simp
  show ?thesis
  proof (cases extent)
    case (ResolvedPage limit offset)
    then have off: "?off = offset" by (simp add: extent_offset_def)
    let ?hits = "take (Suc limit) (drop offset ?ordered)"
    have min: "take limit ?hits = take limit (drop offset ?ordered)" by simp
    have more: "length ?hits > limit \<longleftrightarrow> offset + limit < length rows"
      by (cases "w = Some Latest") auto
    from assms have res: "hits = (if w = Some Latest then rev (take limit (drop offset ?ordered))
          else take limit (drop offset ?ordered))"
      "\<exists>x. info = new_page_info extent (length hits) x order_by \<and> (x \<noteq> None \<longleftrightarrow> offset + limit < length rows)"
      unfolding ResolvedPage search_page_def plan_limit_def resolved_extent.case select_rows_def ordered
      by (auto simp: usize_checked_add_def res_cases Let_def more min
          simp del: length_take length_drop split: if_splits)
    have "offset + limit < length rows \<longleftrightarrow> offset + length hits < length rows" by (auto simp: res(1))
    with res shape show ?thesis unfolding off by metis
  next
    case (ResolvedAll offset)
    then have off: "?off = offset" by (simp add: extent_offset_def)
    from assms have res: "hits = (if w = Some Latest then rev (drop offset ?ordered) else drop offset ?ordered)"
      "info = new_page_info extent (length hits) None order_by"
      unfolding ResolvedAll search_page_def plan_limit_def resolved_extent.case select_rows_def ordered
      by (auto simp: Let_def)
    have "\<not> offset + length hits < length rows" by (auto simp: res(1))
    with res show ?thesis unfolding off
      by (intro exI [of _ "length rows"] exI [of _ None]) auto
  qed
qed

text \<open>
  What a response says of its page is true of the rows: it is called complete only when it is
  the whole result, partial only when rows are missing, it names a next offset exactly when rows
  remain behind it, and earlier results are reported only when there are some.
\<close>

theorem page_description_is_truthful:
  assumes "search_page extent w order_by rows = Inr (hits, info)"
  shows "(pg_result_set_extent info = ExtentAll \<longrightarrow> hits = rows) \<and>
    (pg_result_set_extent info = ExtentPartial \<longrightarrow> length hits < length rows) \<and>
    (pg_next_offset info \<noteq> None \<longleftrightarrow> extent_offset extent + length hits < length rows) \<and>
    (pg_earlier_results info = SidePresent \<longrightarrow> 0 < extent_offset extent \<and> extent_offset extent < length rows)"
proof -
  let ?off = "extent_offset extent"
  from shown_page [OF assms] obtain n x where
    hits: "hits = (if w = Some Latest then rev (take n (drop ?off (rev rows))) else take n (drop ?off rows))" and
    info: "info = new_page_info extent (length hits) x order_by" and
    more: "x \<noteq> None \<longleftrightarrow> ?off + length hits < length rows" by blast
  have len: "length hits \<le> length rows - ?off" by (auto simp: hits)
  have "hits = rows" if "?off = 0" "length rows \<le> length hits"
  proof -
    have "length rows \<le> n" using that by (auto simp: hits split: if_splits)
    then show ?thesis using that(1) by (simp add: hits)
  qed
  then have all: "pg_result_set_extent info = ExtentAll \<longrightarrow> hits = rows"
    using more by (auto simp: info new_page_info_def Let_def split: if_splits option.splits)
  have "hits \<noteq> [] \<Longrightarrow> 0 < ?off \<Longrightarrow> length hits < length rows" using len by (cases hits) auto
  then have partial: "pg_result_set_extent info = ExtentPartial \<longrightarrow> length hits < length rows"
    using more len by (cases x) (auto simp: info new_page_info_def Let_def split: if_splits)
  have nextp: "pg_next_offset info \<noteq> None \<longleftrightarrow> ?off + length hits < length rows"
    using more by (simp add: info new_page_info_def Let_def)
  have "pg_earlier_results info = SidePresent \<longrightarrow> 0 < ?off \<and> ?off < length rows"
    using len by (cases hits) (auto simp: info new_page_info_def Let_def split: if_splits)
  with all partial nextp show ?thesis by blast
qed

lemma example_page:
  "search_page (ResolvedPage 2 1) (Some Earliest) SessionSequence [1, 2, 3, 4 :: nat] =
    Inr ([2, 3 :: nat], new_page_info (ResolvedPage 2 1) 2 (Some 3) SessionSequence)"
  by (simp add: search_page_def plan_limit_def usize_checked_add_def usize_max_def select_rows_def
      order_of_def Let_def new_page_info_def extent_offset_def)

theorem page_description_is_truthful_witness:
  "pg_next_offset (new_page_info (ResolvedPage 2 1) 2 (Some 3) SessionSequence) \<noteq> None \<longleftrightarrow>
     extent_offset (ResolvedPage 2 1) + length [2, 3 :: nat] < length [1, 2, 3, 4 :: nat]"
  by (rule page_description_is_truthful [OF example_page, THEN conjunct2, THEN conjunct2, THEN conjunct1])

section \<open>The traversal agrees with the search\<close>

definition collect :: "'r list list \<Rightarrow> 'r list \<Rightarrow> unit + ('r list list \<times> bool)" where
  "collect s batch = Inr (s @ [batch], False)"

lemma visit_loop_collects:
  assumes "length batch < n" and "visited + length rows \<le> usize_max"
  shows "\<exists>bs. visit_loop n collect s batch visited rows = Inr (s @ bs, visited + length rows, True) \<and>
    concat bs = batch @ rows \<and> (\<forall>b \<in> set bs. b \<noteq> [] \<and> length b \<le> n)"
  using assms
proof (induction rows arbitrary: s batch visited)
  case Nil
  then show ?case
    by (cases "batch = []") (auto simp: collect_def intro: exI [of _ "[]"] exI [of _ "[batch]"])
next
  case (Cons row rows)
  have v: "usize_checked_add visited 1 = Some (Suc visited)"
    using Cons.prems by (simp add: usize_checked_add_def)
  show ?case
  proof (cases "length (batch @ [row]) = n")
    case True
    have "length ([] :: 'a list) < n" and "Suc visited + length rows \<le> usize_max"
      using True Cons.prems by auto
    from Cons.IH [OF this, of "s @ [batch @ [row]]"] obtain bs where
      "visit_loop n collect (s @ [batch @ [row]]) [] (Suc visited) rows =
         Inr ((s @ [batch @ [row]]) @ bs, Suc visited + length rows, True)"
      "concat bs = rows" "\<forall>b \<in> set bs. b \<noteq> [] \<and> length b \<le> n" by auto
    moreover have "collect s (batch @ [row]) = Inr (s @ [batch @ [row]], False)"
      by (simp add: collect_def)
    ultimately show ?thesis using True v
      by (intro exI [of _ "(batch @ [row]) # bs"]) (simp add: Let_def)
  next
    case False
    have "length (batch @ [row]) < n" and "Suc visited + length rows \<le> usize_max"
      using False Cons.prems by auto
    from Cons.IH [OF this, of s] obtain bs where
      "visit_loop n collect s (batch @ [row]) (Suc visited) rows =
         Inr (s @ bs, Suc visited + length rows, True)"
      "concat bs = (batch @ [row]) @ rows" "\<forall>b \<in> set bs. b \<noteq> [] \<and> length b \<le> n" by auto
    then show ?thesis using False v by (intro exI [of _ bs]) (simp add: Let_def)
  qed
qed

lemma filter_upto_boundary:
  assumes "sorted_wrt (<) (map row_seq rows)" and "m < length rows"
  shows "filter (\<lambda>r. row_seq r \<le> row_seq (rows ! m)) rows = take (Suc m) rows"
proof -
  have lt: "row_seq (rows ! i) < row_seq (rows ! j)" if "i < j" "j < length rows" for i j
    using sorted_wrt_nth_less [OF assms(1), of i j] that by simp
  have "filter (\<lambda>r. row_seq r \<le> row_seq (rows ! m)) (take (Suc m) rows) = take (Suc m) rows"
  proof (rule filter_True, intro ballI)
    fix r
    assume "r \<in> set (take (Suc m) rows)"
    then obtain i where "i < Suc m" "r = rows ! i" using assms(2) by (auto simp: in_set_conv_nth)
    then show "row_seq r \<le> row_seq (rows ! m)"
      using lt [of i m] assms(2) by (cases "i = m") (auto simp: less_imp_le)
  qed
  moreover have "filter (\<lambda>r. row_seq r \<le> row_seq (rows ! m)) (drop (Suc m) rows) = []"
  proof (rule filter_False, intro ballI)
    fix r
    assume "r \<in> set (drop (Suc m) rows)"
    then obtain i where "i < length rows - Suc m" "r = rows ! (Suc m + i)"
      by (auto simp: in_set_conv_nth)
    moreover from this have "Suc m + i < length rows" by linarith
    ultimately show "\<not> row_seq r \<le> row_seq (rows ! m)" using lt [of m "Suc m + i"] by auto
  qed
  ultimately show ?thesis
    by (metis append_Nil2 append_take_drop_id filter_append)
qed

lemma batch_source_chronological:
  assumes "w = Some Latest \<longrightarrow> sorted_wrt (<) (map row_seq rows)"
  shows "batch_source (order_of w) offset rows =
    (if w = Some Latest then rev (drop offset (rev rows)) else drop offset rows)"
proof (cases "w = Some Latest")
  case latest: True
  show ?thesis
  proof (cases "offset < length rows")
    case True
    let ?m = "length rows - Suc offset"
    have d: "drop offset (rev rows) = (rows ! ?m) # drop (Suc offset) (rev rows)"
      using True by (simp add: Cons_nth_drop_Suc [symmetric] rev_nth)
    have "filter (\<lambda>r. row_seq r \<le> row_seq (rows ! ?m)) rows = take (Suc ?m) rows"
      using assms latest True by (intro filter_upto_boundary) auto
    also have "\<dots> = rev (drop offset (rev rows))" using True by (simp add: drop_rev Suc_diff_Suc)
    finally show ?thesis using latest d
      by (simp add: batch_source_def order_of_def select_rows_def)
  next
    case False
    then show ?thesis using latest by (simp add: batch_source_def order_of_def select_rows_def)
  qed
qed (simp add: batch_source_def order_of_def select_rows_def)

lemma visit_collects_search:
  assumes "0 < batch_rows" and "length rows \<le> usize_max"
    and "w = Some Latest \<longrightarrow> sorted_wrt (<) (map row_seq rows)"
  shows "\<exists>bs info. visit_messages_in_batches batch_rows offset w collect [] rows =
      Inr (bs, length (concat bs), True) \<and>
    search_page (ResolvedAll offset) w order_by rows = Inr (concat bs, info) \<and>
    (\<forall>b \<in> set bs. b \<noteq> [] \<and> length b \<le> batch_rows)"
proof -
  let ?src = "batch_source (order_of w) offset rows"
  have src: "?src = (if w = Some Latest then rev (drop offset (rev rows)) else drop offset rows)"
    by (rule batch_source_chronological [OF assms(3)])
  then have "0 + length ?src \<le> usize_max" using assms(2) by simp
  with visit_loop_collects [of "[]" batch_rows 0 ?src "[]"] assms(1) obtain bs where
    bs: "visit_loop batch_rows collect [] [] 0 ?src = Inr (bs, length ?src, True)" "concat bs = ?src"
    "\<forall>b \<in> set bs. b \<noteq> [] \<and> length b \<le> batch_rows" by auto
  have "\<exists>info. search_page (ResolvedAll offset) w order_by rows = Inr (?src, info)"
    unfolding src
    by (simp add: search_page_def plan_limit_def select_rows_def order_of_def Let_def)
  with bs show ?thesis unfolding visit_messages_in_batches_def by metis
qed

text \<open>
  C13: when the sequence numbers of the session are distinct, visiting a result in batches yields
  the hits of the materialized search: same rows, same order, every batch nonempty and within the
  batch size.
\<close>

theorem batches_agree_with_search:
  assumes "0 < batch_rows" and "length rows \<le> usize_max"
    and "w = Some Latest \<longrightarrow> sorted_wrt (<) (map row_seq rows)"
  shows "\<exists>bs info. visit_messages_in_batches batch_rows offset w collect [] rows =
      Inr (bs, length (concat bs), True) \<and>
    search_page (ResolvedAll offset) w order_by rows = Inr (concat bs, info) \<and>
    (\<forall>b \<in> set bs. b \<noteq> [] \<and> length b \<le> batch_rows)"
  by (rule visit_collects_search [OF assms])

definition row :: "int \<Rightarrow> int \<Rightarrow> sql_row" where
  "row s i = \<lparr>row_seq = s, row_id = i\<rparr>"

theorem batches_agree_with_search_witness:
  "\<exists>bs info. visit_messages_in_batches 2 1 (Some Latest) collect [] [row 1 10, row 2 11, row 3 12, row 4 13] =
      Inr (bs, length (concat bs), True) \<and>
    search_page (ResolvedAll 1) (Some Latest) SessionSequence [row 1 10, row 2 11, row 3 12, row 4 13] =
      Inr (concat bs, info)"
proof -
  have "0 < (2 :: nat)" "length [row 1 10, row 2 11, row 3 12, row 4 13] \<le> usize_max"
    "Some Latest = Some Latest \<longrightarrow>
      sorted_wrt (<) (map row_seq [row 1 10, row 2 11, row 3 12, row 4 13])"
    by (simp_all add: usize_max_def row_def)
  from batches_agree_with_search [OF this] show ?thesis by blast
qed


end
