(* ===== verification/Batches.thy ===== *)
theory Batches
  imports SearchPages
begin

text \<open>
  The worker and the handle of \<open>message_search_batches.rs\<close> as one transition system: the producer
  thread with its read snapshot, the rendezvous channels for the start signal and the batches, the
  cancellation flag, and the consumer's \<open>next_batch\<close>, \<open>completion\<close> and \<open>close\<close>. Every interleaving of the two
  threads is a sequence of steps; the worker may panic at any point.

  What the traversal yields is a \<open>traversal\<close>: whether the database opens and the request plans, the
  batches the visitor is called with, how the traversal ends, and whether releasing the snapshot
  fails. A send on a rendezvous channel and the matching receive are one step.
\<close>

section \<open>State\<close>

datatype 'c traversal_end = EndExhausted 'c | EndFailed string

record ('b, 'c) traversal =
  tv_open :: "string option"
  tv_batches :: "'b list"
  tv_last_partial :: bool
  tv_end :: "'c traversal_end"
  tv_cleanup :: "string option"

text \<open>Errors of the worker's closure: the two that cancellation is expected to raise, and others.\<close>

datatype worker_error = Cancelled | Interrupted | OtherError string

datatype ('b, 'c) worker =
    WOpening
  | WAwaitStart
  | WTraversing "'b list"
  | WSendBatch 'b "'b list"
  | WSendComplete 'c
  | WFinishing "worker_error + unit"
  | WSendFailed string
  | WDone "string option"
  | WPanicked

datatype 'c batch_state = BsOpen | BsExhausted 'c | BsClosed | BsFailed string

datatype 'c consumer =
    CSpawning
  | CJoinSpawn
  | CNoHandle
  | CIdle
  | CSendStart
  | CRecv
  | CJoinLost
  | CJoinComplete
  | CJoinFailed
  | CJoinTerminal
  | CCloseCancelled
  | CCloseStartDropped
  | CJoinClose

datatype 'b reply = RBatch 'b | REnd | RClosed | RError

record ('b, 'c) batches =
  bt_worker :: "('b, 'c) worker"
  bt_consumer :: "'c consumer"
  bt_state :: "'c batch_state"
  bt_ready :: "(string + unit) option"
  bt_start :: bool
  bt_events :: bool
  bt_handle :: bool
  bt_cancel :: bool
  bt_log :: "'b reply list"

definition spawned :: "('b, 'c) batches" where
  "spawned = \<lparr>bt_worker = WOpening, bt_consumer = CSpawning, bt_state = BsOpen, bt_ready = None,
     bt_start = True, bt_events = True, bt_handle = True, bt_cancel = False, bt_log = []\<rparr>"

definition terminated :: "('b, 'c) worker \<Rightarrow> bool" where
  "terminated w = (case w of WDone _ \<Rightarrow> True | WPanicked \<Rightarrow> True | _ \<Rightarrow> False)"

section \<open>The worker's result\<close>

text \<open>
  \<open>with_read_snapshot\<close>: a failed rollback wins over the closure's result, and is never an expected
  cancellation.
\<close>

definition snapshot_result :: "string option \<Rightarrow> worker_error + unit \<Rightarrow> (worker_error \<times> bool) + unit" where
  "snapshot_result cleanup r =
     (case (r, cleanup) of
        (Inr u, None) \<Rightarrow> Inr u
      | (Inl e, None) \<Rightarrow> Inl (e, False)
      | (_, Some c) \<Rightarrow> Inl (OtherError c, True))"

definition is_expected_cancellation :: "worker_error \<times> bool \<Rightarrow> bool" where
  "is_expected_cancellation e \<longleftrightarrow> \<not> snd e \<and> (fst e = Cancelled \<or> fst e = Interrupted)"

definition rendered :: "worker_error \<Rightarrow> string" where
  "rendered e = (case e of
     Cancelled \<Rightarrow> ''message-search batches were cancelled''
   | Interrupted \<Rightarrow> ''interrupted''
   | OtherError m \<Rightarrow> m)"

definition finish :: "('b, 'c) traversal \<Rightarrow> bool \<Rightarrow> worker_error + unit \<Rightarrow> ('b, 'c) worker" where
  "finish tv cancelled r =
     (case snapshot_result (tv_cleanup tv) r of
        Inr _ \<Rightarrow> WDone None
      | Inl e \<Rightarrow> if cancelled \<and> is_expected_cancellation e then WDone None
                 else WSendFailed (rendered (fst e)))"

section \<open>Steps\<close>

text \<open>The result of \<open>join_worker\<close>: \<open>None\<close> is a panic of the worker.\<close>

definition join_worker :: "('b, 'c) batches \<Rightarrow> string option option" where
  "join_worker s =
     (if \<not> bt_handle s then Some None
      else case bt_worker s of WDone r \<Rightarrow> Some r | _ \<Rightarrow> None)"

definition reply :: "'b reply \<Rightarrow> ('b, 'c) batches \<Rightarrow> ('b, 'c) batches" where
  "reply r s = s\<lparr>bt_consumer := CIdle, bt_log := bt_log s @ [r]\<rparr>"

definition joined :: "('b, 'c) batches \<Rightarrow> ('b, 'c) batches" where
  "joined s = s\<lparr>bt_handle := False\<rparr>"

text \<open>What each call does once the join it waits for has returned.\<close>

definition after_join :: "('b, 'c) batches \<Rightarrow> ('b, 'c) batches" where
  "after_join s =
     (let s' = joined s in
      case bt_consumer s of
        CJoinSpawn \<Rightarrow> (reply RError s')\<lparr>bt_consumer := CNoHandle\<rparr>
      | CJoinLost \<Rightarrow>
          (case join_worker s of
             None \<Rightarrow> reply RError s'
           | Some r \<Rightarrow> reply RError (s'\<lparr>bt_state := BsFailed (case r of Some e \<Rightarrow> e
                 | None \<Rightarrow> ''message-search batch producer exited without a terminal state'')\<rparr>))
      | CJoinComplete \<Rightarrow>
          (case join_worker s of
             Some None \<Rightarrow> reply REnd s'
           | Some (Some e) \<Rightarrow> reply RError (s'\<lparr>bt_state := BsFailed e\<rparr>)
           | None \<Rightarrow> reply RError s')
      | CJoinFailed \<Rightarrow> reply RError s'
      | CJoinTerminal \<Rightarrow>
          (case join_worker s of Some None \<Rightarrow> reply RClosed s' | _ \<Rightarrow> reply RError s')
      | CJoinClose \<Rightarrow>
          (case join_worker s of
             None \<Rightarrow> reply RError s'
           | Some None \<Rightarrow> reply RClosed (s'\<lparr>bt_state := BsClosed\<rparr>)
           | Some (Some e) \<Rightarrow> reply RError (s'\<lparr>bt_state := BsClosed\<rparr>))
      | _ \<Rightarrow> s)"

definition joining :: "'c consumer \<Rightarrow> bool" where
  "joining c \<longleftrightarrow> c \<in> {CJoinSpawn, CJoinLost, CJoinComplete, CJoinFailed, CJoinTerminal, CJoinClose}"

inductive internal :: "('b, 'c) traversal \<Rightarrow> ('b, 'c) batches \<Rightarrow> ('b, 'c) batches \<Rightarrow> bool"
  for tv :: "('b, 'c) traversal" where
  open_ok: "bt_worker s = WOpening \<Longrightarrow> tv_open tv = None \<Longrightarrow>
    internal tv s (s\<lparr>bt_worker := WAwaitStart, bt_ready := Some (Inr ())\<rparr>)"
| open_error: "bt_worker s = WOpening \<Longrightarrow> tv_open tv = Some e \<Longrightarrow>
    internal tv s (s\<lparr>bt_worker := WDone None, bt_ready := Some (Inl e)\<rparr>)"
| start_received: "bt_worker s = WAwaitStart \<Longrightarrow> bt_consumer s = CSendStart \<Longrightarrow>
    internal tv s (s\<lparr>bt_worker := (if bt_cancel s then WFinishing (Inl Cancelled)
      else WTraversing (tv_batches tv)), bt_consumer := CRecv\<rparr>)"
| start_dropped: "bt_worker s = WAwaitStart \<Longrightarrow> bt_consumer s \<noteq> CSendStart \<Longrightarrow> \<not> bt_start s \<Longrightarrow>
    internal tv s (s\<lparr>bt_worker := WFinishing (Inl Cancelled)\<rparr>)"
| visit: "bt_worker s = WTraversing (b # bs) \<Longrightarrow>
    internal tv s (s\<lparr>bt_worker := (if bt_cancel s then WFinishing (Inl Cancelled) else WSendBatch b bs)\<rparr>)"
| interrupted: "bt_worker s = WTraversing bs \<Longrightarrow> bt_cancel s \<Longrightarrow>
    internal tv s (s\<lparr>bt_worker := WFinishing (Inl Interrupted)\<rparr>)"
| batch_received: "bt_worker s = WSendBatch b bs \<Longrightarrow> bt_consumer s = CRecv \<Longrightarrow>
    internal tv s (reply (RBatch b) (s\<lparr>bt_worker := WTraversing bs\<rparr>))"
| batch_refused: "bt_worker s = WSendBatch b bs \<Longrightarrow> \<not> bt_events s \<Longrightarrow>
    internal tv s (s\<lparr>bt_worker := (if bs = [] \<and> tv_last_partial tv then WTraversing []
      else WFinishing (Inr ()))\<rparr>)"
| traversed: "bt_worker s = WTraversing [] \<Longrightarrow>
    internal tv s (s\<lparr>bt_worker := (case tv_end tv of
        EndExhausted c \<Rightarrow> if bt_cancel s then WFinishing (Inr ()) else WSendComplete c
      | EndFailed e \<Rightarrow> WFinishing (Inl (OtherError e)))\<rparr>)"
| complete_received: "bt_worker s = WSendComplete c \<Longrightarrow> bt_consumer s = CRecv \<Longrightarrow>
    internal tv s (s\<lparr>bt_worker := WFinishing (Inr ()), bt_consumer := CJoinComplete,
      bt_state := BsExhausted c, bt_events := False\<rparr>)"
| complete_refused: "bt_worker s = WSendComplete c \<Longrightarrow> \<not> bt_events s \<Longrightarrow>
    internal tv s (s\<lparr>bt_worker := WFinishing (Inr ())\<rparr>)"
| finished: "bt_worker s = WFinishing r \<Longrightarrow>
    internal tv s (s\<lparr>bt_worker := finish tv (bt_cancel s) r\<rparr>)"
| failed_received: "bt_worker s = WSendFailed m \<Longrightarrow> bt_consumer s = CRecv \<Longrightarrow>
    internal tv s (s\<lparr>bt_worker := WDone (Some m), bt_consumer := CJoinFailed,
      bt_state := BsFailed m, bt_events := False\<rparr>)"
| failed_refused: "bt_worker s = WSendFailed m \<Longrightarrow> \<not> bt_events s \<Longrightarrow>
    internal tv s (s\<lparr>bt_worker := WDone (Some m)\<rparr>)"
| spawn_ok: "bt_consumer s = CSpawning \<Longrightarrow> bt_ready s = Some (Inr ()) \<Longrightarrow>
    internal tv s (s\<lparr>bt_consumer := CIdle\<rparr>)"
| spawn_error: "bt_consumer s = CSpawning \<Longrightarrow> bt_ready s = Some (Inl e) \<Longrightarrow>
    internal tv s (s\<lparr>bt_consumer := CJoinSpawn\<rparr>)"
| spawn_lost: "bt_consumer s = CSpawning \<Longrightarrow> bt_ready s = None \<Longrightarrow> terminated (bt_worker s) \<Longrightarrow>
    internal tv s (s\<lparr>bt_consumer := CJoinSpawn\<rparr>)"
| start_lost: "bt_consumer s = CSendStart \<Longrightarrow> terminated (bt_worker s) \<Longrightarrow>
    internal tv s (s\<lparr>bt_consumer := CRecv\<rparr>)"
| events_lost: "bt_consumer s = CRecv \<Longrightarrow> terminated (bt_worker s) \<Longrightarrow>
    internal tv s (s\<lparr>bt_consumer := CJoinLost, bt_events := False\<rparr>)"
| drop_start: "bt_consumer s = CCloseCancelled \<Longrightarrow>
    internal tv s (s\<lparr>bt_consumer := CCloseStartDropped, bt_start := False\<rparr>)"
| drop_events: "bt_consumer s = CCloseStartDropped \<Longrightarrow>
    internal tv s (s\<lparr>bt_consumer := CJoinClose, bt_events := False\<rparr>)"
| joins: "joining (bt_consumer s) \<Longrightarrow> \<not> bt_handle s \<or> terminated (bt_worker s) \<Longrightarrow>
    internal tv s (after_join s)"

text \<open>The consumer's calls.\<close>

definition next_batch :: "('b, 'c) batches \<Rightarrow> ('b, 'c) batches" where
  "next_batch s =
     (case bt_state s of
        BsExhausted _ \<Rightarrow> reply REnd s
      | BsClosed \<Rightarrow> reply RError s
      | BsFailed _ \<Rightarrow> reply RError s
      | BsOpen \<Rightarrow>
          if bt_start s then s\<lparr>bt_start := False, bt_consumer := CSendStart\<rparr>
          else if bt_events s then s\<lparr>bt_consumer := CRecv\<rparr>
          else reply RError s)"

definition close :: "('b, 'c) batches \<Rightarrow> ('b, 'c) batches" where
  "close s =
     (case bt_state s of
        BsClosed \<Rightarrow> s\<lparr>bt_consumer := CJoinTerminal\<rparr>
      | BsExhausted _ \<Rightarrow> s\<lparr>bt_consumer := CJoinTerminal\<rparr>
      | _ \<Rightarrow> s\<lparr>bt_cancel := True, bt_consumer := CCloseCancelled\<rparr>)"


inductive reachable_batches :: "('b, 'c) traversal \<Rightarrow> ('b, 'c) batches \<Rightarrow> bool"
  for tv :: "('b, 'c) traversal" where
  spawned: "reachable_batches tv spawned"
| internal: "reachable_batches tv s \<Longrightarrow> internal tv s s' \<Longrightarrow> reachable_batches tv s'"
| panics: "reachable_batches tv s \<Longrightarrow> \<not> terminated (bt_worker s) \<Longrightarrow>
    reachable_batches tv (s\<lparr>bt_worker := WPanicked\<rparr>)"
| next_call: "reachable_batches tv s \<Longrightarrow> bt_consumer s = CIdle \<Longrightarrow> reachable_batches tv (next_batch s)"
| close_call: "reachable_batches tv s \<Longrightarrow> bt_consumer s = CIdle \<Longrightarrow> reachable_batches tv (close s)"

section \<open>Invariant\<close>

definition delivered :: "('b, 'c) batches \<Rightarrow> 'b list" where
  "delivered s = concat (map (\<lambda>r. case r of RBatch b \<Rightarrow> [b] | _ \<Rightarrow> []) (bt_log s))"

text \<open>The batches handed over and those the worker still has are those of the traversal.\<close>

fun progress_at :: "('b, 'c) traversal \<Rightarrow> ('b, 'c) worker \<Rightarrow> 'b list \<Rightarrow> bool \<Rightarrow> bool" where
  "progress_at tv WOpening d events \<longleftrightarrow> d = []"
| "progress_at tv WAwaitStart d events \<longleftrightarrow> d = []"
| "progress_at tv (WTraversing bs) d events \<longleftrightarrow> d @ bs = tv_batches tv \<or> bs = [] \<and> \<not> events"
| "progress_at tv (WSendBatch b bs) d events \<longleftrightarrow> d @ b # bs = tv_batches tv"
| "progress_at tv (WSendComplete c) d events \<longleftrightarrow>
     tv_end tv = EndExhausted c \<and> (d = tv_batches tv \<or> \<not> events)"
| "progress_at tv _ d events \<longleftrightarrow> True"

fun state_at :: "('b, 'c) traversal \<Rightarrow> 'c batch_state \<Rightarrow> 'b list \<Rightarrow> bool \<Rightarrow> bool" where
  "state_at tv BsOpen d events \<longleftrightarrow> True"
| "state_at tv (BsExhausted c) d events \<longleftrightarrow> d = tv_batches tv \<and> tv_end tv = EndExhausted c \<and> \<not> events"
| "state_at tv _ d events \<longleftrightarrow> \<not> events"

definition progress_ok :: "('b, 'c) traversal \<Rightarrow> ('b, 'c) batches \<Rightarrow> bool" where
  "progress_ok tv s \<longleftrightarrow> prefix (delivered s) (tv_batches tv) \<and>
     progress_at tv (bt_worker s) (delivered s) (bt_events s)"

definition state_ok :: "('b, 'c) traversal \<Rightarrow> ('b, 'c) batches \<Rightarrow> bool" where
  "state_ok tv s \<longleftrightarrow> state_at tv (bt_state s) (delivered s) (bt_events s)"

lemma progress_terminated [simp]: "terminated w \<Longrightarrow> progress_at tv w d events"
  by (cases w) (simp_all add: terminated_def)

lemma progress_no_events: "progress_at tv w d events \<Longrightarrow> progress_at tv w d False"
  by (cases w) auto

lemma state_no_events: "state_at tv st d events \<Longrightarrow> state_at tv st d False"
  by (cases st) auto

text \<open>Which program points of the two threads go together.\<close>

definition control_ok :: "('b, 'c) batches \<Rightarrow> bool" where
  "control_ok s \<longleftrightarrow>
     (bt_handle s \<or> terminated (bt_worker s)) \<and> (bt_state s = BsOpen \<or> \<not> bt_events s) \<and>
     (case bt_consumer s of
        CSpawning \<Rightarrow> bt_start s \<and> bt_events s \<and> \<not> bt_cancel s \<and>
          (case bt_ready s of None \<Rightarrow> bt_worker s = WOpening \<or> terminated (bt_worker s)
           | Some (Inl _) \<Rightarrow> terminated (bt_worker s)
           | Some (Inr _) \<Rightarrow> bt_worker s = WAwaitStart \<or> terminated (bt_worker s))
      | CJoinSpawn \<Rightarrow> terminated (bt_worker s)
      | CNoHandle \<Rightarrow> terminated (bt_worker s)
      | CIdle \<Rightarrow> bt_worker s \<noteq> WOpening \<and>
          (if bt_events s then \<not> bt_cancel s \<and>
             (if bt_start s then bt_worker s = WAwaitStart \<or> terminated (bt_worker s)
              else bt_worker s \<noteq> WAwaitStart)
           else \<not> bt_start s \<and> terminated (bt_worker s))
      | CSendStart \<Rightarrow> bt_events s \<and> \<not> bt_start s \<and> \<not> bt_cancel s \<and>
          (bt_worker s = WAwaitStart \<or> terminated (bt_worker s))
      | CRecv \<Rightarrow> bt_events s \<and> \<not> bt_start s \<and> \<not> bt_cancel s \<and> bt_worker s \<noteq> WAwaitStart \<and> bt_worker s \<noteq> WOpening
      | CJoinLost \<Rightarrow> \<not> bt_events s \<and> \<not> bt_start s \<and> terminated (bt_worker s)
      | CJoinComplete \<Rightarrow> \<not> bt_events s \<and> \<not> bt_start s \<and> bt_worker s \<noteq> WAwaitStart \<and> bt_worker s \<noteq> WOpening
      | CJoinFailed \<Rightarrow> \<not> bt_events s \<and> \<not> bt_start s \<and> terminated (bt_worker s)
      | CJoinTerminal \<Rightarrow> \<not> bt_events s \<and> \<not> bt_start s \<and> terminated (bt_worker s)
      | CCloseCancelled \<Rightarrow> bt_cancel s \<and> bt_worker s \<noteq> WOpening
      | CCloseStartDropped \<Rightarrow> bt_cancel s \<and> \<not> bt_start s \<and> bt_worker s \<noteq> WOpening
      | CJoinClose \<Rightarrow> bt_cancel s \<and> \<not> bt_start s \<and> \<not> bt_events s \<and> bt_worker s \<noteq> WOpening)"

lemma delivered_simps [simp]:
  "delivered (s\<lparr>bt_worker := w\<rparr>) = delivered s"
  "delivered (s\<lparr>bt_consumer := c\<rparr>) = delivered s"
  "delivered (s\<lparr>bt_state := st\<rparr>) = delivered s"
  "delivered (s\<lparr>bt_ready := r\<rparr>) = delivered s"
  "delivered (s\<lparr>bt_start := b\<rparr>) = delivered s"
  "delivered (s\<lparr>bt_events := b\<rparr>) = delivered s"
  "delivered (s\<lparr>bt_handle := b\<rparr>) = delivered s"
  "delivered (s\<lparr>bt_cancel := b\<rparr>) = delivered s"
  "delivered (reply (RBatch x) s) = delivered s @ [x]"
  "delivered (reply REnd s) = delivered s"
  "delivered (reply RClosed s) = delivered s"
  "delivered (reply RError s) = delivered s"
  by (simp_all add: delivered_def reply_def)

lemma reply_simps [simp]:
  "bt_worker (reply r s) = bt_worker s" "bt_consumer (reply r s) = CIdle" "bt_state (reply r s) = bt_state s"
  "bt_ready (reply r s) = bt_ready s" "bt_start (reply r s) = bt_start s" "bt_events (reply r s) = bt_events s"
  "bt_handle (reply r s) = bt_handle s" "bt_cancel (reply r s) = bt_cancel s"
  "bt_log (reply r s) = bt_log s @ [r]"
  by (simp_all add: reply_def)

lemma terminated_simps [simp]:
  "terminated (WDone r)" "terminated WPanicked" "\<not> terminated WOpening" "\<not> terminated WAwaitStart"
  "\<not> terminated (WTraversing bs)" "\<not> terminated (WSendBatch b bs)" "\<not> terminated (WSendComplete c)"
  "\<not> terminated (WFinishing e)" "\<not> terminated (WSendFailed m)"
  by (simp_all add: terminated_def)

text \<open>A join changes the handle, the state and the log; the other fields are as they were.\<close>

lemma join_fields:
  "bt_worker (joined s) = bt_worker s" "bt_start (joined s) = bt_start s" "bt_state (joined s) = bt_state s"
  "bt_events (joined s) = bt_events s" "bt_cancel (joined s) = bt_cancel s" "\<not> bt_handle (joined s)"
  "delivered (joined s) = delivered s" "bt_log (joined s) = bt_log s"
  by (simp_all add: joined_def)

lemma after_join_fields:
  assumes "joining (bt_consumer s)"
  shows "bt_worker (after_join s) = bt_worker s \<and> bt_start (after_join s) = bt_start s \<and>
    bt_events (after_join s) = bt_events s \<and> bt_cancel (after_join s) = bt_cancel s \<and>
    \<not> bt_handle (after_join s) \<and> delivered (after_join s) = delivered s \<and>
    bt_consumer (after_join s) = (if bt_consumer s = CJoinSpawn then CNoHandle else CIdle)"
  using assms
  by (cases "bt_consumer s"; cases "join_worker s")
    (simp_all add: joining_def after_join_def join_fields Let_def split: option.split)

lemma after_join_state:
  assumes "joining (bt_consumer s)"
  shows "bt_state (after_join s) = bt_state s \<or> bt_consumer s \<noteq> CJoinSpawn \<and>
    (bt_state (after_join s) = BsClosed \<or> (\<exists>e. bt_state (after_join s) = BsFailed e))"
  using assms
  by (cases "bt_consumer s"; cases "join_worker s")
    (simp_all add: joining_def after_join_def join_fields Let_def split: option.split)


text \<open>Steps of the worker alone.\<close>

lemma control_worker:
  assumes "control_ok s" "\<not> terminated (bt_worker s)" "w \<noteq> WOpening" "w \<noteq> WAwaitStart"
    "terminated w \<or> bt_worker s \<noteq> WOpening \<and>
      (bt_worker s = WAwaitStart \<longrightarrow> \<not> bt_start s \<and> bt_consumer s \<noteq> CSendStart)"
  shows "control_ok (s\<lparr>bt_worker := w\<rparr>)"
  using assms by (cases "bt_consumer s") (auto simp: control_ok_def split: option.splits sum.splits if_splits)

lemma finish_props: "finish tv c r \<noteq> WOpening" "finish tv c r \<noteq> WAwaitStart"
  by (auto simp: finish_def split: sum.split)

lemma control_internal:
  assumes "internal tv s s'" "control_ok s"
  shows "control_ok s'"
  using assms(1)
proof (cases rule: internal.cases)
  case joins
  have "terminated (bt_worker s)" using joins(3) assms(2) by (auto simp: control_ok_def)
  then show ?thesis
    using joins(2) assms(2) after_join_fields [OF joins(2)] after_join_state [OF joins(2)]
    unfolding joins(1) by (cases "bt_consumer s") (auto simp: control_ok_def joining_def)
next
  case open_ok
  with assms(2) show ?thesis by (cases "bt_consumer s") (auto simp: control_ok_def)
next
  case open_error
  with assms(2) show ?thesis by (cases "bt_consumer s") (auto simp: control_ok_def)
next
  case complete_received
  with assms(2) show ?thesis by (auto simp: control_ok_def)
next
  case failed_received
  with assms(2) show ?thesis by (auto simp: control_ok_def)
next
  case start_received
  with assms(2) show ?thesis by (auto simp: control_ok_def)
next
  case batch_received
  with assms(2) show ?thesis by (auto simp: control_ok_def)
next
  case events_lost
  with assms(2) show ?thesis by (auto simp: control_ok_def)
next
  case start_lost
  with assms(2) show ?thesis by (auto simp: control_ok_def)
next
  case spawn_ok
  with assms(2) show ?thesis by (auto simp: control_ok_def)
next
  case spawn_error
  with assms(2) show ?thesis by (auto simp: control_ok_def)
next
  case spawn_lost
  with assms(2) show ?thesis by (auto simp: control_ok_def)
next
  case drop_start
  with assms(2) show ?thesis by (auto simp: control_ok_def)
next
  case drop_events
  with assms(2) show ?thesis by (auto simp: control_ok_def)
qed (simp_all add: control_worker [OF assms(2)] finish_props split: traversal_end.split)

lemma state_internal:
  assumes "internal tv s s'" "state_ok tv s" "control_ok s" "progress_ok tv s"
  shows "state_ok tv s'"
  using assms(1)
proof (cases rule: internal.cases)
  case joins
  note f = after_join_fields [OF joins(2)]
  have "bt_consumer s \<noteq> CJoinSpawn \<Longrightarrow> \<not> bt_events s"
    using joins(2) assms(3) by (auto simp: control_ok_def joining_def)
  with after_join_state [OF joins(2)] show ?thesis
    using assms(2) f by (auto simp: joins(1) state_ok_def)
next
  case complete_received
  then show ?thesis using assms(3,4) by (simp add: state_ok_def progress_ok_def control_ok_def)
next
  case batch_received
  then have "bt_state s = BsOpen" using assms(3) by (auto simp: control_ok_def)
  then show ?thesis by (simp add: batch_received(1) state_ok_def)
qed (use assms(2) in \<open>simp_all add: state_ok_def state_no_events\<close>)

lemma progress_internal:
  assumes "internal tv s s'" "progress_ok tv s" "control_ok s"
  shows "progress_ok tv s'"
  using assms(1)
proof (cases rule: internal.cases)
  case joins
  have "terminated (bt_worker s)" using joins(3) assms(3) by (auto simp: control_ok_def)
  then show ?thesis
    using assms(2) after_join_fields [OF joins(2)] unfolding joins(1) by (simp add: progress_ok_def)
next
  case (batch_received b bs)
  then have "tv_batches tv = delivered s @ b # bs" using assms(2) by (simp add: progress_ok_def)
  then show ?thesis unfolding batch_received(1) by (simp add: progress_ok_def)
next
  case traversed
  then show ?thesis using assms(2) by (auto simp: progress_ok_def split: traversal_end.split)
qed (use assms(2) in \<open>auto simp: progress_ok_def finish_def progress_no_events split: sum.split\<close>)


lemma batches_invariant:
  assumes "reachable_batches tv s"
  shows "control_ok s \<and> progress_ok tv s \<and> state_ok tv s"
  using assms
proof (induction rule: reachable_batches.induct)
  case spawned
  show ?case
    by (simp add: spawned_def control_ok_def progress_ok_def state_ok_def delivered_def)
next
  case (internal s s')
  then show ?case using control_internal state_internal progress_internal by blast
next
  case (panics s)
  then show ?case
    using control_worker [of s WPanicked] by (simp add: progress_ok_def state_ok_def)
next
  case (next_call s)
  then show ?case
    by (cases "bt_state s") (auto simp: next_batch_def control_ok_def progress_ok_def state_ok_def)
next
  case (close_call s)
  then show ?case
    by (cases "bt_state s") (auto simp: close_def control_ok_def progress_ok_def state_ok_def)
qed

section \<open>Every call returns\<close>

definition busy :: "('b, 'c) batches \<Rightarrow> bool" where
  "busy s \<longleftrightarrow> bt_consumer s \<noteq> CIdle \<and> bt_consumer s \<noteq> CNoHandle"

fun worker_rank :: "('b, 'c) traversal \<Rightarrow> ('b, 'c) worker \<Rightarrow> nat" where
  "worker_rank tv WOpening = 2 * length (tv_batches tv) + 10"
| "worker_rank tv WAwaitStart = 2 * length (tv_batches tv) + 9"
| "worker_rank tv (WTraversing bs) = 2 * length bs + 7"
| "worker_rank tv (WSendBatch b bs) = 2 * length bs + 8"
| "worker_rank tv (WSendComplete c) = 6"
| "worker_rank tv (WFinishing r) = 4"
| "worker_rank tv (WSendFailed m) = 2"
| "worker_rank tv (WDone r) = 0"
| "worker_rank tv WPanicked = 0"

fun consumer_rank :: "'c consumer \<Rightarrow> nat" where
  "consumer_rank CSpawning = 5"
| "consumer_rank CNoHandle = 0"
| "consumer_rank CIdle = 0"
| "consumer_rank CSendStart = 4"
| "consumer_rank CRecv = 3"
| "consumer_rank CCloseCancelled = 3"
| "consumer_rank CCloseStartDropped = 2"
| "consumer_rank _ = 1"

definition call_rank :: "('b, 'c) traversal \<Rightarrow> ('b, 'c) batches \<Rightarrow> nat" where
  "call_rank tv s = worker_rank tv (bt_worker s) + consumer_rank (bt_consumer s)"

lemma finish_rank: "worker_rank tv (finish tv c r) < 4"
  by (simp add: finish_def split: sum.split)

lemma running_rank: "\<not> terminated w \<Longrightarrow> 0 < worker_rank tv w"
  by (cases w) (simp_all add: terminated_def)

lemma internal_decreases: "internal tv s s' \<Longrightarrow> call_rank tv s' < call_rank tv s"
proof (induction rule: internal.induct)
  case (finished s r)
  then show ?case using finish_rank [of tv "bt_cancel s" r] by (simp add: call_rank_def)
next
  case (joins s)
  then show ?case using after_join_fields [OF joins(1)] by (auto simp: call_rank_def joining_def)
qed (auto simp: call_rank_def running_rank split: traversal_end.split)

text \<open>A worker whose channels are closed runs to its end by itself.\<close>

lemma worker_can_step:
  assumes "\<not> terminated (bt_worker s)" "\<not> bt_events s" "bt_worker s \<noteq> WOpening"
    "bt_worker s = WAwaitStart \<Longrightarrow> \<not> bt_start s" "bt_consumer s \<noteq> CSendStart"
  shows "\<exists>s'. internal tv s s'"
proof (cases "bt_worker s")
  case (WTraversing bs)
  then show ?thesis by (cases bs) (auto intro: internal.visit internal.traversed)
qed (use assms in \<open>auto intro: internal.intros\<close>)

lemma join_ready:
  assumes "control_ok s" "joining (bt_consumer s)"
  shows "terminated (bt_worker s) \<or> \<not> bt_events s \<and> \<not> bt_start s \<and> bt_worker s \<noteq> WOpening"
  using assms by (auto simp: joining_def control_ok_def)

lemma joining_simps [simp]:
  "joining CJoinSpawn" "joining CJoinLost" "joining CJoinComplete" "joining CJoinFailed"
  "joining CJoinTerminal" "joining CJoinClose"
  by (simp_all add: joining_def)

lemma busy_can_step:
  assumes "control_ok s" "busy s"
  shows "\<exists>s'. internal tv s s'"
proof -
  have join: "\<exists>s'. internal tv s s'" if "joining (bt_consumer s)"
    "terminated (bt_worker s) \<or> \<not> bt_events s \<and> \<not> bt_start s \<and> bt_worker s \<noteq> WOpening"
  proof (cases "terminated (bt_worker s)")
    case True
    then show ?thesis using that(1) internal.joins by blast
  next
    case False
    then show ?thesis using that by (intro worker_can_step) (auto simp: joining_def)
  qed
  note join = join [OF _ join_ready [OF assms(1)]]
  show ?thesis
  proof (cases "bt_consumer s")
    case CSpawning
    show ?thesis
    proof (cases "bt_ready s")
      case None
      then have "bt_worker s = WOpening \<or> terminated (bt_worker s)"
        using assms(1) CSpawning by (simp add: control_ok_def)
      then show ?thesis using CSpawning None internal.open_ok internal.open_error internal.spawn_lost
        by (cases "tv_open tv") blast+
    next
      case (Some r)
      then show ?thesis
        using internal.spawn_ok [OF CSpawning] internal.spawn_error [OF CSpawning] by (cases r) auto
    qed
  next
    case CSendStart
    then have "bt_worker s = WAwaitStart \<or> terminated (bt_worker s)"
      using assms(1) by (simp add: control_ok_def)
    then show ?thesis using CSendStart internal.start_received internal.start_lost by blast
  next
    case CRecv
    then have "bt_worker s \<noteq> WAwaitStart" "bt_worker s \<noteq> WOpening"
      using assms(1) by (simp_all add: control_ok_def)
    then show ?thesis
    proof (cases "bt_worker s")
      case (WTraversing bs)
      then show ?thesis by (cases bs) (auto intro: internal.visit internal.traversed)
    next
      case (WDone r)
      then show ?thesis using CRecv internal.events_lost by fastforce
    next
      case WPanicked
      then show ?thesis using CRecv internal.events_lost by fastforce
    next
      case (WSendBatch b bs)
      show ?thesis using internal.batch_received [OF WSendBatch CRecv] by blast
    next
      case (WSendComplete c)
      show ?thesis using internal.complete_received [OF WSendComplete CRecv] by blast
    next
      case (WSendFailed m)
      show ?thesis using internal.failed_received [OF WSendFailed CRecv] by blast
    next
      case (WFinishing r)
      show ?thesis using internal.finished [OF WFinishing] by blast
    qed simp_all
  next
    case CCloseCancelled
    then show ?thesis using internal.drop_start by blast
  next
    case CCloseStartDropped
    then show ?thesis using internal.drop_events by blast
  qed (use assms(2) in \<open>simp_all add: busy_def join\<close>)
qed

text \<open>A call in progress comes to its end whatever steps are taken.\<close>

lemma calls_end: "control_ok s \<Longrightarrow> \<exists>s'. (internal tv)\<^sup>*\<^sup>* s s' \<and> \<not> busy s'"
proof (induction "call_rank tv s" arbitrary: s rule: less_induct)
  case less
  show ?case
  proof (cases "busy s")
    case True
    then obtain s1 where s1: "internal tv s s1" using busy_can_step less.prems by blast
    then show ?thesis
      using less.hyps [OF internal_decreases [OF s1] control_internal [OF s1 less.prems]]
      by (meson converse_rtranclp_into_rtranclp)
  qed blast
qed


section \<open>The end of the results\<close>

definition exhausted :: "'c batch_state \<Rightarrow> bool" where
  "exhausted st = (case st of BsExhausted _ \<Rightarrow> True | _ \<Rightarrow> False)"

lemma exhausted_simps [simp]:
  "exhausted (BsExhausted c)" "\<not> exhausted BsOpen" "\<not> exhausted BsClosed" "\<not> exhausted (BsFailed e)"
  by (simp_all add: exhausted_def)




section \<open>Properties\<close>

text \<open>
  C12: every call on the batches returns. Whatever the traversal does, and whenever the worker
  panics, a state in which a call is in progress has a step, every step of the two threads brings
  the call nearer to its end, and so each of them, the close of a blocked producer included,
  reaches its return without a deadlock between the start signal, the hand-over of a batch, the
  cancellation and the join.
\<close>

theorem every_call_returns:
  assumes "reachable_batches tv s"
  shows "(busy s \<longrightarrow> (\<exists>s'. internal tv s s')) \<and> (\<forall>s'. internal tv s s' \<longrightarrow> call_rank tv s' < call_rank tv s) \<and>
    (\<exists>s'. (internal tv)\<^sup>*\<^sup>* s s' \<and> \<not> busy s')"
  using busy_can_step internal_decreases calls_end batches_invariant [OF assms] by blast

theorem every_call_returns_witness:
  "\<exists>s'. (internal \<lparr>tv_open = None, tv_batches = [1 :: nat], tv_last_partial = True, tv_end = EndExhausted True,
      tv_cleanup = None\<rparr>)\<^sup>*\<^sup>* spawned s' \<and> \<not> busy s'"
  by (rule every_call_returns [OF reachable_batches.spawned, THEN conjunct2, THEN conjunct2])

text \<open>
  C32: the worker, its connection and its read snapshot do not outlive the search. Whenever no call
  is in progress and the batches have been exhausted, have failed, or were asked to close, the
  worker thread has terminated and has been unable to block on either channel.
\<close>

theorem released_after_terminal_state:
  assumes "reachable_batches tv s" "bt_consumer s = CIdle" "bt_state s \<noteq> BsOpen \<or> bt_cancel s"
  shows "terminated (bt_worker s) \<and> \<not> bt_events s \<and> \<not> bt_start s"
  using batches_invariant [OF assms(1)] assms(2,3) by (auto simp: control_ok_def split: if_splits)



definition run_traversal :: "(sql_row list, bool) traversal" where
  "run_traversal = \<lparr>tv_open = None, tv_batches = [[row 1 10, row 2 11], [row 3 12]],
     tv_last_partial = True, tv_end = EndExhausted True, tv_cleanup = None\<rparr>"

definition run_at :: "(sql_row list, bool) worker \<Rightarrow> bool consumer \<Rightarrow> bool batch_state \<Rightarrow> bool \<Rightarrow> bool \<Rightarrow> bool \<Rightarrow>
    sql_row list reply list \<Rightarrow> (sql_row list, bool) batches" where
  "run_at w c st start events handle log = \<lparr>bt_worker = w, bt_consumer = c, bt_state = st,
     bt_ready = Some (Inr ()), bt_start = start, bt_events = events, bt_handle = handle,
     bt_cancel = False, bt_log = log\<rparr>"


lemma run_reaches_end:
  "reachable_batches run_traversal (run_at (WDone None) CIdle (BsExhausted True) False False False
     [RBatch [row 1 10, row 2 11], RBatch [row 3 12], REnd])"
proof -
  let ?b = "[row 1 10, row 2 11]" and ?c = "[row 3 12]" and ?r = "reachable_batches run_traversal"
  note step = reachable_batches.internal [of run_traversal]
  have 1: "?r (run_at WAwaitStart CIdle BsOpen True True True [])"
    using step [OF step [OF reachable_batches.spawned internal.open_ok] internal.spawn_ok]
    by (simp add: spawned_def run_traversal_def run_at_def)
  have 2: "?r (run_at WAwaitStart CSendStart BsOpen False True True [])"
    using reachable_batches.next_call [OF 1] by (simp add: run_at_def next_batch_def)
  have 3: "?r (run_at (WTraversing [?b, ?c]) CRecv BsOpen False True True [])"
    using step [OF 2 internal.start_received] by (simp add: run_at_def run_traversal_def)
  have 4: "?r (run_at (WSendBatch ?b [?c]) CRecv BsOpen False True True [])"
    using step [OF 3 internal.visit] by (simp add: run_at_def)
  have 5: "?r (run_at (WTraversing [?c]) CIdle BsOpen False True True [RBatch ?b])"
    using step [OF 4 internal.batch_received] by (simp add: run_at_def reply_def)
  have 6: "?r (run_at (WTraversing [?c]) CRecv BsOpen False True True [RBatch ?b])"
    using reachable_batches.next_call [OF 5] by (simp add: run_at_def next_batch_def)
  have 7: "?r (run_at (WSendBatch ?c []) CRecv BsOpen False True True [RBatch ?b])"
    using step [OF 6 internal.visit] by (simp add: run_at_def)
  have 8: "?r (run_at (WTraversing []) CIdle BsOpen False True True [RBatch ?b, RBatch ?c])"
    using step [OF 7 internal.batch_received] by (simp add: run_at_def reply_def)
  have 9: "?r (run_at (WTraversing []) CRecv BsOpen False True True [RBatch ?b, RBatch ?c])"
    using reachable_batches.next_call [OF 8] by (simp add: run_at_def next_batch_def)
  have 10: "?r (run_at (WSendComplete True) CRecv BsOpen False True True [RBatch ?b, RBatch ?c])"
    using step [OF 9 internal.traversed] by (simp add: run_at_def run_traversal_def)
  have 11: "?r (run_at (WFinishing (Inr ())) CJoinComplete (BsExhausted True) False False True [RBatch ?b, RBatch ?c])"
    using step [OF 10 internal.complete_received] by (simp add: run_at_def)
  have 12: "?r (run_at (WDone None) CJoinComplete (BsExhausted True) False False True [RBatch ?b, RBatch ?c])"
    using step [OF 11 internal.finished] by (simp add: run_at_def finish_def snapshot_result_def run_traversal_def)
  show ?thesis
    using step [OF 12 internal.joins]
    by (simp add: run_at_def after_join_def joined_def join_worker_def reply_def)
qed

theorem released_after_terminal_state_witness:
  "terminated (bt_worker (run_at (WDone None) CIdle (BsExhausted True) False False False
      [RBatch [row 1 10, row 2 11], RBatch [row 3 12], REnd]))"
  by (rule released_after_terminal_state [OF run_reaches_end, THEN conjunct1]) (simp_all add: run_at_def)



end
