(* ===== verification/Dates.thy ===== *)
theory Dates
  imports Prelude "HOL-Library.Product_Lexorder"
begin

text \<open>
  The time filters of \<open>dates.rs\<close>: one token is parsed to an inclusive span of instants, and the
  flags \<open>--since\<close>, \<open>--until\<close> and \<open>--when\<close> are resolved to a pair of optional bounds.

  The calendar (\<open>chrono\<close>), the EDTF parser (\<open>edtf\<close>), the phrase parser (\<open>interim\<close>) and the
  Unicode digit class of the regular expressions are crates the code calls: they are the fields of
  \<open>date_lib\<close>, and what the code relies on is \<open>calendar_contract\<close>, their documented behaviour.
  Text is a list of Unicode scalar values. Years are integers: they come from four-digit fields,
  so the additions on \<open>i32\<close> in the code stay in range.
\<close>

section \<open>The libraries\<close>

datatype season = Spring | Summer | Autumn | Winter

datatype precision =
    Century int
  | Decade int
  | Year int
  | MonthOfYear int
  | DayOfYear int
  | Month int nat
  | DayOfMonth int nat
  | Day int nat nat
  | Season int season

datatype 't edtf =
    EdtfDate precision
  | EdtfInterval precision precision
  | EdtfDateTime 't
  | EdtfOther

datatype duration_unit = UnitDays | UnitWeeks | UnitHours | UnitMinutes

record ('d, 't, 'u) date_lib =
  dl_from_ymd :: "int \<Rightarrow> nat \<Rightarrow> nat \<Rightarrow> 'd option"
  dl_pred :: "'d \<Rightarrow> 'd option"
  dl_ymd :: "'d \<Rightarrow> int \<times> nat \<times> nat"
  dl_at :: "int \<Rightarrow> nat \<Rightarrow> nat \<Rightarrow> nat \<Rightarrow> nat \<Rightarrow> nat \<Rightarrow> 't option"
  dl_with_nanosecond :: "'t \<Rightarrow> nat \<Rightarrow> 't option"
  dl_date_of :: "'t \<Rightarrow> 'd"
  dl_try_unit :: "duration_unit \<Rightarrow> int \<Rightarrow> 'u option"
  dl_checked_sub :: "'t \<Rightarrow> 'u \<Rightarrow> 't option"
  dl_rfc3339 :: "scalars \<Rightarrow> 't option"
  dl_naive :: "scalars \<Rightarrow> 't option"
  dl_edtf :: "scalars \<Rightarrow> 't edtf option"
  dl_phrase :: "scalars \<Rightarrow> 't \<Rightarrow> 't option"
  dl_digit :: "scalar \<Rightarrow> bool"

section \<open>Results\<close>

datatype bound = BoundStart | BoundEnd

datatype date_error =
    EmptyDate
  | NumberTooLarge
  | DurationOutOfRange
  | InvalidDate
  | InvalidMonth
  | DateUnderflow
  | InvalidDateTime
  | InvalidNumber
  | UnsupportedForm
  | UnrecognizedDate
  | InvalidWhen scalars date_error
  | InvalidSince scalars date_error
  | InvalidUntil scalars date_error
  | ReversedWhen scalars
  | SinceAfterUntil

type_synonym 't span = "'t \<times> 't"

section \<open>Calendar helpers\<close>

definition at_instant ::
    "('d, 't, 'u) date_lib \<Rightarrow> int \<Rightarrow> nat \<Rightarrow> nat \<Rightarrow> nat \<Rightarrow> nat \<Rightarrow> nat \<Rightarrow> date_error + 't" where
  "at_instant lib year month day h mi s = ok_or InvalidDate (dl_at lib year month day h mi s)"

definition end_of_second :: "('d, 't, 'u) date_lib \<Rightarrow> 't \<Rightarrow> 't" where
  "end_of_second lib instant =
     (case dl_with_nanosecond lib instant 999999999 of Some t \<Rightarrow> t | None \<Rightarrow> instant)"

definition days_in_month :: "('d, 't, 'u) date_lib \<Rightarrow> int \<Rightarrow> nat \<Rightarrow> date_error + nat" where
  "days_in_month lib year month =
     (let (ny, nm) = (if month = 12 then (year + 1, 1) else (year, month + 1))
      in res_bind (ok_or InvalidMonth (dl_from_ymd lib ny nm 1)) (\<lambda>first_next.
         res_bind (ok_or DateUnderflow (dl_pred lib first_next)) (\<lambda>last_day.
         Inr (snd (snd (dl_ymd lib last_day))))))"

definition day_span ::
    "('d, 't, 'u) date_lib \<Rightarrow> int \<Rightarrow> nat \<Rightarrow> nat \<Rightarrow> date_error + 't span" where
  "day_span lib year month day =
     res_bind (at_instant lib year month day 0 0 0) (\<lambda>start.
     res_bind (at_instant lib year month day 23 59 59) (\<lambda>stop.
     Inr (start, end_of_second lib stop)))"

definition day_span_of :: "('d, 't, 'u) date_lib \<Rightarrow> 't \<Rightarrow> date_error + 't span" where
  "day_span_of lib instant =
     (let (y, m, d) = dl_ymd lib (dl_date_of lib instant) in day_span lib y m d)"

definition month_span ::
    "('d, 't, 'u) date_lib \<Rightarrow> int \<Rightarrow> nat \<Rightarrow> date_error + 't span" where
  "month_span lib year month =
     res_bind (days_in_month lib year month) (\<lambda>last_day.
     res_bind (at_instant lib year month 1 0 0 0) (\<lambda>start.
     res_bind (at_instant lib year month last_day 23 59 59) (\<lambda>stop.
     Inr (start, end_of_second lib stop))))"

definition start_of_year :: "('d, 't, 'u) date_lib \<Rightarrow> int \<Rightarrow> date_error + 't" where
  "start_of_year lib year = at_instant lib year 1 1 0 0 0"

definition end_of_year :: "('d, 't, 'u) date_lib \<Rightarrow> int \<Rightarrow> date_error + 't" where
  "end_of_year lib year = res_map (end_of_second lib) (at_instant lib year 12 31 23 59 59)"

definition season_span ::
    "('d, 't, 'u) date_lib \<Rightarrow> int \<Rightarrow> season \<Rightarrow> date_error + 't span" where
  "season_span lib year season =
     (let bounds = (\<lambda>y1 m1 y2 m2.
        res_bind (month_span lib y1 m1) (\<lambda>a.
        res_bind (month_span lib y2 m2) (\<lambda>b. Inr (fst a, snd b))))
      in case season of
           Spring \<Rightarrow> bounds year 3 year 5
         | Summer \<Rightarrow> bounds year 6 year 8
         | Autumn \<Rightarrow> bounds year 9 year 11
         | Winter \<Rightarrow> bounds year 12 (year + 1) 2)"

definition year_range ::
    "('d, 't, 'u) date_lib \<Rightarrow> int \<Rightarrow> int \<Rightarrow> date_error + 't span" where
  "year_range lib a b =
     res_bind (start_of_year lib a) (\<lambda>s. res_map (\<lambda>e. (s, e)) (end_of_year lib b))"

definition date_bounds :: "('d, 't, 'u) date_lib \<Rightarrow> precision \<Rightarrow> date_error + 't span" where
  "date_bounds lib p =
     (case p of
        Century y \<Rightarrow> year_range lib y (y + 99)
      | Decade y \<Rightarrow> year_range lib y (y + 9)
      | Year y \<Rightarrow> year_range lib y y
      | MonthOfYear y \<Rightarrow> year_range lib y y
      | DayOfYear y \<Rightarrow> year_range lib y y
      | Month y m \<Rightarrow> month_span lib y m
      | DayOfMonth y m \<Rightarrow> month_span lib y m
      | Day y m d \<Rightarrow> day_span lib y m d
      | Season y s \<Rightarrow> season_span lib y s)"

text \<open>
  \<open>day_x_span\<close>: \<open>None\<close> stands for the character \<open>X\<close>, \<open>Some d\<close> for the digit \<open>d\<close>.
\<close>

definition day_x_limits :: "nat \<Rightarrow> nat option \<Rightarrow> nat option \<Rightarrow> nat \<times> nat" where
  "day_x_limits max_day tens units =
     (case (tens, units) of
        (None, None) \<Rightarrow> (1, max_day)
      | (Some t, None) \<Rightarrow> (max (t * 10) 1, min (t * 10 + 9) max_day)
      | (_, Some u) \<Rightarrow>
          (let lo = (case find (\<lambda>d. d mod 10 = u) [1..<Suc max_day] of Some d \<Rightarrow> d | None \<Rightarrow> 1);
               hi = (case find (\<lambda>d. d mod 10 = u) (rev [1..<Suc max_day]) of
                       Some d \<Rightarrow> d | None \<Rightarrow> lo)
           in (lo, hi)))"

definition day_x_span ::
    "('d, 't, 'u) date_lib \<Rightarrow> int \<Rightarrow> nat \<Rightarrow> nat option \<Rightarrow> nat option \<Rightarrow> date_error + 't span" where
  "day_x_span lib year month tens units =
     res_bind (days_in_month lib year month) (\<lambda>max_day.
       let (lo, hi) = day_x_limits max_day tens units
       in res_bind (at_instant lib year month lo 0 0 0) (\<lambda>start.
          res_bind (at_instant lib year month hi 23 59 59) (\<lambda>stop.
          Inr (start, end_of_second lib stop))))"

section \<open>Recognising a token\<close>

text \<open>
  The four regular expressions of the file. In a shape the character 9 stands for \<open>\d\<close>, which is
  the library's digit class, every other character for itself.
\<close>

definition scalar_lower :: "scalar \<Rightarrow> scalar" where
  "scalar_lower c = (if 65 \<le> c \<and> c \<le> 90 then c + 32 else c)"

definition scalar_upper :: "scalar \<Rightarrow> scalar" where
  "scalar_upper c = (if 97 \<le> c \<and> c \<le> 122 then c - 32 else c)"

definition ascii_digit :: "scalar \<Rightarrow> bool" where
  "ascii_digit c \<longleftrightarrow> 48 \<le> c \<and> c \<le> 57"

definition matches_shape :: "('d, 't, 'u) date_lib \<Rightarrow> string \<Rightarrow> scalars \<Rightarrow> bool" where
  "matches_shape lib shape s =
     list_all2 (\<lambda>p c. if p = CHR ''9'' then dl_digit lib c else c = of_char p) shape s"

definition duration_units :: "scalars list" where
  "duration_units = map lit [''min'', ''d'', ''w'', ''m'', ''h'', ''y'']"

definition duration_captures :: "('d, 't, 'u) date_lib \<Rightarrow> scalars \<Rightarrow> (scalars \<times> scalars) option" where
  "duration_captures lib s =
     (let ds = takeWhile (dl_digit lib) s; unit = map scalar_lower (dropWhile (dl_digit lib) s)
      in if ds \<noteq> [] \<and> unit \<in> set duration_units then Some (ds, unit) else None)"

definition is_datelike :: "scalars \<Rightarrow> bool" where
  "is_datelike s \<longleftrightarrow> s \<noteq> [] \<and> list_all (\<lambda>c. ascii_digit c \<or> c \<in> set (lit ''XxTt:/.-'')) s"

definition partial_captures :: "('d, 't, 'u) date_lib \<Rightarrow> scalars \<Rightarrow> (scalars \<times> scalars option) option" where
  "partial_captures lib s =
     (if matches_shape lib ''9999-99-99T99'' s then Some (s, None)
      else if matches_shape lib ''9999-99-99T99:99'' s then Some (take 13 s, Some (drop 14 s))
      else None)"

definition day_x_captures ::
    "('d, 't, 'u) date_lib \<Rightarrow> scalars \<Rightarrow> (scalars \<times> scalars \<times> scalar \<times> scalar) option" where
  "day_x_captures lib s =
     (if length s = 10 \<and> matches_shape lib ''9999-99-'' (take 8 s) \<and>
         (48 \<le> s ! 8 \<and> s ! 8 \<le> 51 \<or> s ! 8 = 88) \<and> (ascii_digit (s ! 9) \<or> s ! 9 = 88)
      then Some (take 4 s, take 2 (drop 5 s), s ! 8, s ! 9) else None)"

definition scalar_digits_value :: "scalars \<Rightarrow> nat" where
  "scalar_digits_value ds = foldl (\<lambda>n c. 10 * n + (c - 48)) 0 ds"

text \<open>\<open>parse()\<close> of a nonempty run of digits: other Unicode digits than the ASCII ones are errors.\<close>

definition parse_digits :: "int \<Rightarrow> scalars \<Rightarrow> int option" where
  "parse_digits bound ds =
     (if ds \<noteq> [] \<and> list_all ascii_digit ds \<and> int (scalar_digits_value ds) \<le> bound
      then Some (int (scalar_digits_value ds)) else None)"

definition digit_or_x :: "scalar \<Rightarrow> nat option" where
  "digit_or_x c = (if c = 88 then None else Some (c - 48))"

definition i64_checked_mul :: "int \<Rightarrow> int \<Rightarrow> int option" where
  "i64_checked_mul a b = (if i64 (a * b) then Some (a * b) else None)"

definition duration_of :: "('d, 't, 'u) date_lib \<Rightarrow> scalars \<Rightarrow> int \<Rightarrow> 'u option" where
  "duration_of lib unit n =
     (if unit = lit ''d'' then dl_try_unit lib UnitDays n
      else if unit = lit ''w'' then dl_try_unit lib UnitWeeks n
      else if unit = lit ''h'' then dl_try_unit lib UnitHours n
      else if unit = lit ''min'' then dl_try_unit lib UnitMinutes n
      else if unit = lit ''m''
      then Option.bind (i64_checked_mul n 30) (dl_try_unit lib UnitDays)
      else Option.bind (i64_checked_mul n 365) (dl_try_unit lib UnitDays))"

definition parse_iso_dt :: "('d, 't, 'u) date_lib \<Rightarrow> scalars \<Rightarrow> date_error + 't" where
  "parse_iso_dt lib s = ok_or InvalidDateTime (dl_naive lib s)"

section \<open>\<open>parse_span\<close>\<close>

definition duration_span ::
    "('d, 't, 'u) date_lib \<Rightarrow> scalars \<times> scalars \<Rightarrow> 't \<Rightarrow> date_error + 't span" where
  "duration_span lib caps now =
     res_bind (ok_or NumberTooLarge (parse_digits i64_max (fst caps))) (\<lambda>n.
     res_bind (ok_or DurationOutOfRange (duration_of lib (snd caps) n)) (\<lambda>delta.
     res_bind (ok_or DurationOutOfRange (dl_checked_sub lib now delta)) (\<lambda>start.
     Inr (start, now))))"

definition partial_span ::
    "('d, 't, 'u) date_lib \<Rightarrow> scalars \<times> scalars option \<Rightarrow> date_error + 't span" where
  "partial_span lib caps =
     (let date_hh = fst caps;
          (start_s, end_s) =
            (case snd caps of
               None \<Rightarrow> (date_hh @ lit '':00:00'', date_hh @ lit '':59:59'')
             | Some mm \<Rightarrow> (date_hh @ lit '':'' @ mm @ lit '':00'', date_hh @ lit '':'' @ mm @ lit '':59''))
      in res_bind (parse_iso_dt lib start_s) (\<lambda>start.
         res_bind (parse_iso_dt lib end_s) (\<lambda>stop.
         Inr (start, end_of_second lib stop))))"

definition edtf_span :: "('d, 't, 'u) date_lib \<Rightarrow> 't edtf \<Rightarrow> date_error + 't span" where
  "edtf_span lib e =
     (case e of
        EdtfDate p \<Rightarrow> date_bounds lib p
      | EdtfInterval a b \<Rightarrow>
          res_bind (date_bounds lib a) (\<lambda>x. res_map (\<lambda>y. (fst x, snd y)) (date_bounds lib b))
      | EdtfDateTime t \<Rightarrow> Inr (t, t)
      | EdtfOther \<Rightarrow> Inl UnsupportedForm)"

definition day_x_of ::
    "('d, 't, 'u) date_lib \<Rightarrow> scalars \<times> scalars \<times> scalar \<times> scalar \<Rightarrow> date_error + 't span" where
  "day_x_of lib caps =
     (case caps of (y, m, tens, units) \<Rightarrow>
        res_bind (ok_or InvalidNumber (parse_digits (2 ^ 31 - 1) y)) (\<lambda>year.
        res_bind (ok_or InvalidNumber (parse_digits (2 ^ 32 - 1) m)) (\<lambda>month.
        day_x_span lib year (nat month) (digit_or_x tens) (digit_or_x units))))"

definition is_unspecified :: "scalars \<times> scalars \<times> scalar \<times> scalar \<Rightarrow> bool" where
  "is_unspecified caps = (case caps of (_, _, tens, units) \<Rightarrow> tens = 88 \<or> units = 88)"

definition normalize_token :: "scalars \<Rightarrow> scalars" where
  "normalize_token s = (if is_datelike s then map scalar_upper s else s)"

definition parse_span ::
    "('d, 't, 'u) date_lib \<Rightarrow> scalars \<Rightarrow> 't \<Rightarrow> date_error + 't span" where
  "parse_span lib input now =
     (let s0 = trim input
      in if s0 = [] then Inl EmptyDate
      else case duration_captures lib s0 of
        Some caps \<Rightarrow> duration_span lib caps now
      | None \<Rightarrow>
     (let s = normalize_token s0
      in case dl_rfc3339 lib s of
        Some instant \<Rightarrow> Inr (instant, instant)
      | None \<Rightarrow>
     (case partial_captures lib s of
        Some caps \<Rightarrow> partial_span lib caps
      | None \<Rightarrow>
     (case Option.bind (day_x_captures lib s) (\<lambda>c. if is_unspecified c then Some c else None) of
        Some caps \<Rightarrow> day_x_of lib caps
      | None \<Rightarrow>
     (case dl_edtf lib s of
        Some e \<Rightarrow> edtf_span lib e
      | None \<Rightarrow>
     (case dl_phrase lib s0 now of
        Some instant \<Rightarrow> day_span_of lib instant
      | None \<Rightarrow> Inl UnrecognizedDate))))))"

definition parse_bound ::
    "('d, 't, 'u) date_lib \<Rightarrow> scalars \<Rightarrow> bound \<Rightarrow> 't \<Rightarrow> date_error + 't" where
  "parse_bound lib input b now =
     res_map (\<lambda>(start, stop). case b of BoundStart \<Rightarrow> start | BoundEnd \<Rightarrow> stop)
       (parse_span lib input now)"

section \<open>\<open>DateRange::resolve\<close>\<close>

record date_range =
  dr_since :: "scalars option"
  dr_until :: "scalars option"
  dr_when :: "scalars option"

definition map_err :: "('e \<Rightarrow> 'f) \<Rightarrow> 'e + 'a \<Rightarrow> 'f + 'a" where
  "map_err f r = (case r of Inl e \<Rightarrow> Inl (f e) | Inr v \<Rightarrow> Inr v)"

definition transpose_opt :: "('e + 'a) option \<Rightarrow> 'e + 'a option" where
  "transpose_opt x = (case x of None \<Rightarrow> Inr None | Some r \<Rightarrow> res_map Some r)"

definition resolve_range ::
    "('d, 't::linorder, 'u) date_lib \<Rightarrow> date_range \<Rightarrow> 't \<Rightarrow> date_error + 't option \<times> 't option" where
  "resolve_range lib r now =
     (case dr_when r of
        Some w \<Rightarrow>
          res_bind (map_err (InvalidWhen w) (parse_span lib w now)) (\<lambda>(start, stop).
            if start > stop then Inl (ReversedWhen w) else Inr (Some start, Some stop))
      | None \<Rightarrow>
          res_bind (transpose_opt (map_option
            (\<lambda>raw. map_err (InvalidSince raw) (parse_bound lib raw BoundStart now)) (dr_since r))) (\<lambda>start_by.
          res_bind (transpose_opt (map_option
            (\<lambda>raw. map_err (InvalidUntil raw) (parse_bound lib raw BoundEnd now)) (dr_until r))) (\<lambda>stop_by.
          if (case (start_by, stop_by) of (Some start, Some stop) \<Rightarrow> start > stop | _ \<Rightarrow> False)
          then Inl SinceAfterUntil else Inr (start_by, stop_by))))"

section \<open>The calendar the code relies on\<close>

definition leap_year :: "int \<Rightarrow> bool" where
  "leap_year y \<longleftrightarrow> 4 dvd y \<and> (\<not> 100 dvd y \<or> 400 dvd y)"

definition month_days :: "int \<Rightarrow> nat \<Rightarrow> nat" where
  "month_days y m =
     (if m = 2 then (if leap_year y then 29 else 28)
      else if m = 4 \<or> m = 6 \<or> m = 9 \<or> m = 11 then 30 else 31)"

definition valid_date :: "int \<Rightarrow> nat \<Rightarrow> nat \<Rightarrow> bool" where
  "valid_date y m d \<longleftrightarrow> 1 \<le> m \<and> m \<le> 12 \<and> 1 \<le> d \<and> d \<le> month_days y m"

definition previous_date :: "int \<times> nat \<times> nat \<Rightarrow> int \<times> nat \<times> nat" where
  "previous_date ymd = (case ymd of (y, m, d) \<Rightarrow>
     if 1 < d then (y, m, d - 1)
     else if 1 < m then (y, m - 1, month_days y (m - 1))
     else (y - 1, 12, 31))"

text \<open>
  \<open>chrono\<close>'s documented calendar: the proleptic Gregorian dates of the years \<open>lo\<close> to \<open>hi\<close>, and
  instants that are ordered as their fields are.
\<close>

definition calendar_contract :: "('d, 't::linorder, 'u) date_lib \<Rightarrow> int \<Rightarrow> int \<Rightarrow> bool" where
  "calendar_contract lib lo hi \<longleftrightarrow>
     (\<forall>y m d. (dl_from_ymd lib y m d \<noteq> None) = (lo \<le> y \<and> y \<le> hi \<and> valid_date y m d)) \<and>
     (\<forall>y m d v. dl_from_ymd lib y m d = Some v \<longrightarrow> dl_ymd lib v = (y, m, d)) \<and>
     (\<forall>v. case dl_pred lib v of
            Some w \<Rightarrow> dl_ymd lib w = previous_date (dl_ymd lib v)
          | None \<Rightarrow> dl_ymd lib v = (lo, 1, 1)) \<and>
     (\<forall>y m d h mi s. (dl_at lib y m d h mi s \<noteq> None) =
        (lo \<le> y \<and> y \<le> hi \<and> valid_date y m d \<and> h < 24 \<and> mi < 60 \<and> s < 60))"


section \<open>Month lengths\<close>

lemma days_in_month_Inr:
  assumes "calendar_contract lib lo hi" "days_in_month lib y m = Inr n" "1 \<le> m"
  shows "n = month_days y m \<and> m \<le> 12"
proof -
  let ?ny = "if m = 12 then y + 1 else y" and ?nm = "if m = 12 then 1 else m + 1"
  note c = assms(1) [unfolded calendar_contract_def]
  obtain v w where v: "dl_from_ymd lib ?ny ?nm 1 = Some v" and w: "dl_pred lib v = Some w"
    and n: "n = snd (snd (dl_ymd lib w))"
    using assms(2) unfolding days_in_month_def by (auto simp: res_cases split: if_splits)
  have "m \<le> 12"
    using c [THEN conjunct1, rule_format, of ?ny ?nm 1] v assms(3)
    by (auto simp: valid_date_def split: if_splits)
  have "dl_ymd lib w = previous_date (dl_ymd lib v)"
    using c [THEN conjunct2, THEN conjunct2, THEN conjunct1, rule_format, of v] w by simp
  also have "dl_ymd lib v = (?ny, ?nm, 1)"
    using c [THEN conjunct2, THEN conjunct1] v by blast
  finally have "n = month_days y m"
    using n assms(3) by (auto simp: previous_date_def month_days_def)
  then show ?thesis using \<open>m \<le> 12\<close> by blast
qed

lemma days_in_month_ok:
  assumes "calendar_contract lib lo hi" "lo \<le> y" "y < hi" "1 \<le> m" "m \<le> 12"
  shows "days_in_month lib y m = Inr (month_days y m)"
proof -
  let ?ny = "if m = 12 then y + 1 else y" and ?nm = "if m = 12 then 1 else m + 1"
  note c = assms(1) [unfolded calendar_contract_def]
  have "lo \<le> ?ny \<and> ?ny \<le> hi \<and> valid_date ?ny ?nm 1"
    using assms(2-5) by (auto simp: valid_date_def month_days_def)
  then obtain v where v: "dl_from_ymd lib ?ny ?nm 1 = Some v"
    using c [THEN conjunct1, rule_format, of ?ny ?nm 1] by blast
  have ymd: "dl_ymd lib v = (?ny, ?nm, 1)"
    using c [THEN conjunct2, THEN conjunct1] v by blast
  have "dl_pred lib v \<noteq> None"
  proof
    assume "dl_pred lib v = None"
    then have "dl_ymd lib v = (lo, 1, 1)"
      using c [THEN conjunct2, THEN conjunct2, THEN conjunct1, rule_format, of v] by simp
    then have "(?ny, ?nm, 1 :: nat) = (lo, 1, 1)" using ymd by argo
    then show False using assms(2,4) by (cases "m = 12") simp_all
  qed
  then obtain w where w: "dl_pred lib v = Some w" by blast
  have "days_in_month lib y m = Inr (snd (snd (dl_ymd lib w)))"
    using v w by (auto simp: days_in_month_def)
  then show ?thesis using days_in_month_Inr [OF assms(1) _ assms(4)] by fastforce
qed

section \<open>Spans are ordered\<close>

definition ordered_result :: "date_error + 't::linorder span \<Rightarrow> bool" where
  "ordered_result r = (case r of Inl _ \<Rightarrow> True | Inr (a, b) \<Rightarrow> a \<le> b)"

lemma ordered_simps [simp]:
  "ordered_result (Inl e)"
  "ordered_result (Inr (a, b)) \<longleftrightarrow> a \<le> b"
  by (simp_all add: ordered_result_def)





lemma at_instant_Inr:
  assumes "calendar_contract lib lo hi"
  shows "is_ok (at_instant lib y m d h mi s) \<longleftrightarrow>
    lo \<le> y \<and> y \<le> hi \<and> valid_date y m d \<and> h < 24 \<and> mi < 60 \<and> s < 60"
  using assms [unfolded calendar_contract_def, THEN conjunct2, THEN conjunct2, THEN conjunct2,
      rule_format, of y m d h mi s]
  by (cases "dl_at lib y m d h mi s") (simp_all add: at_instant_def)







text \<open>
  The days of a month that match a partly unspecified day, and the limits the code computes for
  them.
\<close>

definition day_matches :: "nat option \<Rightarrow> nat option \<Rightarrow> nat \<Rightarrow> bool" where
  "day_matches tens units d \<longleftrightarrow>
     (case tens of None \<Rightarrow> True | Some t \<Rightarrow> d div 10 = t) \<and>
     (case units of None \<Rightarrow> True | Some u \<Rightarrow> d mod 10 = u)"

definition matching_days :: "nat \<Rightarrow> nat option \<Rightarrow> nat option \<Rightarrow> nat list" where
  "matching_days max_day tens units = filter (day_matches tens units) [1..<Suc max_day]"

definition limits_ok :: "nat \<Rightarrow> nat option \<Rightarrow> nat option \<Rightarrow> bool" where
  "limits_ok max_day tens units =
     (let ds = matching_days max_day tens units; (lo, hi) = day_x_limits max_day tens units
      in if ds = [] then max_day < lo else lo = hd ds \<and> hi = last ds)"

lemma limits_table:
  "list_all (\<lambda>n. limits_ok n None None \<and>
     list_all (\<lambda>t. limits_ok n (Some t) None) [0..<4] \<and>
     list_all (\<lambda>u. limits_ok n None (Some u)) [0..<10]) [28, 29, 30, 31]"
  by code_simp

lemma limits_correct:
  assumes "tens = None \<or> units = None" "\<And>t. tens = Some t \<Longrightarrow> t \<le> 3"
    "\<And>u. units = Some u \<Longrightarrow> u \<le> 9"
  shows "limits_ok (month_days y m) tens units"
proof -
  have "month_days y m \<in> set [28, 29, 30, 31]" by (simp add: month_days_def)
  then have n: "limits_ok (month_days y m) None None"
    "t < 4 \<Longrightarrow> limits_ok (month_days y m) (Some t) None"
    "u < 10 \<Longrightarrow> limits_ok (month_days y m) None (Some u)" for t u
    using limits_table unfolding list_all_iff set_upt by (auto simp del: upt_Suc)
  show ?thesis
  proof (cases tens)
    case (Some t)
    then show ?thesis using n(2) [of t] assms(1) assms(2) [of t] by auto
  next
    case None
    then show ?thesis using n(1) n(3) assms(3) by (cases units) force+
  qed
qed

lemma matching_days_in_month: "d \<in> set (matching_days n tens units) \<Longrightarrow> 1 \<le> d \<and> d \<le> n"
  by (auto simp: matching_days_def)


lemma day_x_span_exact:
  assumes "calendar_contract lib lo hi" "lo \<le> y" "y < hi" "1 \<le> m" "m \<le> 12"
    and digits: "tens = None \<or> units = None" "\<And>t. tens = Some t \<Longrightarrow> t \<le> 3" "\<And>u. units = Some u \<Longrightarrow> u \<le> 9"
    and ds: "ds = matching_days (month_days y m) tens units"
  shows "if ds = [] then day_x_span lib y m tens units = Inl InvalidDate
    else \<exists>a b. dl_at lib y m (hd ds) 0 0 0 = Some a \<and> dl_at lib y m (last ds) 23 59 59 = Some b \<and>
      day_x_span lib y m tens units = Inr (a, end_of_second lib b)"
proof -
  obtain x z where xz: "day_x_limits (month_days y m) tens units = (x, z)" by fastforce
  have lim: "if ds = [] then month_days y m < x else x = hd ds \<and> z = last ds"
    using limits_correct [OF digits, where y = y and m = m] xz ds by (simp add: limits_ok_def Let_def)
  have span: "day_x_span lib y m tens units =
      res_bind (at_instant lib y m x 0 0 0) (\<lambda>start.
      res_bind (at_instant lib y m z 23 59 59) (\<lambda>stop. Inr (start, end_of_second lib stop)))"
    unfolding day_x_span_def days_in_month_ok [OF assms(1-5)] using xz by simp
  have valid: "is_ok (at_instant lib y m d h mi s) \<longleftrightarrow> valid_date y m d \<and> h < 24 \<and> mi < 60 \<and> s < 60"
    for d h mi s using at_instant_Inr [OF assms(1)] assms(2,3) by simp
  show ?thesis
  proof (cases "ds = []")
    case True
    then have "\<not> is_ok (at_instant lib y m x 0 0 0)"
      using lim valid [of x 0 0 0] by (simp add: valid_date_def)
    then have "at_instant lib y m x 0 0 0 = Inl InvalidDate"
      by (cases "dl_at lib y m x 0 0 0") (simp_all add: at_instant_def)
    then show ?thesis using True span by simp
  next
    case False
    then have "hd ds \<in> set ds" "last ds \<in> set ds" by simp_all
    then have "valid_date y m (hd ds)" "valid_date y m (last ds)"
      using matching_days_in_month ds assms(4,5) by (simp_all add: valid_date_def)
    then have "is_ok (at_instant lib y m (hd ds) 0 0 0)" "is_ok (at_instant lib y m (last ds) 23 59 59)"
      using valid by simp_all
    then obtain a b where ab: "dl_at lib y m (hd ds) 0 0 0 = Some a"
        "dl_at lib y m (last ds) 23 59 59 = Some b"
      by (cases "dl_at lib y m (hd ds) 0 0 0"; cases "dl_at lib y m (last ds) 23 59 59")
        (auto simp: at_instant_def)
    then have "day_x_span lib y m tens units = Inr (a, end_of_second lib b)"
      using span lim False by (simp add: at_instant_def)
    then show ?thesis using False ab by simp
  qed
qed







section \<open>A calendar\<close>

text \<open>
  A calendar that meets the contract, with instants as their year and fields. It knows no
  durations but zero, and reads no phrases, EDTF or RFC 3339 text.
\<close>

definition sample_dates :: "(int \<times> nat \<times> nat, int \<times> nat list, int) date_lib" where
  "sample_dates =
     \<lparr>dl_from_ymd = (\<lambda>y m d. if -10000 \<le> y \<and> y \<le> 10000 \<and> valid_date y m d then Some (y, m, d) else None),
      dl_pred = (\<lambda>v. if v = (-10000, 1, 1) then None else Some (previous_date v)),
      dl_ymd = (\<lambda>v. v),
      dl_at = (\<lambda>y m d h mi s. if -10000 \<le> y \<and> y \<le> 10000 \<and> valid_date y m d \<and> h < 24 \<and> mi < 60 \<and> s < 60
                 then Some (y, [m, d, h, mi, s]) else None),
      dl_with_nanosecond = (\<lambda>t n. Some (fst t, snd t @ [n])),
      dl_date_of = (\<lambda>t. (fst t, snd t ! 0, snd t ! 1)),
      dl_try_unit = (\<lambda>u n. Some n),
      dl_checked_sub = (\<lambda>t n. if n = 0 then Some t else None),
      dl_rfc3339 = (\<lambda>w. None),
      dl_naive = (\<lambda>w. if length w = 19 then Some (0, w) else None),
      dl_edtf = (\<lambda>w. None),
      dl_phrase = (\<lambda>w t. None),
      dl_digit = ascii_digit\<rparr>"

lemma sample_dates_calendar: "calendar_contract sample_dates (-10000) 10000"
  by (auto simp: calendar_contract_def sample_dates_def)



section \<open>Properties\<close>



lemma lit_eq_Nil [simp]: "lit s = [] \<longleftrightarrow> s = []"
  by (simp add: lit_def)

lemma sample_day_x:
  "day_x_of sample_dates (lit ''2026'', lit ''02'', 50, 88) =
    Inr ((2026, [2, 20, 0, 0, 0]), (2026, [2, 28, 23, 59, 59, 999999999]))"
  by (simp add: day_x_of_def parse_digits_def scalar_digits_value_def digit_or_x_def ascii_digit_def
      lit_def day_x_span_def sample_dates_def days_in_month_def previous_date_def valid_date_def
      month_days_def leap_year_def day_x_limits_def at_instant_def end_of_second_def)

lemma sample_token:
  "trim (lit '' 2026-02-2x '') = lit ''2026-02-2x''"
  "duration_captures sample_dates (lit ''2026-02-2x'') = None"
  "normalize_token (lit ''2026-02-2x'') = lit ''2026-02-2X''"
  "partial_captures sample_dates (lit ''2026-02-2X'') = None"
  "day_x_captures sample_dates (lit ''2026-02-2X'') = Some (lit ''2026'', lit ''02'', 50, 88)"
  "dl_rfc3339 sample_dates w = None"
  by (simp_all add: trim_def is_whitespace_def lit_def duration_captures_def sample_dates_def
      ascii_digit_def duration_units_def scalar_lower_def normalize_token_def is_datelike_def
      scalar_upper_def partial_captures_def matches_shape_def day_x_captures_def)

lemma sample_resolution:
  "resolve_range sample_dates
      \<lparr>dr_since = None, dr_until = None, dr_when = Some (lit '' 2026-02-2x '')\<rparr> (2026, [6, 25]) =
    Inr (Some (2026, [2, 20, 0, 0, 0]), Some (2026, [2, 28, 23, 59, 59, 999999999]))"
  by (simp add: resolve_range_def parse_span_def Let_def sample_token sample_day_x is_unspecified_def
      map_err_def less_prod_def)

text \<open>
  A partly unspecified day (\<open>2026-02-1X\<close>, \<open>2026-02-X5\<close>, \<open>2026-02-XX\<close>) expands exactly to the
  span from the first to the last Gregorian day of that month that matches the given digit, from
  midnight to the last nanosecond, and is an error when no day of the month matches, as
  \<open>2026-02-3X\<close>.
\<close>

theorem unspecified_day_exact:
  assumes "calendar_contract lib lo hi" "lo \<le> y" "y < hi" "1 \<le> m" "m \<le> 12"
    and "tens = None \<or> units = None" "\<And>t. tens = Some t \<Longrightarrow> t \<le> 3" "\<And>u. units = Some u \<Longrightarrow> u \<le> 9"
  shows "if matching_days (month_days y m) tens units = []
    then day_x_span lib y m tens units = Inl InvalidDate
    else \<exists>a b. dl_at lib y m (hd (matching_days (month_days y m) tens units)) 0 0 0 = Some a \<and>
      dl_at lib y m (last (matching_days (month_days y m) tens units)) 23 59 59 = Some b \<and>
      day_x_span lib y m tens units = Inr (a, end_of_second lib b)"
  by (rule day_x_span_exact [OF assms refl])

theorem unspecified_day_exact_witness:
  "if matching_days (month_days 2024 2) None (Some 9) = []
    then day_x_span sample_dates 2024 2 None (Some 9) = Inl InvalidDate
    else \<exists>a b. dl_at sample_dates 2024 2 (hd (matching_days (month_days 2024 2) None (Some 9))) 0 0 0 = Some a \<and>
      dl_at sample_dates 2024 2 (last (matching_days (month_days 2024 2) None (Some 9))) 23 59 59 = Some b \<and>
      day_x_span sample_dates 2024 2 None (Some 9) = Inr (a, end_of_second sample_dates b)"
  by (rule unspecified_day_exact [OF sample_dates_calendar]) simp_all

end
