(* ===== verification/Keymap.thy ===== *)
theory Keymap
  imports Prelude
begin

text \<open>
  The keyboard vocabulary of the terminal browser, \<open>keymap.rs\<close>: key chords with their text form,
  the table of bindings of the \<open>[ui.keys]\<close> configuration, its validation, and the lookup of the
  action a key press selects.

  The key codes and modifier flags are those of the \<open>crossterm\<close> crate; codes the module does not
  name are \<open>KeyOther\<close> with their debug text. Text is a list of Unicode scalar values. The Unicode
  lowercase mapping of \<open>char::to_lowercase\<close> is the argument \<open>lower\<close>.
\<close>

section \<open>Actions\<close>

datatype tui_action =
    Interrupt | Quit | EnterSearch | LeaveSearch | MoveDown
  | MoveUp | PageDown | PageUp | Top | Bottom
  | CycleProvider | CycleSessionKind | CycleTimeWindow | ToggleWarningsOnly | PreviewScrollDown
  | PreviewScrollUp | PreviewPageDown | PreviewPageUp | Resume | Help
  | ClearQuery | DeleteBackward | DeleteForward | DeleteWordBackward | CursorLeft
  | CursorRight | CursorStart | CursorEnd

datatype action_mode = ModeBrowse | ModeSearch | ModeBoth

definition all_actions :: "tui_action list" where
  "all_actions =
    [Interrupt, Quit, EnterSearch, LeaveSearch, MoveDown,
     MoveUp, PageDown, PageUp, Top, Bottom,
     CycleProvider, CycleSessionKind, CycleTimeWindow, ToggleWarningsOnly, PreviewScrollDown,
     PreviewScrollUp, PreviewPageDown, PreviewPageUp, Resume, Help,
     ClearQuery, DeleteBackward, DeleteForward, DeleteWordBackward, CursorLeft,
     CursorRight, CursorStart, CursorEnd]"

definition action_mode_of :: "tui_action \<Rightarrow> action_mode" where
  "action_mode_of a = (case a of
     Interrupt \<Rightarrow> ModeBoth
   | LeaveSearch \<Rightarrow> ModeSearch
   | ClearQuery \<Rightarrow> ModeSearch
   | DeleteBackward \<Rightarrow> ModeSearch
   | DeleteForward \<Rightarrow> ModeSearch
   | DeleteWordBackward \<Rightarrow> ModeSearch
   | CursorLeft \<Rightarrow> ModeSearch
   | CursorRight \<Rightarrow> ModeSearch
   | CursorStart \<Rightarrow> ModeSearch
   | CursorEnd \<Rightarrow> ModeSearch
   | Quit \<Rightarrow> ModeBrowse
   | EnterSearch \<Rightarrow> ModeBrowse
   | MoveDown \<Rightarrow> ModeBrowse
   | MoveUp \<Rightarrow> ModeBrowse
   | PageDown \<Rightarrow> ModeBrowse
   | PageUp \<Rightarrow> ModeBrowse
   | Top \<Rightarrow> ModeBrowse
   | Bottom \<Rightarrow> ModeBrowse
   | CycleProvider \<Rightarrow> ModeBrowse
   | CycleSessionKind \<Rightarrow> ModeBrowse
   | CycleTimeWindow \<Rightarrow> ModeBrowse
   | ToggleWarningsOnly \<Rightarrow> ModeBrowse
   | PreviewScrollDown \<Rightarrow> ModeBrowse
   | PreviewScrollUp \<Rightarrow> ModeBrowse
   | PreviewPageDown \<Rightarrow> ModeBrowse
   | PreviewPageUp \<Rightarrow> ModeBrowse
   | Resume \<Rightarrow> ModeBrowse
   | Help \<Rightarrow> ModeBrowse)"

definition action_name :: "tui_action \<Rightarrow> string" where
  "action_name a = (case a of
     Interrupt \<Rightarrow> ''interrupt''
   | Quit \<Rightarrow> ''quit''
   | EnterSearch \<Rightarrow> ''enter_search''
   | LeaveSearch \<Rightarrow> ''leave_search''
   | MoveDown \<Rightarrow> ''move_down''
   | MoveUp \<Rightarrow> ''move_up''
   | PageDown \<Rightarrow> ''page_down''
   | PageUp \<Rightarrow> ''page_up''
   | Top \<Rightarrow> ''top''
   | Bottom \<Rightarrow> ''bottom''
   | CycleProvider \<Rightarrow> ''cycle_provider''
   | CycleSessionKind \<Rightarrow> ''cycle_session_kind''
   | CycleTimeWindow \<Rightarrow> ''cycle_time_window''
   | ToggleWarningsOnly \<Rightarrow> ''toggle_warnings_only''
   | PreviewScrollDown \<Rightarrow> ''preview_scroll_down''
   | PreviewScrollUp \<Rightarrow> ''preview_scroll_up''
   | PreviewPageDown \<Rightarrow> ''preview_page_down''
   | PreviewPageUp \<Rightarrow> ''preview_page_up''
   | Resume \<Rightarrow> ''resume''
   | Help \<Rightarrow> ''help''
   | ClearQuery \<Rightarrow> ''clear_query''
   | DeleteBackward \<Rightarrow> ''delete_backward''
   | DeleteForward \<Rightarrow> ''delete_forward''
   | DeleteWordBackward \<Rightarrow> ''delete_word_backward''
   | CursorLeft \<Rightarrow> ''cursor_left''
   | CursorRight \<Rightarrow> ''cursor_right''
   | CursorStart \<Rightarrow> ''cursor_start''
   | CursorEnd \<Rightarrow> ''cursor_end'')"

definition reachable :: "action_mode \<Rightarrow> action_mode \<Rightarrow> bool" where
  "reachable action mode \<longleftrightarrow> action = ModeBoth \<or> mode = ModeBoth \<or> action = mode"

section \<open>Key chords\<close>

datatype key_code =
    KeyChar scalar
  | KeyF nat
  | KeyEnter | KeyEsc | KeyTab | KeyBackTab | KeyBackspace
  | KeyDelete | KeyInsert | KeyUp | KeyDown | KeyLeft
  | KeyRight | KeyHome | KeyEnd | KeyPageUp | KeyPageDown
  | KeyOther scalars

datatype modifier = Ctrl | Alt | Shift | Super | Hyper | Meta

type_synonym modifiers = "modifier set"

record key_chord =
  kc_code :: key_code
  kc_modifiers :: modifiers

record key_event =
  ev_code :: key_code
  ev_modifiers :: modifiers

definition named_keys :: "(string \<times> key_code) list" where
  "named_keys =
    [(''enter'', KeyEnter), (''esc'', KeyEsc), (''tab'', KeyTab), (''backtab'', KeyBackTab),
     (''backspace'', KeyBackspace), (''delete'', KeyDelete), (''insert'', KeyInsert), (''space'', KeyChar 32),
     (''up'', KeyUp), (''down'', KeyDown), (''left'', KeyLeft), (''right'', KeyRight),
     (''home'', KeyHome), (''end'', KeyEnd), (''pageup'', KeyPageUp), (''pagedown'', KeyPageDown)]"

definition named_modifiers :: "(string \<times> modifier) list" where
  "named_modifiers = [(''ctrl'', Ctrl), (''alt'', Alt), (''shift'', Shift), (''super'', Super)]"

definition highest_function_key :: nat where "highest_function_key = 35"

text \<open>\<open>lower c\<close> is the sequence of characters \<open>char::to_lowercase\<close> yields.\<close>

definition fold_case :: "(scalar \<Rightarrow> scalars) \<Rightarrow> scalar \<Rightarrow> scalar" where
  "fold_case lower c = (case lower c of [single] \<Rightarrow> single | _ \<Rightarrow> c)"

definition chorded :: modifiers where "chorded = {Ctrl, Alt, Super}"

definition significant :: "(scalar \<Rightarrow> scalars) \<Rightarrow> key_code \<Rightarrow> modifiers \<Rightarrow> key_code \<times> modifiers" where
  "significant lower code ms =
     (case code of
        KeyChar c \<Rightarrow>
          (let kept = ms \<inter> chorded
           in if kept = {} then (code, kept) else (KeyChar (fold_case lower c), kept))
      | _ \<Rightarrow> (code, ms \<inter> (chorded \<union> {Shift})))"

definition new_chord :: "(scalar \<Rightarrow> scalars) \<Rightarrow> key_code \<Rightarrow> modifiers \<Rightarrow> key_chord" where
  "new_chord lower code ms =
     (case significant lower code ms of (code, ms) \<Rightarrow> \<lparr>kc_code = code, kc_modifiers = ms\<rparr>)"

definition chord_matches :: "(scalar \<Rightarrow> scalars) \<Rightarrow> key_chord \<Rightarrow> key_event \<Rightarrow> bool" where
  "chord_matches lower chord event \<longleftrightarrow>
     (kc_code chord, kc_modifiers chord) = significant lower (ev_code event) (ev_modifiers event)"

section \<open>The text of a chord\<close>

definition key_text :: "key_code \<Rightarrow> scalars" where
  "key_text code =
     (case find (\<lambda>e. snd e = code) named_keys of
        Some (name, _) \<Rightarrow> lit name
      | None \<Rightarrow>
          (case code of
             KeyChar c \<Rightarrow> [c]
           | KeyF n \<Rightarrow> lit (CHR ''f'' # decimal n)
           | KeyOther debug \<Rightarrow> debug
           | _ \<Rightarrow> []))"

definition chord_text :: "key_chord \<Rightarrow> scalars" where
  "chord_text chord =
     concat (map (\<lambda>(name, flag). if flag \<in> kc_modifiers chord then lit (name @ ''+'') else [])
       named_modifiers) @ key_text (kc_code chord)"

datatype key_error =
    EmptyBinding
  | UnknownModifier scalars
  | UnknownKey scalars
  | ChordConflict key_chord tui_action tui_action
  | NoWayOut

fun split_plus :: "scalars \<Rightarrow> (scalars \<times> scalars) option" where
  "split_plus [] = None"
| "split_plus (c # cs) =
     (if c = 43 then Some ([], cs) else map_option (\<lambda>(a, b). (c # a, b)) (split_plus cs))"

definition ascii_lower :: "scalars \<Rightarrow> scalars" where
  "ascii_lower s = map (\<lambda>c. if 65 \<le> c \<and> c \<le> 90 then c + 32 else c) s"

text \<open>
  \<open>strip_prefix('f')?.parse::<u8>()\<close>: an optional plus sign, at least one ASCII digit, at most 255.
\<close>

definition scalar_digit :: "scalar \<Rightarrow> bool" where
  "scalar_digit c \<longleftrightarrow> 48 \<le> c \<and> c \<le> 57"

definition parse_u8 :: "scalars \<Rightarrow> nat option" where
  "parse_u8 s =
     (let ds = (case s of [] \<Rightarrow> [] | c # cs \<Rightarrow> if c = 43 then cs else s);
          n = foldl (\<lambda>n c. 10 * n + (c - 48)) 0 ds
      in if ds \<noteq> [] \<and> list_all scalar_digit ds \<and> n \<le> 255 then Some n else None)"

definition function_key :: "scalars \<Rightarrow> key_code option" where
  "function_key name =
     (case name of
        c # cs \<Rightarrow>
          if c = 102
          then Option.bind (parse_u8 cs)
                 (\<lambda>n. if 1 \<le> n \<and> n \<le> highest_function_key then Some (KeyF n) else None)
          else None
      | [] \<Rightarrow> None)"

lemma split_plus_length: "split_plus s = Some (h, t) \<Longrightarrow> length t < length s"
  by (induction s arbitrary: h) (auto split: if_splits)

function modifier_loop :: "scalars \<Rightarrow> modifiers \<Rightarrow> key_error + modifiers \<times> scalars" where
  "modifier_loop rest ms =
     (case split_plus rest of
        None \<Rightarrow> Inr (ms, rest)
      | Some (head, tail) \<Rightarrow>
          if tail = [] then Inr (ms, rest)
          else (case find (\<lambda>e. lit (fst e) = ascii_lower head) named_modifiers of
                  Some (_, flag) \<Rightarrow> modifier_loop tail (insert flag ms)
                | None \<Rightarrow> Inl (UnknownModifier head)))"
  by pat_completeness auto
termination
  by (relation "measure (length \<circ> fst)") (auto dest: split_plus_length)

declare modifier_loop.simps [simp del]

definition parse_key :: "(scalar \<Rightarrow> scalars) \<Rightarrow> scalars \<Rightarrow> modifiers \<Rightarrow> key_error + key_chord" where
  "parse_key lower rest ms =
     (let lowered = ascii_lower rest
      in case find (\<lambda>e. lit (fst e) = lowered) named_keys of
           Some (_, code) \<Rightarrow> Inr (new_chord lower code ms)
         | None \<Rightarrow>
             (case function_key lowered of
                Some code \<Rightarrow> Inr (new_chord lower code ms)
              | None \<Rightarrow>
                  (case rest of
                     [c] \<Rightarrow> Inr (new_chord lower (KeyChar c) ms)
                   | _ \<Rightarrow> Inl (UnknownKey rest))))"

definition parse_chord :: "(scalar \<Rightarrow> scalars) \<Rightarrow> scalars \<Rightarrow> key_error + key_chord" where
  "parse_chord lower text =
     (let trimmed = trim text
      in if trimmed = [] then Inl EmptyBinding
         else res_bind (modifier_loop trimmed {}) (\<lambda>(ms, rest). parse_key lower rest ms))"

section \<open>The bindings\<close>

text \<open>
  A \<open>BTreeMap\<close> is iterated in the order of its keys, the order in which \<open>TuiAction\<close> declares them
  and \<open>all_actions\<close> lists them.
\<close>

type_synonym key_bindings = "tui_action \<Rightarrow> key_chord list option"

definition chords :: "key_bindings \<Rightarrow> tui_action \<Rightarrow> key_chord list" where
  "chords kb action = (case kb action of Some cs \<Rightarrow> cs | None \<Rightarrow> [])"

fun keep_first :: "'c list \<Rightarrow> 'c list \<Rightarrow> 'c list" where
  "keep_first kept [] = kept"
| "keep_first kept (c # cs) = keep_first (if c \<in> set kept then kept else kept @ [c]) cs"

definition bind_action :: "key_bindings \<Rightarrow> tui_action \<Rightarrow> key_chord list \<Rightarrow> key_bindings" where
  "bind_action kb action cs = kb(action := Some (keep_first [] cs))"

definition bound_actions :: "key_bindings \<Rightarrow> tui_action list" where
  "bound_actions kb = filter (\<lambda>a. kb a \<noteq> None) all_actions"

definition action_for ::
    "(scalar \<Rightarrow> scalars) \<Rightarrow> key_bindings \<Rightarrow> key_event \<Rightarrow> action_mode \<Rightarrow> tui_action option" where
  "action_for lower kb event mode =
     find (\<lambda>a. list_ex (\<lambda>chord. chord_matches lower chord event) (chords kb a))
       (filter (\<lambda>a. reachable (action_mode_of a) mode) (bound_actions kb))"

fun scan_chords ::
    "(key_chord \<times> tui_action) list \<Rightarrow> tui_action \<Rightarrow> key_chord list \<Rightarrow>
     key_error + (key_chord \<times> tui_action) list" where
  "scan_chords seen action [] = Inr seen"
| "scan_chords seen action (c # cs) =
     (case find (\<lambda>e. fst e = c) seen of
        Some (_, existing) \<Rightarrow> Inl (ChordConflict c existing action)
      | None \<Rightarrow> scan_chords (seen @ [(c, action)]) action cs)"

fun scan_actions ::
    "key_bindings \<Rightarrow> action_mode \<Rightarrow> (key_chord \<times> tui_action) list \<Rightarrow> tui_action list \<Rightarrow>
     key_error + unit" where
  "scan_actions kb mode seen [] = Inr ()"
| "scan_actions kb mode seen (a # as) =
     (if \<not> reachable (action_mode_of a) mode then scan_actions kb mode seen as
      else res_bind (scan_chords seen a (chords kb a)) (\<lambda>seen. scan_actions kb mode seen as))"

definition validate_bindings :: "key_bindings \<Rightarrow> key_error + unit" where
  "validate_bindings kb =
     res_bind (scan_actions kb ModeBrowse [] (bound_actions kb)) (\<lambda>_.
     res_bind (scan_actions kb ModeSearch [] (bound_actions kb)) (\<lambda>_.
     if chords kb Quit = [] \<and> chords kb Interrupt = [] then Inl NoWayOut else Inr ()))"

text \<open>The shipped bindings, and a table of overrides applied to them in key order.\<close>

definition default_keys :: "(tui_action \<times> string list) list" where
  "default_keys =
    [(Interrupt, [''ctrl+c'']),
     (Quit, [''q'', ''esc'']),
     (EnterSearch, [''/'']),
     (LeaveSearch, [''enter'', ''esc'']),
     (MoveDown, [''j'', ''down'']),
     (MoveUp, [''k'', ''up'']),
     (PageDown, [''pagedown'']),
     (PageUp, [''pageup'']),
     (Top, [''g'']),
     (Bottom, [''G'']),
     (CycleProvider, [''p'']),
     (CycleSessionKind, [''f'']),
     (CycleTimeWindow, [''s'']),
     (ToggleWarningsOnly, [''w'']),
     (PreviewScrollDown, [''J'', ''shift+down'']),
     (PreviewScrollUp, [''K'', ''shift+up'']),
     (PreviewPageDown, [''ctrl+d'']),
     (PreviewPageUp, [''ctrl+u'']),
     (Resume, [''enter'', ''r'']),
     (Help, [''?'']),
     (ClearQuery, [''ctrl+u'']),
     (DeleteBackward, [''backspace'']),
     (DeleteForward, [''delete'']),
     (DeleteWordBackward, [''ctrl+w'']),
     (CursorLeft, [''left'']),
     (CursorRight, [''right'']),
     (CursorStart, [''home'', ''ctrl+a'']),
     (CursorEnd, [''end'', ''ctrl+e''])]"

definition default_bindings :: "(scalar \<Rightarrow> scalars) \<Rightarrow> key_error + key_bindings" where
  "default_bindings lower =
     foldl (\<lambda>r (action, keys).
       res_bind r (\<lambda>kb. res_map (bind_action kb action)
         (res_collect (map (\<lambda>k. parse_chord lower (lit k)) keys))))
       (Inr Map.empty) default_keys"

definition override_bindings :: "key_bindings \<Rightarrow> key_bindings \<Rightarrow> key_bindings" where
  "override_bindings kb overrides =
     foldl (\<lambda>kb a. bind_action kb a (chords overrides a)) kb (bound_actions overrides)"

section \<open>Reading a chord back\<close>

text \<open>What the code relies on of the lowercase mapping.\<close>

definition lower_contract :: "(scalar \<Rightarrow> scalars) \<Rightarrow> bool" where
  "lower_contract lower \<longleftrightarrow>
     (\<forall>c. fold_case lower (fold_case lower c) = fold_case lower c) \<and>
     (\<forall>c. is_whitespace (fold_case lower c) \<longleftrightarrow> is_whitespace c) \<and> fold_case lower 32 = 32"

definition any_modifiers :: modifiers where "any_modifiers = {Ctrl, Alt, Super, Shift}"

definition chord_ok :: "(scalar \<Rightarrow> scalars) \<Rightarrow> key_chord \<Rightarrow> bool" where
  "chord_ok lower c =
     (case kc_code c of
        KeyChar x \<Rightarrow> kc_modifiers c \<subseteq> chorded \<and> (x = 32 \<or> \<not> is_whitespace x) \<and>
          (kc_modifiers c = {} \<or> fold_case lower x = x)
      | KeyF n \<Rightarrow> kc_modifiers c \<subseteq> any_modifiers \<and> 1 \<le> n \<and> n \<le> highest_function_key
      | KeyOther _ \<Rightarrow> False
      | _ \<Rightarrow> kc_modifiers c \<subseteq> any_modifiers)"

lemma ok_is_significant: "chord_ok lower c \<Longrightarrow> new_chord lower (kc_code c) (kc_modifiers c) = c"
  by (cases c; cases "kc_code c")
    (auto simp: chord_ok_def new_chord_def significant_def chorded_def any_modifiers_def Let_def)

lemma trim_id: "s \<noteq> [] \<Longrightarrow> \<not> is_whitespace (hd s) \<Longrightarrow> \<not> is_whitespace (last s) \<Longrightarrow> trim s = s"
  by (metis dropWhile_eq_self_iff hd_rev rev_rev_ident trim_def)

lemma hd_append_all: "list_all P a \<Longrightarrow> b \<noteq> [] \<Longrightarrow> P (hd b) \<Longrightarrow> P (hd (a @ b))"
  by (cases a) auto

lemma trim_last: "trim s \<noteq> [] \<Longrightarrow> \<not> is_whitespace (last (trim s))"
  unfolding trim_def by (metis dropWhile_eq_Nil_conv hd_dropWhile last_rev rev_is_Nil_conv)

lemma split_plus_append: "43 \<notin> set a \<Longrightarrow> split_plus (a @ 43 # b) = Some (a, b)"
  by (induction a) auto

lemma split_plus_None: "43 \<notin> set a \<Longrightarrow> split_plus a = None"
  by (induction a) auto

lemma modifier_table:
  "list_all (\<lambda>(name, flag). 43 \<notin> set (lit name) \<and> ascii_lower (lit name) = lit name \<and>
     find (\<lambda>e. lit (fst e) = lit name) named_modifiers = Some (name, flag)) named_modifiers"
  by code_simp

lemma modifier_loop_named:
  assumes "(name, flag) \<in> set named_modifiers" "rest \<noteq> []"
  shows "modifier_loop (lit (name @ ''+'') @ rest) ms = modifier_loop rest (insert flag ms)"
proof -
  have "43 \<notin> set (lit name)" and low: "ascii_lower (lit name) = lit name"
    and find: "find (\<lambda>e. lit (fst e) = lit name) named_modifiers = Some (name, flag)"
    using assms(1) modifier_table by (auto simp: list_all_iff)
  then have "split_plus (lit (name @ ''+'') @ rest) = Some (lit name, rest)"
    using split_plus_append [of "lit name" rest] by (simp add: lit_def)
  then show ?thesis unfolding modifier_loop.simps [of "lit (name @ ''+'') @ rest" ms]
    by (simp add: assms(2) find low)
qed

lemma modifier_loop_prefix:
  assumes "set es \<subseteq> set named_modifiers" "rest \<noteq> []"
  shows "modifier_loop (concat (map (\<lambda>(name, flag). if flag \<in> S then lit (name @ ''+'') else []) es) @ rest) ms =
    modifier_loop rest (ms \<union> {flag \<in> S. flag \<in> snd ` set es})"
  using assms(1)
proof (induction es arbitrary: ms)
  case (Cons e es)
  obtain name flag where e: "e = (name, flag)" by (cases e)
  have "insert flag ms \<union> {f \<in> S. f \<in> snd ` set es} = ms \<union> {f \<in> S. f \<in> snd ` set (e # es)}" if "flag \<in> S"
    using that e by auto
  moreover have "ms \<union> {f \<in> S. f \<in> snd ` set es} = ms \<union> {f \<in> S. f \<in> snd ` set (e # es)}" if "flag \<notin> S"
    using that e by auto
  ultimately show ?case
    using Cons e modifier_loop_named [of name flag _ ms] assms(2) by (auto simp: append_assoc)
qed simp

lemma modifier_loop_key:
  assumes "43 \<notin> set k \<or> k = [43]"
  shows "modifier_loop k ms = Inr (ms, k)"
  using assms by (subst modifier_loop.simps) (auto simp: split_plus_None)

lemma named_keys_text:
  "map_of (map prod.swap named_keys) code = Some name \<Longrightarrow> key_text code = lit name"
  by (cases code) (auto simp: key_text_def named_keys_def split: if_splits)

lemma u8_decimal: "n \<le> 255 \<Longrightarrow> parse_u8 (lit (decimal n)) = Some n"
proof -
  assume n: "n \<le> 255"
  have fold: "foldl (\<lambda>n c. 10 * n + (c - 48)) k (lit s) = foldl (\<lambda>n c. 10 * n + digit_value c) k s" for k s
    by (induction s arbitrary: k) (simp_all add: lit_def digit_value_def)
  have digits: "list_all scalar_digit (lit (decimal n))" "lit (decimal n) \<noteq> []"
    using decimal_props [of n]
    by (auto simp: lit_def list_all_iff scalar_digit_def is_ascii_digit_def Let_def)
  then have "hd (lit (decimal n)) \<noteq> 43"
    by (cases "lit (decimal n)") (auto simp: scalar_digit_def)
  then show ?thesis
    using digits n decimal_props [of n] fold [of 0 "decimal n"]
    by (cases "lit (decimal n)") (auto simp: parse_u8_def digits_value_def)
qed

lemma named_keys_table:
  "list_all (\<lambda>(name, code). 43 \<notin> set (lit name) \<and> ascii_lower (lit name) = lit name \<and>
     find (\<lambda>e. lit (fst e) = lit name) named_keys = Some (name, code) \<and>
     key_text code = lit name \<and> lit name \<noteq> [] \<and>
     list_all (\<lambda>c. 97 \<le> c \<and> c \<le> 122) (lit name)) named_keys"
  by code_simp

lemma named_lengths: "list_all (\<lambda>(name, code). 2 \<le> length (lit name) \<and> hd (lit name) \<noteq> 102) named_keys"
  by code_simp

lemma letter_no_whitespace: "97 \<le> c \<Longrightarrow> c \<le> 122 \<Longrightarrow> \<not> is_whitespace c"
  by (simp add: is_whitespace_def)

lemma digit_no_whitespace: "scalar_digit c \<Longrightarrow> \<not> is_whitespace c"
  by (simp add: is_whitespace_def scalar_digit_def)

lemma key_cases:
  assumes "chord_ok lower c"
  obtains (named) name where "(name, kc_code c) \<in> set named_keys"
  | (char) x where "kc_code c = KeyChar x" "x \<noteq> 32" "\<not> is_whitespace x"
  | (fkey) n where "kc_code c = KeyF n" "1 \<le> n" "n \<le> highest_function_key"
proof (cases "\<exists>name. (name, kc_code c) \<in> set named_keys")
  case False
  then show ?thesis using assms char fkey
    by (cases "kc_code c") (auto simp: chord_ok_def named_keys_def)
qed (use named in blast)

lemma find_none_named: "length k < 2 \<or> k \<noteq> [] \<and> hd k = 102 \<Longrightarrow> find (\<lambda>e. lit (fst e) = k) named_keys = None"
  using named_lengths by (auto simp: find_None_iff list_all_iff)

lemma key_text_plain:
  assumes "kc_code c = KeyChar x \<and> x \<noteq> 32 \<or> kc_code c = KeyF n"
  shows "key_text (kc_code c) = (case kc_code c of KeyChar x \<Rightarrow> [x] | KeyF n \<Rightarrow> lit (CHR ''f'' # decimal n))"
  using assms by (auto simp: key_text_def named_keys_def)

lemma lit_digits: "c \<in> set (lit (decimal n)) \<Longrightarrow> scalar_digit c"
  using decimal_props [of n] by (auto simp: lit_def list_all_iff scalar_digit_def is_ascii_digit_def Let_def)

lemma key_text_shape:
  assumes "chord_ok lower c"
  shows "(43 \<notin> set (key_text (kc_code c)) \<or> key_text (kc_code c) = [43]) \<and> key_text (kc_code c) \<noteq> [] \<and>
    \<not> is_whitespace (hd (key_text (kc_code c))) \<and> \<not> is_whitespace (last (key_text (kc_code c)))"
  using assms
proof (cases rule: key_cases)
  case (named name)
  then have "43 \<notin> set (lit name) \<and> key_text (kc_code c) = lit name \<and> lit name \<noteq> [] \<and>
      list_all (\<lambda>c. 97 \<le> c \<and> c \<le> 122) (lit name)"
    using named_keys_table unfolding list_all_iff by fastforce
  then show ?thesis using letter_no_whitespace
    by (metis (no_types, lifting) hd_in_set last_in_set list_all_iff)
next
  case (char x)
  then show ?thesis using key_text_plain [of c x 0] by auto
next
  case (fkey n)
  have kt: "key_text (kc_code c) = 102 # lit (decimal n)"
    using key_text_plain [of c 0 n] fkey by (simp add: lit_def)
  have "lit (decimal n) \<noteq> []" using decimal_props [of n] by (simp add: lit_def)
  then have "scalar_digit (last (lit (decimal n)))" using lit_digits last_in_set by blast
  then show ?thesis
    using kt lit_digits [of 43 n] digit_no_whitespace letter_no_whitespace [of 102] \<open>lit (decimal n) \<noteq> []\<close>
    by (auto simp: scalar_digit_def)
qed

lemma parse_key_text:
  assumes "chord_ok lower c"
  shows "parse_key lower (key_text (kc_code c)) (kc_modifiers c) = Inr c"
  using assms
proof (cases rule: key_cases)
  case (named name)
  then have "key_text (kc_code c) = lit name \<and> ascii_lower (lit name) = lit name \<and>
      find (\<lambda>e. lit (fst e) = lit name) named_keys = Some (name, kc_code c)"
    using named_keys_table unfolding list_all_iff by fastforce
  then show ?thesis using ok_is_significant [OF assms] by (simp add: parse_key_def)
next
  case (char x)
  let ?y = "if 65 \<le> x \<and> x \<le> 90 then x + 32 else x"
  have "find (\<lambda>e. lit (fst e) = [?y]) named_keys = None" by (rule find_none_named) simp
  moreover have "function_key [?y] = None" by (simp add: function_key_def parse_u8_def)
  ultimately show ?thesis
    using key_text_plain [of c x 0] char ok_is_significant [OF assms]
    by (simp add: parse_key_def ascii_lower_def)
next
  case (fkey n)
  have kt: "key_text (kc_code c) = 102 # lit (decimal n)"
    using key_text_plain [of c 0 n] fkey by (simp add: lit_def)
  have "ascii_lower (102 # lit (decimal n)) = 102 # lit (decimal n)"
    by (auto simp: ascii_lower_def scalar_digit_def intro!: map_idI dest!: lit_digits)
  moreover have "function_key (102 # lit (decimal n)) = Some (KeyF n)"
    using fkey u8_decimal [of n] by (simp add: function_key_def highest_function_key_def)
  ultimately show ?thesis
    using kt fkey ok_is_significant [OF assms] find_none_named [of "102 # lit (decimal n)"]
    by (simp add: parse_key_def)
qed

lemma chord_modifiers: "chord_ok lower c \<Longrightarrow> kc_modifiers c \<subseteq> any_modifiers"
  by (cases "kc_code c") (auto simp: chord_ok_def chorded_def any_modifiers_def)

lemma parse_chord_text:
  assumes "chord_ok lower c"
  shows "parse_chord lower (chord_text c) = Inr c"
proof -
  let ?k = "key_text (kc_code c)"
  let ?p = "concat (map (\<lambda>(name, flag). if flag \<in> kc_modifiers c then lit (name @ ''+'') else []) named_modifiers)"
  note k = key_text_shape [OF assms]
  have p: "list_all (\<lambda>c. \<not> is_whitespace c) ?p"
    by (auto simp: named_modifiers_def lit_def is_whitespace_def list_all_iff)
  have ws: "\<not> is_whitespace (hd (?p @ ?k))"
    using hd_append_all [of "\<lambda>c. \<not> is_whitespace c", OF p] k by blast
  have trim: "trim (?p @ ?k) = ?p @ ?k"
    using ws k by (intro trim_id) auto
  have ms: "{flag \<in> kc_modifiers c. flag \<in> snd ` set named_modifiers} = kc_modifiers c"
    using chord_modifiers [OF assms] by (auto simp: named_modifiers_def any_modifiers_def)
  have "modifier_loop (?p @ ?k) {} = modifier_loop ?k (kc_modifiers c)"
    using modifier_loop_prefix [of named_modifiers ?k "kc_modifiers c" "{}"] k ms by simp
  also have "\<dots> = Inr (kc_modifiers c, ?k)"
    using k by (intro modifier_loop_key) blast
  finally show ?thesis
    using trim k parse_key_text [OF assms] by (simp add: parse_chord_def chord_text_def)
qed

lemma modifier_loop_rest:
  assumes "modifier_loop s ms = Inr (ms', rest)" "s \<noteq> []"
  shows "rest \<noteq> [] \<and> last rest = last s"
  using assms
proof (induction s ms rule: modifier_loop.induct)
  case (1 s ms)
  show ?case
  proof (cases "split_plus s")
    case None
    then show ?thesis using 1 by (simp add: modifier_loop.simps [of s])
  next
    case (Some ht)
    obtain h t where ht: "ht = (h, t)" by (cases ht)
    have st: "s = h @ 43 # t"
      using Some unfolding ht by (induction s arbitrary: h) (auto split: if_splits)
    show ?thesis
    proof (cases "t = []")
      case True
      then show ?thesis using 1 Some ht by (simp add: modifier_loop.simps [of s])
    next
      case False
      have eq: "modifier_loop s ms =
          (case find (\<lambda>e. lit (fst e) = ascii_lower h) named_modifiers of
             Some (_, flag) \<Rightarrow> modifier_loop t (insert flag ms) | None \<Rightarrow> Inl (UnknownModifier h))"
        by (subst modifier_loop.simps) (simp add: Some ht False)
      then obtain nf where nf: "find (\<lambda>e. lit (fst e) = ascii_lower h) named_modifiers = Some nf"
        using 1(2) by (auto split: option.splits)
      then have "modifier_loop t (insert (snd nf) ms) = Inr (ms', rest)"
        using eq 1(2) by (simp add: case_prod_beta)
      then have "rest \<noteq> [] \<and> last rest = last t"
        using 1(1) [OF Some ht [symmetric] False nf prod.collapse _ False] by blast
      then show ?thesis using st False by simp
    qed
  qed
qed

lemma new_chord_ok:
  assumes "lower_contract lower"
    "case code of KeyChar x \<Rightarrow> x = 32 \<or> \<not> is_whitespace x | KeyF n \<Rightarrow> 1 \<le> n \<and> n \<le> highest_function_key
      | KeyOther _ \<Rightarrow> False | _ \<Rightarrow> True"
  shows "chord_ok lower (new_chord lower code ms)"
  using assms
  by (cases code) (auto simp: chord_ok_def new_chord_def significant_def any_modifiers_def chorded_def
    lower_contract_def Let_def)

lemma parsed_chord_ok:
  assumes "lower_contract lower" "parse_chord lower s = Inr c"
  shows "chord_ok lower c"
proof -
  obtain ms rest where loop: "modifier_loop (trim s) {} = Inr (ms, rest)" "trim s \<noteq> []"
    and key: "parse_key lower rest ms = Inr c"
    using assms(2) by (auto simp: parse_chord_def res_cases Let_def split: if_splits)
  have "\<not> is_whitespace (last rest)"
    using modifier_loop_rest [OF loop] trim_last [OF loop(2)] by simp
  moreover have "chord_ok lower (new_chord lower code ms)" if "(name, code) \<in> set named_keys" for name code
    using that by (intro new_chord_ok [OF assms(1)]) (auto simp: named_keys_def)
  moreover have "chord_ok lower (new_chord lower code ms)" if "function_key k = Some code" for k code
    using that by (intro new_chord_ok [OF assms(1)])
      (auto simp: function_key_def bind_eq_Some_conv split: list.splits if_splits)
  moreover have "chord_ok lower (new_chord lower (KeyChar x) ms)" if "\<not> is_whitespace x" for x
    using that by (intro new_chord_ok [OF assms(1)]) simp
  ultimately show ?thesis
    using key unfolding parse_key_def Let_def
    by (auto split: option.splits list.splits dest!: find_SomeD)
qed

section \<open>Validation of a table\<close>

lemma keep_first_props:
  "distinct kept \<Longrightarrow> distinct (keep_first kept cs) \<and> set (keep_first kept cs) = set kept \<union> set cs"
  by (induction kept cs rule: keep_first.induct) auto

definition table_ok :: "key_bindings \<Rightarrow> bool" where
  "table_ok kb \<longleftrightarrow> (\<forall>a. distinct (chords kb a))"

lemma table_ok_empty [intro]: "table_ok Map.empty"
  by (simp add: table_ok_def chords_def)

lemma table_ok_bind [intro]: "table_ok kb \<Longrightarrow> table_ok (bind_action kb a cs)"
  using keep_first_props [of "[]" cs] by (simp add: table_ok_def chords_def bind_action_def)

lemma table_ok_override: "table_ok kb \<Longrightarrow> table_ok (override_bindings kb overrides)"
proof -
  have "table_ok kb \<Longrightarrow> table_ok (foldl (\<lambda>kb a. bind_action kb a (chords overrides a)) kb as)" for as
    by (induction as arbitrary: kb) auto
  then show "table_ok kb \<Longrightarrow> table_ok (override_bindings kb overrides)"
    by (simp add: override_bindings_def)
qed

lemma table_ok_default:
  assumes "default_bindings lower = Inr kb"
  shows "table_ok kb"
proof -
  have "table_ok kb" if "foldl (\<lambda>r (action, keys). res_bind r (\<lambda>kb. res_map (bind_action kb action)
         (res_collect (map (\<lambda>k. parse_chord lower (lit k)) keys)))) r es = Inr kb"
    "\<And>k. r = Inr k \<Longrightarrow> table_ok k" for r es
    using that
  proof (induction es arbitrary: r)
    case (Cons e es)
    show ?case
      by (rule Cons.IH [OF Cons.prems(1) [unfolded foldl_Cons]])
        (auto simp: case_prod_beta res_cases dest!: Cons.prems(2))
  qed simp
  from this [OF assms [unfolded default_bindings_def]] show ?thesis by auto
qed

text \<open>The pairs the scan of a mode has collected when it reaches the end.\<close>

definition mode_pairs :: "key_bindings \<Rightarrow> action_mode \<Rightarrow> tui_action list \<Rightarrow> (key_chord \<times> tui_action) list" where
  "mode_pairs kb mode as =
     concat (map (\<lambda>a. map (\<lambda>c. (c, a)) (chords kb a))
       (filter (\<lambda>a. reachable (action_mode_of a) mode) as))"

lemma scan_chords_result:
  "case scan_chords seen a cs of
     Inr seen' \<Rightarrow> seen' = seen @ map (\<lambda>c. (c, a)) cs \<and> distinct cs \<and> fst ` set seen \<inter> set cs = {}
   | Inl e \<Rightarrow> \<exists>c b. e = ChordConflict c b a \<and> c \<in> set cs \<and>
       ((c, b) \<in> set seen \<or> b = a \<and> \<not> distinct cs)"
proof (induction seen a cs rule: scan_chords.induct)
  case (2 seen a c cs)
  show ?case
  proof (cases "find (\<lambda>e. fst e = c) seen")
    case None
    then have "c \<notin> fst ` set seen" by (force simp: find_None_iff)
    then show ?thesis using 2 [OF None] None
      by (cases "scan_chords (seen @ [(c, a)]) a cs") auto
  next
    case (Some e)
    then have e: "e = (c, snd e)" "(c, snd e) \<in> set seen"
      using find_SomeD [OF Some] by (metis prod.collapse)+
    have "scan_chords seen a (c # cs) = Inl (ChordConflict c (snd e) a)"
      by (simp add: Some case_prod_beta del: find.simps)
    then show ?thesis using e(2) by auto
  qed
qed simp

lemma scan_actions_result:
  assumes "table_ok kb" "distinct as" "snd ` set seen \<inter> set as = {}"
    "snd ` set seen \<subseteq> {a. reachable (action_mode_of a) mode}"
    "\<forall>(c, a) \<in> set seen. c \<in> set (chords kb a)"
  shows "case scan_actions kb mode seen as of
     Inr _ \<Rightarrow> distinct (map fst (mode_pairs kb mode as)) \<and>
       fst ` set seen \<inter> fst ` set (mode_pairs kb mode as) = {}
   | Inl e \<Rightarrow> \<exists>c a b. e = ChordConflict c a b \<and> a \<noteq> b \<and> c \<in> set (chords kb a) \<and> c \<in> set (chords kb b) \<and>
       reachable (action_mode_of a) mode \<and> reachable (action_mode_of b) mode"
  using assms(2-5)
proof (induction as arbitrary: seen)
  case (Cons a as)
  show ?case
  proof (cases "reachable (action_mode_of a) mode")
    case False
    then have eq: "scan_actions kb mode seen (a # as) = scan_actions kb mode seen as"
        "mode_pairs kb mode (a # as) = mode_pairs kb mode as"
      by (simp_all add: mode_pairs_def)
    show ?thesis unfolding eq by (rule Cons.IH) (use Cons.prems in auto)
  next
    case True
    have d: "distinct (chords kb a)" using assms(1) by (simp add: table_ok_def)
    let ?new = "map (\<lambda>c. (c, a)) (chords kb a)"
    have pairs: "mode_pairs kb mode (a # as) = ?new @ mode_pairs kb mode as"
      using True by (simp add: mode_pairs_def)
    show ?thesis
    proof (cases "scan_chords seen a (chords kb a)")
      case (Inl e)
      then obtain c b where e: "e = ChordConflict c b a" "c \<in> set (chords kb a)" "(c, b) \<in> set seen"
        using scan_chords_result [where seen = seen and a = a and cs = "chords kb a"] d by auto
      then have "b \<in> snd ` set seen" by force
      then have "b \<noteq> a" "reachable (action_mode_of b) mode" "c \<in> set (chords kb b)"
        using Cons.prems e(3) by auto
      then show ?thesis using True Inl e by auto
    next
      case (Inr seen')
      then have seen': "seen' = seen @ ?new" "fst ` set seen \<inter> set (chords kb a) = {}"
        using scan_chords_result [where seen = seen and a = a and cs = "chords kb a"] by auto
      have step: "scan_actions kb mode seen (a # as) = scan_actions kb mode seen' as"
        using True Inr by simp
      have "snd ` set seen' \<inter> set as = {}" "snd ` set seen' \<subseteq> {a. reachable (action_mode_of a) mode}"
        "\<forall>(c, a) \<in> set seen'. c \<in> set (chords kb a)" "distinct as"
        using seen'(1) Cons.prems True by auto
      note ih = Cons.IH [OF this(4,1,2,3)]
      have fsts: "fst ` set seen' = fst ` set seen \<union> set (chords kb a)" "map fst ?new = chords kb a"
        using seen'(1) by (simp_all add: image_Un image_image comp_def)
      show ?thesis
      proof (cases "scan_actions kb mode seen' as")
        case (Inl e)
        then show ?thesis using ih unfolding step by simp
      next
        case (Inr u)
        then have "distinct (map fst (mode_pairs kb mode as))"
            "fst ` set seen' \<inter> fst ` set (mode_pairs kb mode as) = {}"
          using ih by simp_all
        then show ?thesis
          using seen'(2) d Inr fsts unfolding step pairs by (simp add: image_Un image_image) blast
      qed
    qed
  qed
qed (simp add: mode_pairs_def)

section \<open>Looking an action up\<close>

definition ascii_lowercase :: "scalar \<Rightarrow> scalars" where
  "ascii_lowercase c = [if 65 \<le> c \<and> c \<le> 90 then c + 32 else c]"

lemma ascii_lowercase_contract: "lower_contract ascii_lowercase"
  by (auto simp: lower_contract_def fold_case_def ascii_lowercase_def is_whitespace_def)

lemmas parse_eval = parse_chord_def trim_def is_whitespace_def lit_def modifier_loop.simps
  named_modifiers_def ascii_lower_def parse_key_def named_keys_def function_key_def parse_u8_def
  new_chord_def significant_def chorded_def fold_case_def ascii_lowercase_def

lemma defaults_parse: "\<exists>kb. default_bindings ascii_lowercase = Inr kb"
  by (simp add: default_bindings_def default_keys_def parse_eval)

lemma all_actions_complete: "a \<in> set all_actions" "distinct all_actions"
  by (cases a; simp add: all_actions_def) (simp add: all_actions_def)

lemma match_unique: "chord_matches lower c ev \<Longrightarrow> chord_matches lower d ev \<Longrightarrow> c = d"
  unfolding chord_matches_def by (metis key_chord.equality old.unit.exhaust prod.inject)

lemma scan_mode:
  assumes "table_ok kb"
  shows "case scan_actions kb mode [] (bound_actions kb) of
     Inr _ \<Rightarrow> (\<forall>c a b. reachable (action_mode_of a) mode \<longrightarrow> reachable (action_mode_of b) mode \<longrightarrow>
       c \<in> set (chords kb a) \<longrightarrow> c \<in> set (chords kb b) \<longrightarrow> a = b)
   | Inl e \<Rightarrow> \<exists>c a b. e = ChordConflict c a b \<and> a \<noteq> b \<and> c \<in> set (chords kb a) \<and> c \<in> set (chords kb b) \<and>
       reachable (action_mode_of a) mode \<and> reachable (action_mode_of b) mode"
proof -
  have "distinct (bound_actions kb)"
    by (simp add: bound_actions_def all_actions_complete)
  note r = scan_actions_result [where seen = "[]", OF assms this, of mode, simplified]
  have m: "(c, a) \<in> set (mode_pairs kb mode (bound_actions kb))"
    if "reachable (action_mode_of a) mode" "c \<in> set (chords kb a)" for c a
  proof -
    have "a \<in> set (bound_actions kb)"
      using that(2) all_actions_complete(1) [of a] by (cases "kb a") (auto simp: bound_actions_def chords_def)
    then show ?thesis using that by (auto simp: mode_pairs_def)
  qed
  show ?thesis
  proof (cases "scan_actions kb mode [] (bound_actions kb)")
    case (Inl e)
    then show ?thesis using r by simp
  next
    case (Inr u)
    then have "distinct (map fst (mode_pairs kb mode (bound_actions kb)))" using r by simp
    from eq_key_imp_eq_value [OF this] m
    have "a = b" if "reachable (action_mode_of a) mode" "reachable (action_mode_of b) mode"
      "c \<in> set (chords kb a)" "c \<in> set (chords kb b)" for a b c using that by meson
    then show ?thesis using Inr by simp
  qed
qed

lemma action_for_exact:
  assumes "\<forall>c a b. reachable (action_mode_of a) mode \<longrightarrow> reachable (action_mode_of b) mode \<longrightarrow>
       c \<in> set (chords kb a) \<longrightarrow> c \<in> set (chords kb b) \<longrightarrow> a = b"
  shows "action_for lower kb event mode = Some a \<longleftrightarrow>
    reachable (action_mode_of a) mode \<and> (\<exists>c \<in> set (chords kb a). chord_matches lower c event)"
proof -
  let ?hit = "\<lambda>a. list_ex (\<lambda>chord. chord_matches lower chord event) (chords kb a)"
  let ?as = "filter (\<lambda>a. reachable (action_mode_of a) mode) (bound_actions kb)"
  have mem: "reachable (action_mode_of b) mode \<Longrightarrow> ?hit b \<Longrightarrow> b \<in> set ?as" for b
    using all_actions_complete(1) [of b] by (cases "kb b") (auto simp: bound_actions_def chords_def)
  have uniq: "a = b" if h: "a \<in> set ?as" "b \<in> set ?as" "?hit a" "?hit b" for a b
  proof -
    obtain c d where c: "c \<in> set (chords kb a)" "chord_matches lower c event"
      and d: "d \<in> set (chords kb b)" "chord_matches lower d event"
      using h(3,4) by (auto simp: list_ex_iff)
    then have "c \<in> set (chords kb b)" using match_unique by metis
    then show ?thesis using assms c(1) h(1,2) by (simp only: set_filter mem_Collect_eq)
  qed
  show ?thesis
  proof
    assume "action_for lower kb event mode = Some a"
    from find_SomeD [OF this [unfolded action_for_def]]
    show "reachable (action_mode_of a) mode \<and> (\<exists>c \<in> set (chords kb a). chord_matches lower c event)"
      by (auto simp: list_ex_iff)
  next
    assume "reachable (action_mode_of a) mode \<and> (\<exists>c \<in> set (chords kb a). chord_matches lower c event)"
    then have a: "a \<in> set ?as" "?hit a" using mem by (auto simp: list_ex_iff)
    then obtain b where b: "find ?hit ?as = Some b" by (cases "find ?hit ?as") (auto simp: find_None_iff)
    then show "action_for lower kb event mode = Some a"
      unfolding action_for_def using uniq [OF a(1) _ a(2), of b] find_SomeD [OF b] by simp
  qed
qed

section \<open>Properties\<close>

text \<open>
  C35: the text a configuration file is written with reads back: for every chord that some text
  parses to, its own text parses to the same chord, whatever the modifiers, the case of a letter
  and the spelling of the key were.
\<close>

theorem chord_text_round_trip:
  assumes "lower_contract lower" "parse_chord lower s = Inr c"
  shows "parse_chord lower (chord_text c) = Inr c"
  by (rule parse_chord_text [OF parsed_chord_ok [OF assms]])

theorem chord_text_round_trip_witness:
  "parse_chord ascii_lowercase (chord_text \<lparr>kc_code = KeyChar 99, kc_modifiers = {Ctrl}\<rparr>) =
    Inr \<lparr>kc_code = KeyChar 99, kc_modifiers = {Ctrl}\<rparr>"
  by (rule chord_text_round_trip [OF ascii_lowercase_contract, of "lit ''CTRL+C''"])
    (simp add: parse_eval)

text \<open>
  C33: validation of a configured table (the shipped bindings with any overrides) is exact. A table
  that validates selects in browse and in search mode precisely the action a pressed chord is
  bound to, so at most one, and can be left; a conflict it reports names two different actions
  that share the chord and are reachable from one mode; and no other error is possible.
\<close>

theorem table_validation_exact:
  assumes "default_bindings lower = Inr shipped" "kb = override_bindings shipped overrides"
  shows "case validate_bindings kb of
      Inr _ \<Rightarrow> (chords kb Quit \<noteq> [] \<or> chords kb Interrupt \<noteq> []) \<and>
        (\<forall>mode \<in> {ModeBrowse, ModeSearch}. \<forall>event a.
          (action_for lower kb event mode = Some a) =
          (reachable (action_mode_of a) mode \<and> (\<exists>c \<in> set (chords kb a). chord_matches lower c event)))
    | Inl (ChordConflict c a b) \<Rightarrow> a \<noteq> b \<and> c \<in> set (chords kb a) \<and> c \<in> set (chords kb b) \<and>
        (\<exists>mode \<in> {ModeBrowse, ModeSearch}.
          reachable (action_mode_of a) mode \<and> reachable (action_mode_of b) mode)
    | Inl e \<Rightarrow> e = NoWayOut \<and> chords kb Quit = [] \<and> chords kb Interrupt = []"
proof -
  have ok: "table_ok kb" unfolding assms(2) by (rule table_ok_override [OF table_ok_default [OF assms(1)]])
  note browse = scan_mode [OF ok, of ModeBrowse] and search = scan_mode [OF ok, of ModeSearch]
  show ?thesis
  proof (cases "scan_actions kb ModeBrowse [] (bound_actions kb)")
    case (Inl e)
    then show ?thesis using browse by (auto simp: validate_bindings_def)
  next
    case b: (Inr u)
    show ?thesis
    proof (cases "scan_actions kb ModeSearch [] (bound_actions kb)")
      case (Inl e)
      then show ?thesis using search b by (auto simp: validate_bindings_def)
    next
      case (Inr v)
      have "\<forall>event a. (action_for lower kb event mode = Some a) =
          (reachable (action_mode_of a) mode \<and> (\<exists>c \<in> set (chords kb a). chord_matches lower c event))"
        if "mode = ModeBrowse \<or> mode = ModeSearch" for mode
        using that browse search b Inr by (intro allI action_for_exact) auto
      then show ?thesis using b Inr by (simp add: validate_bindings_def)
    qed
  qed
qed

text \<open>The shipped table itself validates.\<close>

lemma shipped_table_validates:
  "validate_bindings (override_bindings (projr (default_bindings ascii_lowercase)) Map.empty) = Inr ()"
  by (simp add: default_bindings_def default_keys_def parse_eval validate_bindings_def
      override_bindings_def bound_actions_def all_actions_def chords_def bind_action_def
      action_mode_of_def reachable_def)

lemma default_bindings_parse: "default_bindings ascii_lowercase = Inr (projr (default_bindings ascii_lowercase))"
  by (metis defaults_parse sum.sel(2))

theorem table_validation_exact_witness:
  "action_for ascii_lowercase (override_bindings (projr (default_bindings ascii_lowercase)) Map.empty)
      \<lparr>ev_code = KeyChar 67, ev_modifiers = {Ctrl}\<rparr> ModeBrowse = Some Interrupt"
proof -
  let ?kb = "override_bindings (projr (default_bindings ascii_lowercase)) Map.empty"
  have bound: "chords ?kb Interrupt = [\<lparr>kc_code = KeyChar 99, kc_modifiers = {Ctrl}\<rparr>]"
    by (simp add: default_bindings_def default_keys_def parse_eval override_bindings_def
        bound_actions_def chords_def bind_action_def)
  have "chord_matches ascii_lowercase \<lparr>kc_code = KeyChar 99, kc_modifiers = {Ctrl}\<rparr>
      \<lparr>ev_code = KeyChar 67, ev_modifiers = {Ctrl}\<rparr>"
    by (simp add: chord_matches_def parse_eval)
  then have hit: "\<exists>c \<in> set (chords ?kb Interrupt). chord_matches ascii_lowercase c
      \<lparr>ev_code = KeyChar 67, ev_modifiers = {Ctrl}\<rparr>"
    unfolding bound by simp
  have reach: "reachable (action_mode_of Interrupt) ModeBrowse"
    by (simp add: reachable_def action_mode_of_def)
  note exact = table_validation_exact [OF default_bindings_parse refl, of Map.empty,
      unfolded shipped_table_validates sum.case, THEN conjunct2, THEN bspec [of _ _ ModeBrowse],
      OF insertI1, THEN spec, THEN spec]
  show ?thesis unfolding exact using reach hit by blast
qed

end
