(* ===== verification/SearchScope.thy ===== *)
theory SearchScope
  imports Prelude
begin

text \<open>
  The access scope of \<open>search_scope.rs\<close>: resolution of the allowed roots against the file system,
  the lexical containment test, the stability check that every read repeats, and the SQL
  condition of \<open>db.rs\<close> that restricts rows to the scope.

  Paths are those of the Unix platforms the program is released for: byte strings, and once made
  lexically absolute the list of their names below the root. The file system is a \<open>file_system\<close>, an
  argument of the operations that read it, so that a check can run against a later one. SQLite's
  \<open>LIKE\<close> is the argument \<open>like\<close>.
\<close>

section \<open>Paths\<close>

datatype component = RootDir | CurDir | ParentDir | Normal string

definition slash :: char where "slash = CHR ''/''"

definition is_absolute :: "string \<Rightarrow> bool" where
  "is_absolute p = (case p of c # _ \<Rightarrow> c = slash | [] \<Rightarrow> False)"

definition component_of :: "string \<Rightarrow> component" where
  "component_of name = (if name = ''.'' then CurDir else if name = ''..'' then ParentDir else Normal name)"

text \<open>
  \<open>Path::components\<close>: repeated separators and a trailing one are ignored, and \<open>.\<close> is kept only at
  the start of a relative path.
\<close>

definition components :: "string \<Rightarrow> component list" where
  "components p =
     (let cs = map component_of (filter (\<lambda>n. n \<noteq> []) (split_on slash p))
      in if is_absolute p then RootDir # filter (\<lambda>c. c \<noteq> CurDir) cs
         else (case cs of CurDir # rest \<Rightarrow> CurDir # filter (\<lambda>c. c \<noteq> CurDir) rest
               | _ \<Rightarrow> filter (\<lambda>c. c \<noteq> CurDir) cs))"

text \<open>\<open>Path::parent\<close> and \<open>Path::file_name\<close>\<close>

definition path_parent :: "component list \<Rightarrow> component list option" where
  "path_parent p = (if p = [] \<or> last p = RootDir then None else Some (butlast p))"

definition path_file_name :: "component list \<Rightarrow> string option" where
  "path_file_name p = (case rev p of Normal n # _ \<Rightarrow> Some n | _ \<Rightarrow> None)"

type_synonym names = "string list"

definition path_text :: "names \<Rightarrow> string" where
  "path_text ns = slash # join [slash] ns"

datatype io_error = NotFound | OtherIo

record file_system =
  fs_canonicalize :: "names \<Rightarrow> io_error + string"
  fs_is_dir :: "string \<Rightarrow> bool"

datatype origin = HarnessRoots | ExplicitConfig | InvocationDirectory

datatype scope_error =
    NotAbsolute
  | EscapesRoot
  | NotADirectory
  | TrustedRootMissing
  | CannotResolve names
  | FilesystemRoot
  | NotUtf8
  | InvalidRoot origin string scope_error
  | NoRoots
  | RootDisappeared names
  | RootNoLongerDirectory names
  | RootChangedTarget names
  | RawSqlUnavailable

fun lexical_loop :: "names \<Rightarrow> component list \<Rightarrow> scope_error + names" where
  "lexical_loop ns [] = Inr ns"
| "lexical_loop ns (RootDir # cs) = lexical_loop [] cs"
| "lexical_loop ns (Normal n # cs) = lexical_loop (ns @ [n]) cs"
| "lexical_loop ns (CurDir # cs) = lexical_loop ns cs"
| "lexical_loop ns (ParentDir # cs) =
     (if ns = [] then Inl EscapesRoot else lexical_loop (butlast ns) cs)"

definition lexical_absolute :: "string \<Rightarrow> scope_error + names" where
  "lexical_absolute p = (if \<not> is_absolute p then Inl NotAbsolute else lexical_loop [] (components p))"

text \<open>\<open>to_str\<close> on a Unix path: the bytes are valid UTF-8.\<close>

definition continuation :: "nat \<Rightarrow> bool" where
  "continuation b \<longleftrightarrow> 0x80 \<le> b \<and> b \<le> 0xBF"

definition sequence_length :: "nat \<Rightarrow> nat list \<Rightarrow> nat option" where
  "sequence_length b bs =
     (if b < 0x80 then Some 0
      else if 0xC2 \<le> b \<and> b \<le> 0xDF then
        (case bs of c # _ \<Rightarrow> if continuation c then Some 1 else None | _ \<Rightarrow> None)
      else if 0xE0 \<le> b \<and> b \<le> 0xEF then
        (case bs of c # d # _ \<Rightarrow>
           if continuation c \<and> continuation d \<and> (b \<noteq> 0xE0 \<or> 0xA0 \<le> c) \<and> (b \<noteq> 0xED \<or> c \<le> 0x9F)
           then Some 2 else None
         | _ \<Rightarrow> None)
      else if 0xF0 \<le> b \<and> b \<le> 0xF4 then
        (case bs of c # d # e # _ \<Rightarrow>
           if continuation c \<and> continuation d \<and> continuation e \<and> (b \<noteq> 0xF0 \<or> 0x90 \<le> c) \<and> (b \<noteq> 0xF4 \<or> c \<le> 0x8F)
           then Some 3 else None
         | _ \<Rightarrow> None)
      else None)"

function valid_bytes :: "nat list \<Rightarrow> bool" where
  "valid_bytes [] = True"
| "valid_bytes (b # bs) =
     (case sequence_length b bs of None \<Rightarrow> False | Some k \<Rightarrow> valid_bytes (drop k bs))"
  by pat_completeness auto
termination by (relation "measure length") auto

definition valid_utf8 :: "string \<Rightarrow> bool" where
  "valid_utf8 s = valid_bytes (map of_char s)"

section \<open>Resolution\<close>

record access_root_source =
  as_configured_path :: names
  as_canonicalized :: bool
  as_origin :: origin

record access_root =
  ar_canonical_path :: names
  ar_match_paths :: "names list"
  ar_sources :: "access_root_source list"

datatype scope = ScopeAll | AllowedRoots "access_root list"

record scope_config =
  sc_allowed_roots :: bool
  sc_roots :: "string list"
  sc_include_invocation :: bool

record trusted_inputs =
  ti_harness_roots :: "string list"
  ti_invocation :: "string option"

definition canonical_root ::
    "file_system \<Rightarrow> names \<Rightarrow> origin \<Rightarrow> scope_error + names \<times> bool" where
  "canonical_root fs lexical origin =
     (case fs_canonicalize fs lexical of
        Inr path \<Rightarrow>
          if \<not> fs_is_dir fs path then Inl NotADirectory
          else res_map (\<lambda>ns. (ns, True)) (lexical_absolute path)
      | Inl NotFound \<Rightarrow>
          if origin = ExplicitConfig then Inr (lexical, False) else Inl TrustedRootMissing
      | Inl OtherIo \<Rightarrow> Inl (CannotResolve lexical))"

definition normalize_authority_root ::
    "file_system \<Rightarrow> string \<Rightarrow> origin \<Rightarrow> scope_error + access_root" where
  "normalize_authority_root fs path origin =
     res_bind (lexical_absolute path) (\<lambda>lexical.
     res_bind (canonical_root fs lexical origin) (\<lambda>(canonical, canonicalized).
     if canonical = [] then Inl FilesystemRoot
     else if \<not> valid_utf8 (path_text lexical) \<or> \<not> valid_utf8 (path_text canonical) then Inl NotUtf8
     else Inr \<lparr>ar_canonical_path = canonical,
            ar_match_paths = (if lexical \<noteq> canonical then [canonical, lexical] else [canonical]),
            ar_sources = [\<lparr>as_configured_path = lexical, as_canonicalized = canonicalized, as_origin = origin\<rparr>]\<rparr>))"

fun push_new :: "'p list \<Rightarrow> 'p list \<Rightarrow> 'p list" where
  "push_new ps [] = ps"
| "push_new ps (q # qs) = push_new (if q \<in> set ps then ps else ps @ [q]) qs"

text \<open>The first root with the candidate's canonical path takes its match paths and sources.\<close>

fun merge_root :: "access_root list \<Rightarrow> access_root \<Rightarrow> access_root list" where
  "merge_root [] candidate = [candidate]"
| "merge_root (r # rs) candidate =
     (if ar_canonical_path r = ar_canonical_path candidate
      then r\<lparr>ar_match_paths := push_new (ar_match_paths r) (ar_match_paths candidate),
             ar_sources := ar_sources r @ ar_sources candidate\<rparr> # rs
      else r # merge_root rs candidate)"

fun resolve_loop ::
    "file_system \<Rightarrow> access_root list \<Rightarrow> (string \<times> origin) list \<Rightarrow> scope_error + access_root list" where
  "resolve_loop fs roots [] = Inr roots"
| "resolve_loop fs roots ((path, origin) # cs) =
     (case normalize_authority_root fs path origin of
        Inl e \<Rightarrow> Inl (InvalidRoot origin path e)
      | Inr candidate \<Rightarrow> resolve_loop fs (merge_root roots candidate) cs)"

definition candidates_of :: "scope_config \<Rightarrow> trusted_inputs \<Rightarrow> (string \<times> origin) list" where
  "candidates_of config inputs =
     map (\<lambda>p. (p, HarnessRoots)) (ti_harness_roots inputs) @
     map (\<lambda>p. (p, ExplicitConfig)) (sc_roots config) @
     (if sc_include_invocation config
      then (case ti_invocation inputs of Some p \<Rightarrow> [(p, InvocationDirectory)] | None \<Rightarrow> []) else [])"

definition resolve_scope ::
    "file_system \<Rightarrow> scope_config \<Rightarrow> trusted_inputs \<Rightarrow> scope_error + scope" where
  "resolve_scope fs config inputs =
     (if \<not> sc_allowed_roots config then Inr ScopeAll
      else res_bind (resolve_loop fs [] (candidates_of config inputs)) (\<lambda>roots.
        if roots = [] then Inl NoRoots else Inr (AllowedRoots roots)))"

definition scope_roots :: "scope \<Rightarrow> access_root list" where
  "scope_roots s = (case s of ScopeAll \<Rightarrow> [] | AllowedRoots roots \<Rightarrow> roots)"

definition allows_workspace_path :: "scope \<Rightarrow> string \<Rightarrow> bool" where
  "allows_workspace_path s path =
     (case s of
        ScopeAll \<Rightarrow> True
      | AllowedRoots roots \<Rightarrow>
          (case lexical_absolute path of
             Inl _ \<Rightarrow> False
           | Inr ns \<Rightarrow> list_ex (\<lambda>root. prefix root ns) (concat (map ar_match_paths roots))))"

section \<open>Stability\<close>

definition check_source :: "file_system \<Rightarrow> names \<Rightarrow> access_root_source \<Rightarrow> scope_error + unit" where
  "check_source fs canonical src =
     (case fs_canonicalize fs (as_configured_path src) of
        Inr current \<Rightarrow>
          if \<not> fs_is_dir fs current then Inl (RootNoLongerDirectory (as_configured_path src))
          else if components current \<noteq> components (path_text canonical)
          then Inl (RootChangedTarget (as_configured_path src))
          else Inr ()
      | Inl NotFound \<Rightarrow>
          if \<not> as_canonicalized src then Inr () else Inl (RootDisappeared (as_configured_path src))
      | Inl OtherIo \<Rightarrow> Inl (RootDisappeared (as_configured_path src)))"

fun first_error :: "('e + unit) list \<Rightarrow> 'e + unit" where
  "first_error [] = Inr ()"
| "first_error (r # rs) = (case r of Inl e \<Rightarrow> Inl e | Inr _ \<Rightarrow> first_error rs)"

definition validate_stable :: "file_system \<Rightarrow> scope \<Rightarrow> scope_error + unit" where
  "validate_stable fs s =
     first_error (concat (map (\<lambda>root. map (check_source fs (ar_canonical_path root)) (ar_sources root))
       (scope_roots s)))"

definition ensure_raw_sql_allowed :: "scope_config \<Rightarrow> scope_error + unit" where
  "ensure_raw_sql_allowed config = (if sc_allowed_roots config then Inl RawSqlUnavailable else Inr ())"

section \<open>The SQL condition\<close>

definition backslash :: char where "backslash = CHR 0x5C"

definition is_ascii_letter :: "char \<Rightarrow> bool" where
  "is_ascii_letter c =
     (let n = (of_char c :: nat) in 65 \<le> n \<and> n \<le> 90 \<or> 97 \<le> n \<and> n \<le> 122)"

definition windows_style :: "string \<Rightarrow> bool" where
  "windows_style p \<longleftrightarrow> prefix [backslash, backslash] p \<or>
     (case p of drive # c # s # _ \<Rightarrow>
        is_ascii_letter drive \<and> c = CHR '':'' \<and> (s = backslash \<or> s = slash) | _ \<Rightarrow> False)"

definition path_prefix_parts :: "string \<Rightarrow> string \<times> string" where
  "path_prefix_parts p =
     (let separator = (if windows_style p then backslash else slash);
          exact = trim_end_matches (\<lambda>c. c = separator) p
      in (exact, exact @ [separator]))"

definition like_escaped :: "char \<Rightarrow> string" where
  "like_escaped c = (if c = CHR ''%'' \<or> c = CHR ''_'' \<or> c = backslash then [backslash, c] else [c])"

definition literal_like_prefix_pattern :: "string \<Rightarrow> string" where
  "literal_like_prefix_pattern value = concat (map like_escaped value) @ ''%''"

definition path_prefix_patterns :: "string \<Rightarrow> string \<times> string" where
  "path_prefix_patterns p =
     (let (exact, child) = path_prefix_parts p in (exact, literal_like_prefix_pattern child))"

text \<open>A session row as the condition reads it; \<open>coalesce\<close> turns null into the empty text.\<close>

record session_paths =
  sp_cwd :: "string option"
  sp_repo_root :: "string option"

definition coalesce :: "string option \<Rightarrow> string" where
  "coalesce x = (case x of Some s \<Rightarrow> s | None \<Rightarrow> [])"

definition workspace_condition ::
    "(string \<Rightarrow> string \<Rightarrow> bool) \<Rightarrow> session_paths \<Rightarrow> string \<Rightarrow> bool" where
  "workspace_condition like row p =
     (let (exact, child) = path_prefix_patterns p; cwd = coalesce (sp_cwd row); repo = coalesce (sp_repo_root row)
      in cwd = exact \<or> like child cwd \<or> repo = exact \<or> like child repo)"

definition scope_admits :: "(string \<Rightarrow> string \<Rightarrow> bool) \<Rightarrow> scope \<Rightarrow> session_paths \<Rightarrow> bool" where
  "scope_admits like s row =
     (let prefixes = map path_text (concat (map ar_match_paths (scope_roots s)))
      in if prefixes = [] then True else list_ex (workspace_condition like row) prefixes)"

section \<open>Names and texts\<close>

definition good_name :: "string \<Rightarrow> bool" where
  "good_name n \<longleftrightarrow> n \<noteq> [] \<and> slash \<notin> set n \<and> n \<noteq> ''.'' \<and> n \<noteq> ''..''"

lemma split_on_free: "d \<notin> set n \<Longrightarrow> split_on d n = [n]"
  by (induction n) auto

lemma split_on_append: "d \<notin> set n \<Longrightarrow> split_on d (n @ d # r) = n # split_on d r"
  by (induction n) auto

lemma split_on_pieces: "n \<in> set (split_on d s) \<Longrightarrow> d \<notin> set n"
  by (induction s arbitrary: n) (auto split: if_splits list.splits)

lemma split_on_join:
  "list_all (\<lambda>n. d \<notin> set n) ns \<Longrightarrow> ns \<noteq> [] \<Longrightarrow> split_on d (join [d] ns) = ns"
proof (induction ns)
  case (Cons x ys)
  show ?case
  proof (cases ys)
    case Nil
    then show ?thesis using Cons.prems by (simp add: split_on_free)
  next
    case (Cons y zs)
    then show ?thesis
      using \<open>list_all (\<lambda>n. d \<notin> set n) ys \<Longrightarrow> ys \<noteq> [] \<Longrightarrow> split_on d (join [d] ys) = ys\<close>
        \<open>list_all (\<lambda>n. d \<notin> set n) (x # ys)\<close> split_on_append [of d x "join [d] ys"] by simp
  qed
qed simp

lemma components_path_text:
  assumes "list_all good_name ns"
  shows "components (path_text ns) = RootDir # map Normal ns"
proof -
  have "filter (\<lambda>n. n \<noteq> []) (split_on slash (path_text ns)) = ns"
  proof (cases "ns = []")
    case False
    then have "split_on slash (join [slash] ns) = ns"
      using assms by (intro split_on_join) (auto simp: list_all_iff good_name_def)
    then show ?thesis using assms
      by (auto simp: path_text_def list_all_iff good_name_def intro: filter_True)
  qed (simp add: path_text_def)
  moreover have "map component_of ns = map Normal ns"
    using assms by (auto simp: component_of_def list_all_iff good_name_def)
  moreover have "filter (\<lambda>c. c \<noteq> CurDir) (map Normal ns) = map Normal ns"
    by (auto intro: filter_True)
  ultimately show ?thesis
    by (simp add: components_def is_absolute_def path_text_def Let_def)
qed

lemma lexical_loop_normal: "lexical_loop ms (map Normal ns) = Inr (ms @ ns)"
  by (induction ns arbitrary: ms) auto

lemma lexical_path_text: "list_all good_name ns \<Longrightarrow> lexical_absolute (path_text ns) = Inr ns"
  using components_path_text [of ns] lexical_loop_normal [of "[]" ns]
  by (simp add: lexical_absolute_def is_absolute_def path_text_def)

lemma lexical_loop_good:
  assumes "lexical_loop ms cs = Inr ns" "list_all good_name ms" "\<And>n. Normal n \<in> set cs \<Longrightarrow> good_name n"
  shows "list_all good_name ns"
  using assms
proof (induction ms cs rule: lexical_loop.induct)
  case (5 ms cs)
  then show ?case by (auto simp: list_all_iff split: if_splits dest: in_set_butlastD)
qed auto

lemma components_absolute:
  "is_absolute p \<Longrightarrow> components p = RootDir # filter (\<lambda>c. c \<noteq> CurDir)
     (map component_of (filter (\<lambda>n. n \<noteq> []) (split_on slash p)))"
  by (simp add: components_def)

lemma components_good:
  assumes "is_absolute p" "Normal n \<in> set (components p)"
  shows "good_name n"
proof -
  have "Normal n \<in> component_of ` {n \<in> set (split_on slash p). n \<noteq> []}"
    using assms by (auto simp: components_absolute)
  then show ?thesis
    by (auto simp: component_of_def good_name_def dest: split_on_pieces split: if_splits)
qed

lemma lexical_absolute_good: "lexical_absolute p = Inr ns \<Longrightarrow> list_all good_name ns"
  using lexical_loop_good [of "[]" "components p" ns] components_good [of p]
  by (simp add: lexical_absolute_def split: if_splits)

lemma lexical_of_components:
  "is_absolute p \<Longrightarrow> is_absolute q \<Longrightarrow> components p = components q \<Longrightarrow> lexical_absolute p = lexical_absolute q"
  by (simp add: lexical_absolute_def)

lemma absolute_components:
  assumes "components p = RootDir # cs"
  shows "is_absolute p"
proof (rule ccontr)
  assume rel: "\<not> is_absolute p"
  let ?cs = "map component_of (filter (\<lambda>n. n \<noteq> []) (split_on slash p))"
  have "set (components p) \<subseteq> set ?cs"
    using rel by (cases ?cs; cases "hd ?cs") (auto simp: components_def Let_def simp del: list.map(2))
  moreover have "RootDir \<notin> set ?cs" by (auto simp: component_of_def split: if_splits)
  ultimately show False using assms by auto
qed

section \<open>Which paths a resolved scope allows\<close>

text \<open>The match paths of a candidate: as spelled, and as the file system resolves it.\<close>

definition candidate_paths :: "file_system \<Rightarrow> string \<times> origin \<Rightarrow> names set" where
  "candidate_paths fs candidate =
     (case lexical_absolute (fst candidate) of
        Inl _ \<Rightarrow> {}
      | Inr l \<Rightarrow> (case canonical_root fs l (snd candidate) of Inl _ \<Rightarrow> {} | Inr (c, _) \<Rightarrow> {l, c}))"

definition match_set :: "access_root list \<Rightarrow> names set" where
  "match_set roots = (\<Union>r \<in> set roots. set (ar_match_paths r))"

lemma set_push_new: "set (push_new ps qs) = set ps \<union> set qs"
  by (induction ps qs rule: push_new.induct) auto

lemma merge_root_match: "match_set (merge_root roots r) = match_set roots \<union> set (ar_match_paths r)"
  by (induction roots) (auto simp: match_set_def set_push_new)

lemma merge_root_canonical:
  "set (map ar_canonical_path (merge_root roots r)) = insert (ar_canonical_path r) (set (map ar_canonical_path roots))"
  by (induction roots) auto

lemma merge_root_distinct:
  "distinct (map ar_canonical_path roots) \<Longrightarrow> distinct (map ar_canonical_path (merge_root roots r))"
proof (induction roots)
  case (Cons x roots)
  then show ?case using merge_root_canonical [of roots r] by auto
qed simp

lemma normalize_paths:
  assumes "normalize_authority_root fs path origin = Inr r"
  shows "set (ar_match_paths r) = candidate_paths fs (path, origin)" "[] \<noteq> ar_canonical_path r"
  using assms
  by (auto simp: normalize_authority_root_def candidate_paths_def res_cases split: if_splits)

lemma resolve_loop_match:
  assumes "resolve_loop fs roots cs = Inr roots'"
  shows "match_set roots' = match_set roots \<union> (\<Union>c \<in> set cs. candidate_paths fs c)"
  using assms
proof (induction fs roots cs rule: resolve_loop.induct)
  case (2 fs roots path origin cs)
  then obtain r where r: "normalize_authority_root fs path origin = Inr r"
    by (auto split: sum.splits)
  then have "match_set roots' = match_set (merge_root roots r) \<union> (\<Union>c \<in> set cs. candidate_paths fs c)"
    using 2 by simp
  then show ?case using normalize_paths(1) [OF r] by (auto simp: merge_root_match)
qed simp

lemma resolve_loop_distinct:
  "resolve_loop fs roots cs = Inr roots' \<Longrightarrow> distinct (map ar_canonical_path roots) \<Longrightarrow>
   distinct (map ar_canonical_path roots')"
  by (induction fs roots cs rule: resolve_loop.induct) (auto simp: merge_root_distinct split: sum.splits)

lemma allows_iff:
  "allows_workspace_path (AllowedRoots roots) p \<longleftrightarrow>
     (\<exists>ns. lexical_absolute p = Inr ns \<and> (\<exists>root \<in> match_set roots. prefix root ns))"
  by (auto simp: allows_workspace_path_def match_set_def list_ex_iff split: sum.splits)

section \<open>Stability is enough\<close>

lemma first_error_ok: "first_error rs = Inr () \<longleftrightarrow> list_all is_ok rs"
  by (induction rs) (auto split: sum.splits)

definition source_set :: "access_root list \<Rightarrow> (names \<times> access_root_source) set" where
  "source_set roots = (\<Union>r \<in> set roots. Pair (ar_canonical_path r) ` set (ar_sources r))"

lemma stable_iff:
  "validate_stable fs (AllowedRoots roots) = Inr () \<longleftrightarrow>
     (\<forall>(c, src) \<in> source_set roots. is_ok (check_source fs c src))"
  by (auto simp: validate_stable_def scope_roots_def first_error_ok list_all_iff source_set_def)

lemma merge_root_sources:
  "source_set (merge_root roots r) = source_set roots \<union> Pair (ar_canonical_path r) ` set (ar_sources r)"
  by (induction roots) (auto simp: source_set_def)

text \<open>What resolution records of a candidate.\<close>

definition candidate_source :: "file_system \<Rightarrow> string \<times> origin \<Rightarrow> names \<times> access_root_source \<Rightarrow> bool" where
  "candidate_source fs candidate cs \<longleftrightarrow>
     (\<exists>l c k. lexical_absolute (fst candidate) = Inr l \<and> canonical_root fs l (snd candidate) = Inr (c, k) \<and>
       c \<noteq> [] \<and> valid_utf8 (path_text l) \<and> valid_utf8 (path_text c) \<and>
       cs = (c, \<lparr>as_configured_path = l, as_canonicalized = k, as_origin = snd candidate\<rparr>))"

lemma normalize_source:
  "normalize_authority_root fs path origin = Inr r \<Longrightarrow>
   \<exists>src. ar_sources r = [src] \<and> candidate_source fs (path, origin) (ar_canonical_path r, src)"
  by (auto simp: normalize_authority_root_def candidate_source_def res_cases split: if_splits)

lemma resolve_loop_mono:
  "resolve_loop fs roots cs = Inr roots' \<Longrightarrow> source_set roots \<subseteq> source_set roots'"
  by (induction fs roots cs rule: resolve_loop.induct) (auto simp: merge_root_sources split: sum.splits)

lemma resolve_loop_sources:
  assumes "resolve_loop fs roots cs = Inr roots'" "c \<in> set cs"
  shows "\<exists>s \<in> source_set roots'. candidate_source fs c s"
proof -
  note mono = resolve_loop_mono
  show ?thesis
    using assms
  proof (induction fs roots cs rule: resolve_loop.induct)
    case (2 fs roots path origin cs)
    then obtain r where r: "normalize_authority_root fs path origin = Inr r"
      and rest: "resolve_loop fs (merge_root roots r) cs = Inr roots'" by (auto split: sum.splits)
    show ?case
    proof (cases "c = (path, origin)")
      case True
      then obtain src where "ar_sources r = [src]" "candidate_source fs c (ar_canonical_path r, src)"
        using normalize_source [OF r] by auto
      then show ?thesis using mono [OF rest] by (auto simp: merge_root_sources)
    next
      case False
      then show ?thesis using 2 r rest by auto
    qed
  qed simp
qed

lemma canonical_root_cases:
  "canonical_root fs l origin = Inr (c, k) \<longleftrightarrow>
     (\<exists>p. fs_canonicalize fs l = Inr p \<and> fs_is_dir fs p \<and> lexical_absolute p = Inr c \<and> k) \<or>
     fs_canonicalize fs l = Inl NotFound \<and> origin = ExplicitConfig \<and> c = l \<and> \<not> k"
  by (auto simp: canonical_root_def res_cases split: sum.splits io_error.splits)

lemma canonical_root_good: "canonical_root fs l origin = Inr (c, k) \<Longrightarrow> list_all good_name l \<Longrightarrow> list_all good_name c"
  by (auto simp: canonical_root_cases lexical_absolute_good)

text \<open>A candidate that passes the check on a later file system resolves there as it did before.\<close>

lemma stable_candidate:
  assumes "candidate_source fs (path, origin) (c, src)" "is_ok (check_source fs' c src)"
  shows "candidate_paths fs' (path, origin) = candidate_paths fs (path, origin) \<and>
    is_ok (normalize_authority_root fs' path origin)"
proof -
  obtain l k where l: "lexical_absolute path = Inr l" and k: "canonical_root fs l origin = Inr (c, k)"
    and ok: "c \<noteq> []" "valid_utf8 (path_text l)" "valid_utf8 (path_text c)"
    and src: "src = \<lparr>as_configured_path = l, as_canonicalized = k, as_origin = origin\<rparr>"
    using assms(1) by (auto simp: candidate_source_def)
  have good: "list_all good_name c"
    using canonical_root_good [OF k] lexical_absolute_good [OF l] by blast
  have "\<exists>k'. canonical_root fs' l origin = Inr (c, k')"
  proof (cases "fs_canonicalize fs' l")
    case (Inl e)
    then have "e = NotFound" "\<not> k"
      using assms(2) src by (auto simp: check_source_def split: io_error.splits if_splits)
    then show ?thesis using k Inl by (auto simp: canonical_root_cases)
  next
    case (Inr p)
    then have p: "fs_is_dir fs' p" "components p = components (path_text c)"
      using assms(2) src by (auto simp: check_source_def split: if_splits)
    then have "is_absolute p"
      using absolute_components [of p] components_path_text [OF good] by simp
    then have "lexical_absolute p = Inr c"
      using p(2) lexical_path_text [OF good] lexical_of_components [of p "path_text c"]
      by (simp add: path_text_def is_absolute_def)
    then show ?thesis using Inr p(1) by (auto simp: canonical_root_cases)
  qed
  then show ?thesis using l k ok
    by (auto simp: candidate_paths_def normalize_authority_root_def)
qed

lemma resolve_loop_total:
  "(\<And>p origin. (p, origin) \<in> set cs \<Longrightarrow> is_ok (normalize_authority_root fs p origin)) \<Longrightarrow>
   is_ok (resolve_loop fs roots cs)"
proof (induction fs roots cs rule: resolve_loop.induct)
  case (2 fs roots path origin cs)
  then obtain r where r: "normalize_authority_root fs path origin = Inr r"
    by (cases "normalize_authority_root fs path origin") fastforce+
  then show ?case using 2 by simp
qed simp

lemma resolve_scope_roots:
  "resolve_scope fs config inputs = Inr (AllowedRoots roots) \<longleftrightarrow> sc_allowed_roots config \<and>
     resolve_loop fs [] (candidates_of config inputs) = Inr roots \<and> roots \<noteq> []"
  by (auto simp: resolve_scope_def res_cases split: if_splits)

section \<open>The SQL condition and the scope\<close>

text \<open>
  SQLite's documented \<open>LIKE ... ESCAPE\<close>, with backslash as the escape character: a percent sign
  matches any text, an underscore one character, anything else itself up to the case of ASCII
  letters.
\<close>

fun like_matches :: "string \<Rightarrow> string \<Rightarrow> bool" where
  "like_matches [] s \<longleftrightarrow> s = []"
| "like_matches (p # ps) s \<longleftrightarrow>
     (if p = CHR ''%'' then (\<exists>k \<in> set [0..<Suc (length s)]. like_matches ps (drop k s))
      else if p = backslash then
        (case (ps, s) of (q # qs, c # cs) \<Rightarrow> ascii_lower_char q = ascii_lower_char c \<and> like_matches qs cs
         | _ \<Rightarrow> False)
      else (case s of c # cs \<Rightarrow> (p = CHR ''_'' \<or> ascii_lower_char p = ascii_lower_char c) \<and> like_matches ps cs
            | [] \<Rightarrow> False))"










lemma merge_root_ne: "merge_root roots r \<noteq> []"
  by (cases roots) auto

lemma resolve_loop_ne: "resolve_loop fs roots cs = Inr roots' \<Longrightarrow> roots' = [] \<longleftrightarrow> roots = [] \<and> cs = []"
  by (induction fs roots cs rule: resolve_loop.induct) (auto simp: merge_root_ne split: sum.splits)


lemma resolve_paths:
  "resolve_loop fs [] cs = Inr roots \<Longrightarrow> root \<in> match_set roots \<longleftrightarrow> (\<exists>c \<in> set cs. root \<in> candidate_paths fs c)"
  using resolve_loop_match [of fs "[]" cs roots] by (simp add: match_set_def)





section \<open>Properties\<close>

text \<open>A file system with one directory and a link to it.\<close>

definition sample_fs :: file_system where
  "sample_fs =
     \<lparr>fs_canonicalize = (\<lambda>ns. if ns = [] then Inr [slash]
        else if ns = [''link''] \<or> ns = [''srv'', ''Client''] then Inr ''/srv/Client'' else Inl NotFound),
      fs_is_dir = (\<lambda>p. True)\<rparr>"

definition sample_config :: scope_config where
  "sample_config = \<lparr>sc_allowed_roots = True, sc_roots = [''/link'', ''/srv/./Client/''], sc_include_invocation = False\<rparr>"

definition sample_inputs :: trusted_inputs where
  "sample_inputs = \<lparr>ti_harness_roots = [], ti_invocation = None\<rparr>"

definition sample_root :: access_root where
  "sample_root = \<lparr>ar_canonical_path = [''srv'', ''Client''], ar_match_paths = [[''srv'', ''Client''], [''link'']],
     ar_sources = [\<lparr>as_configured_path = [''link''], as_canonicalized = True, as_origin = ExplicitConfig\<rparr>,
       \<lparr>as_configured_path = [''srv'', ''Client''], as_canonicalized = True, as_origin = ExplicitConfig\<rparr>]\<rparr>"

lemma sample_resolves: "resolve_scope sample_fs sample_config sample_inputs = Inr (AllowedRoots [sample_root])"
  by code_simp

text \<open>
  C25: a resolved restriction grants exactly what it names. It has at least one root, one for each
  directory, and allows a path precisely when its lexically absolute form is at or below one of
  the candidates, as spelled or as the file system resolved it; a path that is relative or climbs
  above the root is refused.
\<close>

theorem resolved_scope_exact:
  assumes "resolve_scope fs config inputs = Inr (AllowedRoots roots)"
  shows "roots \<noteq> [] \<and> distinct (map ar_canonical_path roots) \<and>
    (allows_workspace_path (AllowedRoots roots) p \<longleftrightarrow>
      (\<exists>ns. lexical_absolute p = Inr ns \<and>
        (\<exists>c \<in> set (candidates_of config inputs). \<exists>root \<in> candidate_paths fs c. prefix root ns)))"
proof -
  have loop: "resolve_loop fs [] (candidates_of config inputs) = Inr roots" "roots \<noteq> []"
    using assms by (simp_all add: resolve_scope_roots)
  then show ?thesis
    using resolve_loop_distinct [OF loop(1)] resolve_paths [OF loop(1)] unfolding allows_iff
    by (intro conjI) (simp, simp, metis)
qed

theorem resolved_scope_exact_witness:
  "distinct (map ar_canonical_path [sample_root])"
  by (rule resolved_scope_exact [OF sample_resolves, THEN conjunct2, THEN conjunct1])

text \<open>
  The stability check every read repeats is enough. If it passes on the file system as it is
  now, resolving the same configuration again would succeed and would allow exactly the same
  paths: a root that was replaced, redirected, or created elsewhere never widens the access.
\<close>

theorem stable_scope_resolves_the_same:
  assumes "resolve_scope fs config inputs = Inr (AllowedRoots roots)"
    "validate_stable fs' (AllowedRoots roots) = Inr ()"
  shows "\<exists>roots'. resolve_scope fs' config inputs = Inr (AllowedRoots roots') \<and>
    (\<forall>p. allows_workspace_path (AllowedRoots roots') p = allows_workspace_path (AllowedRoots roots) p)"
proof -
  let ?cs = "candidates_of config inputs"
  have loop: "resolve_loop fs [] ?cs = Inr roots" "roots \<noteq> []" "sc_allowed_roots config"
    using assms(1) by (simp_all add: resolve_scope_roots)
  have same: "candidate_paths fs' c = candidate_paths fs c \<and>
      is_ok (normalize_authority_root fs' (fst c) (snd c))" if c: "c \<in> set ?cs" for c
  proof -
    obtain d src where "(d, src) \<in> source_set roots" "candidate_source fs c (d, src)"
      using resolve_loop_sources [OF loop(1) c] by auto
    moreover from this(1) have "is_ok (check_source fs' d src)" using assms(2) stable_iff by auto
    ultimately show ?thesis using stable_candidate [of fs "fst c" "snd c" d src fs'] by simp
  qed
  then have "is_ok (resolve_loop fs' [] ?cs)" by (intro resolve_loop_total) force
  then obtain roots' where roots': "resolve_loop fs' [] ?cs = Inr roots'"
    by (cases "resolve_loop fs' [] ?cs") auto
  moreover have "roots' \<noteq> []" using resolve_loop_ne loop roots' by blast
  moreover have "match_set roots' = match_set roots"
    using resolve_loop_match [OF loop(1)] resolve_loop_match [OF roots'] same by (simp add: match_set_def)
  ultimately show ?thesis using loop(3) by (auto simp: resolve_scope_roots allows_iff)
qed

theorem stable_scope_resolves_the_same_witness:
  "\<exists>roots'. resolve_scope sample_fs sample_config sample_inputs = Inr (AllowedRoots roots') \<and>
    (\<forall>p. allows_workspace_path (AllowedRoots roots') p = allows_workspace_path (AllowedRoots [sample_root]) p)"
  by (rule stable_scope_resolves_the_same [OF sample_resolves]) code_simp





text \<open>
  The SQL condition admits rows the containment test of the same scope refuses: \<open>LIKE\<close> ignores
  the case of ASCII letters, so with the root \<open>/srv/Client\<close> a session of the different directory
  \<open>/srv/client/secret\<close> is readable, and it does not resolve \<open>..\<close>, so one recorded under
  \<open>/srv/Client/../other\<close> is too.
\<close>

theorem condition_admits_refused_paths:
  "resolve_scope sample_fs sample_config sample_inputs = Inr (AllowedRoots [sample_root]) \<and>
   scope_admits like_matches (AllowedRoots [sample_root]) \<lparr>sp_cwd = Some ''/srv/client/secret'', sp_repo_root = None\<rparr> \<and>
   \<not> allows_workspace_path (AllowedRoots [sample_root]) ''/srv/client/secret'' \<and>
   scope_admits like_matches (AllowedRoots [sample_root]) \<lparr>sp_cwd = Some ''/srv/Client/../other'', sp_repo_root = None\<rparr> \<and>
   \<not> allows_workspace_path (AllowedRoots [sample_root]) ''/srv/Client/../other''"
  by code_simp

end
