(* ===== verification/DurableFs.thy ===== *)
theory DurableFs
  imports SearchScope "HOL-Library.Word"
begin

text \<open>
  Durable publication, \<open>durable_fs.rs\<close>: a file or a directory is staged beside its destination and
  published by one rename.

  The file system is a map from absolute paths to entries. Before each system call other processes
  may change it, and each call may fail; both are read from a list of turns, so a theorem over all
  lists of turns covers every interleaving and every pattern of failures. A world logs the pair of
  file systems before and after each call of the program itself. Directories on the way to an entry
  are not symbolic links, and the staging name is unknown to other processes.
\<close>

section \<open>The file system\<close>

datatype io_kind = KNotFound | KAlreadyExists | KOther

datatype node = RegularFile nat string | DirNode | LinkNode names | SpecialNode

type_synonym fs = "names \<rightharpoonup> node"

text \<open>
  A failing call reports a kind; a write may have written a part, a recursive call may have dealt
  with some of its entries.
\<close>

record fault =
  ft_kind :: io_kind
  ft_done :: nat
  ft_gone :: "names \<Rightarrow> bool"

datatype turn = Turn (others: "fs \<Rightarrow> fs") (failure: "fault option")

record world =
  w_fs :: fs
  w_turns :: "turn list"
  w_log :: "(fs \<times> fs) list"
  w_seq :: "64 word"

definition this_turn :: "world \<Rightarrow> turn" where
  "this_turn w = (case w_turns w of [] \<Rightarrow> Turn (\<lambda>s. s) None | t # _ \<Rightarrow> t)"

definition act_on :: "(fs \<Rightarrow> (io_kind + 'a) \<times> fs) \<Rightarrow> (fault \<Rightarrow> fs \<Rightarrow> fs) \<Rightarrow> fault option \<Rightarrow> fs \<Rightarrow> (io_kind + 'a) \<times> fs" where
  "act_on act partial f s = (case f of None \<Rightarrow> act s | Some f \<Rightarrow> (Inl (ft_kind f), partial f s))"

definition syscall ::
    "(fs \<Rightarrow> (io_kind + 'a) \<times> fs) \<Rightarrow> (fault \<Rightarrow> fs \<Rightarrow> fs) \<Rightarrow> world \<Rightarrow> (io_kind + 'a) \<times> world" where
  "syscall act partial w =
     (let s = others (this_turn w) (w_fs w); o1 = act_on act partial (failure (this_turn w)) s
      in (fst o1, w\<lparr>w_fs := snd o1, w_turns := tl (w_turns w), w_log := w_log w @ [(s, snd o1)]\<rparr>))"

definition untouched :: "fault \<Rightarrow> fs \<Rightarrow> fs" where "untouched f s = s"

definition dir_at :: "fs \<Rightarrow> names \<Rightarrow> bool" where
  "dir_at s p \<longleftrightarrow> p = [] \<or> s p = Some DirNode"

definition ancestors :: "names \<Rightarrow> names list" where
  "ancestors p = map (\<lambda>k. take k p) [1..<Suc (length p)]"

text \<open>\<open>symlink_metadata\<close>\<close>

definition stat_call :: "names \<Rightarrow> world \<Rightarrow> (io_kind + node) \<times> world" where
  "stat_call p = syscall (\<lambda>s. (ok_or KNotFound (if p = [] then Some DirNode else s p), s)) untouched"

definition make_dirs :: "names \<Rightarrow> nat \<Rightarrow> fs \<Rightarrow> fs" where
  "make_dirs p n s = (\<lambda>q. if s q = None \<and> prefix q p \<and> q \<noteq> [] \<and> length q \<le> n then Some DirNode else s q)"

definition mkdir_all_call :: "names \<Rightarrow> world \<Rightarrow> (io_kind + unit) \<times> world" where
  "mkdir_all_call p = syscall
     (\<lambda>s. if list_all (\<lambda>q. s q = None \<or> s q = Some DirNode) (ancestors p)
          then (Inr (), make_dirs p (length p) s) else (Inl KOther, s))
     (\<lambda>f s. make_dirs p (min (ft_done f) (length (takeWhile (\<lambda>q. s q = None \<or> s q = Some DirNode) (ancestors p)))) s)"

definition mkdir_call :: "names \<Rightarrow> world \<Rightarrow> (io_kind + unit) \<times> world" where
  "mkdir_call p = syscall
     (\<lambda>s. if p = [] \<or> s p \<noteq> None then (Inl KAlreadyExists, s)
          else if \<not> dir_at s (butlast p) then (Inl KNotFound, s) else (Inr (), s(p \<mapsto> DirNode)))
     untouched"

text \<open>\<open>open\<close> with \<open>create_new\<close>\<close>

definition create_call :: "names \<Rightarrow> nat \<Rightarrow> world \<Rightarrow> (io_kind + unit) \<times> world" where
  "create_call p perms = syscall
     (\<lambda>s. if p = [] \<or> s p \<noteq> None then (Inl KAlreadyExists, s)
          else if \<not> dir_at s (butlast p) then (Inl KNotFound, s) else (Inr (), s(p \<mapsto> RegularFile perms [])))
     untouched"

definition chmod_call :: "names \<Rightarrow> nat \<Rightarrow> world \<Rightarrow> (io_kind + unit) \<times> world" where
  "chmod_call p perms = syscall
     (\<lambda>s. (Inr (), case s p of Some (RegularFile _ c) \<Rightarrow> s(p \<mapsto> RegularFile perms c) | _ \<Rightarrow> s)) untouched"

definition append_to :: "names \<Rightarrow> string \<Rightarrow> fs \<Rightarrow> fs" where
  "append_to p content s =
     (case s p of Some (RegularFile perms c) \<Rightarrow> s(p \<mapsto> RegularFile perms (c @ content)) | _ \<Rightarrow> s)"

definition write_call :: "names \<Rightarrow> string \<Rightarrow> world \<Rightarrow> (io_kind + unit) \<times> world" where
  "write_call p content = syscall
     (\<lambda>s. (Inr (), append_to p content s)) (\<lambda>f. append_to p (take (ft_done f) content))"

text \<open>\<open>sync_all\<close> on a file or a directory changes no entry.\<close>

definition fsync_call :: "world \<Rightarrow> (io_kind + unit) \<times> world" where
  "fsync_call = syscall (\<lambda>s. (Inr (), s)) untouched"

definition unlink_call :: "names \<Rightarrow> world \<Rightarrow> (io_kind + unit) \<times> world" where
  "unlink_call p = syscall
     (\<lambda>s. case s p of None \<Rightarrow> (Inl KNotFound, s) | Some DirNode \<Rightarrow> (Inl KOther, s) | Some _ \<Rightarrow> (Inr (), s(p := None)))
     untouched"

definition remove_all_call :: "names \<Rightarrow> world \<Rightarrow> (io_kind + unit) \<times> world" where
  "remove_all_call p = syscall
     (\<lambda>s. if s p = None then (Inl KNotFound, s) else (Inr (), \<lambda>q. if prefix p q then None else s q))
     (\<lambda>f s q. if prefix p q \<and> q \<noteq> p \<and> ft_gone f q then None else s q)"

definition rename_over :: "names \<Rightarrow> names \<Rightarrow> fs \<Rightarrow> (io_kind + unit) \<times> fs" where
  "rename_over src dst s =
     (case s src of
        None \<Rightarrow> (Inl KNotFound, s)
      | Some n \<Rightarrow>
          if dst = [] \<or> s dst = Some DirNode then (Inl KOther, s)
          else if \<not> dir_at s (butlast dst) then (Inl KNotFound, s)
          else (Inr (), (s(src := None))(dst \<mapsto> n)))"

text \<open>\<open>renameat2\<close> with \<open>RENAME_NOREPLACE\<close>: an entry moves with all that is below it.\<close>

definition move_tree :: "names \<Rightarrow> names \<Rightarrow> fs \<Rightarrow> fs" where
  "move_tree src dst s =
     (\<lambda>q. if prefix dst q then s (src @ drop (length dst) q) else if prefix src q then None else s q)"

definition has_nul :: "names \<Rightarrow> bool" where
  "has_nul p = list_ex (\<lambda>n. CHR 0x00 \<in> set n) p"

definition rename_exclusive :: "names \<Rightarrow> names \<Rightarrow> fs \<Rightarrow> (io_kind + unit) \<times> fs" where
  "rename_exclusive src dst s =
     (if s src = None then (Inl KNotFound, s)
      else if dst = [] \<or> s dst \<noteq> None then (Inl KAlreadyExists, s)
      else if \<not> dir_at s (butlast dst) then (Inl KNotFound, s)
      else if prefix src dst then (Inl KOther, s)
      else (Inr (), if s src = Some DirNode then move_tree src dst s else s(src := None, dst := s src)))"

definition rename_noreplace :: "names \<Rightarrow> names \<Rightarrow> world \<Rightarrow> (io_kind + unit) \<times> world" where
  "rename_noreplace src dst w =
     (if has_nul src \<or> has_nul dst then (Inl KOther, w)
      else syscall (rename_exclusive src dst) untouched w)"

definition rename_replace :: "names \<Rightarrow> names \<Rightarrow> world \<Rightarrow> (io_kind + unit) \<times> world" where
  "rename_replace src dst = syscall (rename_over src dst) untouched"

section \<open>Paths\<close>

text \<open>The process: its identifier, working directory and clock, before the epoch \<open>None\<close>.\<close>

record process =
  pr_pid :: nat
  pr_cwd :: names
  pr_nonce :: "nat option"

fun locate :: "names \<Rightarrow> component list \<Rightarrow> names" where
  "locate ns [] = ns"
| "locate ns (RootDir # cs) = locate [] cs"
| "locate ns (Normal n # cs) = locate (ns @ [n]) cs"
| "locate ns (CurDir # cs) = locate ns cs"
| "locate ns (ParentDir # cs) = locate (butlast ns) cs"

definition file_parent :: "component list \<Rightarrow> component list" where
  "file_parent p =
     (case path_parent p of Some q \<Rightarrow> if q = [] then [CurDir] else q | None \<Rightarrow> [CurDir])"

text \<open>\<open>to_string_lossy\<close>: each maximal invalid part becomes U+FFFD.\<close>

definition second_ok :: "nat \<Rightarrow> nat \<Rightarrow> bool" where
  "second_ok b c \<longleftrightarrow> continuation c \<and> (b \<noteq> 0xE0 \<or> 0xA0 \<le> c) \<and> (b \<noteq> 0xED \<or> c \<le> 0x9F) \<and>
     (b \<noteq> 0xF0 \<or> 0x90 \<le> c) \<and> (b \<noteq> 0xF4 \<or> c \<le> 0x8F)"

definition bad_length :: "nat \<Rightarrow> nat list \<Rightarrow> nat" where
  "bad_length b bs =
     (if 0xE0 \<le> b \<and> b \<le> 0xEF then (case bs of c # _ \<Rightarrow> if second_ok b c then 1 else 0 | [] \<Rightarrow> 0)
      else if 0xF0 \<le> b \<and> b \<le> 0xF4 then
        (case bs of
           c # d # _ \<Rightarrow> if second_ok b c then (if continuation d then 2 else 1) else 0
         | [c] \<Rightarrow> if second_ok b c then 1 else 0
         | [] \<Rightarrow> 0)
      else 0)"

function lossy :: "string \<Rightarrow> string" where
  "lossy [] = []"
| "lossy (b # bs) =
     (case sequence_length (of_char b) (map of_char bs) of
        Some k \<Rightarrow> b # take k bs @ lossy (drop k bs)
      | None \<Rightarrow> [CHR 0xEF, CHR 0xBF, CHR 0xBD] @ lossy (drop (bad_length (of_char b) (map of_char bs)) bs))"
  by pat_completeness auto
termination by (relation "measure length") auto

declare lossy.simps [simp del]

section \<open>Staged files\<close>

datatype durable_error =
    IoFailed io_kind
  | SymlinkDestination
  | NotRegularDestination
  | DestinationExists
  | NoFileName
  | ClockBeforeEpoch
  | BadStagingLabel
  | EmptyEntryName
  | EntryNameNotNormal

datatype write_mode = CreateNew | Replace

definition io_bind ::
    "(world \<Rightarrow> ('e + 'a) \<times> world) \<Rightarrow> ('a \<Rightarrow> world \<Rightarrow> ('e + 'b) \<times> world) \<Rightarrow>
     world \<Rightarrow> ('e + 'b) \<times> world" where
  "io_bind m k w = (case m w of (Inl e, w') \<Rightarrow> (Inl e, w') | (Inr x, w') \<Rightarrow> k x w')"

definition io :: "(world \<Rightarrow> (io_kind + 'a) \<times> world) \<Rightarrow> world \<Rightarrow> (durable_error + 'a) \<times> world" where
  "io m w = (case m w of (Inl k, w') \<Rightarrow> (Inl (IoFailed k), w') | (Inr x, w') \<Rightarrow> (Inr x, w'))"

definition entry_exists :: "names \<Rightarrow> world \<Rightarrow> (io_kind + bool) \<times> world" where
  "entry_exists p w =
     (case stat_call p w of
        (Inr _, w') \<Rightarrow> (Inr True, w')
      | (Inl k, w') \<Rightarrow> (if k = KNotFound then Inr False else Inl k, w'))"

definition sync_directory :: "names \<Rightarrow> world \<Rightarrow> (io_kind + unit) \<times> world" where
  "sync_directory p = fsync_call"

definition sync_parent :: "process \<Rightarrow> component list \<Rightarrow> world \<Rightarrow> (io_kind + unit) \<times> world" where
  "sync_parent pr p = sync_directory (locate (pr_cwd pr) (file_parent p))"

record staged_file =
  sf_path :: names
  sf_published :: bool

definition drop_staged_file :: "staged_file \<Rightarrow> world \<Rightarrow> world" where
  "drop_staged_file sf w = (if \<not> sf_published sf then snd (unlink_call (sf_path sf) w) else w)"

definition publish_with ::
    "(names \<Rightarrow> names \<Rightarrow> world \<Rightarrow> (io_kind + unit) \<times> world) \<Rightarrow> process \<Rightarrow> staged_file \<Rightarrow>
     component list \<Rightarrow> world \<Rightarrow> (durable_error + unit) \<times> world" where
  "publish_with rename pr sf destination w =
     (case rename (sf_path sf) (locate (pr_cwd pr) destination) w of
        (Inl k, w') \<Rightarrow> (Inl (IoFailed k), drop_staged_file sf w')
      | (Inr _, w') \<Rightarrow>
          let published = sf\<lparr>sf_published := True\<rparr>
          in case io (sync_parent pr destination) w' of (r, w'') \<Rightarrow> (r, drop_staged_file published w''))"

definition publish_new :: "process \<Rightarrow> staged_file \<Rightarrow> component list \<Rightarrow> world \<Rightarrow> (durable_error + unit) \<times> world" where
  "publish_new = publish_with rename_noreplace"

definition publish_replace :: "process \<Rightarrow> staged_file \<Rightarrow> component list \<Rightarrow> world \<Rightarrow> (durable_error + unit) \<times> world" where
  "publish_replace = publish_with rename_replace"

definition existing_permissions :: "write_mode \<Rightarrow> io_kind + node \<Rightarrow> durable_error + nat option" where
  "existing_permissions mode meta =
     (case meta of
        Inr (LinkNode _) \<Rightarrow> Inl SymlinkDestination
      | Inr (RegularFile perms _) \<Rightarrow> if mode = CreateNew then Inl DestinationExists else Inr (Some perms)
      | Inr _ \<Rightarrow> Inl NotRegularDestination
      | Inl k \<Rightarrow> if k = KNotFound then Inr None else Inl (IoFailed k))"

definition staging_name :: "process \<Rightarrow> string \<Rightarrow> nat \<Rightarrow> 64 word \<Rightarrow> string" where
  "staging_name pr name nonce seq =
     ''.'' @ lossy name @ ''.ai-session-search-stage-'' @ decimal (pr_pid pr) @ ''-'' @ decimal nonce @
       ''-'' @ decimal (unat seq)"

definition staging_location :: "process \<Rightarrow> component list \<Rightarrow> nat \<Rightarrow> 64 word \<Rightarrow> names" where
  "staging_location pr destination nonce seq =
     locate (pr_cwd pr) (file_parent destination @
       [Normal (staging_name pr (case path_file_name destination of Some n \<Rightarrow> n | None \<Rightarrow> []) nonce seq)])"

definition owner_only :: nat where "owner_only = 384"

definition fill_staging :: "names \<Rightarrow> nat option \<Rightarrow> string \<Rightarrow> world \<Rightarrow> (durable_error + unit) \<times> world" where
  "fill_staging p perms content =
     io_bind (io (create_call p owner_only)) (\<lambda>_.
     io_bind (case perms of Some m \<Rightarrow> io (chmod_call p m) | None \<Rightarrow> Pair (Inr ())) (\<lambda>_.
     io_bind (io (write_call p content)) (\<lambda>_. io fsync_call)))"

definition stage_and_publish ::
    "process \<Rightarrow> component list \<Rightarrow> string \<Rightarrow> write_mode \<Rightarrow> nat option \<Rightarrow> names \<Rightarrow> world \<Rightarrow> (durable_error + unit) \<times> world" where
  "stage_and_publish pr destination content mode perms p w =
     (let staging = \<lparr>sf_path = p, sf_published = False\<rparr>
      in case fill_staging p perms content w of
           (Inl e, w') \<Rightarrow> (Inl e, drop_staged_file staging w')
         | (Inr _, w') \<Rightarrow>
             if mode = Replace \<and> perms \<noteq> None then publish_replace pr staging destination w'
             else publish_new pr staging destination w')"

definition choose_staging ::
    "process \<Rightarrow> component list \<Rightarrow> string \<Rightarrow> write_mode \<Rightarrow> nat option \<Rightarrow> world \<Rightarrow> (durable_error + unit) \<times> world" where
  "choose_staging pr destination content mode perms w =
     (if path_file_name destination = None \<or> path_file_name destination = Some [] then (Inl NoFileName, w)
      else let w' = w\<lparr>w_seq := w_seq w + 1\<rparr>
        in case pr_nonce pr of
             None \<Rightarrow> (Inl ClockBeforeEpoch, w')
           | Some nonce \<Rightarrow>
               stage_and_publish pr destination content mode perms
                 (staging_location pr destination nonce (w_seq w)) w')"

definition atomic_write_file ::
    "process \<Rightarrow> component list \<Rightarrow> string \<Rightarrow> write_mode \<Rightarrow> world \<Rightarrow> (durable_error + unit) \<times> world" where
  "atomic_write_file pr destination content mode =
     io_bind (io (mkdir_all_call (locate (pr_cwd pr) (file_parent destination)))) (\<lambda>_ w.
       case stat_call (locate (pr_cwd pr) destination) w of (meta, w') \<Rightarrow>
         (case existing_permissions mode meta of
            Inl e \<Rightarrow> (Inl e, w')
          | Inr perms \<Rightarrow> choose_staging pr destination content mode perms w'))"


section \<open>Calls and their steps\<close>

definition rely :: "names \<Rightarrow> world \<Rightarrow> bool" where
  "rely p w \<longleftrightarrow> (\<forall>t \<in> set (w_turns w). \<forall>s. others t s p = s p)"

definition guarantees :: "(fs \<Rightarrow> fs \<Rightarrow> bool) \<Rightarrow> world \<Rightarrow> world \<Rightarrow> bool" where
  "guarantees G w w' \<longleftrightarrow> (\<exists>new. w_log w' = w_log w @ new \<and> (\<forall>(s, s') \<in> set new. G s s'))"

lemma guarantees_refl [simp, intro]: "guarantees G w w"
  by (auto simp: guarantees_def)

lemma guarantees_trans [trans]: "guarantees G w w' \<Longrightarrow> guarantees G w' w'' \<Longrightarrow> guarantees G w w''"
  by (force simp: guarantees_def)

lemma guarantees_seq [simp]: "guarantees G (w\<lparr>w_seq := k\<rparr>) w' = guarantees G w w'"
  "guarantees G w (w'\<lparr>w_seq := k\<rparr>) = guarantees G w w'"
  by (simp_all add: guarantees_def)

lemma rely_seq [simp]: "rely p (w\<lparr>w_seq := k\<rparr>) = rely p w"
  by (simp add: rely_def)

lemma this_turn_relied: "rely p w \<Longrightarrow> others (this_turn w) s p = s p"
  by (auto simp: rely_def this_turn_def split: list.splits)

lemma syscall_turns [simp]: "w_turns (snd (syscall act partial w)) = tl (w_turns w)"
  by (simp add: syscall_def Let_def)

lemma syscall_step:
  obtains s f where "s = others (this_turn w) (w_fs w)"
    "w_log (snd (syscall act partial w)) = w_log w @ [(s, w_fs (snd (syscall act partial w)))]"
    "fst (syscall act partial w) = fst (act_on act partial f s)"
    "w_fs (snd (syscall act partial w)) = snd (act_on act partial f s)"
  by (rule that [of "others (this_turn w) (w_fs w)" "failure (this_turn w)"])
    (simp_all add: syscall_def Let_def)

lemma syscall_rely: "rely p w \<Longrightarrow> rely p (snd (syscall act partial w))"
  by (auto simp: rely_def dest: list.set_sel(2) split: list.splits) (metis list.sel(2) list.set_sel(2))

text \<open>A call keeps a guarantee that both its complete and its partial effect have.\<close>

lemma syscall_guarantees:
  assumes "\<And>s r s'. act s = (r, s') \<Longrightarrow> (rely p w \<Longrightarrow> s p = w_fs w p) \<Longrightarrow> G s s'"
    and "\<And>f s. (rely p w \<Longrightarrow> s p = w_fs w p) \<Longrightarrow> G s (partial f s)"
  shows "guarantees G w (snd (syscall act partial w))"
proof -
  obtain s f where step: "s = others (this_turn w) (w_fs w)"
    "w_log (snd (syscall act partial w)) = w_log w @ [(s, w_fs (snd (syscall act partial w)))]"
    "w_fs (snd (syscall act partial w)) = snd (act_on act partial f s)"
    by (rule syscall_step)
  have at: "rely p w \<Longrightarrow> s p = w_fs w p" using step(1) this_turn_relied by simp
  have "G s (snd (act_on act partial f s))"
    using assms(1) [of s "fst (act s)" "snd (act s)"] assms(2) [of s] at
    by (cases f) (auto simp: act_on_def)
  then show ?thesis using step by (auto simp: guarantees_def)
qed

lemma syscall_at:
  assumes "rely p w" "syscall act partial w = (r, w')"
  obtains s f where "s p = w_fs w p" "r = fst (act_on act partial f s)" "w_fs w' = snd (act_on act partial f s)"
    "w_log w' = w_log w @ [(s, w_fs w')]" "rely p w'"
proof -
  obtain s f where step: "s = others (this_turn w) (w_fs w)"
    "w_log (snd (syscall act partial w)) = w_log w @ [(s, w_fs (snd (syscall act partial w)))]"
    "fst (syscall act partial w) = fst (act_on act partial f s)"
    "w_fs (snd (syscall act partial w)) = snd (act_on act partial f s)"
    by (rule syscall_step)
  show ?thesis
    by (rule that [of s f])
      (use step assms this_turn_relied [OF assms(1)] syscall_rely [OF assms(1), of act partial] in auto)
qed

section \<open>Writing one file\<close>

definition only_at :: "names \<Rightarrow> fs \<Rightarrow> fs \<Rightarrow> bool" where
  "only_at p s s' \<longleftrightarrow> (\<forall>q. q \<noteq> p \<longrightarrow> s' q = s q)"

definition writes_into :: "names \<Rightarrow> (world \<Rightarrow> (io_kind + 'a) \<times> world) \<Rightarrow> (node option \<Rightarrow> node option) \<Rightarrow> bool" where
  "writes_into p call f \<longleftrightarrow> (\<forall>w r w'. rely p w \<longrightarrow> call w = (r, w') \<longrightarrow>
     guarantees (only_at p) w w' \<and> rely p w' \<and> (\<forall>x. r = Inr x \<longrightarrow> w_fs w' p = f (w_fs w p)))"

lemma syscall_writes_into:
  assumes "\<And>s. only_at p s (snd (act s))" "\<And>f s. only_at p s (partial f s)"
    and "\<And>s x s'. act s = (Inr x, s') \<Longrightarrow> s' p = g (s p)"
  shows "writes_into p (syscall act partial) g"
  unfolding writes_into_def
proof (intro allI impI)
  fix w r w' assume w: "rely p w" "syscall act partial w = (r, w')"
  have "guarantees (only_at p) w w'"
    using syscall_guarantees [of act p w "only_at p" partial] assms(1,2) w(2) by (metis snd_conv)
  moreover obtain s f where "s p = w_fs w p" "r = fst (act_on act partial f s)"
      "w_fs w' = snd (act_on act partial f s)" "rely p w'"
    using syscall_at [OF w] by metis
  moreover from this assms(3) [of s] have "\<forall>x. r = Inr x \<longrightarrow> w_fs w' p = g (w_fs w p)"
    by (cases f; cases "act s") (auto simp: act_on_def)
  ultimately show "guarantees (only_at p) w w' \<and> rely p w' \<and> (\<forall>x. r = Inr x \<longrightarrow> w_fs w' p = g (w_fs w p))"
    by simp
qed

lemma only_at_self [simp]: "only_at p s s" "only_at p s (s(p := x))"
  by (simp_all add: only_at_def)

lemma create_writes: "writes_into p (create_call p m) (\<lambda>_. Some (RegularFile m []))"
  unfolding create_call_def by (rule syscall_writes_into) (auto simp: untouched_def split: if_splits)

lemma chmod_writes: "writes_into p (chmod_call p m)
    (\<lambda>n. case n of Some (RegularFile _ c) \<Rightarrow> Some (RegularFile m c) | n \<Rightarrow> n)"
  unfolding chmod_call_def
  by (rule syscall_writes_into) (auto simp: untouched_def split: option.splits node.splits)

lemma append_only_at: "only_at p s (append_to p c s)"
  by (simp add: append_to_def split: option.split node.split)

lemma write_writes: "writes_into p (write_call p content)
    (\<lambda>n. case n of Some (RegularFile m c) \<Rightarrow> Some (RegularFile m (c @ content)) | n \<Rightarrow> n)"
  unfolding write_call_def
  by (rule syscall_writes_into) (auto simp: append_only_at append_to_def split: option.splits node.splits)

lemma fsync_writes: "writes_into p fsync_call (\<lambda>n. n)"
  unfolding fsync_call_def by (rule syscall_writes_into) (auto simp: untouched_def)

lemma unlink_writes: "writes_into p (unlink_call p) (\<lambda>_. None)"
  unfolding unlink_call_def
  by (rule syscall_writes_into) (auto simp: untouched_def split: option.splits node.splits)

text \<open>Sequences of calls on one path.\<close>

definition io_writes :: "names \<Rightarrow> (world \<Rightarrow> (durable_error + 'a) \<times> world) \<Rightarrow> (node option \<Rightarrow> node option) \<Rightarrow> bool" where
  "io_writes p m f \<longleftrightarrow> (\<forall>w r w'. rely p w \<longrightarrow> m w = (r, w') \<longrightarrow>
     guarantees (only_at p) w w' \<and> rely p w' \<and> (\<forall>x. r = Inr x \<longrightarrow> w_fs w' p = f (w_fs w p)))"

lemma io_writes_call: "writes_into p call f \<Longrightarrow> io_writes p (io call) f"
  unfolding writes_into_def io_writes_def io_def by (fastforce split: prod.splits sum.splits)

lemma io_writes_bind:
  assumes "io_writes p m f" "\<And>x. io_writes p (k x) g"
  shows "io_writes p (io_bind m k) (g \<circ> f)"
  unfolding io_writes_def
proof (intro allI impI)
  fix w r w' assume w: "rely p w" "io_bind m k w = (r, w')"
  obtain r1 w1 where m: "m w = (r1, w1)" by force
  note m' = assms(1) [unfolded io_writes_def, rule_format, OF w(1) m]
  show "guarantees (only_at p) w w' \<and> rely p w' \<and> (\<forall>x. r = Inr x \<longrightarrow> w_fs w' p = (g \<circ> f) (w_fs w p))"
  proof (cases r1)
    case (Inl e)
    then show ?thesis using m m' w(2) by (auto simp: io_bind_def)
  next
    case (Inr x)
    then have "k x w1 = (r, w')" using m w(2) by (simp add: io_bind_def)
    with assms(2) [unfolded io_writes_def, rule_format, of w1 x r w'] m' Inr show ?thesis
      using guarantees_trans by fastforce
  qed
qed

lemma io_writes_cong: "io_writes p m f \<Longrightarrow> (\<And>n. f n = g n) \<Longrightarrow> io_writes p m g"
  by (simp add: io_writes_def)

lemma fill_staging_writes:
  "io_writes p (fill_staging p perms content)
     (\<lambda>_. Some (RegularFile (case perms of Some m \<Rightarrow> m | None \<Rightarrow> owner_only) content))"
proof -
  have perm: "io_writes p (case perms of Some m \<Rightarrow> io (chmod_call p m) | None \<Rightarrow> Pair (Inr ()))
      (case perms of Some m \<Rightarrow> (\<lambda>n. case n of Some (RegularFile _ c) \<Rightarrow> Some (RegularFile m c) | n \<Rightarrow> n) | None \<Rightarrow> (\<lambda>n. n))"
    by (cases perms) (simp_all add: io_writes_call [OF chmod_writes], simp add: io_writes_def)
  note calls = io_writes_bind [OF io_writes_call [OF create_writes]
    io_writes_bind [OF perm io_writes_bind [OF io_writes_call [OF write_writes] io_writes_call [OF fsync_writes]]]]
  show ?thesis
    unfolding fill_staging_def
    by (rule io_writes_cong [OF calls]) (auto split: option.split)
qed

section \<open>Where the staging file lies\<close>

lemma locate_append: "locate ns (a @ b) = locate (locate ns a) b"
  by (induction ns a rule: locate.induct) auto

lemma named_destination:
  assumes "path_file_name d = Some n"
  shows "locate cwd d = locate cwd (file_parent d) @ [n]"
proof -
  from assms obtain q where d: "d = q @ [Normal n]"
    by (auto simp: path_file_name_def split: list.splits component.splits)
  then show ?thesis
    by (auto simp: file_parent_def path_parent_def locate_append)
qed

lemma sequence_length_le: "sequence_length b bs = Some k \<Longrightarrow> k \<le> length bs"
  by (auto simp: sequence_length_def split: if_splits list.splits)

lemma bad_length_le: "bad_length b bs \<le> 2"
  by (auto simp: bad_length_def split: list.split)

lemma lossy_length: "length s \<le> length (lossy s)"
proof (induction s rule: lossy.induct)
  case (2 b bs)
  show ?case
  proof (cases "sequence_length (of_char b) (map of_char bs :: nat list)")
    case None
    then show ?thesis
      using 2(1) [OF None] bad_length_le [of "of_char b" "map of_char bs"] by (simp add: lossy.simps)
  next
    case (Some k)
    then show ?thesis using 2(2) [OF Some] sequence_length_le [OF Some] by (simp add: lossy.simps)
  qed
qed simp

lemma staging_name_new: "staging_name pr n t k \<noteq> n"
proof -
  have "length n < length (staging_name pr n t k)"
    using lossy_length [of n] by (simp add: staging_name_def)
  then show ?thesis by force
qed

lemma staging_location_eq:
  "path_file_name d = Some n \<Longrightarrow>
    staging_location pr d t k = locate (pr_cwd pr) (file_parent d) @ [staging_name pr n t k]"
  by (simp add: staging_location_def locate_append)

section \<open>Publication\<close>

text \<open>
  What one call may do while a file is written to \<open>d\<close> through \<open>p\<close>: create a missing directory above
  \<open>d\<close>, change the staging entry, or move the complete staged file onto \<open>d\<close>, onto an existing entry
  only in mode \<open>Replace\<close>.
\<close>

definition publishes :: "names \<Rightarrow> names \<Rightarrow> string \<Rightarrow> write_mode \<Rightarrow> fs \<Rightarrow> fs \<Rightarrow> bool" where
  "publishes d p content mode s s' \<longleftrightarrow>
     (\<exists>m. s p = Some (RegularFile m content)) \<and> s' d = s p \<and> s' p = None \<and>
     (s d = None \<or> mode = Replace \<and> s d \<noteq> Some DirNode)"

definition write_step :: "names \<Rightarrow> names \<Rightarrow> string \<Rightarrow> write_mode \<Rightarrow> fs \<Rightarrow> fs \<Rightarrow> bool" where
  "write_step d p content mode s s' \<longleftrightarrow>
     (\<forall>q. q \<noteq> p \<and> q \<noteq> d \<longrightarrow> s' q = s q \<or> s q = None \<and> s' q = Some DirNode \<and> strict_prefix q d) \<and>
     (s' d = s d \<or> publishes d p content mode s s')"

lemma guarantees_mono: "guarantees G w w' \<Longrightarrow> (\<And>s s'. G s s' \<Longrightarrow> H s s') \<Longrightarrow> guarantees H w w'"
  by (force simp: guarantees_def)

lemma only_at_write_step: "p \<noteq> d \<Longrightarrow> only_at p s s' \<Longrightarrow> write_step d p content mode s s'"
  by (simp add: only_at_def write_step_def)

lemma writes_steps:
  assumes "io_writes p m f" "p \<noteq> d" "rely p w" "m w = (r, w')"
  shows "guarantees (write_step d p content mode) w w'" "rely p w'" "r = Inr x \<Longrightarrow> w_fs w' p = f (w_fs w p)"
  using assms(1) [unfolded io_writes_def, rule_format, OF assms(3,4)] only_at_write_step [OF assms(2)]
  by (auto intro: guarantees_mono)

lemma drop_steps:
  assumes "p \<noteq> d" "rely p w" "sf_path sf = p"
  shows "guarantees (write_step d p content mode) w (drop_staged_file sf w)"
  using unlink_writes [unfolded writes_into_def, rule_format, OF assms(2) surjective_pairing]
    only_at_write_step [OF assms(1)] assms(3)
  by (auto simp: drop_staged_file_def intro: guarantees_mono)

lemma sync_parent_is_fsync: "sync_parent pr d = fsync_call"
  by (simp add: sync_parent_def sync_directory_def fun_eq_iff)

definition moves_file :: "names \<Rightarrow> names \<Rightarrow> bool \<Rightarrow> (names \<Rightarrow> names \<Rightarrow> world \<Rightarrow> (io_kind + unit) \<times> world) \<Rightarrow> bool" where
  "moves_file p d over rename \<longleftrightarrow> (\<forall>w r w' m content. rely p w \<longrightarrow> w_fs w p = Some (RegularFile m content) \<longrightarrow>
     rename p d w = (r, w') \<longrightarrow>
     rely p w' \<and> guarantees (write_step d p content (if over then Replace else CreateNew)) w w' \<and>
     (r = Inr () \<longrightarrow> (\<exists>s. w_log w' = w_log w @ [(s, w_fs w')] \<and>
        publishes d p content (if over then Replace else CreateNew) s (w_fs w'))))"

lemma syscall_moves_file:
  assumes "\<And>s m content r s'. s p = Some (RegularFile m content) \<Longrightarrow> act s = (r, s') \<Longrightarrow>
      write_step d p content (if over then Replace else CreateNew) s s' \<and>
      (r = Inr () \<longrightarrow> publishes d p content (if over then Replace else CreateNew) s s')"
    and "rely p w" "w_fs w p = Some (RegularFile m content)" "syscall act untouched w = (r, w')"
  shows "rely p w' \<and> guarantees (write_step d p content (if over then Replace else CreateNew)) w w' \<and>
     (r = Inr () \<longrightarrow> (\<exists>s. w_log w' = w_log w @ [(s, w_fs w')] \<and>
        publishes d p content (if over then Replace else CreateNew) s (w_fs w')))"
proof -
  obtain s f where at: "s p = w_fs w p" "r = fst (act_on act untouched f s)"
      "w_fs w' = snd (act_on act untouched f s)" "w_log w' = w_log w @ [(s, w_fs w')]" "rely p w'"
    using syscall_at [OF assms(2,4)] by metis
  have refl: "write_step d p content k s s" for k by (simp add: write_step_def)
  have "write_step d p content (if over then Replace else CreateNew) s (w_fs w') \<and>
      (r = Inr () \<longrightarrow> publishes d p content (if over then Replace else CreateNew) s (w_fs w'))"
    using assms(1) [of s m content "fst (act s)" "snd (act s)"] at assms(3) refl
    by (cases f) (auto simp: act_on_def untouched_def)
  then show ?thesis using at unfolding guarantees_def by auto
qed

lemma rename_over_moves: "p \<noteq> d \<Longrightarrow> moves_file p d True rename_replace"
  unfolding moves_file_def rename_replace_def
  by (intro allI impI, rule syscall_moves_file)
    (auto simp: rename_over_def write_step_def publishes_def split: if_splits)

lemma rename_exclusive_moves: "p \<noteq> d \<Longrightarrow> moves_file p d False rename_noreplace"
  unfolding moves_file_def
proof (intro allI impI)
  fix w r w' m content
  assume a: "p \<noteq> d" "rely p w" "w_fs w p = Some (RegularFile m content)" "rename_noreplace p d w = (r, w')"
  show "rely p w' \<and> guarantees (write_step d p content (if False then Replace else CreateNew)) w w' \<and>
     (r = Inr () \<longrightarrow> (\<exists>s. w_log w' = w_log w @ [(s, w_fs w')] \<and>
        publishes d p content (if False then Replace else CreateNew) s (w_fs w')))"
  proof (cases "has_nul p \<or> has_nul d")
    case True
    then show ?thesis using a by (auto simp: rename_noreplace_def)
  next
    case False
    then have call: "syscall (rename_exclusive p d) untouched w = (r, w')"
      using a(4) by (simp add: rename_noreplace_def)
    show ?thesis
      by (rule syscall_moves_file [where over = False, OF _ a(2,3) call])
        (use a(1) in \<open>auto simp: rename_exclusive_def write_step_def publishes_def split: if_splits\<close>)
  qed
qed

lemma write_step_refl: "write_step d p content mode s s"
  by (simp add: write_step_def)

lemma mkdirs_strict_prefix:
  assumes "p = butlast d" "d \<noteq> []"
  shows "guarantees (write_step d t content mode) w (snd (mkdir_all_call p w))"
proof -
  have below: "q \<noteq> d \<Longrightarrow> prefix q p \<Longrightarrow> strict_prefix q d" for q
    using assms by (metis append_butlast_last_id prefix_prefix strict_prefix_def prefixI)
  have dirs: "write_step d t content mode s (make_dirs p n s)" for n s
  proof -
    have "\<not> prefix d p" using assms by (cases d rule: rev_cases) (auto dest: prefix_length_le)
    then show ?thesis using below unfolding write_step_def make_dirs_def by auto
  qed
  show ?thesis
    unfolding mkdir_all_call_def
    by (rule syscall_guarantees) (auto simp: dirs write_step_refl split: if_splits)
qed

lemma stat_steps: "guarantees (write_step d p content mode) w (snd (stat_call q w))"
  unfolding stat_call_def by (rule syscall_guarantees) (auto simp: untouched_def write_step_def)

lemma call_rely:
  "rely p w \<Longrightarrow> rely p (snd (mkdir_all_call q w))" "rely p w \<Longrightarrow> rely p (snd (stat_call q w))"
  by (simp_all add: mkdir_all_call_def stat_call_def syscall_rely)

definition published_once :: "names \<Rightarrow> names \<Rightarrow> string \<Rightarrow> write_mode \<Rightarrow> world \<Rightarrow> world \<Rightarrow> bool" where
  "published_once d p content mode w w' \<longleftrightarrow>
     (\<exists>e \<in> set (drop (length (w_log w)) (w_log w')). publishes d p content mode (fst e) (snd e))"

lemma published_seq [simp]:
  "published_once d p content mode (w\<lparr>w_seq := k\<rparr>) w' = published_once d p content mode w w'"
  by (simp add: published_once_def)

lemma publish_steps:
  assumes "p \<noteq> d" "rely p w" "w_fs w p = Some (RegularFile m content)" "moves_file p d over rename"
    and "d = locate (pr_cwd pr) destination"
    and "publish_with rename pr \<lparr>sf_path = p, sf_published = False\<rparr> destination w = (r, w')"
  shows "guarantees (write_step d p content (if over then Replace else CreateNew)) w w'"
    and "r = Inr () \<Longrightarrow> published_once d p content (if over then Replace else CreateNew) w w'"
proof -
  let ?mode = "if over then Replace else CreateNew"
  let ?sf = "\<lparr>sf_path = p, sf_published = False\<rparr>"
  obtain k w1 where mv: "rename p d w = (k, w1)" by force
  note step = assms(4) [unfolded moves_file_def, rule_format, OF assms(2,3) mv]
  obtain k2 w2 where sy: "io (sync_parent pr destination) w1 = (k2, w2)" by force
  have sync: "guarantees (write_step d p content ?mode) w1 w2"
    using writes_steps(1) [OF io_writes_call [OF fsync_writes] assms(1), of w1 k2 w2] step sy
    by (simp add: sync_parent_is_fsync)
  have "guarantees (write_step d p content ?mode) w w' \<and> (r = Inr () \<longrightarrow> published_once d p content ?mode w w')"
  proof (cases k)
    case (Inl e)
    then have "w' = drop_staged_file ?sf w1" "r = Inl (IoFailed e)"
      using assms(5,6) mv by (simp_all add: publish_with_def)
    then show ?thesis using step drop_steps [OF assms(1), of w1 ?sf] by (auto intro: guarantees_trans)
  next
    case (Inr u)
    then have w': "w' = w2" "r = k2" using assms(5,6) mv sy
      by (simp_all add: publish_with_def Let_def drop_staged_file_def)
    from step Inr obtain s where s: "w_log w1 = w_log w @ [(s, w_fs w1)]" "publishes d p content ?mode s (w_fs w1)"
      by auto
    from sync obtain new where "w_log w2 = w_log w1 @ new" by (auto simp: guarantees_def)
    then have "published_once d p content ?mode w w2" using s by (auto simp: published_once_def)
    then show ?thesis using w' step sync guarantees_trans by blast
  qed
  then show "guarantees (write_step d p content ?mode) w w'"
    "r = Inr () \<Longrightarrow> published_once d p content ?mode w w'" by auto
qed

lemma published_later:
  assumes "published_once d p content mode w1 w2" "guarantees G w w1" "guarantees H w1 w2"
  shows "published_once d p content mode w w2"
  using assms unfolding published_once_def guarantees_def by auto

lemma publishes_mode: "publishes d p content CreateNew s s' \<Longrightarrow> publishes d p content mode s s'"
  by (auto simp: publishes_def)

lemma write_step_mode: "write_step d p content CreateNew s s' \<Longrightarrow> write_step d p content mode s s'"
  by (auto simp: write_step_def intro: publishes_mode)

lemma stage_steps:
  assumes "p \<noteq> d" "rely p w" "d = locate (pr_cwd pr) destination"
    and "stage_and_publish pr destination content mode perms p w = (r, w')"
  shows "guarantees (write_step d p content mode) w w' \<and>
    (r = Inr () \<longrightarrow> published_once d p content mode w w')"
proof -
  let ?sf = "\<lparr>sf_path = p, sf_published = False\<rparr>"
  obtain k w1 where fill: "fill_staging p perms content w = (k, w1)" by force
  note filled = writes_steps [OF fill_staging_writes assms(1,2) fill]
  show ?thesis
  proof (cases k)
    case (Inl e)
    then have "w' = drop_staged_file ?sf w1" "r = Inl e"
      using assms(4) fill by (simp_all add: stage_and_publish_def Let_def)
    then show ?thesis
      using guarantees_trans [OF filled(1) drop_steps [OF assms(1) filled(2), of ?sf]] by simp
  next
    case (Inr u)
    obtain m where m: "w_fs w1 p = Some (RegularFile m content)" using filled(3) Inr by auto
    show ?thesis
    proof (cases "mode = Replace \<and> perms \<noteq> None")
      case True
      then have "publish_with rename_replace pr ?sf destination w1 = (r, w')"
        using assms(4) fill Inr by (simp add: stage_and_publish_def publish_replace_def)
      from publish_steps [OF assms(1) filled(2) m rename_over_moves [OF assms(1)] assms(3) this] filled(1) True
      show ?thesis using guarantees_trans published_later [OF _ filled(1)] by fastforce
    next
      case False
      then have "publish_with rename_noreplace pr ?sf destination w1 = (r, w')"
        using assms(4) fill Inr by (auto simp: stage_and_publish_def publish_new_def)
      note new = publish_steps [OF assms(1) filled(2) m rename_exclusive_moves [OF assms(1)] assms(3) this, simplified]
      have "guarantees (write_step d p content mode) w1 w'"
        using new(1) guarantees_mono write_step_mode by metis
      moreover have "r = Inr () \<Longrightarrow> published_once d p content mode w1 w'"
        using new(2) publishes_mode unfolding published_once_def by metis
      ultimately show ?thesis using filled(1) guarantees_trans published_later by metis
    qed
  qed
qed

section \<open>Undisturbed runs\<close>

lemma quiet_syscall:
  "w_turns w = [] \<Longrightarrow> syscall act partial w =
    (fst (act (w_fs w)), w\<lparr>w_fs := snd (act (w_fs w)), w_log := w_log w @ [(w_fs w, snd (act (w_fs w)))]\<rparr>)"
  by (simp add: syscall_def this_turn_def act_on_def Let_def)

lemma quiet_io:
  "w_turns w = [] \<Longrightarrow> act (w_fs w) = (Inr x, s') \<Longrightarrow>
    io (syscall act partial) w = (Inr x, w\<lparr>w_fs := s', w_log := w_log w @ [(w_fs w, s')]\<rparr>)"
  by (simp add: io_def quiet_syscall)

lemma quiet_bind:
  "m w = (Inr x, w1) \<Longrightarrow> io_bind m k w = k x w1"
  by (simp add: io_bind_def)

lemma quiet_fill:
  assumes "w_turns w = []" "w_fs w p = None" "p \<noteq> []" "dir_at (w_fs w) (butlast p)"
  obtains log where "fill_staging p perms content w = (Inr (), w\<lparr>
      w_fs := (w_fs w)(p \<mapsto> RegularFile (case perms of Some m \<Rightarrow> m | None \<Rightarrow> owner_only) content), w_log := log\<rparr>)"
proof (cases perms)
  case None
  show ?thesis
    by (rule that) (use assms in \<open>simp add: None fill_staging_def io_bind_def io_def create_call_def write_call_def
      fsync_call_def quiet_syscall append_to_def\<close>)
next
  case (Some m)
  show ?thesis
    by (rule that) (use assms in \<open>simp add: Some fill_staging_def io_bind_def io_def create_call_def write_call_def
      chmod_call_def fsync_call_def quiet_syscall append_to_def\<close>)
qed

lemma quiet_publish:
  assumes "w_turns w = []" "rename (sf_path sf) (locate (pr_cwd pr) destination) w = (Inr (), w1)" "w_turns w1 = []"
  shows "\<exists>log. publish_with rename pr sf destination w = (Inr (), w1\<lparr>w_log := log\<rparr>)"
  using assms(2,3)
  by (auto simp: publish_with_def Let_def sync_parent_is_fsync fsync_call_def io_def quiet_syscall drop_staged_file_def)

lemma quiet_stage:
  assumes "w_turns w = []" "w_fs w p = None" "p \<noteq> []" "d \<noteq> []" "p \<noteq> d" "butlast p = butlast d" "dir_at (w_fs w) (butlast d)"
    and "d = locate (pr_cwd pr) destination"
    and "case perms of Some m \<Rightarrow> mode = Replace \<and> (\<exists>c. w_fs w d = Some (RegularFile m c))
         | None \<Rightarrow> w_fs w d = None \<and> \<not> has_nul p \<and> \<not> has_nul d"
  shows "\<exists>log. stage_and_publish pr destination content mode perms p w = (Inr (), w\<lparr>
    w_fs := (w_fs w)(d \<mapsto> RegularFile (case perms of Some m \<Rightarrow> m | None \<Rightarrow> owner_only) content), w_log := log\<rparr>)"
proof -
  let ?n = "RegularFile (case perms of Some m \<Rightarrow> m | None \<Rightarrow> owner_only) content"
  obtain log where fill: "fill_staging p perms content w = (Inr (), w\<lparr>w_fs := (w_fs w)(p \<mapsto> ?n), w_log := log\<rparr>)"
    using quiet_fill [of w p perms content] assms by metis
  let ?w = "w\<lparr>w_fs := (w_fs w)(p \<mapsto> ?n), w_log := log\<rparr>"
  have "p \<noteq> butlast d" using assms(6) by (metis append_butlast_last_id assms(3) not_Cons_self2 append_self_conv)
  then have dir: "dir_at ((w_fs w)(p \<mapsto> ?n)) (butlast d)" using assms(7) by (auto simp: dir_at_def)
  have moved: "((w_fs w)(p \<mapsto> ?n))(p := None, d \<mapsto> ?n) = (w_fs w)(d \<mapsto> ?n)"
    using assms(2,5) by (auto simp: fun_eq_iff)
  have "length p = length d" using assms(3,4,6) by (metis append_butlast_last_id length_append_singleton)
  then have apart: "\<not> prefix p d" using assms(5) by (auto elim: prefixE)
  show ?thesis
  proof (cases perms)
    case None
    have "rename_noreplace p d ?w = (Inr (), ?w\<lparr>w_fs := (w_fs w)(d \<mapsto> ?n),
        w_log := log @ [(w_fs ?w, (w_fs w)(d \<mapsto> ?n))]\<rparr>)"
      using assms(1,4,5,9) None dir moved apart
      by (simp add: rename_noreplace_def quiet_syscall rename_exclusive_def)
    then show ?thesis
      using quiet_publish [of ?w rename_noreplace "\<lparr>sf_path = p, sf_published = False\<rparr>" pr destination] assms(1,8) fill None
      by (auto simp: stage_and_publish_def publish_new_def)
  next
    case (Some m)
    have "rename_replace p d ?w = (Inr (), ?w\<lparr>w_fs := (w_fs w)(d \<mapsto> ?n),
        w_log := log @ [(w_fs ?w, (w_fs w)(d \<mapsto> ?n))]\<rparr>)"
      using assms(1,4,5,9) Some dir moved
      by (auto simp: rename_replace_def quiet_syscall rename_over_def)
    then show ?thesis
      using quiet_publish [of ?w rename_replace "\<lparr>sf_path = p, sf_published = False\<rparr>" pr destination] assms(1,8,9) fill Some
      by (auto simp: stage_and_publish_def publish_replace_def)
  qed
qed

lemma quiet_prologue:
  assumes named: "path_file_name destination = Some name" and quiet: "w_turns w = []"
    and d: "d = locate (pr_cwd pr) destination"
    and dirs: "list_all (\<lambda>q. w_fs w q = None \<or> w_fs w q = Some DirNode) (ancestors (butlast d))"
    and result: "atomic_write_file pr destination content mode w = (r, w')"
  obtains w2 where "w_turns w2 = []" "w_fs w2 = make_dirs (butlast d) (length (butlast d)) (w_fs w)"
    "w_seq w2 = w_seq w" "dir_at (w_fs w2) (butlast d)"
    "(r, w') = (case existing_permissions mode (ok_or KNotFound (w_fs w d)) of
      Inl e \<Rightarrow> (Inl e, w2) | Inr perms \<Rightarrow> choose_staging pr destination content mode perms w2)"
proof -
  let ?parent = "locate (pr_cwd pr) (file_parent destination)"
  define s1 where "s1 = make_dirs (butlast d) (length (butlast d)) (w_fs w)"
  have d': "d = ?parent @ [name]" using named_destination [OF named] d by simp
  define w1 where "w1 = w\<lparr>w_fs := s1, w_log := w_log w @ [(w_fs w, s1)]\<rparr>"
  have w1: "w_turns w1 = []" "w_fs w1 = s1" "w_seq w1 = w_seq w" by (simp_all add: w1_def quiet)
  have mk: "io (mkdir_all_call ?parent) w = (Inr (), w1)"
    unfolding mkdir_all_call_def w1_def s1_def by (rule quiet_io) (use quiet dirs d' in simp_all)
  have same: "s1 d = w_fs w d" by (auto simp: s1_def make_dirs_def d')
  define w2 where "w2 = w1\<lparr>w_fs := s1, w_log := w_log w1 @ [(s1, s1)]\<rparr>"
  have st: "stat_call d w1 = (ok_or KNotFound (w_fs w d), w2)"
    using w1 same d' by (simp add: stat_call_def quiet_syscall w2_def)
  have dir: "dir_at s1 (butlast d)"
    using dirs by (cases "butlast d" rule: rev_cases)
      (auto simp: s1_def dir_at_def make_dirs_def list_all_iff ancestors_def image_iff split: if_splits)
  show ?thesis
  proof (rule that [of w2])
    show "(r, w') = (case existing_permissions mode (ok_or KNotFound (w_fs w d)) of
        Inl e \<Rightarrow> (Inl e, w2) | Inr perms \<Rightarrow> choose_staging pr destination content mode perms w2)"
      using result st unfolding d by (simp add: atomic_write_file_def io_bind_def mk)
  qed (use dir w1 in \<open>simp_all add: w2_def s1_def\<close>)
qed

section \<open>A whole write\<close>

lemma atomic_write_steps:
  assumes "path_file_name destination = Some name" "pr_nonce pr = Some nonce"
    and p: "p = staging_location pr destination nonce (w_seq w)" and d: "d = locate (pr_cwd pr) destination"
    and "rely p w" "atomic_write_file pr destination content mode w = (r, w')"
  shows "guarantees (write_step d p content mode) w w' \<and>
    (r = Inr () \<longrightarrow> published_once d p content mode w w')"
proof -
  let ?parent = "locate (pr_cwd pr) (file_parent destination)"
  have d': "d = ?parent @ [name]" using named_destination [OF assms(1)] d by simp
  have ne: "p \<noteq> d"
    using staging_location_eq [OF assms(1)] staging_name_new d' p by simp
  obtain k w1 where mk: "mkdir_all_call ?parent w = (k, w1)" by force
  have w1: "guarantees (write_step d p content mode) w w1" "rely p w1"
    using mkdirs_strict_prefix [of ?parent d p content mode w] call_rely(1) [OF assms(5), of ?parent] d' mk
    by simp_all
  obtain meta w2 where st: "stat_call d w1 = (meta, w2)" by force
  have w2: "guarantees (write_step d p content mode) w w2" "rely p w2"
    using guarantees_trans [OF w1(1) stat_steps [of d p content mode w1 d]] call_rely(2) [OF w1(2), of d] st by simp_all
  have seq: "w_seq w2 = w_seq w"
    using mk st by (auto simp: mkdir_all_call_def stat_call_def syscall_def Let_def)
  consider perms where "k = Inr ()" "choose_staging pr destination content mode perms w2 = (r, w')"
    | "w' = w1" "r \<noteq> Inr ()" | "w' = w2" "r \<noteq> Inr ()"
    using assms(6) mk st d
    by (cases k) (auto simp: atomic_write_file_def io_bind_def io_def split: sum.splits)
  then show ?thesis
  proof cases
    case 1
    show ?thesis
    proof (cases "name = []")
      case True
      then have "w' = w2 \<and> r = Inl NoFileName" using 1(2) assms(1) by (auto simp: choose_staging_def)
      then show ?thesis using w2 by simp
    next
      case False
      let ?w = "w2\<lparr>w_seq := w_seq w2 + 1\<rparr>"
      have "stage_and_publish pr destination content mode perms p ?w = (r, w')"
        using False 1(2) assms(1,2) p seq by (simp add: choose_staging_def Let_def)
      from stage_steps [OF ne _ d this] w2
      have "guarantees (write_step d p content mode) w2 w' \<and> (r = Inr () \<longrightarrow> published_once d p content mode w2 w')"
        by simp
      then show ?thesis using guarantees_trans [OF w2(1)] published_later [OF _ w2(1)] by blast
    qed
  qed (use w1 w2 in auto)
qed

lemma atomic_write_outcome:
  assumes named: "path_file_name destination = Some name" "name \<noteq> []" "pr_nonce pr = Some nonce"
    and quiet: "w_turns w = []"
    and p: "p = staging_location pr destination nonce (w_seq w)" and d: "d = locate (pr_cwd pr) destination"
    and free: "w_fs w p = None" "\<not> has_nul p" "\<not> has_nul d"
    and dirs: "list_all (\<lambda>q. w_fs w q = None \<or> w_fs w q = Some DirNode) (ancestors (butlast d))"
    and result: "atomic_write_file pr destination content mode w = (r, w')"
  shows "let s = make_dirs (butlast d) (length (butlast d)) (w_fs w)
    in (r, w_fs w') =
      (case w_fs w d of
         None \<Rightarrow> (Inr (), s(d \<mapsto> RegularFile owner_only content))
       | Some (RegularFile perms _) \<Rightarrow>
           if mode = CreateNew then (Inl DestinationExists, s) else (Inr (), s(d \<mapsto> RegularFile perms content))
       | Some (LinkNode _) \<Rightarrow> (Inl SymlinkDestination, s)
       | Some _ \<Rightarrow> (Inl NotRegularDestination, s))"
proof -
  define s1 where "s1 = make_dirs (butlast d) (length (butlast d)) (w_fs w)"
  have d': "d = locate (pr_cwd pr) (file_parent destination) @ [name]" using named_destination [OF named(1)] d by simp
  have p': "p = locate (pr_cwd pr) (file_parent destination) @ [staging_name pr name nonce (w_seq w)]"
    using staging_location_eq [OF named(1)] p by simp
  have ne: "p \<noteq> d" "p \<noteq> []" "d \<noteq> []" "butlast p = butlast d"
    using staging_name_new d' p' by simp_all
  have same: "s1 d = w_fs w d" "s1 p = None"
    using free ne by (auto simp: s1_def make_dirs_def d' p')
  obtain w2 where w2: "w_turns w2 = []" "w_fs w2 = s1" "w_seq w2 = w_seq w" "dir_at s1 (butlast d)"
    and run: "(r, w') = (case existing_permissions mode (ok_or KNotFound (w_fs w d)) of
      Inl e \<Rightarrow> (Inl e, w2) | Inr perms \<Rightarrow> choose_staging pr destination content mode perms w2)"
    using quiet_prologue [OF named(1) quiet d dirs result] s1_def by metis
  have chosen: "choose_staging pr destination content mode perms w2 = (r, w') \<Longrightarrow>
      (case perms of Some m \<Rightarrow> mode = Replace \<and> (\<exists>c. w_fs w d = Some (RegularFile m c)) | None \<Rightarrow> w_fs w d = None) \<Longrightarrow>
      (r, w_fs w') = (Inr (), s1(d \<mapsto> RegularFile (case perms of Some m \<Rightarrow> m | None \<Rightarrow> owner_only) content))" for perms
    using quiet_stage [where w = "w2\<lparr>w_seq := w_seq w + 1\<rparr>" and p = p and d = d and pr = pr and destination = destination
        and perms = perms and mode = mode and content = content] w2 same ne d free named p
    by (auto simp: choose_staging_def Let_def split: option.splits)
  show ?thesis
    using run chosen [of None] chosen [of "Some m" for m] w2 unfolding s1_def [symmetric]
    by (cases mode) (auto simp: Let_def existing_permissions_def split: option.splits node.splits if_splits)
qed

section \<open>Properties\<close>

text \<open>
  C15: a file is published whole or not at all. Whatever calls fail and whatever other processes do
  in between, short of touching the staging file, no call changes anything but the staging file,
  missing directories above the destination, and the destination itself, which changes only by the
  move of a file with the complete content, onto an existing entry only in mode \<open>Replace\<close>; success
  means that this move happened.
\<close>

theorem atomic_write_all_or_nothing:
  assumes "path_file_name destination = Some name" "pr_nonce pr = Some nonce"
    and p: "p = staging_location pr destination nonce (w_seq w)" and d: "d = locate (pr_cwd pr) destination"
    and "rely p w" "atomic_write_file pr destination content mode w = (r, w')"
  shows "guarantees (write_step d p content mode) w w' \<and>
    (r = Inr () \<longrightarrow> published_once d p content mode w w')"
  using assms by (rule atomic_write_steps)

theorem atomic_write_all_or_nothing_witness:
  fixes pr destination w
  defines "pr \<equiv> \<lparr>pr_pid = 7, pr_cwd = [''home''], pr_nonce = Some 5\<rparr>"
  defines "destination \<equiv> [Normal ''a'']"
  defines "w \<equiv> \<lparr>w_fs = [[''home''] \<mapsto> DirNode, [''home'', ''a''] \<mapsto> RegularFile 420 ''old''],
      w_turns = [Turn (\<lambda>s. s([''home'', ''b''] \<mapsto> DirNode)) None, Turn (\<lambda>s. s) None, Turn (\<lambda>s. s([''home'', ''a''] := None)) None,
        Turn (\<lambda>s. s) None, Turn (\<lambda>s. s) (Some \<lparr>ft_kind = KOther, ft_done = 1, ft_gone = \<lambda>_. False\<rparr>)],
      w_log = [], w_seq = 0\<rparr>"
  shows "guarantees (write_step [''home'', ''a''] (staging_location pr destination 5 0) ''new'' Replace) w
      (snd (atomic_write_file pr destination ''new'' Replace w))"
proof -
  have far: "staging_location pr destination 5 0 \<noteq> [''home'', ''a'']" "staging_location pr destination 5 0 \<noteq> [''home'', ''b'']"
    by (simp_all add: staging_location_eq [of _ "''a''"] path_file_name_def destination_def pr_def file_parent_def path_parent_def
        staging_name_def)
  have relied: "rely (staging_location pr destination 5 0) w"
    using far by (simp add: w_def rely_def)
  show ?thesis
    by (rule atomic_write_all_or_nothing [THEN conjunct1, of destination "''a''" pr 5 _ w _ _ _ "fst (atomic_write_file pr destination ''new'' Replace w)"])
      (use relied in \<open>simp_all add: path_file_name_def destination_def pr_def w_def\<close>)
qed

text \<open>
  An undisturbed write has exactly the documented outcomes. It creates the directories above the
  destination, then refuses a symbolic link, an entry that is no regular file, and in mode
  \<open>CreateNew\<close> any file, leaving the destination as it is; otherwise the destination is a regular
  file with exactly the content, with the permissions it had or, when new, for its owner only, and
  no staging file is left.
\<close>

theorem atomic_write_exact:
  assumes named: "path_file_name destination = Some name" "name \<noteq> []" "pr_nonce pr = Some nonce"
    and quiet: "w_turns w = []"
    and p: "p = staging_location pr destination nonce (w_seq w)" and d: "d = locate (pr_cwd pr) destination"
    and free: "w_fs w p = None" "\<not> has_nul p" "\<not> has_nul d"
    and dirs: "list_all (\<lambda>q. w_fs w q = None \<or> w_fs w q = Some DirNode) (ancestors (butlast d))"
    and result: "atomic_write_file pr destination content mode w = (r, w')"
  shows "let s = make_dirs (butlast d) (length (butlast d)) (w_fs w)
    in (r, w_fs w') =
      (case w_fs w d of
         None \<Rightarrow> (Inr (), s(d \<mapsto> RegularFile owner_only content))
       | Some (RegularFile perms _) \<Rightarrow>
           if mode = CreateNew then (Inl DestinationExists, s) else (Inr (), s(d \<mapsto> RegularFile perms content))
       | Some (LinkNode _) \<Rightarrow> (Inl SymlinkDestination, s)
       | Some _ \<Rightarrow> (Inl NotRegularDestination, s))"
  using assms by (rule atomic_write_outcome)

theorem atomic_write_exact_witness:
  fixes pr destination w
  defines "pr \<equiv> \<lparr>pr_pid = 7, pr_cwd = [''home''], pr_nonce = Some 5\<rparr>"
  defines "destination \<equiv> [Normal ''a'']"
  defines "w \<equiv> \<lparr>w_fs = [[''home''] \<mapsto> DirNode, [''home'', ''a''] \<mapsto> RegularFile 420 ''old''], w_turns = [], w_log = [], w_seq = 0\<rparr>"
  shows "w_fs (snd (atomic_write_file pr destination ''new'' Replace w)) [''home'', ''a''] = Some (RegularFile 420 ''new'')"
proof -
  let ?p = "staging_location pr destination 5 0"
  have loc: "?p = [''home'', staging_name pr ''a'' 5 0]"
    by (simp add: staging_location_eq [of _ "''a''"] path_file_name_def destination_def pr_def file_parent_def path_parent_def)
  have new: "staging_name pr ''a'' 5 0 \<noteq> ''a''" by (rule staging_name_new)
  have "CHR 0x00 \<notin> set (decimal n)" for n by (rule decimal_no_char) (simp add: is_ascii_digit_def)
  then have nul: "\<not> has_nul ?p"
    unfolding loc by (simp add: has_nul_def staging_name_def pr_def lossy.simps sequence_length_def)
  have "let s = make_dirs (butlast [''home'', ''a'']) (length (butlast [''home'', ''a''])) (w_fs w)
    in (fst (atomic_write_file pr destination ''new'' Replace w), w_fs (snd (atomic_write_file pr destination ''new'' Replace w))) =
      (case w_fs w [''home'', ''a''] of
         None \<Rightarrow> (Inr (), s([''home'', ''a''] \<mapsto> RegularFile owner_only ''new''))
       | Some (RegularFile perms _) \<Rightarrow>
           if Replace = CreateNew then (Inl DestinationExists, s) else (Inr (), s([''home'', ''a''] \<mapsto> RegularFile perms ''new''))
       | Some (LinkNode _) \<Rightarrow> (Inl SymlinkDestination, s)
       | Some _ \<Rightarrow> (Inl NotRegularDestination, s))"
  proof (rule atomic_write_exact [where name = "''a''" and nonce = 5 and p = ?p])
    show "w_fs w ?p = None" using loc new by (simp add: w_def)
  qed (use nul in \<open>simp_all add: path_file_name_def destination_def pr_def w_def has_nul_def ancestors_def\<close>)
  then show ?thesis by (simp add: w_def Let_def prod_eq_iff)
qed

text \<open>
  C39: a write that cannot create its staging file removes the entry that is in the way. The staging
  guard is made before \<open>create_new\<close> claims the path, so when another process owns a file of that
  name the write fails, and dropping the guard deletes the other's file.
\<close>

theorem failed_claim_removes_foreign_file:
  assumes "path_file_name destination = Some name" "name \<noteq> []" "pr_nonce pr = Some nonce" "w_turns w = []"
    and "p = staging_location pr destination nonce (w_seq w)" "d = locate (pr_cwd pr) destination"
    and "list_all (\<lambda>q. w_fs w q = None \<or> w_fs w q = Some DirNode) (ancestors (butlast d))"
    and "w_fs w d = None" "w_fs w p = Some (RegularFile perms other)"
    and "atomic_write_file pr destination content mode w = (r, w')"
  shows "r = Inl (IoFailed KAlreadyExists) \<and> w_fs w' p = None"
proof -
  obtain w2 where w2: "w_turns w2 = []" "w_fs w2 = make_dirs (butlast d) (length (butlast d)) (w_fs w)"
      "w_seq w2 = w_seq w"
    and run: "(r, w') = (case existing_permissions mode (ok_or KNotFound (w_fs w d)) of
      Inl e \<Rightarrow> (Inl e, w2) | Inr perms \<Rightarrow> choose_staging pr destination content mode perms w2)"
    using quiet_prologue [OF assms(1,4,6,7,10)] by metis
  have at: "w_fs w2 p = Some (RegularFile perms other)" using w2(2) assms(9) by (simp add: make_dirs_def)
  have "(r, w') = stage_and_publish pr destination content mode None p (w2\<lparr>w_seq := w_seq w + 1\<rparr>)"
    using run assms(1-3,5,8) w2(3) by (simp add: existing_permissions_def choose_staging_def Let_def)
  then show ?thesis
    using at w2(1)
    by (auto simp: stage_and_publish_def fill_staging_def io_bind_def io_def create_call_def quiet_syscall
        drop_staged_file_def unlink_call_def Let_def)
qed

theorem failed_claim_removes_foreign_file_witness:
  fixes pr destination w
  defines "pr \<equiv> \<lparr>pr_pid = 7, pr_cwd = [''home''], pr_nonce = Some 5\<rparr>"
  defines "destination \<equiv> [Normal ''a'']"
  defines "w \<equiv> \<lparr>w_fs = [[''home''] \<mapsto> DirNode, staging_location pr destination 5 0 \<mapsto> RegularFile 420 ''theirs''],
    w_turns = [], w_log = [], w_seq = 0\<rparr>"
  shows "w_fs (snd (atomic_write_file pr destination ''new'' CreateNew w)) (staging_location pr destination 5 0) = None"
proof -
  let ?p = "staging_location pr destination 5 0"
  have loc: "?p = [''home'', staging_name pr ''a'' 5 0]"
    by (simp add: staging_location_eq [of _ "''a''"] path_file_name_def destination_def pr_def file_parent_def path_parent_def)
  have new: "staging_name pr ''a'' 5 0 \<noteq> ''a''" by (rule staging_name_new)
  show ?thesis
  proof (rule failed_claim_removes_foreign_file [where name = "''a''" and nonce = 5 and p = ?p and d = "[''home'', ''a'']",
        OF _ _ _ _ _ _ _ _ _ surjective_pairing, THEN conjunct2])
    show "w_fs w [''home'', ''a''] = None" using loc new by (simp add: w_def)
    show "list_all (\<lambda>q. w_fs w q = None \<or> w_fs w q = Some DirNode) (ancestors (butlast [''home'', ''a'']))"
      using loc by (simp add: w_def ancestors_def)
  qed (simp_all add: path_file_name_def destination_def pr_def w_def)
qed

end
