(* ===== verification/FileHistory.thy ===== *)
theory FileHistory
  imports SearchScope
begin

text \<open>
  File-version recovery, \<open>files.rs\<close>: the mutations a transcript stages and finishes, the replay of
  recorded edits to a version of a file, the iterator over all replayable versions, and the choice
  of a name that a restored file is written under.

  Contents are UTF-8 byte strings; searching and replacing a nonempty text in bytes is the same as
  in characters. Paths are split into components as in \<open>SearchScope\<close>.
\<close>

section \<open>Recorded edits\<close>

record edit_op =
  op_old :: string
  op_new :: string
  op_replace_all :: bool

record 't file_edit =
  fe_seq :: int
  fe_ts :: "'t option"
  fe_tool :: string
  fe_file_path :: string
  fe_file_name :: string
  fe_new_content :: "string option"
  fe_edits :: "edit_op list"

type_synonym payload = "string \<times> string option \<times> edit_op list"

record 't pending_mutation =
  pm_ts :: "'t option"
  pm_tool :: string
  pm_payloads :: "payload list"

record 't pending_mutations =
  pf_by_call_id :: "string \<rightharpoonup> 't pending_mutation"
  pf_next_seq :: int

definition no_pending :: "'t pending_mutations" where
  "no_pending = \<lparr>pf_by_call_id = Map.empty, pf_next_seq = 0\<rparr>"

definition stage_many ::
    "string option \<Rightarrow> 't option \<Rightarrow> string \<Rightarrow> payload list \<Rightarrow> 't pending_mutations \<Rightarrow> 't pending_mutations" where
  "stage_many call_id ts tool payloads p =
     (case call_id of
        None \<Rightarrow> p
      | Some i \<Rightarrow>
          if i = [] \<or> payloads = [] then p
          else p\<lparr>pf_by_call_id := (pf_by_call_id p)(i \<mapsto>
                 \<lparr>pm_ts = ts, pm_tool = tool, pm_payloads = payloads\<rparr>)\<rparr>)"

definition stage ::
    "string option \<Rightarrow> 't option \<Rightarrow> string \<Rightarrow> payload option \<Rightarrow> 't pending_mutations \<Rightarrow> 't pending_mutations" where
  "stage call_id ts tool payload p =
     (case payload of None \<Rightarrow> p | Some pl \<Rightarrow> stage_many call_id ts tool [pl] p)"

definition file_basename :: "string \<Rightarrow> string" where
  "file_basename path = rev (takeWhile (\<lambda>c. c \<noteq> slash \<and> c \<noteq> backslash) (rev path))"

fun push_edits ::
    "'t pending_mutation \<Rightarrow> payload list \<Rightarrow> int \<Rightarrow> 't file_edit list \<Rightarrow> int \<times> 't file_edit list" where
  "push_edits pm [] next_seq out = (next_seq, out)"
| "push_edits pm ((path, content, edits) # pls) next_seq out =
     push_edits pm pls (next_seq + 1)
       (out @ [\<lparr>fe_seq = next_seq, fe_ts = pm_ts pm, fe_tool = pm_tool pm, fe_file_path = path,
          fe_file_name = file_basename path, fe_new_content = content, fe_edits = edits\<rparr>])"

definition finish_call ::
    "string option \<Rightarrow> bool \<Rightarrow> 't pending_mutations \<Rightarrow> 't file_edit list \<Rightarrow> 't pending_mutations \<times> 't file_edit list" where
  "finish_call call_id succeeded p out =
     (case call_id of
        None \<Rightarrow> (p, out)
      | Some i \<Rightarrow>
          (case pf_by_call_id p i of
             None \<Rightarrow> (p, out)
           | Some pm \<Rightarrow>
               let p' = p\<lparr>pf_by_call_id := (pf_by_call_id p)(i := None)\<rparr>
               in if \<not> succeeded then (p', out)
                  else case push_edits pm (pm_payloads pm) (pf_next_seq p') out of
                    (n, out') \<Rightarrow> (p'\<lparr>pf_next_seq := n\<rparr>, out')))"

section \<open>Replay\<close>

text \<open>\<open>str::find\<close>: the leftmost occurrence.\<close>

fun find_text :: "string \<Rightarrow> string \<Rightarrow> nat option" where
  "find_text p [] = (if p = [] then Some 0 else None)"
| "find_text p (c # cs) = (if prefix p (c # cs) then Some 0 else map_option Suc (find_text p cs))"

text \<open>\<open>str::replace\<close> of a nonempty text: every occurrence, from the left, without overlap.\<close>

function replace_text :: "string \<Rightarrow> string \<Rightarrow> string \<Rightarrow> string" where
  "replace_text p r [] = []"
| "replace_text p r (c # cs) =
     (if p \<noteq> [] \<and> prefix p (c # cs) then r @ replace_text p r (drop (length p) (c # cs))
      else c # replace_text p r cs)"
  by pat_completeness auto
termination
proof (relation "measure (\<lambda>(p, r, s). length s)", goal_cases)
  case (2 p r c cs)
  then show ?case by (cases p) auto
qed auto

declare replace_text.simps [simp del]

definition apply_edit :: "edit_op \<Rightarrow> string \<Rightarrow> string option" where
  "apply_edit eo content =
     (if op_old eo = [] then None
      else if op_replace_all eo
      then (if find_text (op_old eo) content = None then None
            else Some (replace_text (op_old eo) (op_new eo) content))
      else (case find_text (op_old eo) content of
              Some pos \<Rightarrow> Some (take pos content @ op_new eo @ drop (pos + length (op_old eo)) content)
            | None \<Rightarrow> None))"

text \<open>\<open>apply_edits\<close>: \<open>None\<close> is the result false, after which the caller drops the content.\<close>

fun apply_edits :: "string \<Rightarrow> edit_op list \<Rightarrow> string option" where
  "apply_edits content [] = Some content"
| "apply_edits content (eo # ops) =
     (case apply_edit eo content of None \<Rightarrow> None | Some content' \<Rightarrow> apply_edits content' ops)"

definition advance_reconstruction :: "string option \<Rightarrow> 't file_edit \<Rightarrow> string option" where
  "advance_reconstruction content edit =
     (case fe_new_content edit of
        Some full \<Rightarrow> Some full
      | None \<Rightarrow>
          if fe_edits edit = [] then None
          else (case content of None \<Rightarrow> None | Some current \<Rightarrow> apply_edits current (fe_edits edit)))"

definition last_snapshot :: "'t file_edit list \<Rightarrow> nat \<Rightarrow> nat option" where
  "last_snapshot edits target = find (\<lambda>i. fe_new_content (edits ! i) \<noteq> None) (rev [0..<Suc target])"

definition reconstruct :: "'t file_edit list \<Rightarrow> nat \<Rightarrow> string option" where
  "reconstruct edits version =
     (if version = 0 \<or> version > length edits then None
      else let target = version - 1 in
        case last_snapshot edits target of
          None \<Rightarrow> None
        | Some base \<Rightarrow>
            foldl advance_reconstruction (fe_new_content (edits ! base))
              (drop (base + 1) (take (target + 1) edits)))"

text \<open>\<open>str::lines().count()\<close>: a final newline ends the last line.\<close>

definition newline_char :: char where "newline_char = CHR 0x0A"

definition count_lines :: "string \<Rightarrow> int" where
  "count_lines content =
     (let pieces = split_on newline_char content
      in int (length (if last pieces = [] then butlast pieces else pieces)))"

fun line_count_loop :: "string option \<Rightarrow> 't file_edit list \<Rightarrow> int list" where
  "line_count_loop content [] = []"
| "line_count_loop content (e # es) =
     (let content' = advance_reconstruction content e
      in (case content' of Some c \<Rightarrow> count_lines c | None \<Rightarrow> 0) # line_count_loop content' es)"

definition version_line_counts :: "'t file_edit list \<Rightarrow> int list" where
  "version_line_counts edits = line_count_loop None edits"

section \<open>The iterator over versions\<close>

record 't file_versions =
  fv_edits :: "'t file_edit list"
  fv_content :: "string option"
  fv_version :: nat

definition file_versions_of :: "'t file_edit list \<Rightarrow> 't file_versions" where
  "file_versions_of edits = \<lparr>fv_edits = edits, fv_content = None, fv_version = 0\<rparr>"

text \<open>\<open>next\<close>: the version, path and content it yields, and the iterator after it.\<close>

fun versions_next_loop ::
    "'t file_edit list \<Rightarrow> string option \<Rightarrow> nat \<Rightarrow> (nat \<times> string \<times> string) option \<times> 't file_versions" where
  "versions_next_loop [] content version =
     (None, \<lparr>fv_edits = [], fv_content = content, fv_version = version\<rparr>)"
| "versions_next_loop (e # es) content version =
     (let content' = advance_reconstruction content e
      in case content' of
           Some c \<Rightarrow> (Some (version + 1, fe_file_path e, c),
                     \<lparr>fv_edits = es, fv_content = content', fv_version = version + 1\<rparr>)
         | None \<Rightarrow> versions_next_loop es content' (version + 1))"

definition versions_next ::
    "'t file_versions \<Rightarrow> (nat \<times> string \<times> string) option \<times> 't file_versions" where
  "versions_next it = versions_next_loop (fv_edits it) (fv_content it) (fv_version it)"

lemma versions_next_shorter:
  "versions_next it = (Some x, it') \<Longrightarrow> length (fv_edits it') < length (fv_edits it)"
proof -
  have "versions_next_loop es c v = (Some x, it') \<Longrightarrow> length (fv_edits it') < length es" for es c v
    by (induction es c v rule: versions_next_loop.induct) (auto simp: Let_def split: option.splits)
  then show "versions_next it = (Some x, it') \<Longrightarrow> length (fv_edits it') < length (fv_edits it)"
    by (simp add: versions_next_def)
qed

text \<open>What a caller collects that calls \<open>next\<close> until it returns \<open>None\<close>.\<close>

function collect_versions :: "'t file_versions \<Rightarrow> (nat \<times> string \<times> string) list" where
  "collect_versions it =
     (case versions_next it of (None, _) \<Rightarrow> [] | (Some x, it') \<Rightarrow> x # collect_versions it')"
  by pat_completeness auto
termination
  by (relation "measure (length \<circ> fv_edits)") (auto dest: versions_next_shorter [OF sym])

declare collect_versions.simps [simp del]

section \<open>Selecting a session\<close>

datatype files_error =
    NoEditsFound
  | ManySessions nat
  | VersionOutOfRange nat nat
  | CannotReconstruct nat
  | ParentDirInPath
  | EmptyRestorePath

fun group_by_session :: "('s \<times> 'p \<times> 't file_edit) list \<Rightarrow> ('s \<times> 'p \<times> 't file_edit list) list \<Rightarrow>
    ('s \<times> 'p \<times> 't file_edit list) list" where
  "group_by_session [] groups = groups"
| "group_by_session ((sid, prov, e) # rows) groups =
     group_by_session rows
       (case rev groups of
          (sid', prov', es) # rest \<Rightarrow>
            if sid' = sid then rev rest @ [(sid', prov', es @ [e])] else groups @ [(sid, prov, [e])]
        | [] \<Rightarrow> [(sid, prov, [e])])"

definition selected_edit_group ::
    "('s \<times> 'p \<times> 't file_edit) list \<Rightarrow> files_error + ('s \<times> 'p \<times> 't file_edit list)" where
  "selected_edit_group rows =
     (case group_by_session rows [] of
        [] \<Rightarrow> Inl NoEditsFound
      | [g] \<Rightarrow> Inr g
      | gs \<Rightarrow> Inl (ManySessions (length gs)))"

definition reconstruct_query ::
    "('s \<times> 'p \<times> 't file_edit) list \<Rightarrow> nat option \<Rightarrow> files_error + ('s \<times> 'p \<times> nat \<times> string \<times> string)" where
  "reconstruct_query rows version =
     res_bind (selected_edit_group rows) (\<lambda>(sid, prov, edits).
       let selected = (case version of Some v \<Rightarrow> v | None \<Rightarrow> length edits)
       in if selected = 0 \<or> selected > length edits then Inl (VersionOutOfRange selected (length edits))
          else res_map (\<lambda>content. (sid, prov, selected, fe_file_path (edits ! (selected - 1)), content))
                 (ok_or (CannotReconstruct selected) (reconstruct edits selected)))"

section \<open>The name of a restored file\<close>

text \<open>\<open>file_stem\<close> and \<open>extension\<close>: split at the last dot, unless the name begins with it.\<close>

definition stem_and_extension :: "string \<Rightarrow> string \<times> string option" where
  "stem_and_extension name =
     (case rsplit_once (CHR ''.'') name of
        Some (stem, ext) \<Rightarrow> if stem = [] then (name, None) else (stem, Some ext)
      | None \<Rightarrow> (name, None))"

definition recovered_marker :: "nat \<Rightarrow> string" where
  "recovered_marker n = (if n = 1 then ''recovered'' else ''recovered_'' @ decimal n)"

definition candidate_name :: "string option \<Rightarrow> nat \<Rightarrow> string" where
  "candidate_name name n =
     (let (stem, ext) = (case name of
            Some nm \<Rightarrow> (case stem_and_extension nm of (s, e) \<Rightarrow>
              (if valid_utf8 s then s else ''recovered'',
               case e of Some x \<Rightarrow> if valid_utf8 x then Some x else None | None \<Rightarrow> None))
          | None \<Rightarrow> (''recovered'', None))
      in case ext of
           Some x \<Rightarrow> stem @ ''.'' @ recovered_marker n @ ''.'' @ x
         | None \<Rightarrow> stem @ ''.'' @ recovered_marker n)"

definition restore_candidate :: "component list \<Rightarrow> nat \<Rightarrow> component list" where
  "restore_candidate original n =
     (case path_parent original of Some dir \<Rightarrow> dir | None \<Rightarrow> [CurDir]) @
       [Normal (candidate_name (path_file_name original) n)]"

partial_function (option) restore_loop ::
    "component list \<Rightarrow> (component list \<Rightarrow> bool) \<Rightarrow> nat \<Rightarrow> component list option" where
  "restore_loop original exists n =
     (let path = restore_candidate original n
      in if \<not> exists path then Some path else restore_loop original exists (n + 1))"

definition restore_target :: "component list \<Rightarrow> (component list \<Rightarrow> bool) \<Rightarrow> component list option" where
  "restore_target original exists = restore_loop original exists 1"

definition ensure_safe_restore_target :: "component list \<Rightarrow> files_error + unit" where
  "ensure_safe_restore_target path =
     (if ParentDir \<in> set path then Inl ParentDirInPath else Inr ())"

definition safe_output_name :: "component list \<Rightarrow> string \<Rightarrow> string" where
  "safe_output_name original file_arg =
     (case path_file_name original of
        Some n \<Rightarrow> n
      | None \<Rightarrow> (case path_file_name (components file_arg) of Some n \<Rightarrow> n | None \<Rightarrow> ''recovered''))"

section \<open>The replay and the iterator\<close>

definition replay :: "'t file_edit list \<Rightarrow> string option" where
  "replay edits = foldl advance_reconstruction None edits"

lemma replay_without_snapshot:
  "\<forall>e \<in> set edits. fe_new_content e = None \<Longrightarrow> replay edits = None"
  unfolding replay_def
  by (induction edits rule: rev_induct) (auto simp: advance_reconstruction_def)

lemma replay_from_snapshot:
  assumes "i < length edits" "fe_new_content (edits ! i) = Some full"
  shows "replay edits = foldl advance_reconstruction (Some full) (drop (Suc i) edits)"
proof -
  have "edits = take i edits @ edits ! i # drop (Suc i) edits"
    using assms(1) by (simp add: id_take_nth_drop)
  then have "replay edits = foldl advance_reconstruction
      (advance_reconstruction (replay (take i edits)) (edits ! i)) (drop (Suc i) edits)"
    unfolding replay_def by (metis foldl_Cons foldl_append)
  then show ?thesis using assms(2) by (simp add: advance_reconstruction_def)
qed

lemma reconstruct_is_replay:
  assumes "0 < v" "v \<le> length edits"
  shows "reconstruct edits v = replay (take v edits)"
proof (cases "last_snapshot edits (v - 1)")
  case None
  then have "fe_new_content (edits ! i) = None" if "i < v" for i
    using that assms by (auto simp: last_snapshot_def find_None_iff)
  then have "\<forall>e \<in> set (take v edits). fe_new_content e = None"
    using assms by (auto simp: in_set_conv_nth)
  then show ?thesis
    using None assms by (simp add: reconstruct_def replay_without_snapshot)
next
  case (Some base)
  from find_SomeD [OF this [unfolded last_snapshot_def]] assms
  have base: "base < v" "fe_new_content (edits ! base) \<noteq> None" by auto
  then obtain full where full: "fe_new_content (edits ! base) = Some full" by blast
  have "replay (take v edits) = foldl advance_reconstruction (Some full) (drop (Suc base) (take v edits))"
    using base(1) full assms by (intro replay_from_snapshot) auto
  then show ?thesis using Some full assms by (simp add: reconstruct_def)
qed

definition version_entry :: "'t file_edit list \<Rightarrow> nat \<Rightarrow> (nat \<times> string \<times> string) option" where
  "version_entry edits v =
     map_option (\<lambda>c. (v, fe_file_path (edits ! (v - 1)), c)) (reconstruct edits v)"

lemma collect_step:
  "collect_versions \<lparr>fv_edits = [], fv_content = c, fv_version = v\<rparr> = []"
  "collect_versions \<lparr>fv_edits = e # es, fv_content = c, fv_version = v\<rparr> =
     (let c' = advance_reconstruction c e; rest = collect_versions \<lparr>fv_edits = es, fv_content = c', fv_version = v + 1\<rparr>
      in case c' of Some x \<Rightarrow> (v + 1, fe_file_path e, x) # rest | None \<Rightarrow> rest)"
proof -
  show "collect_versions \<lparr>fv_edits = [], fv_content = c, fv_version = v\<rparr> = []"
    by (subst collect_versions.simps) (simp add: versions_next_def)
  show "collect_versions \<lparr>fv_edits = e # es, fv_content = c, fv_version = v\<rparr> =
     (let c' = advance_reconstruction c e; rest = collect_versions \<lparr>fv_edits = es, fv_content = c', fv_version = v + 1\<rparr>
      in case c' of Some x \<Rightarrow> (v + 1, fe_file_path e, x) # rest | None \<Rightarrow> rest)"
  proof (cases "advance_reconstruction c e")
    case None
    then have "versions_next \<lparr>fv_edits = e # es, fv_content = c, fv_version = v\<rparr> =
        versions_next \<lparr>fv_edits = es, fv_content = None, fv_version = v + 1\<rparr>"
      by (simp add: versions_next_def)
    then show ?thesis using None by (simp add: collect_versions.simps [of "\<lparr>fv_edits = e # es, fv_content = c, fv_version = v\<rparr>"]
        collect_versions.simps [of "\<lparr>fv_edits = es, fv_content = None, fv_version = Suc v\<rparr>"])
  next
    case (Some x)
    then show ?thesis
      by (subst collect_versions.simps) (simp add: versions_next_def)
  qed
qed

lemma collect_from:
  assumes "edits = pre @ es"
  shows "collect_versions \<lparr>fv_edits = es, fv_content = replay pre, fv_version = length pre\<rparr> =
    List.map_filter (version_entry edits) [Suc (length pre)..<Suc (length edits)]"
  using assms
proof (induction es arbitrary: pre)
  case (Cons e es)
  have next_replay: "advance_reconstruction (replay pre) e = replay (pre @ [e])"
    by (simp add: replay_def)
  have "reconstruct edits (Suc (length pre)) = replay (pre @ [e])"
    using reconstruct_is_replay [of "Suc (length pre)" edits] Cons.prems by simp
  moreover have "[Suc (length pre)..<Suc (length edits)] =
      Suc (length pre) # [Suc (length (pre @ [e]))..<Suc (length edits)]"
    using Cons.prems by (simp add: upt_conv_Cons del: upt_Suc)
  moreover have "edits ! length pre = e" using Cons.prems by simp
  ultimately show ?case
    using Cons.IH [of "pre @ [e]"] Cons.prems
    by (cases "replay (pre @ [e])")
      (simp_all add: collect_step next_replay Let_def version_entry_def List.map_filter_simps del: upt_Suc)
qed (simp add: collect_step List.map_filter_simps)

lemma line_counts_from:
  assumes "edits = pre @ es"
  shows "line_count_loop (replay pre) es =
    map (\<lambda>v. case reconstruct edits v of Some c \<Rightarrow> count_lines c | None \<Rightarrow> 0) [Suc (length pre)..<Suc (length edits)]"
  using assms
proof (induction es arbitrary: pre)
  case (Cons e es)
  have next_replay: "advance_reconstruction (replay pre) e = replay (pre @ [e])"
    by (simp add: replay_def)
  have "reconstruct edits (Suc (length pre)) = replay (pre @ [e])"
    using reconstruct_is_replay [of "Suc (length pre)" edits] Cons.prems by simp
  moreover have "[Suc (length pre)..<Suc (length edits)] =
      Suc (length pre) # [Suc (length (pre @ [e]))..<Suc (length edits)]"
    using Cons.prems by (simp add: upt_conv_Cons del: upt_Suc)
  ultimately show ?case
    using Cons.IH [of "pre @ [e]"] Cons.prems by (simp add: next_replay Let_def del: upt_Suc)
qed simp

section \<open>A free name exists\<close>

lemma decimal_inject: "decimal m = decimal n \<longleftrightarrow> m = n"
  using decimal_props by metis

lemma marker_inject: "recovered_marker m = recovered_marker n \<longleftrightarrow> m = n"
  by (auto simp: recovered_marker_def decimal_inject)

lemma candidate_inject: "restore_candidate p m = restore_candidate p n \<longleftrightarrow> m = n"
  by (auto simp: restore_candidate_def candidate_name_def marker_inject Let_def split: option.splits prod.splits)

lemma restore_loop_finds:
  assumes "n \<le> k" "\<not> exists (restore_candidate p k)" "\<And>i. n \<le> i \<Longrightarrow> i < k \<Longrightarrow> exists (restore_candidate p i)"
  shows "restore_loop p exists n = Some (restore_candidate p k)"
  using assms
proof (induction "k - n" arbitrary: n)
  case 0
  then show ?case by (simp add: restore_loop.simps [of p exists n])
next
  case (Suc d)
  then have "restore_loop p exists (n + 1) = Some (restore_candidate p k)"
    by (intro Suc.hyps(1)) auto
  moreover have "exists (restore_candidate p n)" using Suc by auto
  ultimately show ?case by (simp add: restore_loop.simps [of p exists n])
qed

section \<open>Properties\<close>

text \<open>
  C14: the three ways a version of a file is computed agree. The iterator yields, once each and in
  order, exactly the versions that \<open>reconstruct\<close> can rebuild from the last full snapshot, with the
  same contents, and the line counts of the history are those of the reconstructed contents, zero
  where there is none.
\<close>

theorem versions_agree_with_reconstruct:
  "collect_versions (file_versions_of edits) =
     List.map_filter (version_entry edits) [1..<Suc (length edits)] \<and>
   version_line_counts edits =
     map (\<lambda>v. case reconstruct edits v of Some c \<Rightarrow> count_lines c | None \<Rightarrow> 0) [1..<Suc (length edits)]"
  using collect_from [of edits "[]" edits] line_counts_from [of edits "[]" edits]
  by (simp add: file_versions_of_def version_line_counts_def replay_def)

text \<open>
  The search for a free name ends. In any file system, which holds finitely many entries, the
  loop over the numbered names stops, and it stops at the first that does not exist, so a restore
  neither overwrites a file nor passes a free name by.
\<close>

theorem restore_target_terminates:
  assumes "finite {p. exists p}"
  shows "\<exists>n. restore_target original exists = Some (restore_candidate original n) \<and> 1 \<le> n \<and>
    \<not> exists (restore_candidate original n) \<and> (\<forall>m. 1 \<le> m \<and> m < n \<longrightarrow> exists (restore_candidate original m))"
proof -
  have "inj (restore_candidate original)" by (simp add: inj_on_def candidate_inject)
  then have "infinite (restore_candidate original ` {1..})"
    using infinite_Ici finite_imageD inj_on_subset by blast
  then have "\<exists>k. 1 \<le> k \<and> \<not> exists (restore_candidate original k)"
    using assms finite_subset [of "restore_candidate original ` {1..}" "{p. exists p}"] by auto
  then obtain k where k: "1 \<le> k \<and> \<not> exists (restore_candidate original k)"
    and least: "\<And>i. i < k \<Longrightarrow> \<not> (1 \<le> i \<and> \<not> exists (restore_candidate original i))"
    using exists_least_iff [of "\<lambda>k. 1 \<le> k \<and> \<not> exists (restore_candidate original k)"] by blast
  then have "restore_target original exists = Some (restore_candidate original k)"
    unfolding restore_target_def by (intro restore_loop_finds) auto
  then show ?thesis using k least by blast
qed

theorem restore_target_terminates_witness:
  "\<exists>n. restore_target (components ''src/main.rs'')
      (\<lambda>p. p \<in> {[Normal ''src'', Normal ''main.recovered.rs''], [Normal ''src'', Normal ''main.recovered_2.rs'']}) =
    Some (restore_candidate (components ''src/main.rs'') n)"
  using restore_target_terminates [of "\<lambda>p. p \<in> {[Normal ''src'', Normal ''main.recovered.rs''],
      [Normal ''src'', Normal ''main.recovered_2.rs'']}" "components ''src/main.rs''"] by auto

lemma restore_target_example:
  "restore_candidate (components ''src/main.rs'') 3 = [Normal ''src'', Normal ''main.recovered_3.rs'']"
  by code_simp

end
