(* ===== verification/Recovery.thy ===== *)
theory Recovery
  imports DurableFs FileHistory
begin

text \<open>
  Publication of recovered files: the staged directories of \<open>durable_fs.rs\<close>, and from \<open>files.rs\<close> the
  publication of all versions of a file as one directory and the restoration of a single version
  under a free name. The file system, failures and interference are those of \<open>DurableFs\<close>.
\<close>

section \<open>Staged directories\<close>

record staged_directory =
  sd_path :: names
  sd_committed :: bool

definition drop_staged_directory :: "staged_directory \<Rightarrow> world \<Rightarrow> world" where
  "drop_staged_directory sd w = (if \<not> sd_committed sd then snd (remove_all_call (sd_path sd) w) else w)"

definition staging_directory :: "process \<Rightarrow> component list \<Rightarrow> string \<Rightarrow> nat \<Rightarrow> 64 word \<Rightarrow> names" where
  "staging_directory pr parent label nonce seq =
     locate (pr_cwd pr) (parent @ [Normal (''.ai-session-search-'' @ label @ ''-stage-'' @ decimal (pr_pid pr) @
       ''-'' @ decimal nonce @ ''-'' @ decimal (unat seq))])"

definition begin_staging ::
    "process \<Rightarrow> component list \<Rightarrow> string \<Rightarrow> world \<Rightarrow> (durable_error + staged_directory) \<times> world" where
  "begin_staging pr parent label w =
     (case components label of
        [Normal _] \<Rightarrow>
          (case pr_nonce pr of
             None \<Rightarrow> (Inl ClockBeforeEpoch, w\<lparr>w_seq := w_seq w + 1\<rparr>)
           | Some nonce \<Rightarrow>
               let p = staging_directory pr parent label nonce (w_seq w)
               in io_bind (io (mkdir_call p)) (\<lambda>_ w'. (Inr \<lparr>sd_path = p, sd_committed = False\<rparr>, w'))
                    (w\<lparr>w_seq := w_seq w + 1\<rparr>))
      | _ \<Rightarrow> (Inl BadStagingLabel, w))"

fun normal_name :: "component \<Rightarrow> string option" where
  "normal_name (Normal n) = Some n"
| "normal_name _ = None"

text \<open>Files get the mode 0o666, from which the process removes its mask.\<close>

definition default_mode :: nat where "default_mode = 438"

definition stage_entry ::
    "staged_directory \<Rightarrow> component list \<Rightarrow> string \<Rightarrow> world \<Rightarrow> (durable_error + unit) \<times> world" where
  "stage_entry sd name content w =
     (if name = [] then (Inl EmptyEntryName, w)
      else if \<not> list_all (\<lambda>c. normal_name c \<noteq> None) name then (Inl EntryNameNotNormal, w)
      else let p = locate (sd_path sd) name
        in io_bind (io (mkdir_all_call (butlast p))) (\<lambda>_.
           io_bind (io (create_call p default_mode)) (\<lambda>_.
           io_bind (io (write_call p content)) (\<lambda>_. io fsync_call))) w)"

definition publish_directory ::
    "process \<Rightarrow> staged_directory \<Rightarrow> component list \<Rightarrow> world \<Rightarrow> (durable_error + unit) \<times> world" where
  "publish_directory pr sd destination w =
     (case io_bind (io (sync_directory (sd_path sd)))
             (\<lambda>_. io (rename_noreplace (sd_path sd) (locate (pr_cwd pr) destination))) w of
        (Inl e, w') \<Rightarrow> (Inl e, drop_staged_directory sd w')
      | (Inr _, w') \<Rightarrow>
          (case io (sync_parent pr destination) w' of
             (r, w'') \<Rightarrow> (r, drop_staged_directory (sd\<lparr>sd_committed := True\<rparr>) w'')))"

section \<open>All versions as one directory\<close>

datatype recovery_error =
    Durable durable_error
  | BaseRefused files_error
  | DestinationNotAbsolute
  | DestinationTaken
  | NoParentDirectory
  | ParentNotDirectory
  | NothingToPublish

definition durable :: "(world \<Rightarrow> (durable_error + 'a) \<times> world) \<Rightarrow> world \<Rightarrow> (recovery_error + 'a) \<times> world" where
  "durable m w = (case m w of (Inl e, w') \<Rightarrow> (Inl (Durable e), w') | (Inr x, w') \<Rightarrow> (Inr x, w'))"

definition versioned_name :: "string \<Rightarrow> nat \<Rightarrow> string" where
  "versioned_name base version =
     (let (stem, ext) = stem_and_extension base;
          s = (if valid_utf8 stem then stem else ''recovered'')
      in case ext of
           Some x \<Rightarrow> if valid_utf8 x then s @ ''_v'' @ decimal version @ ''.'' @ x else s @ ''_v'' @ decimal version
         | None \<Rightarrow> s @ ''_v'' @ decimal version)"

definition versioned_output_name :: "string \<Rightarrow> nat \<Rightarrow> string" where
  "versioned_output_name file_path version =
     versioned_name (safe_output_name (components file_path) file_path) version"

definition is_dir_call :: "names \<Rightarrow> world \<Rightarrow> bool \<times> world" where
  "is_dir_call p w = (case stat_call p w of (meta, w') \<Rightarrow> (meta = Inr DirNode, w'))"

definition recovery_publication_parent ::
    "process \<Rightarrow> component list \<Rightarrow> world \<Rightarrow> (recovery_error + component list) \<times> world" where
  "recovery_publication_parent pr destination w =
     (if take 1 destination \<noteq> [RootDir] then (Inl DestinationNotAbsolute, w)
      else io_bind (durable (io (entry_exists (locate (pr_cwd pr) destination)))) (\<lambda>taken w'.
        if taken then (Inl DestinationTaken, w')
        else case path_parent destination of
          None \<Rightarrow> (Inl NoParentDirectory, w')
        | Some parent \<Rightarrow>
            (case is_dir_call (locate (pr_cwd pr) parent) w' of
               (found, w'') \<Rightarrow> (if found then Inr parent else Inl ParentNotDirectory, w''))) w)"

text \<open>A receipt: the version, where it was published, and the digest of its bytes.\<close>

type_synonym receipt = "nat \<times> component list \<times> string"

fun stage_versions ::
    "(string \<Rightarrow> string) \<Rightarrow> staged_directory \<Rightarrow> component list \<Rightarrow> (nat \<times> string \<times> string) list \<Rightarrow> receipt list \<Rightarrow>
     world \<Rightarrow> (durable_error + receipt list) \<times> world" where
  "stage_versions sha256 sd destination [] files w = (Inr files, w)"
| "stage_versions sha256 sd destination ((version, path, content) # vs) files w =
     (let name = components (versioned_output_name path version)
      in io_bind (stage_entry sd name content)
           (\<lambda>_. stage_versions sha256 sd destination vs
              (files @ [(version, destination @ name, sha256 content)])) w)"

definition publish_reconstructed_versions ::
    "(string \<Rightarrow> string) \<Rightarrow> process \<Rightarrow> (nat \<times> string \<times> string) list \<Rightarrow> component list \<Rightarrow> world \<Rightarrow>
     (recovery_error + receipt list) \<times> world" where
  "publish_reconstructed_versions sha256 pr versions destination =
     io_bind (recovery_publication_parent pr destination) (\<lambda>parent w.
       if versions = [] then (Inl NothingToPublish, w)
       else io_bind (durable (begin_staging pr parent ''recovery'')) (\<lambda>sd w'.
         case stage_versions sha256 sd destination versions [] w' of
           (Inl e, w'') \<Rightarrow> (Inl (Durable e), drop_staged_directory sd w'')
         | (Inr files, w'') \<Rightarrow>
             io_bind (durable (publish_directory pr sd destination)) (\<lambda>_. Pair (Inr files)) w'') w)"

section \<open>Restoring one version\<close>

fun follow :: "nat \<Rightarrow> fs \<Rightarrow> names \<Rightarrow> bool" where
  "follow 0 s p = False"
| "follow (Suc k) s p =
     (if p = [] then True
      else case s p of None \<Rightarrow> False | Some (LinkNode target) \<Rightarrow> follow k s target | Some _ \<Rightarrow> True)"

definition max_links :: nat where "max_links = 41"

text \<open>\<open>Path::exists\<close> follows links, a bounded number of times, and is false on any failure.\<close>

definition exists_call :: "names \<Rightarrow> world \<Rightarrow> bool \<times> world" where
  "exists_call p w =
     (case syscall (\<lambda>s. (if follow max_links s p then Inr () else Inl KNotFound, s)) untouched w of
        (r, w') \<Rightarrow> (r = Inr (), w'))"

partial_function (option) claim_loop ::
    "process \<Rightarrow> component list \<Rightarrow> nat \<Rightarrow> world \<Rightarrow> ((io_kind + component list) \<times> world) option" where
  "claim_loop pr base n w =
     (let path = restore_candidate base n;
          probe = exists_call (locate (pr_cwd pr) path) w
      in if fst probe then claim_loop pr base (n + 1) (snd probe)
         else let opened = create_call (locate (pr_cwd pr) path) default_mode (snd probe)
           in case fst opened of
                Inr _ \<Rightarrow> Some (Inr path, snd opened)
              | Inl k \<Rightarrow>
                  if k = KAlreadyExists then claim_loop pr base 1 (snd opened) else Some (Inl k, snd opened))"

definition make_parent :: "process \<Rightarrow> component list \<Rightarrow> world \<Rightarrow> (durable_error + unit) \<times> world" where
  "make_parent pr base w =
     (case path_parent base of
        Some parent \<Rightarrow> if parent = [] then (Inr (), w) else io (mkdir_all_call (locate (pr_cwd pr) parent)) w
      | None \<Rightarrow> (Inr (), w))"

definition create_recovery_file ::
    "process \<Rightarrow> component list \<Rightarrow> world \<Rightarrow> ((recovery_error + component list) \<times> world) option" where
  "create_recovery_file pr base w =
     (case make_parent pr base w of
        (Inl e, w') \<Rightarrow> Some (Inl (Durable e), w')
      | (Inr _, w') \<Rightarrow>
          (case claim_loop pr base 1 w' of
             None \<Rightarrow> None
           | Some (Inl k, w'') \<Rightarrow> Some (Inl (Durable (IoFailed k)), w'')
           | Some (Inr path, w'') \<Rightarrow> Some (Inr path, w'')))"

text \<open>A file that is not finalised is removed when its guard is dropped.\<close>

definition persist :: "process \<Rightarrow> component list \<Rightarrow> string \<Rightarrow> world \<Rightarrow> (recovery_error + component list) \<times> world" where
  "persist pr path content w =
     (let p = locate (pr_cwd pr) path
      in case io_bind (io (write_call p content)) (\<lambda>_. io fsync_call) w of
           (Inl e, w') \<Rightarrow> (Inl (Durable e), snd (unlink_call p w'))
         | (Inr _, w') \<Rightarrow> (Inr path, w'))"

definition restore_base :: "component list option \<Rightarrow> string \<Rightarrow> files_error + component list" where
  "restore_base output_dir file_path =
     (case output_dir of
        Some dir \<Rightarrow> Inr (dir @ components (safe_output_name (components file_path) file_path))
      | None \<Rightarrow>
          if file_path = [] then Inl EmptyRestorePath
          else res_map (\<lambda>_. components file_path) (ensure_safe_restore_target (components file_path)))"

definition restore_reconstructed ::
    "process \<Rightarrow> string \<Rightarrow> string \<Rightarrow> component list option \<Rightarrow> world \<Rightarrow>
     ((recovery_error + component list) \<times> world) option" where
  "restore_reconstructed pr file_path content output_dir w =
     (case restore_base output_dir file_path of
        Inl e \<Rightarrow> Some (Inl (BaseRefused e), w)
      | Inr base \<Rightarrow>
          (case create_recovery_file pr base w of
             None \<Rightarrow> None
           | Some (Inl e, w') \<Rightarrow> Some (Inl e, w')
           | Some (Inr path, w') \<Rightarrow> Some (persist pr path content w')))"

section \<open>UTF-8 and the parts of a name\<close>

lemma sequence_continues:
  "sequence_length b bs = Some k \<Longrightarrow> k \<le> length bs \<and> (\<forall>x \<in> set (take k bs). continuation x)"
  by (auto simp: sequence_length_def split: if_splits list.splits)

lemma sequence_length_append:
  "sequence_length b (xs @ ys) = Some k \<Longrightarrow> k \<le> length xs \<Longrightarrow> sequence_length b xs = Some k"
  by (cases xs; cases "tl xs"; cases "tl (tl xs)")
    (auto simp: sequence_length_def split: if_splits list.splits)

lemma valid_bytes_split:
  "valid_bytes (xs @ c # ys) \<Longrightarrow> c < 0x80 \<Longrightarrow> valid_bytes xs \<and> valid_bytes ys"
proof (induction xs rule: valid_bytes.induct)
  case 1
  then show ?case by (simp add: sequence_length_def)
next
  case (2 b bs)
  from 2(2) obtain k where k: "sequence_length b (bs @ c # ys) = Some k" "valid_bytes (drop k (bs @ c # ys))"
    by (auto split: option.splits)
  have "k \<le> length bs"
  proof (rule ccontr)
    assume "\<not> k \<le> length bs"
    then have "c \<in> set (take k (bs @ c # ys))" by (simp add: take_Cons')
    then have "continuation c" using sequence_continues [OF k(1)] by blast
    then show False using 2(3) by (simp add: continuation_def)
  qed
  moreover from this have "sequence_length b bs = Some k" using sequence_length_append k(1) by blast
  ultimately show ?case using 2(1) [of k] 2(3) k(2) by simp
qed

lemma valid_utf8_split:
  "valid_utf8 (xs @ c # ys) \<Longrightarrow> (of_char c :: nat) < 0x80 \<Longrightarrow> valid_utf8 xs \<and> valid_utf8 ys"
  using valid_bytes_split [of "map of_char xs" "of_char c" "map of_char ys"] by (simp add: valid_utf8_def)

lemma valid_utf8_pieces:
  assumes "(of_char d :: nat) < 0x80"
  shows "valid_utf8 s \<Longrightarrow> x \<in> set (split_on d s) \<Longrightarrow> valid_utf8 x"
proof -
  have "valid_utf8 (join [d] xss) \<Longrightarrow> x \<in> set xss \<Longrightarrow> valid_utf8 x" for xss
  proof (induction "[d]" xss rule: join.induct)
    case (3 y z ys)
    then have "valid_utf8 y \<and> valid_utf8 (join [d] (z # ys))"
      using valid_utf8_split [of y d "join [d] (z # ys)"] assms by simp
    then show ?case using 3 by (metis set_ConsD)
  qed auto
  from this [of "split_on d s"] show "valid_utf8 s \<Longrightarrow> x \<in> set (split_on d s) \<Longrightarrow> valid_utf8 x"
    by (simp add: join_split_on)
qed

lemma piece_no_separator: "x \<in> set (split_on d s) \<Longrightarrow> d \<notin> set x"
proof (induction d s arbitrary: x rule: split_on.induct)
  case (2 d c cs)
  then show ?case by (cases "split_on d cs") (auto split: if_splits)
qed simp

lemma component_kept:
  "x \<in> set (components p) \<Longrightarrow> x = RootDir \<or> (\<exists>n \<in> set (split_on slash p). n \<noteq> [] \<and> x = component_of n)"
proof -
  have "set (case cs of CurDir # rest \<Rightarrow> CurDir # filter (\<lambda>c. c \<noteq> CurDir) rest | _ \<Rightarrow> filter (\<lambda>c. c \<noteq> CurDir) cs) \<subseteq> set cs" for cs
    by (auto split: list.split component.split)
  then have "set (components p) \<subseteq> insert RootDir (component_of ` set (filter (\<lambda>n. n \<noteq> []) (split_on slash p)))"
    unfolding components_def Let_def set_map [symmetric]
    by (cases "is_absolute p") (simp only: if_True list.set, use filter_is_subset in fast, simp only: if_False, rule subset_insertI2)
  then show "x \<in> set (components p) \<Longrightarrow> x = RootDir \<or> (\<exists>n \<in> set (split_on slash p). n \<noteq> [] \<and> x = component_of n)"
    by auto
qed

lemma component_normal:
  "Normal n \<in> set (components p) \<Longrightarrow> n \<in> set (split_on slash p) \<and> n \<noteq> [] \<and> n \<noteq> ''.'' \<and> n \<noteq> ''..''"
  using component_kept [of "Normal n" p] by (auto simp: component_of_def split: if_splits)

lemma single_component:
  assumes "n \<noteq> []" "n \<noteq> ''.''" "n \<noteq> ''..''" "slash \<notin> set n"
  shows "components n = [Normal n]"
proof -
  have "split_on slash n = [n]"
    using assms(4) by (induction slash n rule: split_on.induct) auto
  then show ?thesis using assms
    by (auto simp: components_def component_of_def is_absolute_def split: list.splits)
qed

lemma safe_output_name_props:
  assumes "valid_utf8 file_path"
  shows "valid_utf8 (safe_output_name (components file_path) file_path) \<and>
    slash \<notin> set (safe_output_name (components file_path) file_path) \<and>
    safe_output_name (components file_path) file_path \<noteq> []"
proof (cases "path_file_name (components file_path)")
  case None
  then show ?thesis
    by (simp add: safe_output_name_def slash_def valid_utf8_def sequence_length_def)
next
  case (Some n)
  then have "Normal n \<in> set (components file_path)"
    by (auto simp: path_file_name_def split: list.splits component.splits)
  then have n: "n \<in> set (split_on slash file_path)" "n \<noteq> []" using component_normal by auto
  then show ?thesis
    using Some valid_utf8_pieces [OF _ assms n(1)] piece_no_separator [OF n(1)]
    by (simp add: safe_output_name_def slash_def)
qed

definition extension_text :: "string option \<Rightarrow> string" where
  "extension_text ext = (case ext of Some x \<Rightarrow> ''.'' @ x | None \<Rightarrow> [])"

lemma in_set_tl: "x \<in> set (tl xs) \<Longrightarrow> x \<in> set xs"
  by (cases xs) auto

lemma stem_valid:
  assumes "valid_utf8 base" "stem_and_extension base = (stem, ext)"
  shows "valid_utf8 stem" "ext = Some x \<Longrightarrow> valid_utf8 x" "ext = Some x \<Longrightarrow> CHR ''.'' \<notin> set x \<and> stem \<noteq> []"
    "ext = None \<Longrightarrow> CHR ''.'' \<notin> set (tl stem)" "base = stem @ extension_text ext"
proof -
  have split: "rsplit_once (CHR ''.'') base = Some (a, b) \<Longrightarrow>
      base = a @ CHR ''.'' # b \<and> CHR ''.'' \<notin> set b \<and> valid_utf8 a \<and> valid_utf8 b" for a b
    using rsplit_once_Some [of "CHR ''.''" base a b] valid_utf8_split [of a "CHR ''.''" b] assms(1) by auto
  show "valid_utf8 stem" "ext = Some x \<Longrightarrow> valid_utf8 x" "ext = Some x \<Longrightarrow> CHR ''.'' \<notin> set x \<and> stem \<noteq> []"
    "ext = None \<Longrightarrow> CHR ''.'' \<notin> set (tl stem)" "base = stem @ extension_text ext"
    using assms split rsplit_once_None [of "CHR ''.''" base]
    by (auto simp: stem_and_extension_def extension_text_def split: option.splits if_splits dest: in_set_tl)
qed

lemma versioned_name_text:
  assumes "valid_utf8 base" "stem_and_extension base = (stem, ext)"
  shows "versioned_name base v = stem @ ''_v'' @ decimal v @ extension_text ext"
  using assms stem_valid [OF assms]
  by (auto simp: versioned_name_def extension_text_def split: option.splits)

lemma versioned_name_tail:
  assumes "stem @ ''_v'' @ decimal m = stem' @ ''_v'' @ decimal n"
  shows "m = n"
proof -
  have digits: "takeWhile is_ascii_digit (rev (x @ ''_v'' @ decimal k)) = rev (decimal k)" for x k
  proof -
    have "\<forall>c \<in> set (rev (decimal k)). is_ascii_digit c" "\<not> is_ascii_digit (CHR ''v'')"
      using decimal_props [of k] by (simp_all add: list_all_iff) (simp add: is_ascii_digit_def)
    then show ?thesis using takeWhile_append2 [of "rev (decimal k)" is_ascii_digit] by simp
  qed
  have "rev (decimal m) = rev (decimal n)" using assms digits by metis
  then show ?thesis by (simp add: decimal_inject)
qed

text \<open>
  Two versions never get the same name, whatever their recorded paths: the version number stands
  before the extension or at the end.
\<close>

lemma versioned_names_distinct:
  assumes "valid_utf8 base" "valid_utf8 base'" "versioned_name base m = versioned_name base' n"
  shows "m = n"
proof -
  obtain stem ext where s: "stem_and_extension base = (stem, ext)" by force
  obtain stem' ext' where s': "stem_and_extension base' = (stem', ext')" by force
  note p = stem_valid [OF assms(1) s] and p' = stem_valid [OF assms(2) s']
  have eq: "stem @ ''_v'' @ decimal m @ extension_text ext = stem' @ ''_v'' @ decimal n @ extension_text ext'"
    using assms(3) versioned_name_text [OF assms(1) s] versioned_name_text [OF assms(2) s'] by simp
  have dots: "CHR ''.'' \<notin> set (''_v'' @ decimal k)" for k
    using decimal_no_char [of "CHR ''.''" k] by (simp add: is_ascii_digit_def)
  have dotted: "rsplit_once (CHR ''.'') (x @ ''_v'' @ decimal k @ extension_text (Some e)) = Some (x @ ''_v'' @ decimal k, e)"
    if "CHR ''.'' \<notin> set e" for x k e
    using rsplit_once_append [OF that, of "x @ ''_v'' @ decimal k"] by (simp add: extension_text_def)
  have undotted: "rsplit_once (CHR ''.'') (x @ ''_v'' @ decimal k) \<noteq> Some (y # ys, e)"
    if "CHR ''.'' \<notin> set (tl x)" for x k y ys e
  proof
    assume "rsplit_once (CHR ''.'') (x @ ''_v'' @ decimal k) = Some (y # ys, e)"
    then have "x @ ''_v'' @ decimal k = (y # ys) @ CHR ''.'' # e" using rsplit_once_Some by blast
    then have "CHR ''.'' \<in> set (tl (x @ ''_v'' @ decimal k))" by simp
    then show False using that dots [of k] by (cases x) auto
  qed
  show ?thesis
  proof (cases ext; cases ext')
    assume "ext = None" "ext' = None"
    then show ?thesis using eq by (intro versioned_name_tail [of stem m stem' n]) (simp add: extension_text_def)
  next
    fix a b assume e: "ext = Some a" "ext' = Some b"
    have "Some (stem @ ''_v'' @ decimal m, a) = Some (stem' @ ''_v'' @ decimal n, b)"
      by (rule trans [OF dotted [OF conjunct1 [OF p(3) [OF e(1)]], of stem m, symmetric, unfolded eq [unfolded e]]
        dotted [OF conjunct1 [OF p'(3) [OF e(2)]], of stem' n]])
    then show ?thesis by (intro versioned_name_tail [of stem m stem' n]) simp
  next
    fix a assume e: "ext = Some a" "ext' = None"
    have "rsplit_once (CHR ''.'') (stem' @ ''_v'' @ decimal n) = Some (stem @ ''_v'' @ decimal m, a)"
      using dotted [OF conjunct1 [OF p(3) [OF e(1)]], of stem m] eq [unfolded e] by (simp add: extension_text_def)
    then show ?thesis using undotted [OF p'(4) [OF e(2)]] p(3) e by (cases stem) auto
  next
    fix b assume e: "ext = None" "ext' = Some b"
    have "rsplit_once (CHR ''.'') (stem @ ''_v'' @ decimal m) = Some (stem' @ ''_v'' @ decimal n, b)"
      using dotted [OF conjunct1 [OF p'(3) [OF e(2)]], of stem' n] eq [unfolded e] by (simp add: extension_text_def)
    then show ?thesis using undotted [OF p(4) [OF e(1)]] p'(3) e by (cases stem') auto
  qed
qed

lemma versioned_output_component:
  assumes "valid_utf8 file_path"
  shows "components (versioned_output_name file_path v) = [Normal (versioned_output_name file_path v)]"
proof -
  let ?base = "safe_output_name (components file_path) file_path"
  obtain stem ext where s: "stem_and_extension ?base = (stem, ext)" by force
  note base = safe_output_name_props [OF assms]
  note spelled = stem_valid(5) [OF _ s] versioned_name_text [OF _ s, of v]
  have "slash \<notin> set (decimal v)" by (rule decimal_no_char) (simp add: is_ascii_digit_def slash_def)
  moreover have "slash \<notin> set stem" "slash \<notin> set (extension_text ext)" using spelled base by auto
  ultimately have "slash \<notin> set (versioned_output_name file_path v)"
    using spelled(2) base by (simp add: versioned_output_name_def slash_def)
  moreover have "length (versioned_output_name file_path v) > 2"
    using spelled(2) base decimal_props [of v] by (cases "decimal v") (auto simp: versioned_output_name_def)
  ultimately show ?thesis by (intro single_component) auto
qed

section \<open>Calls that stay within a staging directory\<close>

definition below :: "names \<Rightarrow> world \<Rightarrow> bool" where
  "below t w \<longleftrightarrow> (\<forall>u \<in> set (w_turns w). \<forall>s q. prefix t q \<longrightarrow> others u s q = s q)"

text \<open>Outside of the directory \<open>t\<close> only missing directories above it are created.\<close>

definition stays :: "names \<Rightarrow> fs \<Rightarrow> fs \<Rightarrow> bool" where
  "stays t s s' \<longleftrightarrow> (\<forall>q. \<not> prefix t q \<longrightarrow> s' q = s q \<or> s q = None \<and> s' q = Some DirNode \<and> strict_prefix q t)"

definition same_below :: "names \<Rightarrow> fs \<Rightarrow> fs \<Rightarrow> bool" where
  "same_below t s s' \<longleftrightarrow> (\<forall>q. prefix t q \<longrightarrow> s' q = s q)"

lemma same_below_refl [simp]: "same_below t s s" by (simp add: same_below_def)

lemma same_below_trans: "same_below t a b \<Longrightarrow> same_below t b c \<Longrightarrow> same_below t a c"
  by (simp add: same_below_def)

lemma stays_refl [simp]: "stays t s s" by (simp add: stays_def)

lemma stays_update [simp]: "prefix t q \<Longrightarrow> stays t s (s(q := x))"
  by (auto simp: stays_def)

lemma stays_append [simp]: "prefix t q \<Longrightarrow> stays t s (append_to q c s)"
  by (auto simp: append_to_def split: option.split node.split)

lemma stays_make_dirs [simp]: "stays t s (make_dirs t n s)"
  unfolding stays_def make_dirs_def by (auto simp: strict_prefix_def)

lemma below_seq [simp]: "below t (w\<lparr>w_seq := k\<rparr>) = below t w" by (simp add: below_def)

lemma syscall_below:
  assumes "below t w" "syscall act partial w = (r, w')"
    and "\<And>s. same_below t (w_fs w) s \<Longrightarrow> G s (snd (act s))"
    and "\<And>f s. same_below t (w_fs w) s \<Longrightarrow> G s (partial f s)"
  obtains s where "same_below t (w_fs w) s" "guarantees G w w'" "below t w'"
    "\<And>x. r = Inr x \<Longrightarrow> act s = (Inr x, w_fs w') \<and> w_log w' = w_log w @ [(s, w_fs w')]"
proof -
  obtain s f where step: "s = others (this_turn w) (w_fs w)" "w_log w' = w_log w @ [(s, w_fs w')]"
    "r = fst (act_on act partial f s)" "w_fs w' = snd (act_on act partial f s)"
    using syscall_step [of w act partial] assms(2) by (metis fst_conv snd_conv)
  have turns: "w_turns w' = tl (w_turns w)" using syscall_turns [of act partial w] assms(2) by simp
  have "others (this_turn w) s q = s q" if "prefix t q" for s q
    using assms(1) that by (auto simp: below_def this_turn_def split: list.splits)
  then have same: "same_below t (w_fs w) s" using step(1) by (simp add: same_below_def)
  have "G s (w_fs w')" using assms(3,4) [OF same] step(4) by (cases f) (auto simp: act_on_def)
  then have g: "guarantees G w w'" using step(2) by (auto simp: guarantees_def)
  have b: "below t w'" using assms(1) turns by (auto simp: below_def dest: in_set_tl)
  have "act s = (Inr x, w_fs w')" if "r = Inr x" for x
    using that step(3,4) by (cases f) (auto simp: act_on_def prod_eq_iff)
  then show ?thesis using that [OF same g b] step(2) by blast
qed

section \<open>Staging and publishing all versions\<close>

text \<open>What is below the staging directory: itself and the files staged so far.\<close>

definition staged :: "names \<Rightarrow> (string \<times> string) list \<Rightarrow> fs \<Rightarrow> bool" where
  "staged t files s \<longleftrightarrow> (\<forall>rel. s (t @ rel) =
     (case rel of [] \<Rightarrow> Some DirNode
      | [n] \<Rightarrow> map_option (RegularFile default_mode) (map_of files n)
      | _ \<Rightarrow> None))"

lemma staged_same: "staged t files s \<Longrightarrow> same_below t s s' \<Longrightarrow> staged t files s'"
  by (simp add: staged_def same_below_def)

lemma staged_dir: "staged t files s \<Longrightarrow> s t = Some DirNode"
  using spec [of "\<lambda>rel. s (t @ rel) = _ rel" "[]"] by (fastforce simp: staged_def)

text \<open>The effect of each call on the directory, when it succeeds.\<close>

definition acts_below :: "names \<Rightarrow> (world \<Rightarrow> (io_kind + 'a) \<times> world) \<Rightarrow> (fs \<Rightarrow> fs \<Rightarrow> bool) \<Rightarrow> bool" where
  "acts_below t call R \<longleftrightarrow> (\<forall>w r w'. below t w \<longrightarrow> call w = (r, w') \<longrightarrow>
     guarantees (stays t) w w' \<and> below t w' \<and>
     (\<forall>x. r = Inr x \<longrightarrow> (\<exists>s. same_below t (w_fs w) s \<and> R s (w_fs w') \<and> w_log w' = w_log w @ [(s, w_fs w')])))"

lemma acts_belowI:
  assumes "\<And>s. stays t s (snd (act s))" "\<And>f s. stays t s (partial f s)" "\<And>s x s'. act s = (Inr x, s') \<Longrightarrow> R s s'"
  shows "acts_below t (syscall act partial) R"
  unfolding acts_below_def
proof (intro allI impI)
  fix w r w' assume w: "below t w" "syscall act partial w = (r, w')"
  show "guarantees (stays t) w w' \<and> below t w' \<and>
     (\<forall>x. r = Inr x \<longrightarrow> (\<exists>s. same_below t (w_fs w) s \<and> R s (w_fs w') \<and> w_log w' = w_log w @ [(s, w_fs w')]))"
    by (rule syscall_below [OF w, of "stays t"]) (use assms in blast)+
qed

lemma acts_belowD:
  assumes "acts_below t call R" "below t w" "call w = (r, w')"
  shows "guarantees (stays t) w w'" "below t w'"
    "r = Inr x \<Longrightarrow> \<exists>s. same_below t (w_fs w) s \<and> R s (w_fs w') \<and> w_log w' = w_log w @ [(s, w_fs w')]"
  using assms unfolding acts_below_def by blast+

lemma mkdir_all_below: "acts_below t (mkdir_all_call t) (\<lambda>s s'. s' = make_dirs t (length t) s)"
  unfolding mkdir_all_call_def by (rule acts_belowI) (auto split: if_splits)

lemma mkdir_below: "acts_below t (mkdir_call t) (\<lambda>s s'. s' = s(t \<mapsto> DirNode))"
  unfolding mkdir_call_def by (rule acts_belowI) (auto simp: untouched_def split: if_splits)

lemma create_below: "prefix t p \<Longrightarrow>
    acts_below t (create_call p m) (\<lambda>s s'. s p = None \<and> s' = s(p \<mapsto> RegularFile m []))"
  unfolding create_call_def by (rule acts_belowI) (auto simp: untouched_def split: if_splits)

lemma write_below: "prefix t p \<Longrightarrow> acts_below t (write_call p c) (\<lambda>s s'. s' = append_to p c s)"
  unfolding write_call_def by (rule acts_belowI) auto

lemma fsync_below: "acts_below t fsync_call (\<lambda>s s'. s' = s)"
  unfolding fsync_call_def by (rule acts_belowI) (auto simp: untouched_def)

lemma remove_all_stays: "guarantees (stays t) w (snd (remove_all_call t w))"
  unfolding remove_all_call_def by (rule syscall_guarantees) (auto simp: stays_def split: if_splits)

lemma drop_directory_stays: "sd_path sd = t \<Longrightarrow> guarantees (stays t) w (drop_staged_directory sd w)"
  using remove_all_stays by (simp add: drop_staged_directory_def)

lemma stage_entry_below:
  assumes "below t w" "staged t files (w_fs w)" "sd_path sd = t"
    and "stage_entry sd [Normal n] content w = (r, w')"
  shows "guarantees (stays t) w w'" "below t w'"
    and "r = Inr x \<Longrightarrow> map_of files n = None \<and> staged t ((n, content) # files) (w_fs w')"
proof -
  let ?p = "t @ [n]"
  have pre: "prefix t ?p" by simp
  obtain r1 w1 where c1: "mkdir_all_call t w = (r1, w1)" by force
  note s1 = acts_belowD [OF mkdir_all_below assms(1) c1]
  obtain r2 w2 where c2: "create_call ?p default_mode w1 = (r2, w2)" by force
  note s2 = acts_belowD [OF create_below [OF pre] s1(2) c2]
  obtain r3 w3 where c3: "write_call ?p content w2 = (r3, w3)" by force
  note s3 = acts_belowD [OF write_below [OF pre] s2(2) c3]
  obtain r4 w4 where c4: "fsync_call w3 = (r4, w4)" by force
  note s4 = acts_belowD [OF fsync_below s3(2) c4]
  note g2 = guarantees_trans [OF s1(1) s2(1)]
  note g3 = guarantees_trans [OF g2 s3(1)]
  note g4 = guarantees_trans [OF g3 s4(1)]
  have run: "stage_entry sd [Normal n] content w =
      (case r1 of Inl k \<Rightarrow> (Inl (IoFailed k), w1) | Inr _ \<Rightarrow>
       (case r2 of Inl k \<Rightarrow> (Inl (IoFailed k), w2) | Inr _ \<Rightarrow>
        (case r3 of Inl k \<Rightarrow> (Inl (IoFailed k), w3) | Inr _ \<Rightarrow>
         (case r4 of Inl k \<Rightarrow> (Inl (IoFailed k), w4) | Inr y \<Rightarrow> (Inr y, w4)))))"
    using c1 c2 c3 c4 assms(3)
    by (simp add: stage_entry_def Let_def io_bind_def io_def split: sum.split)
  show "guarantees (stays t) w w'" "below t w'"
    using run assms(4) s1(1,2) s2(2) s3(2) s4(2) g2 g3 g4 by (auto split: sum.splits)
  show "map_of files n = None \<and> staged t ((n, content) # files) (w_fs w')" if "r = Inr x"
  proof -
    from run assms(4) that obtain x1 x2 x3 where ok: "r1 = Inr x1" "r2 = Inr x2" "r3 = Inr x3" "r4 = Inr x" "w' = w4"
      by (auto split: sum.splits)
    obtain u1 u2 u3 u4 where
      u1: "same_below t (w_fs w) u1" "w_fs w1 = make_dirs t (length t) u1" and
      u2: "same_below t (w_fs w1) u2" "u2 ?p = None" "w_fs w2 = u2(?p \<mapsto> RegularFile default_mode [])" and
      u3: "same_below t (w_fs w2) u3" "w_fs w3 = append_to ?p content u3" and
      u4: "same_below t (w_fs w3) u4" "w_fs w4 = u4"
      using s1(3) [OF ok(1)] s2(3) [OF ok(2)] s3(3) [OF ok(3)] s4(3) [OF ok(4)] by blast
    have "u1 t = Some DirNode" using staged_dir [OF assms(2)] u1(1) by (simp add: same_below_def)
    then have "same_below t u1 (w_fs w1)"
      using u1(2) by (auto simp: same_below_def make_dirs_def dest: prefix_order.antisym)
    then have st: "staged t files u2"
      using staged_same [OF staged_same [OF staged_same [OF assms(2) u1(1)]] u2(1)] by simp
    have "u3 ?p = Some (RegularFile default_mode [])" using u3(1) u2(3) pre unfolding same_below_def by simp
    then have "w_fs w3 = u3(?p \<mapsto> RegularFile default_mode content)"
      using u3(2) by (simp add: append_to_def)
    then have all: "w_fs w' (t @ rel) = (if rel = [n] then Some (RegularFile default_mode content) else u2 (t @ rel))" for rel
      using u4 u3(1) u2(3) ok(5) unfolding same_below_def by simp
    have "map_option (RegularFile default_mode) (map_of files n) = None"
      using st u2(2) unfolding staged_def by (metis (no_types, lifting) list.simps(4,5))
    then have "map_of files n = None" by simp
    then show ?thesis using st all unfolding staged_def by (auto split: list.split)
  qed
qed

definition entries :: "(nat \<times> string \<times> string) list \<Rightarrow> (string \<times> string) list" where
  "entries versions = map (\<lambda>(v, path, content). (versioned_output_name path v, content)) versions"

definition receipts :: "(string \<Rightarrow> string) \<Rightarrow> component list \<Rightarrow> (nat \<times> string \<times> string) list \<Rightarrow> receipt list" where
  "receipts sha256 destination versions =
     map (\<lambda>(v, path, content). (v, destination @ [Normal (versioned_output_name path v)], sha256 content)) versions"

definition text_paths :: "(nat \<times> string \<times> string) list \<Rightarrow> bool" where
  "text_paths versions = list_all (\<lambda>(v, path, content). valid_utf8 path) versions"

lemma stage_versions_below:
  assumes "below t w" "staged t finished (w_fs w)" "distinct (map fst finished)" "sd_path sd = t" "text_paths versions"
    and "stage_versions sha256 sd destination versions files w = (r, w')"
  shows "guarantees (stays t) w w' \<and> below t w' \<and> (\<forall>out. r = Inr out \<longrightarrow>
    staged t (rev (entries versions) @ finished) (w_fs w') \<and> distinct (map fst (rev (entries versions) @ finished)) \<and>
    out = files @ receipts sha256 destination versions)"
  using assms
proof (induction versions arbitrary: files finished w)
  case (Cons e versions)
  obtain v path content where e: "e = (v, path, content)" by (cases e)
  let ?n = "versioned_output_name path v"
  have name: "components ?n = [Normal ?n]"
    using Cons.prems(5) e by (intro versioned_output_component) (simp add: text_paths_def)
  obtain k w1 where st: "stage_entry sd [Normal ?n] content w = (k, w1)" by force
  note entry = stage_entry_below [OF Cons.prems(1,2,4) st]
  show ?case
  proof (cases k)
    case (Inl x)
    then have "r = Inl x" "w' = w1" using Cons.prems(6) st by (simp_all add: e name Let_def io_bind_def)
    then show ?thesis using entry by simp
  next
    case (Inr x)
    then have rest: "stage_versions sha256 sd destination versions
        (files @ [(v, destination @ [Normal ?n], sha256 content)]) w1 = (r, w')"
      using Cons.prems(6) st by (simp add: e name Let_def io_bind_def)
    note new = entry(3) [OF Inr]
    have "distinct (map fst ((?n, content) # finished))"
      using new Cons.prems(3) by (simp add: map_of_eq_None_iff)
    from Cons.IH [OF entry(2) conjunct2 [OF new] this Cons.prems(4) _ rest] Cons.prems(5)
    show ?thesis using guarantees_trans [OF entry(1)]
      by (auto simp: e entries_def receipts_def text_paths_def)
  qed
qed (auto simp: entries_def receipts_def)

definition directory_published :: "names \<Rightarrow> names \<Rightarrow> (string \<times> string) list \<Rightarrow> fs \<Rightarrow> fs \<Rightarrow> bool" where
  "directory_published t d files s s' \<longleftrightarrow> s d = None \<and> staged t files s \<and> staged d files s'"

definition directory_step :: "names \<Rightarrow> names \<Rightarrow> (string \<times> string) list \<Rightarrow> fs \<Rightarrow> fs \<Rightarrow> bool" where
  "directory_step t d files s s' \<longleftrightarrow>
     (\<forall>q. \<not> prefix t q \<and> \<not> prefix d q \<longrightarrow> s' q = s q \<or> s q = None \<and> s' q = Some DirNode \<and> strict_prefix q t) \<and>
     (same_below d s s' \<or> directory_published t d files s s')"

lemma siblings_apart:
  assumes "length t = length d" "t \<noteq> d"
  shows "prefix d q \<Longrightarrow> \<not> prefix t q" "prefix d q \<Longrightarrow> \<not> strict_prefix q t"
proof -
  show "\<not> prefix t q" if "prefix d q"
    using assms that prefix_same_cases [OF that] by (metis prefix_length_prefix prefix_order.antisym le_refl)
  show "\<not> strict_prefix q t" if "prefix d q"
    using assms that by (metis prefix_length_less prefix_length_le not_le)
qed

lemma stays_directory:
  assumes "length t = length d" "t \<noteq> d" "stays t s s'"
  shows "directory_step t d files s s'"
  using assms(3) siblings_apart [OF assms(1,2)] unfolding stays_def directory_step_def same_below_def by blast

lemma rename_publishes:
  assumes "below t w" "staged t files (w_fs w)" "length t = length d" "t \<noteq> d" "rename_noreplace t d w = (r, w')"
  shows "guarantees (directory_step t d files) w w'"
    and "r = Inr x \<Longrightarrow> \<exists>s. directory_published t d files s (w_fs w') \<and> w_log w' = w_log w @ [(s, w_fs w')]"
proof -
  have moved: "directory_step t d files s (snd (rename_exclusive t d s)) \<and>
      (fst (rename_exclusive t d s) = Inr x \<longrightarrow> directory_published t d files s (snd (rename_exclusive t d s)))"
    if "same_below t (w_fs w) s" for s x
  proof (cases "fst (rename_exclusive t d s) = Inr x")
    case True
    have st: "staged t files s" using staged_same [OF assms(2) that] .
    have "s d = None" "snd (rename_exclusive t d s) = move_tree t d s"
      using True staged_dir [OF st] by (auto simp: rename_exclusive_def split: if_splits)
    moreover have "staged d files (move_tree t d s)"
      using st by (simp add: staged_def move_tree_def)
    ultimately have "directory_published t d files s (snd (rename_exclusive t d s))"
      using st by (simp add: directory_published_def)
    moreover have "\<forall>q. \<not> prefix t q \<and> \<not> prefix d q \<longrightarrow> snd (rename_exclusive t d s) q = s q"
      using \<open>snd (rename_exclusive t d s) = move_tree t d s\<close> by (simp add: move_tree_def)
    ultimately show ?thesis by (simp add: directory_step_def)
  next
    case False
    then have "snd (rename_exclusive t d s) = s" by (auto simp: rename_exclusive_def split: if_splits)
    then show ?thesis using False by (simp add: directory_step_def)
  qed
  have "guarantees (directory_step t d files) w w' \<and>
      (\<forall>x. r = Inr x \<longrightarrow> (\<exists>s. directory_published t d files s (w_fs w') \<and> w_log w' = w_log w @ [(s, w_fs w')]))"
  proof (cases "has_nul t \<or> has_nul d")
    case True
    then show ?thesis using assms(5) by (auto simp: rename_noreplace_def)
  next
    case False
    then have call: "syscall (rename_exclusive t d) untouched w = (r, w')"
      using assms(5) by (simp add: rename_noreplace_def)
    show ?thesis
    proof (rule syscall_below [OF assms(1) call, of "directory_step t d files"])
      fix s assume s: "same_below t (w_fs w) s"
      show "directory_step t d files s (snd (rename_exclusive t d s))" using moved [OF s] by blast
      show "directory_step t d files s (untouched f s)" for f
        by (simp add: untouched_def directory_step_def)
    next
      fix s assume s: "same_below t (w_fs w) s" "guarantees (directory_step t d files) w w'"
        "\<And>x. r = Inr x \<Longrightarrow> rename_exclusive t d s = (Inr x, w_fs w') \<and> w_log w' = w_log w @ [(s, w_fs w')]"
      show ?thesis using s(2) s(3) moved [OF s(1)] by fastforce
    qed
  qed
  then show "guarantees (directory_step t d files) w w'"
    and "r = Inr x \<Longrightarrow> \<exists>s. directory_published t d files s (w_fs w') \<and> w_log w' = w_log w @ [(s, w_fs w')]" by blast+
qed

definition directory_appeared :: "names \<Rightarrow> names \<Rightarrow> (string \<times> string) list \<Rightarrow> world \<Rightarrow> world \<Rightarrow> bool" where
  "directory_appeared t d files w w' \<longleftrightarrow>
     (\<exists>e \<in> set (drop (length (w_log w)) (w_log w')). directory_published t d files (fst e) (snd e))"

lemma appeared_later:
  assumes "directory_appeared t d files w1 w2" "guarantees G w w1" "guarantees H w1 w2"
  shows "directory_appeared t d files w w2"
  using assms unfolding directory_appeared_def guarantees_def by auto

lemma publish_directory_steps:
  assumes "below t w" "staged t files (w_fs w)" "length t = length d" "t \<noteq> d" "d = locate (pr_cwd pr) destination"
    and "publish_directory pr \<lparr>sd_path = t, sd_committed = False\<rparr> destination w = (r, w')"
  shows "guarantees (directory_step t d files) w w' \<and> (r = Inr () \<longrightarrow> directory_appeared t d files w w')"
proof -
  let ?sd = "\<lparr>sd_path = t, sd_committed = False\<rparr>"
  have stay: "guarantees (stays t) a b \<Longrightarrow> guarantees (directory_step t d files) a b" for a b
    using stays_directory [OF assms(3,4)] guarantees_mono by blast
  have dropped: "guarantees (directory_step t d files) a (drop_staged_directory ?sd a)" for a
    by (rule stay) (simp add: drop_directory_stays)
  obtain r1 w1 where c1: "fsync_call w = (r1, w1)" by force
  note s1 = acts_belowD [OF fsync_below assms(1) c1]
  obtain r2 w2 where c2: "rename_noreplace t d w1 = (r2, w2)" by force
  obtain r3 w3 where c3: "fsync_call w2 = (r3, w3)" by force
  have g3: "guarantees (directory_step t d files) w2 w3"
    using c3 unfolding fsync_call_def
    by (metis snd_conv syscall_guarantees untouched_def stay stays_refl)
  show ?thesis
  proof (cases r1)
    case (Inl k)
    then have "w' = drop_staged_directory ?sd w1" "r = Inl (IoFailed k)"
      using assms(5,6) c1 by (simp_all add: publish_directory_def io_bind_def io_def sync_directory_def)
    then show ?thesis using guarantees_trans [OF stay [OF s1(1)] dropped] by simp
  next
    case (Inr x)
    then have st: "staged t files (w_fs w1)" using s1(3) staged_same [OF assms(2)] by auto
    note s2 = rename_publishes [OF s1(2) st assms(3,4) c2]
    note g2 = guarantees_trans [OF stay [OF s1(1)] s2(1)]
    show ?thesis
    proof (cases r2)
      case (Inl k)
      then have "w' = drop_staged_directory ?sd w2" "r = Inl (IoFailed k)"
        using assms(5,6) c1 c2 Inr by (simp_all add: publish_directory_def io_bind_def io_def sync_directory_def)
      then show ?thesis using guarantees_trans [OF g2 dropped] by simp
    next
      case (Inr y)
      then have w': "w' = w3"
        using assms(5,6) c1 c2 c3 \<open>r1 = Inr x\<close>
        by (auto simp: publish_directory_def io_bind_def io_def sync_directory_def sync_parent_is_fsync
            drop_staged_directory_def split: sum.splits)
      from s2(2) [OF Inr] have "directory_appeared t d files w1 w2" by (auto simp: directory_appeared_def)
      then have "directory_appeared t d files w w2" using appeared_later s1(1) s2(1) by blast
      moreover obtain new where "w_log w3 = w_log w2 @ new" using g3 by (auto simp: guarantees_def)
      moreover obtain old where "w_log w2 = w_log w @ old" using g2 by (auto simp: guarantees_def)
      ultimately have "directory_appeared t d files w w3" by (auto simp: directory_appeared_def)
      then show ?thesis using w' guarantees_trans [OF g2 g3] by simp
    qed
  qed
qed

lemma staged_rev: "distinct (map fst files) \<Longrightarrow> staged t (rev files) s = staged t files s"
proof -
  assume "distinct (map fst files)"
  then have same: "map_of (rev files) = map_of files"
    using map_of_inject_set [of "rev files" files] by (simp add: rev_map [symmetric])
  show ?thesis unfolding staged_def same ..
qed

lemma staging_directory_eq:
  "\<exists>x. staging_directory pr parent label nonce seq = locate (pr_cwd pr) parent @ [x]"
  by (simp add: staging_directory_def locate_append)

lemma syscall_reads:
  assumes "\<And>s. snd (act s) = s" "\<And>s. G s s"
  shows "guarantees G w (snd (syscall act untouched w))"
  by (rule syscall_guarantees) (use assms in \<open>auto simp: untouched_def, metis snd_conv\<close>)

lemma stat_reads: "(\<And>s. G s s) \<Longrightarrow> guarantees G w (snd (stat_call p w))"
  unfolding stat_call_def by (rule syscall_reads) auto

lemma stat_below: "below t w \<Longrightarrow> below t (snd (stat_call p w))"
  unfolding stat_call_def by (auto simp: below_def dest: in_set_tl)

lemma directory_step_refl: "directory_step t d files s s"
  by (simp add: directory_step_def)

lemma stat_keeps:
  assumes "below t w" "\<forall>q. prefix t q \<longrightarrow> w_fs w q = None" "stat_call p w = (r, w')"
  shows "guarantees (directory_step t d files) w w'" "below t w'" "\<forall>q. prefix t q \<longrightarrow> w_fs w' q = None" "w_seq w' = w_seq w"
proof -
  show "guarantees (directory_step t d files) w w'" "below t w'"
    using stat_reads [of "directory_step t d files" w p] stat_below [OF assms(1), of p] assms(3)
    by (simp_all add: directory_step_refl)
  have call: "syscall (\<lambda>s. (ok_or KNotFound (if p = [] then Some DirNode else s p), s)) untouched w = (r, w')"
    using assms(3) by (simp add: stat_call_def)
  then show "w_seq w' = w_seq w" by (auto simp: syscall_def Let_def)
  have "w_fs w' = others (this_turn w) (w_fs w)"
    using call by (cases "failure (this_turn w)") (auto simp: syscall_def Let_def act_on_def untouched_def)
  moreover have "others (this_turn w) x q = x q" if "prefix t q" for x q
    using assms(1) that by (auto simp: below_def this_turn_def split: list.splits)
  ultimately show "\<forall>q. prefix t q \<longrightarrow> w_fs w' q = None" using assms(2) by simp
qed

lemma recovery_label: "components ''recovery'' = [Normal ''recovery'']"
  by (rule single_component) (simp_all add: slash_def)

lemma begin_staging_below:
  assumes "below t w" "\<forall>q. prefix t q \<longrightarrow> w_fs w q = None" "pr_nonce pr = Some nonce"
    and "t = staging_directory pr parent ''recovery'' nonce (w_seq w)"
    and "begin_staging pr parent ''recovery'' w = (r, w')"
  shows "guarantees (stays t) w w'" "below t w'"
    and "r = Inr sd \<Longrightarrow> sd = \<lparr>sd_path = t, sd_committed = False\<rparr> \<and> staged t [] (w_fs w')"
proof -
  let ?w = "w\<lparr>w_seq := w_seq w + 1\<rparr>"
  obtain k w1 where c: "mkdir_call t ?w = (k, w1)" by force
  have "below t ?w" using assms(1) by simp
  note mk = acts_belowD [OF mkdir_below this c]
  have run: "(r, w') = (case k of Inl e \<Rightarrow> (Inl (IoFailed e), w1)
      | Inr _ \<Rightarrow> (Inr \<lparr>sd_path = t, sd_committed = False\<rparr>, w1))"
    using assms(3-5) c by (simp add: begin_staging_def recovery_label Let_def io_bind_def io_def split: sum.splits)
  then have w': "w' = w1" by (auto split: sum.splits)
  then show "guarantees (stays t) w w'" "below t w'" using mk by simp_all
  show "sd = \<lparr>sd_path = t, sd_committed = False\<rparr> \<and> staged t [] (w_fs w')" if "r = Inr sd"
  proof -
    from that run obtain x where k: "k = Inr x" "sd = \<lparr>sd_path = t, sd_committed = False\<rparr>" by (auto split: sum.splits)
    from mk(3) [OF k(1)] obtain s where s: "same_below t (w_fs w) s" "w_fs w1 = s(t \<mapsto> DirNode)" by auto
    have "s (t @ rel) = None" for rel using s(1) assms(2) by (simp add: same_below_def)
    then show ?thesis using k(2) s(2) w' by (auto simp: staged_def split: list.split)
  qed
qed

section \<open>Properties\<close>

text \<open>
  C16: all versions of a file are published together or not at all. Whatever calls fail and whatever
  other processes do outside of the staging directory, nothing at or below the destination changes
  but by one step, which finds it absent and leaves there a directory with exactly one file for
  every version, under its own name and with its own content; nothing else changes but the staging
  directory. Success means that this step happened, and the receipts list the versions in order.
\<close>

theorem versions_published_together:
  assumes "path_file_name destination = Some name" "pr_nonce pr = Some nonce" "text_paths versions"
    and t: "t = staging_directory pr (butlast destination) ''recovery'' nonce (w_seq w)"
    and d: "d = locate (pr_cwd pr) destination" and apart: "t \<noteq> d"
    and w: "below t w" "\<forall>q. prefix t q \<longrightarrow> w_fs w q = None"
    and "publish_reconstructed_versions sha256 pr versions destination w = (r, w')"
  shows "guarantees (directory_step t d (entries versions)) w w' \<and>
    (\<forall>out. r = Inr out \<longrightarrow> directory_appeared t d (entries versions) w w' \<and> out = receipts sha256 destination versions)"
proof -
  let ?G = "directory_step t d (entries versions)"
  obtain q where q: "destination = q @ [Normal name]"
    using assms(1) by (auto simp: path_file_name_def split: list.splits component.splits)
  have parent: "path_parent destination = Some q" "butlast destination = q" by (simp_all add: q path_parent_def)
  obtain x where x: "t = locate (pr_cwd pr) q @ [x]" using staging_directory_eq t parent by metis
  have len: "length t = length d" using x d q by (simp add: locate_append)
  have stay: "guarantees (stays t) a b \<Longrightarrow> guarantees ?G a b" for a b
    using stays_directory [OF len apart] guarantees_mono by blast
  obtain r1 w1 where c1: "stat_call d w = (r1, w1)" by force
  note s1 = stat_keeps [OF w c1]
  obtain r2 w2 where c2: "stat_call (locate (pr_cwd pr) q) w1 = (r2, w2)" by force
  note s2 = stat_keeps [OF s1(2,3) c2]
  have g2: "guarantees ?G w w2" using guarantees_trans s1(1) s2(1) by blast
  obtain r3 w3 where c3: "begin_staging pr q ''recovery'' w2 = (r3, w3)" by force
  have t2: "t = staging_directory pr q ''recovery'' nonce (w_seq w2)" using t parent s1(4) s2(4) by simp
  note s3 = begin_staging_below [OF s2(2,3) assms(2) t2 c3]
  have g3: "guarantees ?G w w3" using guarantees_trans [OF g2 stay [OF s3(1)]] .
  consider "r \<in> range Inl" "w' \<in> {w, w1, w2, w3}"
    | sd where "r3 = Inr sd" "(case stage_versions sha256 sd destination versions [] w3 of
           (Inl e, w'') \<Rightarrow> (Inl (Durable e), drop_staged_directory sd w'')
         | (Inr files, w'') \<Rightarrow>
             io_bind (durable (publish_directory pr sd destination)) (\<lambda>_. Pair (Inr files)) w'') = (r, w')"
    using assms(9) c1 c2 c3 parent d
    by (cases r1; cases r2; cases r3)
      (auto simp: publish_reconstructed_versions_def recovery_publication_parent_def io_bind_def durable_def io_def
        entry_exists_def is_dir_call_def split: if_splits)
  then show ?thesis
  proof cases
    case 1
    then show ?thesis using s1(1) g2 g3 by auto
  next
    case 2
    note sd = s3(3) [OF 2(1)]
    obtain r4 w4 where c4: "stage_versions sha256 sd destination versions [] w3 = (r4, w4)" by force
    have s4: "guarantees (stays t) w3 w4 \<and> below t w4 \<and> (\<forall>out. r4 = Inr out \<longrightarrow>
        staged t (rev (entries versions) @ []) (w_fs w4) \<and> distinct (map fst (rev (entries versions) @ [])) \<and>
        out = [] @ receipts sha256 destination versions)"
      by (rule stage_versions_below [OF s3(2) conjunct2 [OF sd] _ _ assms(3) c4]) (use sd in simp_all)
    have g4: "guarantees ?G w w4" using guarantees_trans [OF g3 stay] s4 by blast
    show ?thesis
    proof (cases r4)
      case (Inl e)
      then have "w' = drop_staged_directory sd w4" "r = Inl (Durable e)" using 2(2) c4 by simp_all
      then show ?thesis using guarantees_trans [OF g4 stay [OF drop_directory_stays]] sd by simp
    next
      case (Inr out)
      then have files: "staged t (entries versions) (w_fs w4)" "out = receipts sha256 destination versions"
        using s4 staged_rev [of "entries versions"] by (auto simp: rev_map [symmetric])
      obtain r5 w5 where c5: "publish_directory pr sd destination w4 = (r5, w5)" by force
      have s5: "guarantees ?G w4 w5 \<and> (r5 = Inr () \<longrightarrow> directory_appeared t d (entries versions) w4 w5)"
        by (rule publish_directory_steps [OF _ files(1) len apart d]) (use s4 c5 sd in simp_all)
      note g5 = guarantees_trans [OF g4 conjunct1 [OF s5]]
      show ?thesis
      proof (cases r5)
        case (Inl e)
        then have "w' = w5" "r = Inl (Durable e)" using 2(2) c4 Inr c5 \<open>r4 = Inr out\<close>
          by (simp_all add: io_bind_def durable_def)
        then show ?thesis using g5 by simp
      next
        case (Inr u)
        then have "w' = w5" "r = Inr out" using 2(2) c4 c5 \<open>r4 = Inr out\<close>
          by (simp_all add: io_bind_def durable_def)
        moreover have "directory_appeared t d (entries versions) w w5"
          using appeared_later [OF _ g4 conjunct1 [OF s5]] s5 Inr by simp
        ultimately show ?thesis using g5 files(2) by simp
      qed
    qed
  qed
qed

section \<open>Undisturbed publication\<close>

text \<open>The directories above \<open>t\<close> are in order and the destination beside it is free.\<close>

definition room :: "names \<Rightarrow> names \<Rightarrow> fs \<Rightarrow> bool" where
  "room t d s \<longleftrightarrow> (\<forall>q. strict_prefix q t \<and> q \<noteq> [] \<longrightarrow> s q = Some DirNode) \<and> s d = None"

lemma room_stays:
  assumes "room t d s" "stays t s s'" "length t = length d" "t \<noteq> d"
  shows "room t d s'"
proof -
  have "\<not> prefix t q" if "strict_prefix q t" for q
    using that by (meson prefix_order.less_le_not_le)
  moreover have "\<not> prefix t d" "\<not> strict_prefix d t" using siblings_apart [OF assms(3,4), of d] by auto
  ultimately show ?thesis using assms(1,2) unfolding room_def stays_def by (metis option.distinct(1))
qed

lemma room_ancestors:
  assumes "room t d s" "s t = Some DirNode"
  shows "list_all (\<lambda>q. s q = None \<or> s q = Some DirNode) (ancestors t)" "make_dirs t n s = s"
proof -
  have at: "prefix q t \<Longrightarrow> q \<noteq> [] \<Longrightarrow> s q = Some DirNode" for q
    using assms by (cases "q = t") (auto simp: room_def strict_prefix_def)
  have taken: "s (take k t) = Some DirNode" if "1 \<le> k" "k \<le> length t" for k
    by (rule at) (use that in \<open>auto simp: take_is_prefix\<close>)
  show "list_all (\<lambda>q. s q = None \<or> s q = Some DirNode) (ancestors t)"
    unfolding ancestors_def list_all_iff using taken by (auto simp del: upt_Suc)
  show "make_dirs t n s = s" using at by (auto simp: make_dirs_def fun_eq_iff)
qed

lemma quiet_entry:
  assumes "w_turns w = []" "staged t files (w_fs w)" "room t d (w_fs w)" "map_of files n = None"
    and "length t = length d" "t \<noteq> d" "sd_path sd = t"
  obtains w' where "stage_entry sd [Normal n] content w = (Inr (), w')" "w_turns w' = []"
    "staged t ((n, content) # files) (w_fs w')" "room t d (w_fs w')"
proof -
  let ?s = "w_fs w" and ?p = "t @ [n]"
  have t: "?s t = Some DirNode" using staged_dir [OF assms(2)] .
  have free: "?s ?p = None"
    using assms(2,4) unfolding staged_def by (metis (no_types, lifting) list.simps(4,5) option.map(1))
  obtain log where run: "stage_entry sd [Normal n] content w =
      (Inr (), w\<lparr>w_fs := ?s(?p \<mapsto> RegularFile default_mode content), w_log := log\<rparr>)"
    by (rule that) (use assms(1,7) t free room_ancestors [OF assms(3) t] in
      \<open>simp add: stage_entry_def Let_def io_bind_def io_def mkdir_all_call_def create_call_def write_call_def fsync_call_def
        quiet_syscall dir_at_def append_to_def\<close>)
  let ?w = "w\<lparr>w_fs := ?s(?p \<mapsto> RegularFile default_mode content), w_log := log\<rparr>"
  have "below t w" using assms(1) by (simp add: below_def)
  from stage_entry_below(3) [OF this assms(2,7) run, of "()"] have st: "staged t ((n, content) # files) (w_fs ?w)" by simp
  have "stays t ?s (w_fs ?w)" by simp
  from room_stays [OF assms(3) this assms(5,6)] have "room t d (w_fs ?w)" .
  then show ?thesis using that [OF run] st assms(1) by simp
qed

lemma quiet_versions:
  assumes "w_turns w = []" "staged t finished (w_fs w)" "room t d (w_fs w)" "text_paths versions"
    and "distinct (map fst (rev (entries versions) @ finished))" "length t = length d" "t \<noteq> d" "sd_path sd = t"
  shows "\<exists>out w'. stage_versions sha256 sd destination versions files w = (Inr out, w') \<and> w_turns w' = [] \<and> room t d (w_fs w')"
  using assms
proof (induction versions arbitrary: files finished w)
  case (Cons e versions)
  obtain v path content where e: "e = (v, path, content)" by (cases e)
  let ?n = "versioned_output_name path v"
  have name: "components ?n = [Normal ?n]"
    using Cons.prems(4) e by (intro versioned_output_component) (simp add: text_paths_def)
  have new: "map_of finished ?n = None"
    using Cons.prems(5) by (auto simp: e entries_def map_of_eq_None_iff)
  obtain w1 where w1: "stage_entry sd [Normal ?n] content w = (Inr (), w1)" "w_turns w1 = []"
    "staged t ((?n, content) # finished) (w_fs w1)" "room t d (w_fs w1)"
    using quiet_entry [OF Cons.prems(1-3) new Cons.prems(6-8)] by metis
  have "\<exists>out w'. stage_versions sha256 sd destination versions (files @ [(v, destination @ [Normal ?n], sha256 content)]) w1 =
      (Inr out, w') \<and> w_turns w' = [] \<and> room t d (w_fs w')"
    by (rule Cons.IH [OF w1(2-4) _ _ Cons.prems(6-8)])
      (use Cons.prems(4,5) in \<open>auto simp: e entries_def text_paths_def\<close>)
  then show ?case using w1(1) by (simp add: e name Let_def io_bind_def)
qed auto

lemma entries_distinct:
  assumes "text_paths versions" "distinct (map fst versions)"
  shows "distinct (map fst (entries versions))"
  using assms
proof (induction versions)
  case (Cons e versions)
  obtain v path content where e: "e = (v, path, content)" by (cases e)
  have "versioned_output_name path v \<noteq> versioned_output_name path' v'"
    if "(v', path', content') \<in> set versions" for v' path' content'
  proof
    assume same: "versioned_output_name path v = versioned_output_name path' v'"
    have "valid_utf8 path" "valid_utf8 path'" using Cons.prems(1) e that by (auto simp: text_paths_def list_all_iff)
    then have "v = v'"
      using versioned_names_distinct same safe_output_name_props unfolding versioned_output_name_def by blast
    then show False using Cons.prems(2) e that by force
  qed
  then have "versioned_output_name path v \<notin> set (map fst (entries versions))"
    unfolding entries_def by fastforce
  then show ?case using Cons by (simp add: e entries_def text_paths_def)
qed (simp add: entries_def)

lemma version_entry_number: "version_entry edits v = Some (v', p, c) \<Longrightarrow> v' = v"
  by (auto simp: version_entry_def)

lemma collected_versions_distinct: "distinct (map fst (collect_versions (file_versions_of edits)))"
proof -
  have "map fst (List.map_filter (version_entry edits) vs) = filter (\<lambda>v. version_entry edits v \<noteq> None) vs" for vs
    by (induction vs) (auto simp: List.map_filter_simps dest: version_entry_number split: option.split)
  moreover have "collect_versions (file_versions_of edits) = List.map_filter (version_entry edits) [1..<Suc (length edits)]"
    using collect_from [of edits "[]" edits] by (simp add: file_versions_of_def replay_def)
  ultimately show ?thesis by simp
qed

lemma collected_text_paths:
  assumes "\<forall>e \<in> set edits. valid_utf8 (fe_file_path e)"
  shows "text_paths (collect_versions (file_versions_of edits))"
proof -
  have "text_paths (List.map_filter (version_entry edits) [1..<Suc (length edits)])"
    using assms by (auto simp: text_paths_def list_all_iff List.map_filter_def version_entry_def)
  moreover have "collect_versions (file_versions_of edits) = List.map_filter (version_entry edits) [1..<Suc (length edits)]"
    using collect_from [of edits "[]" edits] by (simp add: file_versions_of_def replay_def)
  ultimately show ?thesis by simp
qed

lemma quiet_rename:
  assumes "w_turns w = []" "staged t files (w_fs w)" "room t d (w_fs w)" "length t = length d" "t \<noteq> d"
    and "butlast t = butlast d" "\<not> has_nul t" "\<not> has_nul d" "d \<noteq> []"
  shows "\<exists>log. rename_noreplace t d w = (Inr (), w\<lparr>w_fs := move_tree t d (w_fs w), w_log := log\<rparr>)"
proof -
  have "strict_prefix (butlast t) t" using assms(4,9) by (metis append_butlast_last_id length_0_conv not_Cons_self2 prefixI same_append_eq self_append_conv strict_prefixI)
  then have "dir_at (w_fs w) (butlast d)" using assms(3,6) by (auto simp: room_def dir_at_def)
  moreover have "\<not> prefix t d" using siblings_apart(1) [OF assms(4,5), of d] by simp
  ultimately show ?thesis
    using assms staged_dir [OF assms(2)]
    by (intro exI [of _ "w_log w @ [(w_fs w, move_tree t d (w_fs w))]"])
      (simp add: rename_noreplace_def quiet_syscall rename_exclusive_def room_def)
qed

lemma quiet_directory:
  assumes "w_turns w = []" "staged t files (w_fs w)" "room t d (w_fs w)" "length t = length d" "t \<noteq> d"
    and "butlast t = butlast d" "\<not> has_nul t" "\<not> has_nul d" "d \<noteq> []" "d = locate (pr_cwd pr) destination"
  shows "\<exists>w'. publish_directory pr \<lparr>sd_path = t, sd_committed = False\<rparr> destination w = (Inr (), w') \<and> staged d files (w_fs w')"
proof -
  let ?w = "w\<lparr>w_log := w_log w @ [(w_fs w, w_fs w)]\<rparr>"
  obtain log where mv: "rename_noreplace t d ?w = (Inr (), ?w\<lparr>w_fs := move_tree t d (w_fs w), w_log := log\<rparr>)"
    using quiet_rename [of ?w t files d] assms by auto
  have "staged d files (move_tree t d (w_fs w))"
    using assms(2) by (simp add: staged_def move_tree_def)
  then show ?thesis
    using assms(1,10) mv
    by (simp add: publish_directory_def io_bind_def io_def sync_directory_def sync_parent_is_fsync fsync_call_def
        quiet_syscall drop_staged_directory_def)
qed

text \<open>
  C30: recovery of a whole history succeeds. For the recorded edits of one file, in a file system that
  no other process changes and where no call fails, with an absolute, free destination in an
  existing directory, the versions the iterator yields are all published: each under a name of its
  own, with its content, and the receipts list them in order.
\<close>

theorem every_version_is_published:
  assumes paths: "\<forall>e \<in> set edits. valid_utf8 (fe_file_path e)"
    and versions: "versions = collect_versions (file_versions_of edits)" "versions \<noteq> []"
    and dest: "path_file_name destination = Some name" "take 1 destination = [RootDir]" "d = locate (pr_cwd pr) destination"
    and clock: "pr_nonce pr = Some nonce"
    and t: "t = staging_directory pr (butlast destination) ''recovery'' nonce (w_seq w)" "t \<noteq> d" "\<not> has_nul t" "\<not> has_nul d"
    and fs: "w_turns w = []" "room t d (w_fs w)" "\<forall>q. prefix t q \<longrightarrow> w_fs w q = None"
  shows "\<exists>w'. publish_reconstructed_versions sha256 pr versions destination w = (Inr (receipts sha256 destination versions), w') \<and>
    (\<forall>(v, path, content) \<in> set versions.
       w_fs w' (d @ [versioned_output_name path v]) = Some (RegularFile default_mode content))"
proof -
  have utf8: "text_paths versions" using collected_text_paths [OF paths] versions by simp
  have dist: "distinct (map fst (entries versions))"
    by (rule entries_distinct [OF utf8]) (unfold versions(1), rule collected_versions_distinct)
  obtain q where q: "destination = q @ [Normal name]"
    using dest(1) by (auto simp: path_file_name_def split: list.splits component.splits)
  have parent: "path_parent destination = Some q" "butlast destination = q" by (simp_all add: q path_parent_def)
  obtain x where x: "t = locate (pr_cwd pr) q @ [x]" using staging_directory_eq t(1) parent by metis
  have geo: "length t = length d" "butlast t = butlast d" "d \<noteq> []" "locate (pr_cwd pr) q = butlast d"
    using x dest(3) q by (simp_all add: locate_append)
  have dir: "w_fs w (butlast d) = Some DirNode \<or> butlast d = []"
    using fs(2) x geo by (auto simp: room_def strict_prefix_def)
  have free: "w_fs w d = None" using fs(2) by (simp add: room_def)
  define w1 where "w1 = w\<lparr>w_log := w_log w @ [(w_fs w, w_fs w), (w_fs w, w_fs w)]\<rparr>"
  have prologue: "recovery_publication_parent pr destination w = (Inr q, w1)"
    using dest(2,3) parent geo dir free fs(1)
    by (auto simp: recovery_publication_parent_def io_bind_def durable_def io_def entry_exists_def is_dir_call_def
        stat_call_def quiet_syscall w1_def)
  have w1: "w_turns w1 = []" "w_fs w1 = w_fs w" "w_seq w1 = w_seq w" by (simp_all add: w1_def fs)
  have b1: "below t w1" using w1 by (simp add: below_def)
  obtain w2 where w2: "begin_staging pr q ''recovery'' w1 = (Inr \<lparr>sd_path = t, sd_committed = False\<rparr>, w2)" "w_turns w2 = []"
  proof -
    have "dir_at (w_fs w) (butlast t)" using dir geo by (auto simp: dir_at_def)
    moreover have "w_fs w t = None" "t \<noteq> []" using fs(3) x by auto
    ultimately show ?thesis
      using that t(1) clock w1 parent
      by (simp add: begin_staging_def recovery_label Let_def io_bind_def io_def mkdir_call_def quiet_syscall)
  qed
  have b: "guarantees (stays t) w1 w2" "staged t [] (w_fs w2)"
    using begin_staging_below [OF b1 _ clock _ w2(1)] fs(3) w1 t(1) parent by auto
  have "stays t (w_fs w1) (w_fs w2)"
    using w2(1) t(1) clock w1 parent
    by (auto simp: begin_staging_def recovery_label Let_def io_bind_def io_def mkdir_call_def quiet_syscall split: if_splits)
  then have room2: "room t d (w_fs w2)" using room_stays [OF _ _ geo(1) t(2)] fs(2) w1 by metis
  let ?sd = "\<lparr>sd_path = t, sd_committed = False\<rparr>"
  obtain out w3 where w3: "stage_versions sha256 ?sd destination versions [] w2 = (Inr out, w3)" "w_turns w3 = []" "room t d (w_fs w3)"
    using quiet_versions [OF w2(2) b(2) room2 utf8 _ geo(1) t(2), of ?sd sha256 destination "[]"] dist
    by (auto simp: rev_map [symmetric])
  have "below t w2" using w2(2) by (simp add: below_def)
  from stage_versions_below [OF this b(2) _ _ utf8 w3(1)]
  have s3: "staged t (rev (entries versions)) (w_fs w3)" "out = receipts sha256 destination versions" by simp_all
  then have st: "staged t (entries versions) (w_fs w3)" using staged_rev [OF dist] by simp
  obtain w4 where w4: "publish_directory pr ?sd destination w3 = (Inr (), w4)" "staged d (entries versions) (w_fs w4)"
    using quiet_directory [OF w3(2) st w3(3) geo(1) t(2) geo(2) t(3,4) geo(3) dest(3)] by blast
  have "publish_reconstructed_versions sha256 pr versions destination w = (Inr out, w4)"
    using prologue versions(2) w2(1) w3(1) w4(1)
    by (simp add: publish_reconstructed_versions_def io_bind_def durable_def)
  moreover have "w_fs w4 (d @ [versioned_output_name path v]) = Some (RegularFile default_mode content)"
    if "(v, path, content) \<in> set versions" for v path content
  proof -
    have "(versioned_output_name path v, content) \<in> set (entries versions)"
      using that by (force simp: entries_def)
    then have "map_of (entries versions) (versioned_output_name path v) = Some content"
      using dist map_of_is_SomeI by metis
    then show ?thesis using w4(2) by (simp add: staged_def)
  qed
  ultimately show ?thesis using s3(2) by auto
qed

theorem every_version_is_published_witness:
  fixes edits :: "nat file_edit list" and pr w destination
  defines "edits \<equiv> [\<lparr>fe_seq = 0, fe_ts = None, fe_tool = ''Write'', fe_file_path = ''/a'', fe_file_name = ''a'',
    fe_new_content = Some ''x'', fe_edits = []\<rparr>]"
  defines "pr \<equiv> \<lparr>pr_pid = 7, pr_cwd = [], pr_nonce = Some 5\<rparr>"
  defines "w \<equiv> \<lparr>w_fs = Map.empty, w_turns = [], w_log = [], w_seq = 0\<rparr>"
  defines "destination \<equiv> [RootDir, Normal ''out'']"
  shows "\<exists>w'. publish_reconstructed_versions id pr (collect_versions (file_versions_of edits)) destination w =
    (Inr (receipts id destination (collect_versions (file_versions_of edits))), w')"
proof -
  let ?t = "staging_directory pr (butlast destination) ''recovery'' 5 (w_seq w)"
  have digits: "c \<notin> set (decimal n)" if "\<not> is_ascii_digit c" for c n by (rule decimal_no_char [OF that])
  have loc: "?t = [''.ai-session-search-recovery-stage-'' @ decimal 7 @ ''-'' @ decimal 5 @ ''-'' @ decimal 0]"
    by (simp add: staging_directory_def destination_def pr_def w_def)
  have nul: "\<not> has_nul ?t"
    unfolding loc using digits [of "CHR 0x00"] by (simp add: has_nul_def is_ascii_digit_def)
  have other: "?t \<noteq> [''out'']" unfolding loc by simp
  have "\<exists>w'. publish_reconstructed_versions id pr (collect_versions (file_versions_of edits)) destination w =
      (Inr (receipts id destination (collect_versions (file_versions_of edits))), w') \<and>
    (\<forall>(v, path, content) \<in> set (collect_versions (file_versions_of edits)).
       w_fs w' ([''out''] @ [versioned_output_name path v]) = Some (RegularFile default_mode content))"
  proof (rule every_version_is_published [OF _ refl _ _ _ _ _ refl other nul])
    show "collect_versions (file_versions_of edits) \<noteq> []"
      by (simp add: edits_def file_versions_of_def collect_step advance_reconstruction_def Let_def)
    show "room ?t [''out''] (w_fs w)" unfolding loc by (auto simp: room_def w_def strict_prefix_def prefix_Cons)
  qed (simp_all add: edits_def pr_def w_def destination_def path_file_name_def valid_utf8_def sequence_length_def has_nul_def)
  then show ?thesis by blast
qed

theorem versions_published_together_witness:
  fixes pr w destination
  defines "pr \<equiv> \<lparr>pr_pid = 7, pr_cwd = [], pr_nonce = Some 5\<rparr>"
  defines "w \<equiv> \<lparr>w_fs = Map.empty, w_turns = [Turn (\<lambda>s. s([''other''] \<mapsto> DirNode)) None,
      Turn (\<lambda>s. s) (Some \<lparr>ft_kind = KOther, ft_done = 0, ft_gone = \<lambda>_. True\<rparr>)], w_log = [], w_seq = 0\<rparr>"
  defines "destination \<equiv> [RootDir, Normal ''out'']"
  shows "guarantees (directory_step (staging_directory pr (butlast destination) ''recovery'' 5 (w_seq w)) [''out''] (entries [(1, ''/a'', ''x'')])) w
    (snd (publish_reconstructed_versions id pr [(1, ''/a'', ''x'')] destination w))"
proof -
  let ?t = "staging_directory pr (butlast destination) ''recovery'' 5 (w_seq w)"
  have loc: "?t = [''.ai-session-search-recovery-stage-'' @ decimal 7 @ ''-'' @ decimal 5 @ ''-'' @ decimal 0]"
    by (simp add: staging_directory_def destination_def pr_def w_def)
  have other: "?t \<noteq> [''out'']" "\<not> prefix ?t [''other'']" unfolding loc by simp_all
  have calm: "below ?t w" using other(2) by (auto simp: below_def w_def)
  show ?thesis
    by (rule conjunct1 [OF versions_published_together [OF _ _ _ refl _ other(1) calm _ surjective_pairing]])
      (simp_all add: path_file_name_def destination_def pr_def w_def text_paths_def valid_utf8_def sequence_length_def)
qed

section \<open>Restoring a single version\<close>

definition recovery_directory :: "process \<Rightarrow> component list \<Rightarrow> names" where
  "recovery_directory pr base = locate (pr_cwd pr) (case path_parent base of Some dir \<Rightarrow> dir | None \<Rightarrow> [CurDir])"

definition candidate_at :: "process \<Rightarrow> component list \<Rightarrow> nat \<Rightarrow> names" where
  "candidate_at pr base n = locate (pr_cwd pr) (restore_candidate base n)"

lemma candidate_at_eq:
  "candidate_at pr base n = recovery_directory pr base @ [candidate_name (path_file_name base) n]"
  by (simp add: candidate_at_def recovery_directory_def restore_candidate_def locate_append split: option.split)


definition parents_exist :: "names \<Rightarrow> fs \<Rightarrow> bool" where
  "parents_exist d s \<longleftrightarrow> (\<forall>q. prefix q d \<and> q \<noteq> [] \<longrightarrow> s q = Some DirNode)"

lemma parents_exist_dirs:
  assumes "parents_exist d s"
  shows "list_all (\<lambda>q. s q = None \<or> s q = Some DirNode) (ancestors d)" "make_dirs d n s = s" "dir_at s d"
proof -
  have taken: "s (take k d) = Some DirNode" if "1 \<le> k" "k \<le> length d" for k
    by (rule assms [unfolded parents_exist_def, rule_format]) (use that in \<open>auto simp: take_is_prefix\<close>)
  show "list_all (\<lambda>q. s q = None \<or> s q = Some DirNode) (ancestors d)"
    unfolding ancestors_def list_all_iff using taken by (auto simp del: upt_Suc)
  show "make_dirs d n s = s" "dir_at s d"
    using assms by (auto simp: parents_exist_def make_dirs_def dir_at_def fun_eq_iff)
qed

lemma quiet_make_parent:
  assumes "w_turns w = []" "parents_exist (recovery_directory pr base) (w_fs w)"
  obtains log where "make_parent pr base w = (Inr (), w\<lparr>w_log := log\<rparr>)"
proof (cases "path_parent base = None \<or> path_parent base = Some []")
  case True
  then have "make_parent pr base w = (Inr (), w\<lparr>w_log := w_log w\<rparr>)" by (auto simp: make_parent_def)
  then show ?thesis using that by blast
next
  case False
  then obtain parent where parent: "path_parent base = Some parent" "parent \<noteq> []" by auto
  then have "parents_exist (locate (pr_cwd pr) parent) (w_fs w)" using assms(2) by (simp add: recovery_directory_def)
  note dirs = parents_exist_dirs [OF this]
  have "make_parent pr base w = (Inr (), w\<lparr>w_log := w_log w @ [(w_fs w, w_fs w)]\<rparr>)"
    using parent dirs assms(1) by (simp add: make_parent_def mkdir_all_call_def io_def quiet_syscall)
  then show ?thesis using that by blast
qed

lemma quiet_exists:
  "w_turns w = [] \<Longrightarrow> exists_call p w =
    (follow max_links (w_fs w) p, w\<lparr>w_log := w_log w @ [(w_fs w, w_fs w)]\<rparr>)"
  by (simp add: exists_call_def quiet_syscall)





text \<open>
  C40: a link to nowhere makes restoration hang. The candidate name is chosen with
  \<open>Path::exists\<close>, which follows links, and claimed with \<open>create_new\<close>, which does not: with a dangling
  link under the first candidate name the first finds the name free, the second finds it taken, and
  the loop starts over without end.
\<close>

theorem dangling_link_hangs_restoration:
  assumes "restore_base output_dir file_path = Inr base" "w_turns w = []"
    and "parents_exist (recovery_directory pr base) (w_fs w)"
    and "w_fs w (candidate_at pr base 1) = Some (LinkNode target)" "\<not> follow max_links (w_fs w) (candidate_at pr base 1)"
  shows "restore_reconstructed pr file_path content output_dir w = None"
proof -
  let ?stuck = "\<lambda>w'. w_turns w' = [] \<and> w_fs w' = w_fs w"
  have stuck: "claim_loop pr' base' n v = Some y \<Longrightarrow> \<not> (pr' = pr \<and> base' = base \<and> n = 1 \<and> ?stuck v)" for pr' base' n v y
  proof (erule claim_loop.raw_induct [rotated])
    fix loop pr' base' n v y
    assume IH: "\<And>pr' base' n v y. loop pr' base' n v = Some y \<Longrightarrow>
        \<not> (pr' = pr \<and> base' = base \<and> n = 1 \<and> ?stuck v)"
      and body: "(let path = restore_candidate base' n; probe = exists_call (locate (pr_cwd pr') path) v
        in if fst probe then loop pr' base' (n + 1) (snd probe)
           else let opened = create_call (locate (pr_cwd pr') path) default_mode (snd probe)
             in case fst opened of Inl k \<Rightarrow> if k = KAlreadyExists then loop pr' base' 1 (snd opened) else Some (Inl k, snd opened)
                | Inr u \<Rightarrow> Some (Inr path, snd opened)) = Some y"
    show "\<not> (pr' = pr \<and> base' = base \<and> n = 1 \<and> ?stuck v)"
    proof
      assume v: "pr' = pr \<and> base' = base \<and> n = 1 \<and> ?stuck v"
      then have "\<exists>v'. ?stuck v' \<and> loop pr base 1 v' = Some y"
        using body assms(4,5)
        by (intro exI [of _ "v\<lparr>w_fs := w_fs w, w_log := w_log v @ [(w_fs w, w_fs w), (w_fs w, w_fs w)]\<rparr>"])
          (auto simp: Let_def candidate_at_def [symmetric] quiet_exists create_call_def quiet_syscall split: if_splits)
      then show False using IH by blast
    qed
  qed
  obtain log where mp: "make_parent pr base w = (Inr (), w\<lparr>w_log := log\<rparr>)"
    using quiet_make_parent [OF assms(2,3)] .
  have "claim_loop pr base 1 (w\<lparr>w_log := log\<rparr>) = None"
    using stuck [of pr base 1 "w\<lparr>w_log := log\<rparr>"] assms(2) by (cases "claim_loop pr base 1 (w\<lparr>w_log := log\<rparr>)") auto
  then show ?thesis using assms(1) mp by (simp add: restore_reconstructed_def create_recovery_file_def)
qed

theorem dangling_link_hangs_restoration_witness:
  fixes pr w
  defines "pr \<equiv> \<lparr>pr_pid = 7, pr_cwd = [], pr_nonce = Some 5\<rparr>"
  defines "w \<equiv> \<lparr>w_fs = [[''m.recovered''] \<mapsto> LinkNode [''gone'']], w_turns = [], w_log = [], w_seq = 0\<rparr>"
  shows "restore_reconstructed pr ''/m'' ''x'' None w = None"
proof (rule dangling_link_hangs_restoration)
  show "restore_base None ''/m'' = Inr [RootDir, Normal ''m'']"
    by (simp add: restore_base_def ensure_safe_restore_target_def components_def component_of_def is_absolute_def slash_def)
  have at: "candidate_at pr [RootDir, Normal ''m''] 1 = [''m.recovered'']"
    by (simp add: candidate_at_eq recovery_directory_def path_parent_def path_file_name_def candidate_name_def
        stem_and_extension_def rsplit_once_def valid_utf8_def sequence_length_def recovered_marker_def pr_def)
  show "w_fs w (candidate_at pr [RootDir, Normal ''m''] 1) = Some (LinkNode [''gone''])"
    "\<not> follow max_links (w_fs w) (candidate_at pr [RootDir, Normal ''m''] 1)"
    unfolding at by (simp_all add: w_def max_links_def numeral_eq_Suc)
qed (simp_all add: w_def pr_def parents_exist_def recovery_directory_def path_parent_def)

end
