(* ===== verification/CrashLogic.thy ===== *)
theory CrashLogic
  imports DurableFs
begin

text \<open>
  A logic for crash states. A set \<open>V\<close> of locations is in view; other processes leave those and the
  staging files alone, and a call that fails does not claim that its entry is missing.
  \<open>crash_run pr V I v m Q\<close> says of a program \<open>m\<close> that starts where the locations in view hold \<open>v\<close>:
  at every one of its system calls, so wherever it is cut off, the view satisfies \<open>I\<close>, and when it
  returns, \<open>Q\<close> relates its result to the view. All failures of calls are covered. \<open>calm_run s m Q\<close>
  says of a program that starts in the file system \<open>s\<close> and is not disturbed that \<open>Q\<close> relates its
  result to the file system it leaves.
\<close>

section \<open>Calls on links\<close>

text \<open>\<open>fs::read\<close> follows links.\<close>

fun read_node :: "nat \<Rightarrow> fs \<Rightarrow> names \<Rightarrow> io_kind + string" where
  "read_node 0 s p = Inl KOther"
| "read_node (Suc k) s p =
     (case s p of
        None \<Rightarrow> Inl KNotFound
      | Some (RegularFile _ c) \<Rightarrow> Inr c
      | Some (LinkNode target) \<Rightarrow> read_node k s target
      | Some _ \<Rightarrow> Inl KOther)"

definition link_depth :: nat where "link_depth = 41"

definition read_call :: "names \<Rightarrow> world \<Rightarrow> (io_kind + string) \<times> world" where
  "read_call p = syscall (\<lambda>s. (read_node link_depth s p, s)) untouched"

definition readlink_call :: "names \<Rightarrow> world \<Rightarrow> (io_kind + names) \<times> world" where
  "readlink_call p = syscall (\<lambda>s. (case s p of Some (LinkNode t) \<Rightarrow> Inr t | None \<Rightarrow> Inl KNotFound | _ \<Rightarrow> Inl KOther, s)) untouched"

definition symlink_call :: "names \<Rightarrow> names \<Rightarrow> world \<Rightarrow> (io_kind + unit) \<times> world" where
  "symlink_call target p = syscall
     (\<lambda>s. if p = [] \<or> s p \<noteq> None then (Inl KAlreadyExists, s)
          else if \<not> dir_at s (butlast p) then (Inl KNotFound, s) else (Inr (), s(p \<mapsto> LinkNode target)))
     untouched"

section \<open>Linked runs\<close>

definition shielded :: "process \<Rightarrow> names set \<Rightarrow> world \<Rightarrow> bool" where
  "shielded pr V w \<longleftrightarrow> (\<forall>q \<in> V. rely q w) \<and> (\<forall>d n k. rely (staging_location pr d n k) w) \<and>
     (\<forall>t \<in> set (w_turns w). \<forall>f. failure t = Some f \<longrightarrow> ft_kind f = KOther)"

fun linked :: "names set \<Rightarrow> fs \<Rightarrow> (fs \<times> fs) list \<Rightarrow> fs \<Rightarrow> bool" where
  "linked V s [] s' \<longleftrightarrow> s |` V = s' |` V"
| "linked V s ((a, b) # l) s' \<longleftrightarrow> s |` V = a |` V \<and> linked V b l s'"

definition follows :: "process \<Rightarrow> names set \<Rightarrow> world \<Rightarrow> world \<Rightarrow> bool" where
  "follows pr V w w' \<longleftrightarrow> (w_turns w = [] \<longrightarrow> w_turns w' = []) \<and> (shielded pr V w \<longrightarrow> shielded pr V w' \<and>
     (\<exists>new. w_log w' = w_log w @ new \<and> linked V (w_fs w) new (w_fs w')))"

lemma linked_append: "linked V s l1 u \<Longrightarrow> linked V u l2 s' \<Longrightarrow> linked V s (l1 @ l2) s'"
proof (induction V s l1 u rule: linked.induct)
  case (1 V s u)
  then show ?case by (cases l2) auto
qed auto

lemma follows_refl [simp, intro]: "follows pr V w w"
  by (auto simp: follows_def)

lemma follows_trans [trans]: "follows pr V w w' \<Longrightarrow> follows pr V w' w'' \<Longrightarrow> follows pr V w w''"
  unfolding follows_def by (metis append.assoc linked_append)

lemma follows_seq [simp]: "follows pr V (w\<lparr>w_seq := k\<rparr>) w' = follows pr V w w'"
  by (simp add: follows_def shielded_def)

lemma shielded_syscall: "shielded pr V w \<Longrightarrow> shielded pr V (snd (syscall act partial w))"
  by (auto simp: shielded_def syscall_rely) (metis list.sel(2) list.set_sel(2))

lemma shielded_view: "shielded pr V w \<Longrightarrow> w_fs w |` V = others (this_turn w) (w_fs w) |` V"
  by (auto simp: shielded_def restrict_map_def fun_eq_iff this_turn_relied)

lemma follows_syscall: "follows pr V w (snd (syscall act partial w))"
proof -
  obtain s where s: "s = others (this_turn w) (w_fs w)"
    "w_log (snd (syscall act partial w)) = w_log w @ [(s, w_fs (snd (syscall act partial w)))]"
    by (rule syscall_step)
  then show ?thesis using shielded_syscall shielded_view by (auto simp: follows_def)
qed

lemmas call_defs = stat_call_def mkdir_all_call_def create_call_def chmod_call_def write_call_def
  fsync_call_def unlink_call_def rename_replace_def

lemma follows_call:
  "follows pr V w (snd (stat_call p w))" "follows pr V w (snd (mkdir_all_call p w))"
  "follows pr V w (snd (create_call p m w))" "follows pr V w (snd (chmod_call p m w))"
  "follows pr V w (snd (write_call p c w))" "follows pr V w (snd (fsync_call w))"
  "follows pr V w (snd (unlink_call p w))" "follows pr V w (snd (rename_replace p q w))"
  "follows pr V w (snd (rename_noreplace p q w))"
  by (simp_all add: call_defs rename_noreplace_def follows_syscall)

lemma follows_io: "(\<And>w. follows pr V w (snd (m w))) \<Longrightarrow> follows pr V w (snd (io m w))"
  by (simp add: io_def split: prod.split sum.split) (metis snd_conv)

lemma follows_bind:
  assumes "\<And>w. follows pr V w (snd (m w))" "\<And>x w. follows pr V w (snd (k x w))"
  shows "follows pr V w (snd (io_bind m k w))"
proof (cases "m w")
  case (Pair r w')
  then have "follows pr V w w'" using assms(1) [of w] by simp
  then show ?thesis using Pair assms(2) [of w'] by (cases r) (auto simp: io_bind_def intro: follows_trans)
qed

lemma follows_drop: "follows pr V w (drop_staged_file sf w)"
  by (simp add: drop_staged_file_def follows_call)

lemma follows_fill: "follows pr V w (snd (fill_staging p perms content w))"
  unfolding fill_staging_def
  by (cases perms) (auto intro!: follows_bind follows_io follows_call)

lemma follows_publish:
  assumes "\<And>p q w. follows pr V w (snd (rename p q w))"
  shows "follows pr V w (snd (publish_with rename pr sf d w))"
proof (cases "rename (sf_path sf) (locate (pr_cwd pr) d) w")
  case (Pair r w1)
  then have 1: "follows pr V w w1" using assms by (metis snd_conv)
  obtain r2 w2 where 2: "io (sync_parent pr d) w1 = (r2, w2)" by force
  then have "follows pr V w1 w2"
    using follows_io [of pr V fsync_call w1] by (simp add: sync_parent_is_fsync follows_call)
  then show ?thesis
    using Pair 1 2 by (cases r) (auto simp: publish_with_def Let_def intro: follows_trans follows_drop)
qed

lemma follows_stage: "follows pr V w (snd (stage_and_publish pr d content mode perms p w))"
proof (cases "fill_staging p perms content w")
  case (Pair r w1)
  then have "follows pr V w w1" using follows_fill by (metis snd_conv)
  then show ?thesis
    using Pair follows_publish [OF follows_call(8)] follows_publish [OF follows_call(9)]
    by (cases r)
      (auto simp: stage_and_publish_def Let_def publish_new_def publish_replace_def intro: follows_trans follows_drop)
qed

lemma follows_choose: "follows pr V w (snd (choose_staging pr d content mode perms w))"
proof -
  have seq: "follows pr V w (w\<lparr>w_seq := k\<rparr>)" for k
    by (simp add: follows_def shielded_def)
  have "follows pr V w (snd (stage_and_publish pr d content mode perms p (w\<lparr>w_seq := w_seq w + 1\<rparr>)))" for p
    using follows_trans [OF seq follows_stage] .
  then show ?thesis
    using seq by (simp add: choose_staging_def Let_def split: option.split)
qed

lemma follows_write: "follows pr V w (snd (atomic_write_file pr d content mode w))"
  unfolding atomic_write_file_def
proof (rule follows_bind)
  fix x w
  obtain meta w1 where st: "stat_call (locate (pr_cwd pr) d) w = (meta, w1)" by force
  then have "follows pr V w w1" using follows_call(1) by (metis snd_conv)
  then show "follows pr V w (snd (case stat_call (locate (pr_cwd pr) d) w of (meta, w') \<Rightarrow>
      (case existing_permissions mode meta of
         Inl e \<Rightarrow> (Inl e, w') | Inr perms \<Rightarrow> choose_staging pr d content mode perms w')))"
    using st follows_choose by (auto split: sum.split intro: follows_trans)
qed (auto intro!: follows_io follows_call)

section \<open>Crash runs\<close>

definition crash_run ::
    "process \<Rightarrow> names set \<Rightarrow> (fs \<Rightarrow> bool) \<Rightarrow> fs \<Rightarrow> (world \<Rightarrow> 'r \<times> world) \<Rightarrow> ('r \<Rightarrow> fs \<Rightarrow> bool) \<Rightarrow> bool" where
  "crash_run pr V I v m Q \<longleftrightarrow> (\<forall>w r w'. shielded pr V w \<longrightarrow> w_fs w |` V = v \<longrightarrow> m w = (r, w') \<longrightarrow>
     shielded pr V w' \<and> guarantees (\<lambda>s s'. I (s |` V) \<and> I (s' |` V)) w w' \<and> Q r (w_fs w' |` V))"

lemma crash_runD:
  assumes "crash_run pr V I v m Q" "shielded pr V w" "w_fs w |` V = v" "m w = (r, w')"
  shows "shielded pr V w'" "guarantees (\<lambda>s s'. I (s |` V) \<and> I (s' |` V)) w w'" "Q r (w_fs w' |` V)"
  using assms(1) [unfolded crash_run_def, rule_format, OF assms(2-4)] by simp_all

lemma crash_conseq:
  assumes "crash_run pr V J v m R" "\<And>u. J u \<Longrightarrow> I u" "\<And>r u. R r u \<Longrightarrow> Q r u"
  shows "crash_run pr V I v m Q"
  unfolding crash_run_def
proof (intro allI impI)
  fix w r w' assume "shielded pr V w" "w_fs w |` V = v" "m w = (r, w')"
  note run = crash_runD [OF assms(1) this]
  show "shielded pr V w' \<and> guarantees (\<lambda>s s'. I (s |` V) \<and> I (s' |` V)) w w' \<and> Q r (w_fs w' |` V)"
    using run guarantees_mono [OF run(2)] assms(2,3) by simp
qed

lemma crash_return: "Q r v \<Longrightarrow> crash_run pr V I v (Pair r) Q"
  by (simp add: crash_run_def)

text \<open>Weakest preconditions: the postcondition of the first part is the run of the rest.\<close>

lemma crash_then:
  assumes "crash_run pr V I v m (\<lambda>r u. crash_run pr V I u (h r) Q)"
  shows "crash_run pr V I v (\<lambda>w. case m w of (r, w') \<Rightarrow> h r w') Q"
  unfolding crash_run_def
proof (intro allI impI)
  fix w r w'
  assume w: "shielded pr V w" "w_fs w |` V = v" "(case m w of (r, w') \<Rightarrow> h r w') = (r, w')"
  obtain r1 w1 where m: "m w = (r1, w1)" by force
  note m' = crash_runD [OF assms w(1,2) m]
  have h: "h r1 w1 = (r, w')" using m w(3) by simp
  note n = crash_runD [OF m'(3) m'(1) refl h]
  show "shielded pr V w' \<and> guarantees (\<lambda>s s'. I (s |` V) \<and> I (s' |` V)) w w' \<and> Q r (w_fs w' |` V)"
    using n guarantees_trans [OF m'(2) n(2)] by simp
qed

lemma crash_bind:
  assumes "crash_run pr V I v m (\<lambda>r u. case r of Inl e \<Rightarrow> Q (Inl e) u | Inr x \<Rightarrow> crash_run pr V I u (k x) Q)"
  shows "crash_run pr V I v (io_bind m k) Q"
proof -
  have "crash_run pr V I v (\<lambda>w. case m w of (r, w') \<Rightarrow> (case r of Inl e \<Rightarrow> Pair (Inl e) | Inr x \<Rightarrow> k x) w') Q"
    by (rule crash_then, rule crash_conseq [OF assms]) (auto simp: crash_return split: sum.splits)
  moreover have "io_bind m k = (\<lambda>w. case m w of (r, w') \<Rightarrow> (case r of Inl e \<Rightarrow> Pair (Inl e) | Inr x \<Rightarrow> k x) w')"
    by (rule ext) (simp add: io_bind_def split: prod.split sum.split)
  ultimately show ?thesis by simp
qed

lemma crash_syscall:
  assumes "\<And>s. s |` V = v \<Longrightarrow> I v \<and> I (snd (act s) |` V) \<and> Q (fst (act s)) (snd (act s) |` V)"
    and "\<And>s f. s |` V = v \<Longrightarrow> ft_kind f = KOther \<Longrightarrow> I (partial f s |` V) \<and> Q (Inl KOther) (partial f s |` V)"
  shows "crash_run pr V I v (syscall act partial) Q"
  unfolding crash_run_def
proof (intro allI impI)
  fix w r w' assume w: "shielded pr V w" "w_fs w |` V = v" "syscall act partial w = (r, w')"
  define s f where sf: "s = others (this_turn w) (w_fs w)" "f = failure (this_turn w)"
  then have step: "s = others (this_turn w) (w_fs w)"
    "w_log (snd (syscall act partial w)) = w_log w @ [(s, w_fs (snd (syscall act partial w)))]"
    "fst (syscall act partial w) = fst (act_on act partial f s)"
    "w_fs (snd (syscall act partial w)) = snd (act_on act partial f s)"
    by (simp_all add: syscall_def Let_def)
  have honest: "f = Some g \<Longrightarrow> ft_kind g = KOther" for g
    using w(1) sf(2) by (auto simp: shielded_def this_turn_def split: list.splits)
  have v: "s |` V = v" using shielded_view [OF w(1)] w(2) step(1) by simp
  have "I v" "I (w_fs w' |` V)" "Q r (w_fs w' |` V)"
    using assms(1) [OF v] assms(2) [OF v honest] honest step(3,4) w(3) by (cases f; simp add: act_on_def)+
  moreover have "shielded pr V w'" using shielded_syscall [OF w(1), of act partial] w(3) by simp
  ultimately show "shielded pr V w' \<and> guarantees (\<lambda>s s'. I (s |` V) \<and> I (s' |` V)) w w' \<and> Q r (w_fs w' |` V)"
    using step(2) w(3) v by (auto simp: guarantees_def)
qed

section \<open>The calls\<close>

definition separated :: "process \<Rightarrow> names set \<Rightarrow> bool" where
  "separated pr V \<longleftrightarrow> [] \<notin> V \<and> (\<forall>a \<in> V. \<forall>b \<in> V. \<not> strict_prefix a b) \<and> (\<forall>d n k. staging_location pr d n k \<notin> V)"

lemma view_upd: "s(p := x) |` V = (if p \<in> V then (s |` V)(p := x) else s |` V)"
  by (auto simp: restrict_map_def fun_eq_iff)

lemma view_at: "s |` V = v \<Longrightarrow> p \<in> V \<Longrightarrow> s p = v p"
  by (auto simp: restrict_map_def)

lemma crash_stat:
  assumes "I v" "p \<in> V" "p \<noteq> []"
  shows "crash_run pr V I v (stat_call p) (\<lambda>r u. u = v \<and>
    (case r of Inr n \<Rightarrow> v p = Some n | Inl k \<Rightarrow> k = KNotFound \<longrightarrow> v p = None))"
  unfolding stat_call_def
  by (rule crash_syscall) (use assms view_at in \<open>auto simp: untouched_def ok_or_def split: option.split\<close>)

lemma crash_read:
  assumes "I v" "p \<in> V"
  shows "crash_run pr V I v (read_call p) (\<lambda>r u. u = v \<and>
    (\<forall>c m c'. r = Inr c \<longrightarrow> v p = Some (RegularFile m c') \<longrightarrow> c = c'))"
  unfolding read_call_def
  by (rule crash_syscall) (use assms view_at in \<open>auto simp: untouched_def link_depth_def eval_nat_numeral split: option.splits\<close>)

lemma crash_readlink:
  assumes "I v" "p \<in> V"
  shows "crash_run pr V I v (readlink_call p) (\<lambda>r u. u = v \<and> (\<forall>t. r = Inr t \<longrightarrow> v p = Some (LinkNode t)))"
  unfolding readlink_call_def
  by (rule crash_syscall) (use assms view_at in \<open>auto simp: untouched_def split: option.splits node.splits\<close>)

lemma crash_fsync:
  assumes "I v" shows "crash_run pr V I v fsync_call (\<lambda>r u. u = v)"
  unfolding fsync_call_def by (rule crash_syscall) (use assms in \<open>auto simp: untouched_def\<close>)

lemma view_make_dirs: "(\<And>q. q \<in> V \<Longrightarrow> \<not> prefix q p) \<Longrightarrow> make_dirs p n s |` V = s |` V"
  by (auto simp: make_dirs_def restrict_map_def fun_eq_iff)

lemma crash_mkdir_outside:
  assumes "I v" "\<And>q. q \<in> V \<Longrightarrow> \<not> prefix q p"
  shows "crash_run pr V I v (mkdir_all_call p) (\<lambda>r u. u = v)"
  unfolding mkdir_all_call_def
  by (rule crash_syscall) (use assms in \<open>auto simp: view_make_dirs\<close>)

lemma crash_mkdir:
  assumes "I v" "I (v(d \<mapsto> DirNode))" "separated pr V" "d \<in> V"
  shows "crash_run pr V I v (mkdir_all_call d) (\<lambda>r u. (u = v \<or> v d = None \<and> u = v(d \<mapsto> DirNode)) \<and>
    (r = Inr () \<longrightarrow> u = v(d \<mapsto> DirNode)))"
proof -
  have ne: "d \<noteq> []" and below: "q \<in> V \<Longrightarrow> prefix q d \<Longrightarrow> q = d" for q
    using assms(3,4) by (auto simp: separated_def strict_prefix_def)
  have dirs: "make_dirs d n s |` V = (if s d = None \<and> length d \<le> n then (s |` V)(d \<mapsto> DirNode) else s |` V)" for n s
    using ne assms(4) by (auto simp: make_dirs_def restrict_map_def fun_eq_iff dest: below)
  have "d \<in> set (ancestors d)" using ne by (auto simp: ancestors_def image_iff Suc_le_eq intro!: bexI [of _ "length d"])
  then have dir: "list_all (\<lambda>q. s q = None \<or> s q = Some DirNode) (ancestors d) \<Longrightarrow> s d \<noteq> None \<Longrightarrow> s d = Some DirNode" for s :: fs
    by (auto simp: list_all_iff)
  show ?thesis
    unfolding mkdir_all_call_def
  proof (rule crash_syscall)
    fix s assume s: "s |` V = v"
    show "I v \<and> I (snd (if list_all (\<lambda>q. s q = None \<or> s q = Some DirNode) (ancestors d)
            then (Inr (), make_dirs d (length d) s) else (Inl KOther, s)) |` V) \<and>
      (snd (if list_all (\<lambda>q. s q = None \<or> s q = Some DirNode) (ancestors d)
            then (Inr (), make_dirs d (length d) s) else (Inl KOther, s)) |` V = v \<or>
        v d = None \<and> snd (if list_all (\<lambda>q. s q = None \<or> s q = Some DirNode) (ancestors d)
            then (Inr (), make_dirs d (length d) s) else (Inl KOther, s)) |` V = v(d \<mapsto> DirNode)) \<and>
      (fst (if list_all (\<lambda>q. s q = None \<or> s q = Some DirNode) (ancestors d)
            then (Inr (), make_dirs d (length d) s) else (Inl KOther, s)) = Inr () \<longrightarrow>
        snd (if list_all (\<lambda>q. s q = None \<or> s q = Some DirNode) (ancestors d)
            then (Inr (), make_dirs d (length d) s) else (Inl KOther, s)) |` V = v(d \<mapsto> DirNode))"
      using s assms(1,2) view_at [OF s assms(4)] dir [of s] by (auto simp: dirs fun_upd_idem)
  next
    fix s f assume s: "s |` V = v"
    show "I (make_dirs d (min (ft_done f) (length (takeWhile (\<lambda>q. s q = None \<or> s q = Some DirNode) (ancestors d)))) s |` V) \<and>
      (make_dirs d (min (ft_done f) (length (takeWhile (\<lambda>q. s q = None \<or> s q = Some DirNode) (ancestors d)))) s |` V = v \<or>
        v d = None \<and> make_dirs d (min (ft_done f) (length (takeWhile (\<lambda>q. s q = None \<or> s q = Some DirNode) (ancestors d)))) s |` V = v(d \<mapsto> DirNode)) \<and>
      (Inl KOther = Inr () \<longrightarrow> make_dirs d (min (ft_done f) (length (takeWhile (\<lambda>q. s q = None \<or> s q = Some DirNode) (ancestors d)))) s |` V = v(d \<mapsto> DirNode))"
      using s assms(1,2) view_at [OF s assms(4)] by (auto simp: dirs)
  qed
qed

lemma crash_unlink:
  assumes "I v" "I (v(d := None))" "d \<in> V"
  shows "crash_run pr V I v (unlink_call d) (\<lambda>r u. (u = v \<or> u = v(d := None)) \<and> (r = Inr () \<longrightarrow> u = v(d := None)))"
  unfolding unlink_call_def
  by (rule crash_syscall) (use assms in \<open>auto simp: untouched_def view_upd split: option.split node.split\<close>)

lemma crash_symlink:
  assumes "I v" "I (v(d \<mapsto> LinkNode t))" "d \<in> V"
  shows "crash_run pr V I v (symlink_call t d) (\<lambda>r u. (u = v \<or> u = v(d \<mapsto> LinkNode t)) \<and> (r = Inr () \<longrightarrow> u = v(d \<mapsto> LinkNode t)))"
  unfolding symlink_call_def
  by (rule crash_syscall) (use assms in \<open>simp_all add: untouched_def view_upd split: if_split del: restrict_fun_upd\<close>)

section \<open>A durable write\<close>

definition holds_file :: "fs \<Rightarrow> names \<Rightarrow> string \<Rightarrow> fs \<Rightarrow> bool" where
  "holds_file v d content u \<longleftrightarrow> (\<exists>m. u = v(d \<mapsto> RegularFile m content))"

lemma write_step_view:
  assumes "write_step d p content mode a b" "separated pr V" "d \<in> V" "p \<notin> V"
  shows "b |` V = a |` V \<or> holds_file (a |` V) d content (b |` V)"
    and "publishes d p content mode a b \<Longrightarrow> holds_file (a |` V) d content (b |` V)"
proof -
  have "q \<in> V \<Longrightarrow> q \<noteq> d \<Longrightarrow> b q = a q" for q
    using assms unfolding write_step_def separated_def by metis
  then have view: "b |` V = (a |` V)(d := b d)" using assms(3) by (auto simp: restrict_map_def fun_eq_iff)
  show new: "publishes d p content mode a b \<Longrightarrow> holds_file (a |` V) d content (b |` V)"
    using view by (auto simp: holds_file_def publishes_def)
  have "b d = a d \<Longrightarrow> b |` V = a |` V" using view assms(3) by (simp add: fun_upd_idem restrict_map_def)
  then show "b |` V = a |` V \<or> holds_file (a |` V) d content (b |` V)"
    using new assms(1) by (auto simp: write_step_def)
qed

lemma linked_writes:
  assumes "linked V s log s'" "\<forall>(a, b) \<in> set log. write_step d p content mode a b"
    and "separated pr V" "d \<in> V" "p \<notin> V" "s |` V = v \<or> holds_file v d content (s |` V)"
  shows "(\<forall>(a, b) \<in> set log. (a |` V = v \<or> holds_file v d content (a |` V)) \<and> (b |` V = v \<or> holds_file v d content (b |` V))) \<and>
    (s' |` V = v \<or> holds_file v d content (s' |` V)) \<and>
    ((\<exists>e \<in> set log. publishes d p content mode (fst e) (snd e)) \<or> holds_file v d content (s |` V) \<longrightarrow> holds_file v d content (s' |` V))"
  using assms(1,2,6)
proof (induction log arbitrary: s)
  case Nil
  then show ?case by simp
next
  case (Cons e l)
  obtain a b where e: "e = (a, b)" by force
  have again: "holds_file v d content u \<Longrightarrow> holds_file u d content u' \<Longrightarrow> holds_file v d content u'" for u u'
    by (auto simp: holds_file_def)
  have step: "write_step d p content mode a b" and tail: "linked V b l s'" "\<forall>(a, b) \<in> set l. write_step d p content mode a b"
    and start: "s |` V = a |` V" using Cons.prems(1,2) e by auto
  note view = write_step_view [OF step assms(3-5)]
  have b: "b |` V = v \<or> holds_file v d content (b |` V)"
    using view(1) Cons.prems(3) start again by metis
  have done': "publishes d p content mode a b \<or> holds_file v d content (s |` V) \<Longrightarrow> holds_file v d content (b |` V)"
    using view Cons.prems(3) start again by metis
  show ?case using Cons.IH [OF tail b] Cons.prems(3) start b done' unfolding e by auto
qed

lemma crash_write:
  assumes "separated pr V" "d \<in> V" "d = locate (pr_cwd pr) destination"
    and "path_file_name destination = Some n" "pr_nonce pr = Some k"
    and "I v" "\<And>m. I (v(d \<mapsto> RegularFile m content))"
  shows "crash_run pr V I v (atomic_write_file pr destination content mode)
    (\<lambda>r u. (u = v \<or> holds_file v d content u) \<and> (r = Inr () \<longrightarrow> holds_file v d content u))"
  unfolding crash_run_def
proof (intro allI impI)
  fix w r w'
  assume w: "shielded pr V w" "w_fs w |` V = v" "atomic_write_file pr destination content mode w = (r, w')"
  define p where "p = staging_location pr destination k (w_seq w)"
  have p: "p \<notin> V" "rely p w" using assms(1) w(1) by (auto simp: p_def separated_def shielded_def)
  note steps = atomic_write_steps [OF assms(4,5) p_def assms(3) p(2) w(3)]
  have "follows pr V w w'" using follows_write w(3) by (metis snd_conv)
  then obtain new where new: "shielded pr V w'" "w_log w' = w_log w @ new" "linked V (w_fs w) new (w_fs w')"
    using w(1) by (auto simp: follows_def)
  have "\<forall>(a, b) \<in> set new. write_step d p content mode a b"
    using steps new(2) by (auto simp: guarantees_def)
  note all = linked_writes [OF new(3) this assms(1,2) p(1), of v]
  have I: "u = v \<or> holds_file v d content u \<Longrightarrow> I u" for u using assms(6,7) by (auto simp: holds_file_def)
  show "shielded pr V w' \<and> guarantees (\<lambda>s s'. I (s |` V) \<and> I (s' |` V)) w w' \<and>
    (w_fs w' |` V = v \<or> holds_file v d content (w_fs w' |` V)) \<and> (r = Inr () \<longrightarrow> holds_file v d content (w_fs w' |` V))"
    using all new steps w(2) I by (auto simp: guarantees_def published_once_def)
qed

section \<open>Undisturbed runs\<close>

definition calm_run :: "fs \<Rightarrow> (world \<Rightarrow> 'r \<times> world) \<Rightarrow> ('r \<Rightarrow> fs \<Rightarrow> bool) \<Rightarrow> bool" where
  "calm_run s m Q \<longleftrightarrow> (\<forall>w r w'. w_turns w = [] \<longrightarrow> w_fs w = s \<longrightarrow> m w = (r, w') \<longrightarrow> w_turns w' = [] \<and> Q r (w_fs w'))"

lemma calm_runD:
  assumes "calm_run s m Q" "w_turns w = []" "w_fs w = s" "m w = (r, w')"
  shows "w_turns w' = [] \<and> Q r (w_fs w')"
  using assms(1) [unfolded calm_run_def, rule_format, OF assms(2-4)] .

lemma calm_post:
  assumes "calm_run s m R" "\<And>r u. R r u \<Longrightarrow> Q r u"
  shows "calm_run s m Q"
  unfolding calm_run_def
proof (intro allI impI)
  fix w r w' assume "w_turns w = []" "w_fs w = s" "m w = (r, w')"
  note run = calm_runD [OF assms(1) this]
  then show "w_turns w' = [] \<and> Q r (w_fs w')" using assms(2) by simp
qed

lemma calm_return: "Q r s \<Longrightarrow> calm_run s (Pair r) Q"
  by (simp add: calm_run_def)

lemma calm_then:
  assumes "calm_run s m (\<lambda>r u. calm_run u (h r) Q)"
  shows "calm_run s (\<lambda>w. case m w of (r, w') \<Rightarrow> h r w') Q"
  unfolding calm_run_def
proof (intro allI impI)
  fix w r w' assume w: "w_turns w = []" "w_fs w = s" "(case m w of (r, w') \<Rightarrow> h r w') = (r, w')"
  obtain r1 w1 where m: "m w = (r1, w1)" by force
  then show "w_turns w' = [] \<and> Q r (w_fs w')"
    using calm_runD [OF assms w(1,2) m] calm_runD [of "w_fs w1" "h r1" Q w1 r w'] w(3) by simp
qed

lemma calm_bind:
  assumes "calm_run s m (\<lambda>r u. case r of Inl e \<Rightarrow> Q (Inl e) u | Inr x \<Rightarrow> calm_run u (k x) Q)"
  shows "calm_run s (io_bind m k) Q"
proof -
  have "calm_run s (\<lambda>w. case m w of (r, w') \<Rightarrow> (case r of Inl e \<Rightarrow> Pair (Inl e) | Inr x \<Rightarrow> k x) w') Q"
    by (rule calm_then, rule calm_post [OF assms]) (auto simp: calm_return split: sum.splits)
  moreover have "io_bind m k = (\<lambda>w. case m w of (r, w') \<Rightarrow> (case r of Inl e \<Rightarrow> Pair (Inl e) | Inr x \<Rightarrow> k x) w')"
    by (rule ext) (simp add: io_bind_def split: prod.split sum.split)
  ultimately show ?thesis by simp
qed

lemma calm_syscall: "Q (fst (act s)) (snd (act s)) \<Longrightarrow> calm_run s (syscall act partial) Q"
  by (auto simp: calm_run_def quiet_syscall)

lemma calm_write:
  assumes "path_file_name destination = Some name" "name \<noteq> []" "pr_nonce pr = Some nonce" "d = locate (pr_cwd pr) destination"
    and "\<And>k. s (staging_location pr destination nonce k) = None" "\<And>k. \<not> has_nul (staging_location pr destination nonce k)" "\<not> has_nul d"
    and "list_all (\<lambda>q. s q = None \<or> s q = Some DirNode) (ancestors (butlast d))"
    and "s d = None \<or> mode = Replace \<and> (\<exists>m c. s d = Some (RegularFile m c))"
    and "\<And>m. s d = None \<and> m = owner_only \<or> (\<exists>c. s d = Some (RegularFile m c)) \<Longrightarrow>
      Q (Inr ()) ((make_dirs (butlast d) (length (butlast d)) s)(d \<mapsto> RegularFile m content))"
  shows "calm_run s (atomic_write_file pr destination content mode) Q"
  unfolding calm_run_def
proof (intro allI impI)
  fix w r w' assume w: "w_turns w = []" "w_fs w = s" "atomic_write_file pr destination content mode w = (r, w')"
  note exact = atomic_write_outcome [OF assms(1-3) w(1) refl assms(4) _ assms(6,7) _ w(3), unfolded w(2), OF assms(5,8)]
  have "follows pr {} w w'" using follows_write w(3) by (metis snd_conv)
  then show "w_turns w' = [] \<and> Q r (w_fs w')"
    using exact w(1) assms(9,10) by (auto simp: follows_def Let_def)
qed

end
