(* ===== verification/Transactions.thy ===== *)
theory Transactions
  imports CrashLogic "HOL-Library.Char_ord"
begin

text \<open>
  Recoverable transactions over text files and discovery links, \<open>text_file_transaction.rs\<close>: the
  receipt written before the first change and again when all are published, the rollback of a
  failed publication, and the recovery from a receipt a crash has left. The file system, failures
  and interference are those of \<open>DurableFs\<close>.

  A path is its list of components, as \<open>Path\<close> compares it; on Unix an \<open>EncodedPath\<close> is the path.
  The JSON of a receipt is written and read by \<open>serde_json\<close>, the arguments \<open>encode\<close> and \<open>decode\<close>;
  the advisory lock is the argument \<open>held\<close>, whether another process holds it.
\<close>

section \<open>Changes\<close>

record text_change =
  tc_path :: "component list"
  tc_before :: "string option"
  tc_after :: "string option"

definition write_change :: "component list \<Rightarrow> string option \<Rightarrow> string \<Rightarrow> text_change" where
  "write_change path before content = \<lparr>tc_path = path, tc_before = before, tc_after = Some content\<rparr>"

definition remove_change :: "component list \<Rightarrow> string \<Rightarrow> text_change" where
  "remove_change path before = \<lparr>tc_path = path, tc_before = Some before, tc_after = None\<rparr>"

datatype link_image = AbsentImage | DirectoryImage | LinkImage names

record link_change =
  lc_path :: "component list"
  lc_before :: link_image
  lc_after :: link_image

definition install_link :: "component list \<Rightarrow> names \<Rightarrow> link_change" where
  "install_link path target = \<lparr>lc_path = path, lc_before = AbsentImage, lc_after = LinkImage target\<rparr>"

definition replace_directory :: "component list \<Rightarrow> names \<Rightarrow> link_change" where
  "replace_directory path target = \<lparr>lc_path = path, lc_before = DirectoryImage, lc_after = LinkImage target\<rparr>"

definition remove_link :: "component list \<Rightarrow> names \<Rightarrow> link_change" where
  "remove_link path target = \<lparr>lc_path = path, lc_before = LinkImage target, lc_after = AbsentImage\<rparr>"

datatype phase = Prepared | Published

record receipt =
  rc_version :: nat
  rc_phase :: phase
  rc_changes :: "text_change list"
  rc_links :: "link_change list"

definition receipt_version :: nat where "receipt_version = 2"
definition first_supported_version :: nat where "first_supported_version = 1"

datatype tx_error =
    TxIo io_kind
  | TxDurable durable_error
  | NotRegularTarget
  | TargetNotUtf8
  | TargetChanged
  | UnexpectedEntry
  | NoOwner
  | LinkChanged
  | NotALink
  | NotADirectoryEntry
  | NoOpChange "component list"
  | DuplicatePath "component list"
  | ControlPathConflict "component list"
  | LockHeld
  | PendingReceipt
  | NoReceipt
  | UnreadableReceipt
  | UnsupportedReceipt nat
  | Conflicts nat
  | RestoredPaths nat tx_error
  | RollbackIncomplete tx_error
  | PublishedUnconfirmed tx_error
  | ReceiptLost tx_error
  | ReceiptNotRemoved tx_error

definition tx_io :: "(world \<Rightarrow> (io_kind + 'a) \<times> world) \<Rightarrow> world \<Rightarrow> (tx_error + 'a) \<times> world" where
  "tx_io m w = (case m w of (Inl k, w') \<Rightarrow> (Inl (TxIo k), w') | (Inr x, w') \<Rightarrow> (Inr x, w'))"

definition tx_durable :: "(world \<Rightarrow> (durable_error + 'a) \<times> world) \<Rightarrow> world \<Rightarrow> (tx_error + 'a) \<times> world" where
  "tx_durable m w = (case m w of (Inl e, w') \<Rightarrow> (Inl (TxDurable e), w') | (Inr x, w') \<Rightarrow> (Inr x, w'))"

definition tx_return :: "'a \<Rightarrow> world \<Rightarrow> (tx_error + 'a) \<times> world" where
  "tx_return x w = (Inr x, w)"

definition tx_fail :: "tx_error \<Rightarrow> world \<Rightarrow> (tx_error + 'a) \<times> world" where
  "tx_fail e w = (Inl e, w)"

section \<open>Images\<close>

definition snapshot_file :: "names \<Rightarrow> world \<Rightarrow> (tx_error + string option) \<times> world" where
  "snapshot_file p w =
     (case stat_call p w of
        (Inl k, w') \<Rightarrow> (if k = KNotFound then Inr None else Inl (TxIo k), w')
      | (Inr (RegularFile _ _), w') \<Rightarrow>
          io_bind (tx_io (read_call p))
            (\<lambda>bytes. if valid_utf8 bytes then tx_return (Some bytes) else tx_fail TargetNotUtf8) w'
      | (Inr _, w') \<Rightarrow> (Inl NotRegularTarget, w'))"

definition snapshot_link :: "names \<Rightarrow> world \<Rightarrow> (tx_error + link_image) \<times> world" where
  "snapshot_link p w =
     (case stat_call p w of
        (Inl k, w') \<Rightarrow> (if k = KNotFound then Inr AbsentImage else Inl (TxIo k), w')
      | (Inr (LinkNode _), w') \<Rightarrow> io_bind (tx_io (readlink_call p)) (\<lambda>t. tx_return (LinkImage t)) w'
      | (Inr DirNode, w') \<Rightarrow> (Inr DirectoryImage, w')
      | (Inr _, w') \<Rightarrow> (Inl UnexpectedEntry, w'))"

definition verify_image :: "names \<Rightarrow> string option \<Rightarrow> world \<Rightarrow> (tx_error + unit) \<times> world" where
  "verify_image p expected =
     io_bind (snapshot_file p) (\<lambda>current. if current = expected then tx_return () else tx_fail TargetChanged)"

definition verify_link_image :: "names \<Rightarrow> link_image \<Rightarrow> world \<Rightarrow> (tx_error + unit) \<times> world" where
  "verify_link_image p expected =
     io_bind (snapshot_link p) (\<lambda>current. if current = expected then tx_return () else tx_fail LinkChanged)"

definition apply_image :: "process \<Rightarrow> component list \<Rightarrow> string option \<Rightarrow> world \<Rightarrow> (tx_error + unit) \<times> world" where
  "apply_image pr path img =
     (case img of
        Some content \<Rightarrow>
          io_bind (tx_io (entry_exists (locate (pr_cwd pr) path)))
            (\<lambda>exists. tx_durable (atomic_write_file pr path content (if exists then Replace else CreateNew)))
      | None \<Rightarrow>
          io_bind (tx_io (unlink_call (locate (pr_cwd pr) path))) (\<lambda>_. tx_io (sync_parent pr path)))"

definition make_directory :: "process \<Rightarrow> component list \<Rightarrow> world \<Rightarrow> (tx_error + unit) \<times> world" where
  "make_directory pr path =
     io_bind (tx_io (mkdir_all_call (locate (pr_cwd pr) path))) (\<lambda>_. tx_io (sync_parent pr path))"

definition apply_link_image :: "process \<Rightarrow> component list \<Rightarrow> link_image \<Rightarrow> world \<Rightarrow> (tx_error + unit) \<times> world" where
  "apply_link_image pr path img w =
     (let p = locate (pr_cwd pr) path
      in case img of
           AbsentImage \<Rightarrow>
             (case stat_call p w of
                (Inl k, w') \<Rightarrow> (if k = KNotFound then Inr () else Inl (TxIo k), w')
              | (Inr (LinkNode _), w') \<Rightarrow> io_bind (tx_io (unlink_call p)) (\<lambda>_. tx_io (sync_parent pr path)) w'
              | (Inr _, w') \<Rightarrow> (Inl NotALink, w'))
         | DirectoryImage \<Rightarrow>
             (case stat_call p w of
                (Inl k, w') \<Rightarrow> if k = KNotFound then make_directory pr path w' else (Inl (TxIo k), w')
              | (Inr DirNode, w') \<Rightarrow> (Inr (), w')
              | (Inr (LinkNode _), w') \<Rightarrow> io_bind (tx_io (unlink_call p)) (\<lambda>_. make_directory pr path) w'
              | (Inr _, w') \<Rightarrow> (Inl NotADirectoryEntry, w'))
         | LinkImage target \<Rightarrow>
             io_bind (case path_parent path of
                 Some parent \<Rightarrow> tx_io (mkdir_all_call (locate (pr_cwd pr) parent)) | None \<Rightarrow> tx_return ()) (\<lambda>_.
             io_bind (tx_io (symlink_call target p)) (\<lambda>_. tx_io (sync_parent pr path))) w)"

definition publish_text_change :: "process \<Rightarrow> text_change \<Rightarrow> world \<Rightarrow> (tx_error + unit) \<times> world" where
  "publish_text_change pr c =
     io_bind (verify_image (locate (pr_cwd pr) (tc_path c)) (tc_before c)) (\<lambda>_. apply_image pr (tc_path c) (tc_after c))"

definition publish_link_change :: "process \<Rightarrow> link_change \<Rightarrow> world \<Rightarrow> (tx_error + unit) \<times> world" where
  "publish_link_change pr c =
     io_bind (verify_link_image (locate (pr_cwd pr) (lc_path c)) (lc_before c)) (\<lambda>_. apply_link_image pr (lc_path c) (lc_after c))"

section \<open>Receipts and locks\<close>

definition lock_path :: "component list \<Rightarrow> component list" where
  "lock_path p =
     (case path_file_name p of
        Some n \<Rightarrow> butlast p @ [Normal (n @ ''.lock'')]
      | None \<Rightarrow> p @ [Normal ''mcp-transaction.lock''])"

definition open_lock_call :: "names \<Rightarrow> world \<Rightarrow> (io_kind + unit) \<times> world" where
  "open_lock_call p = syscall
     (\<lambda>s. case s p of
        None \<Rightarrow> if p = [] \<or> \<not> dir_at s (butlast p) then (Inl KNotFound, s) else (Inr (), s(p \<mapsto> RegularFile 438 []))
      | Some (RegularFile _ _) \<Rightarrow> (Inr (), s)
      | Some _ \<Rightarrow> (Inl KOther, s)) untouched"

definition open_file_lock :: "process \<Rightarrow> component list \<Rightarrow> world \<Rightarrow> (io_kind + unit) \<times> world" where
  "open_file_lock pr path w =
     (case mkdir_all_call (locate (pr_cwd pr) (file_parent path)) w of
        (Inl k, w') \<Rightarrow> (Inl k, w')
      | (Inr _, w') \<Rightarrow>
          (case stat_call (locate (pr_cwd pr) path) w' of
             (Inr (RegularFile _ _), w'') \<Rightarrow> open_lock_call (locate (pr_cwd pr) path) w''
           | (Inr _, w'') \<Rightarrow> (Inl KOther, w'')
           | (Inl k, w'') \<Rightarrow>
               if k = KNotFound then open_lock_call (locate (pr_cwd pr) path) w'' else (Inl k, w'')))"

definition take_lock :: "process \<Rightarrow> bool \<Rightarrow> component list \<Rightarrow> world \<Rightarrow> (tx_error + unit) \<times> world" where
  "take_lock pr held receipt_path =
     io_bind (tx_io (open_file_lock pr (lock_path receipt_path)))
       (\<lambda>_. if held then tx_fail LockHeld else tx_return ())"

definition write_receipt ::
    "(receipt \<Rightarrow> string) \<Rightarrow> process \<Rightarrow> component list \<Rightarrow> receipt \<Rightarrow> write_mode \<Rightarrow> world \<Rightarrow> (tx_error + unit) \<times> world" where
  "write_receipt encode pr path rc mode = tx_durable (atomic_write_file pr path (encode rc) mode)"

definition load_receipt ::
    "(string \<Rightarrow> receipt option) \<Rightarrow> process \<Rightarrow> component list \<Rightarrow> world \<Rightarrow> (tx_error + receipt) \<times> world" where
  "load_receipt decode pr path =
     io_bind (snapshot_file (locate (pr_cwd pr) path)) (\<lambda>img.
       case img of
         None \<Rightarrow> tx_fail NoReceipt
       | Some bytes \<Rightarrow>
           (case decode bytes of
              None \<Rightarrow> tx_fail UnreadableReceipt
            | Some rc \<Rightarrow>
                if first_supported_version \<le> rc_version rc \<and> rc_version rc \<le> receipt_version
                then tx_return rc else tx_fail (UnsupportedReceipt (rc_version rc))))"

definition remove_receipt :: "process \<Rightarrow> component list \<Rightarrow> world \<Rightarrow> (tx_error + unit) \<times> world" where
  "remove_receipt pr path =
     io_bind (tx_io (unlink_call (locate (pr_cwd pr) path))) (\<lambda>_. tx_io (sync_parent pr path))"

section \<open>Validation\<close>

fun scan_paths :: "component list list \<Rightarrow> (component list \<times> bool) list \<Rightarrow> tx_error + unit" where
  "scan_paths seen [] = Inr ()"
| "scan_paths seen ((path, no_op) # rest) =
     (if no_op then Inl (NoOpChange path)
      else if path \<in> set seen then Inl (DuplicatePath path)
      else scan_paths (path # seen) rest)"

definition validate_changes :: "text_change list \<Rightarrow> link_change list \<Rightarrow> tx_error + unit" where
  "validate_changes changes links =
     scan_paths [] (map (\<lambda>c. (tc_path c, tc_before c = tc_after c)) changes @
       map (\<lambda>c. (lc_path c, lc_before c = lc_after c)) links)"

definition absolute_path :: "process \<Rightarrow> component list \<Rightarrow> component list" where
  "absolute_path pr path = (if take 1 path = [RootDir] then path else RootDir # map Normal (pr_cwd pr) @ path)"

definition normalize_path :: "process \<Rightarrow> component list \<Rightarrow> component list" where
  "normalize_path pr path = RootDir # map Normal (locate (pr_cwd pr) path)"

definition validate_control_paths ::
    "process \<Rightarrow> component list \<Rightarrow> text_change list \<Rightarrow> link_change list \<Rightarrow> tx_error + unit" where
  "validate_control_paths pr receipt_path changes links =
     (let receipt_path = normalize_path pr receipt_path;
          conflict = (\<lambda>control. find (\<lambda>p. normalize_path pr p = control) (map tc_path changes @ map lc_path links))
      in case conflict receipt_path of
           Some p \<Rightarrow> Inl (ControlPathConflict p)
         | None \<Rightarrow>
             (case conflict (lock_path receipt_path) of
                Some p \<Rightarrow> Inl (ControlPathConflict p) | None \<Rightarrow> Inr ()))"

section \<open>Rollback\<close>

text \<open>
  One change is restored, found in place, or in conflict; an inspection that fails ends the rollback.
\<close>

datatype restoration = InPlace | Restored | Conflict

definition restored_by :: "(world \<Rightarrow> (tx_error + unit) \<times> world) \<Rightarrow> world \<Rightarrow> (tx_error + restoration) \<times> world" where
  "restored_by m w = (case m w of (Inl _, w') \<Rightarrow> (Inr Conflict, w') | (Inr _, w') \<Rightarrow> (Inr Restored, w'))"

definition roll_back_link :: "process \<Rightarrow> link_change \<Rightarrow> world \<Rightarrow> (tx_error + restoration) \<times> world" where
  "roll_back_link pr c =
     io_bind (snapshot_link (locate (pr_cwd pr) (lc_path c))) (\<lambda>current.
       if current = lc_before c then tx_return InPlace
       else if current = lc_after c \<or> lc_before c = DirectoryImage \<and> current = AbsentImage
       then restored_by (apply_link_image pr (lc_path c) (lc_before c))
       else tx_return Conflict)"

definition roll_back_text :: "process \<Rightarrow> text_change \<Rightarrow> world \<Rightarrow> (tx_error + restoration) \<times> world" where
  "roll_back_text pr c =
     io_bind (snapshot_file (locate (pr_cwd pr) (tc_path c))) (\<lambda>current.
       if current = tc_before c then tx_return InPlace
       else if current = tc_after c then restored_by (apply_image pr (tc_path c) (tc_before c))
       else tx_return Conflict)"

fun roll_back_all ::
    "('c \<Rightarrow> world \<Rightarrow> (tx_error + restoration) \<times> world) \<Rightarrow> 'c list \<Rightarrow> nat \<times> nat \<Rightarrow> world \<Rightarrow>
     (tx_error + nat \<times> nat) \<times> world" where
  "roll_back_all f [] counts = tx_return counts"
| "roll_back_all f (c # cs) counts =
     io_bind (f c) (\<lambda>r. roll_back_all f cs
       (case r of InPlace \<Rightarrow> counts | Restored \<Rightarrow> (fst counts + 1, snd counts) | Conflict \<Rightarrow> (fst counts, snd counts + 1)))"

definition rollback_prepared :: "process \<Rightarrow> receipt \<Rightarrow> world \<Rightarrow> (tx_error + nat) \<times> world" where
  "rollback_prepared pr rc =
     io_bind (roll_back_all (roll_back_link pr) (rev (rc_links rc)) (0, 0)) (\<lambda>counts.
     io_bind (roll_back_all (roll_back_text pr) (rev (rc_changes rc)) counts) (\<lambda>(restored, conflicts).
       if conflicts = 0 then tx_return restored else tx_fail (Conflicts conflicts)))"

definition rollback_after_failure ::
    "process \<Rightarrow> component list \<Rightarrow> receipt \<Rightarrow> tx_error \<Rightarrow> world \<Rightarrow> (tx_error + unit) \<times> world" where
  "rollback_after_failure pr receipt_path rc cause w =
     (case rollback_prepared pr rc w of
        (Inr paths, w') \<Rightarrow> io_bind (remove_receipt pr receipt_path) (\<lambda>_. tx_fail (RestoredPaths paths cause)) w'
      | (Inl e, w') \<Rightarrow> (Inl (RollbackIncomplete cause), w'))"

section \<open>The transaction\<close>

fun verify_all :: "('c \<Rightarrow> world \<Rightarrow> (tx_error + unit) \<times> world) \<Rightarrow> 'c list \<Rightarrow> world \<Rightarrow> (tx_error + unit) \<times> world" where
  "verify_all f [] = tx_return ()"
| "verify_all f (c # cs) = io_bind (f c) (\<lambda>_. verify_all f cs)"

fun publish_all :: "(nat \<Rightarrow> 'c \<Rightarrow> world \<Rightarrow> (tx_error + unit) \<times> world) \<Rightarrow> nat \<Rightarrow> 'c list \<Rightarrow> world \<Rightarrow> (tx_error + unit) \<times> world" where
  "publish_all f k [] = tx_return ()"
| "publish_all f k (c # cs) = io_bind (f k c) (\<lambda>_. publish_all f (k + 1) cs)"

definition finish_failed ::
    "(string \<Rightarrow> receipt option) \<Rightarrow> process \<Rightarrow> component list \<Rightarrow> tx_error \<Rightarrow> world \<Rightarrow> (tx_error + unit) \<times> world" where
  "finish_failed decode pr receipt_path phase_error w =
     (case load_receipt decode pr receipt_path w of
        (Inr on_disk, w') \<Rightarrow>
          (case rc_phase on_disk of
             Published \<Rightarrow> (Inl (PublishedUnconfirmed phase_error), w')
           | Prepared \<Rightarrow> rollback_after_failure pr receipt_path on_disk phase_error w')
      | (Inl _, w') \<Rightarrow> (Inl (ReceiptLost phase_error), w'))"

definition finish_published ::
    "process \<Rightarrow> component list \<Rightarrow> world \<Rightarrow> (tx_error + unit) \<times> world" where
  "finish_published pr receipt_path w =
     (case remove_receipt pr receipt_path w of
        (Inr _, w') \<Rightarrow> (Inr (), w')
      | (Inl e, w') \<Rightarrow>
          (case entry_exists (locate (pr_cwd pr) receipt_path) w' of
             (Inr False, w'') \<Rightarrow> (Inl e, w'')
           | (_, w'') \<Rightarrow> (Inl (ReceiptNotRemoved e), w'')))"

definition publish_phase ::
    "(receipt \<Rightarrow> string) \<Rightarrow> (string \<Rightarrow> receipt option) \<Rightarrow> process \<Rightarrow> component list \<Rightarrow> receipt \<Rightarrow> world \<Rightarrow>
     (tx_error + unit) \<times> world" where
  "publish_phase encode decode pr receipt_path rc w =
     (case write_receipt encode pr receipt_path (rc\<lparr>rc_phase := Published\<rparr>) Replace w of
        (Inl e, w') \<Rightarrow> finish_failed decode pr receipt_path e w'
      | (Inr _, w') \<Rightarrow> finish_published pr receipt_path w')"

definition run_changes ::
    "(process \<Rightarrow> nat \<Rightarrow> link_change \<Rightarrow> world \<Rightarrow> (tx_error + unit) \<times> world) \<Rightarrow>
     (receipt \<Rightarrow> string) \<Rightarrow> (string \<Rightarrow> receipt option) \<Rightarrow> process \<Rightarrow> component list \<Rightarrow> receipt \<Rightarrow> world \<Rightarrow>
     (tx_error + unit) \<times> world" where
  "run_changes publish_link encode decode pr receipt_path rc w =
     (case io_bind (publish_all (\<lambda>_. publish_text_change pr) 0 (rc_changes rc))
             (\<lambda>_. publish_all (publish_link pr) 0 (rc_links rc)) w of
        (Inl e, w') \<Rightarrow> rollback_after_failure pr receipt_path rc e w'
      | (Inr _, w') \<Rightarrow> publish_phase encode decode pr receipt_path rc w')"

definition prepared_receipt :: "text_change list \<Rightarrow> link_change list \<Rightarrow> receipt" where
  "prepared_receipt changes links =
     \<lparr>rc_version = receipt_version, rc_phase = Prepared, rc_changes = changes, rc_links = links\<rparr>"

definition checked_run ::
    "(process \<Rightarrow> nat \<Rightarrow> link_change \<Rightarrow> world \<Rightarrow> (tx_error + unit) \<times> world) \<Rightarrow>
     (receipt \<Rightarrow> string) \<Rightarrow> (string \<Rightarrow> receipt option) \<Rightarrow> process \<Rightarrow> bool \<Rightarrow> component list \<Rightarrow>
     text_change list \<Rightarrow> link_change list \<Rightarrow> world \<Rightarrow> (tx_error + unit) \<times> world" where
  "checked_run publish_link encode decode pr held receipt_path changes links =
     io_bind (take_lock pr held receipt_path) (\<lambda>_.
     io_bind (tx_io (entry_exists (locate (pr_cwd pr) receipt_path))) (\<lambda>pending.
     if pending then tx_fail PendingReceipt else
     io_bind (verify_all (\<lambda>c. verify_image (locate (pr_cwd pr) (tc_path c)) (tc_before c)) changes) (\<lambda>_.
     io_bind (verify_all (\<lambda>c. verify_link_image (locate (pr_cwd pr) (lc_path c)) (lc_before c)) links) (\<lambda>_.
     io_bind (write_receipt encode pr receipt_path (prepared_receipt changes links) CreateNew) (\<lambda>_.
     run_changes publish_link encode decode pr receipt_path (prepared_receipt changes links))))))"

definition absolute_texts :: "process \<Rightarrow> text_change list \<Rightarrow> text_change list" where
  "absolute_texts pr cs = map (\<lambda>c. c\<lparr>tc_path := absolute_path pr (tc_path c)\<rparr>) cs"

definition absolute_links :: "process \<Rightarrow> link_change list \<Rightarrow> link_change list" where
  "absolute_links pr ls = map (\<lambda>c. c\<lparr>lc_path := absolute_path pr (lc_path c)\<rparr>) ls"

definition execute_transaction ::
    "(process \<Rightarrow> nat \<Rightarrow> link_change \<Rightarrow> world \<Rightarrow> (tx_error + unit) \<times> world) \<Rightarrow>
     (receipt \<Rightarrow> string) \<Rightarrow> (string \<Rightarrow> receipt option) \<Rightarrow> process \<Rightarrow> bool \<Rightarrow> component list \<Rightarrow>
     text_change list \<Rightarrow> link_change list \<Rightarrow> world \<Rightarrow> (tx_error + unit) \<times> world" where
  "execute_transaction publish_link encode decode pr held receipt_path changes links w =
     (let changes = absolute_texts pr changes; links = absolute_links pr links
      in if changes = [] \<and> links = [] then (Inr (), w)
         else case validate_changes changes links of
           Inl e \<Rightarrow> (Inl e, w)
         | Inr _ \<Rightarrow>
             (case validate_control_paths pr receipt_path changes links of
                Inl e \<Rightarrow> (Inl e, w)
              | Inr _ \<Rightarrow> checked_run publish_link encode decode pr held receipt_path changes links w))"

section \<open>Recovery\<close>

datatype recovery_outcome = RolledBack nat | Finalized nat

definition recover_receipt :: "process \<Rightarrow> receipt \<Rightarrow> world \<Rightarrow> (tx_error + recovery_outcome) \<times> world" where
  "recover_receipt pr rc =
     (case rc_phase rc of
        Prepared \<Rightarrow> io_bind (rollback_prepared pr rc) (\<lambda>paths. tx_return (RolledBack paths))
      | Published \<Rightarrow>
          io_bind (verify_all (\<lambda>c. verify_image (locate (pr_cwd pr) (tc_path c)) (tc_after c)) (rc_changes rc)) (\<lambda>_.
          io_bind (verify_all (\<lambda>c. verify_link_image (locate (pr_cwd pr) (lc_path c)) (lc_after c)) (rc_links rc)) (\<lambda>_.
          tx_return (Finalized (length (rc_changes rc) + length (rc_links rc))))))"

definition recover_transaction ::
    "(string \<Rightarrow> receipt option) \<Rightarrow> process \<Rightarrow> bool \<Rightarrow> component list \<Rightarrow> world \<Rightarrow> (tx_error + recovery_outcome) \<times> world" where
  "recover_transaction decode pr held receipt_path =
     io_bind (tx_io (entry_exists (locate (pr_cwd pr) receipt_path))) (\<lambda>pending.
     if \<not> pending then tx_fail NoReceipt else
     io_bind (take_lock pr held receipt_path) (\<lambda>_.
     io_bind (load_receipt decode pr receipt_path) (\<lambda>rc.
     io_bind (recover_receipt pr rc) (\<lambda>outcome.
     io_bind (remove_receipt pr receipt_path) (\<lambda>_. tx_return outcome)))))"

section \<open>Publication of discovery links\<close>

text \<open>Paths are ordered by their components, as \<open>Path\<close> compares them.\<close>

instantiation component :: linorder
begin

fun component_rank :: "component \<Rightarrow> nat \<times> string" where
  "component_rank RootDir = (0, [])"
| "component_rank CurDir = (1, [])"
| "component_rank ParentDir = (2, [])"
| "component_rank (Normal n) = (3, n)"

definition less_component :: "component \<Rightarrow> component \<Rightarrow> bool" where
  "a < b \<longleftrightarrow> fst (component_rank a) < fst (component_rank b) \<or>
     fst (component_rank a) = fst (component_rank b) \<and> snd (component_rank a) < snd (component_rank b)"

definition less_eq_component :: "component \<Rightarrow> component \<Rightarrow> bool" where
  "(a::component) \<le> b \<longleftrightarrow> a < b \<or> a = b"

instance
proof
  fix a b c :: component
  show "(a < b) = (a \<le> b \<and> \<not> b \<le> a)" "a \<le> a"
    by (auto simp: less_component_def less_eq_component_def)
  show "a \<le> b \<Longrightarrow> b \<le> c \<Longrightarrow> a \<le> c" by (auto simp: less_component_def less_eq_component_def)
  show "a \<le> b \<Longrightarrow> b \<le> a \<Longrightarrow> a = b" by (auto simp: less_component_def less_eq_component_def)
  show "a \<le> b \<or> b \<le> a" by (cases a; cases b) (auto simp: less_component_def less_eq_component_def)
qed

end

record skill_target =
  sk_root :: "component list"
  sk_files :: "component list list"
  sk_links :: "component list list"

definition managed_skill_directories :: "skill_target \<Rightarrow> component list list" where
  "managed_skill_directories target =
     sort_key (\<lambda>d. - int (length d))
       (remdups_adj (sort (map (\<lambda>parent. sk_root target @ parent)
         (filter (\<lambda>parent. parent \<noteq> []) (List.map_filter path_parent (sk_files target)))))) @ [sk_root target]"

definition remove_dir_call :: "names \<Rightarrow> world \<Rightarrow> (io_kind + unit) \<times> world" where
  "remove_dir_call p = syscall
     (\<lambda>s. case s p of
        None \<Rightarrow> (Inl KNotFound, s)
      | Some DirNode \<Rightarrow> (if \<exists>q. s q \<noteq> None \<and> strict_prefix p q then (Inl KOther, s) else (Inr (), s(p := None)))
      | Some _ \<Rightarrow> (Inl KOther, s)) untouched"

fun remove_directories :: "process \<Rightarrow> component list list \<Rightarrow> world \<Rightarrow> (tx_error + unit) \<times> world" where
  "remove_directories pr [] w = (Inr (), w)"
| "remove_directories pr (d # ds) w =
     (case remove_dir_call (locate (pr_cwd pr) d) w of
        (Inl k, w') \<Rightarrow> if k = KNotFound then remove_directories pr ds w' else (Inl (TxIo k), w')
      | (Inr _, w') \<Rightarrow> remove_directories pr ds w')"

definition publish_install_link :: "skill_target list \<Rightarrow> process \<Rightarrow> nat \<Rightarrow> link_change \<Rightarrow> world \<Rightarrow> (tx_error + unit) \<times> world" where
  "publish_install_link targets pr k c =
     (if lc_before c = DirectoryImage then
        (case find (\<lambda>t. lc_path c \<in> set (sk_links t)) targets of
           None \<Rightarrow> tx_fail NoOwner
         | Some t \<Rightarrow>
             io_bind (snapshot_link (locate (pr_cwd pr) (lc_path c))) (\<lambda>current.
               if current \<noteq> DirectoryImage then tx_fail LinkChanged
               else io_bind (remove_directories pr (managed_skill_directories (t\<lparr>sk_root := lc_path c, sk_links := []\<rparr>)))
                 (\<lambda>_. apply_link_image pr (lc_path c) (lc_after c))))
      else publish_link_change pr c)"

end
