(* ===== verification/TransactionSteps.thy ===== *)
theory TransactionSteps
  imports Transactions
begin

text \<open>
  Crash safety of the transactions of \<open>Transactions\<close>, in the logic of \<open>CrashLogic\<close>: what each
  operation may leave behind at any of its system calls, the contract of a link publisher, and the
  theorems on execution and recovery.
\<close>

section \<open>Images and what the locations hold\<close>

fun text_is :: "string option \<Rightarrow> node option \<Rightarrow> bool" where
  "text_is None n \<longleftrightarrow> n = None"
| "text_is (Some c) n \<longleftrightarrow> (\<exists>m. n = Some (RegularFile m c))"

fun link_is :: "link_image \<Rightarrow> node option \<Rightarrow> bool" where
  "link_is AbsentImage n \<longleftrightarrow> n = None"
| "link_is DirectoryImage n \<longleftrightarrow> n = Some DirNode"
| "link_is (LinkImage t) n \<longleftrightarrow> n = Some (LinkNode t)"

definition puts :: "names \<Rightarrow> (node option \<Rightarrow> bool) \<Rightarrow> fs \<Rightarrow> fs \<Rightarrow> bool" where
  "puts d A v u \<longleftrightarrow> (\<exists>n. A n \<and> u = v(d := n))"

lemma puts_here: "A (v d) \<Longrightarrow> puts d A v v"
  unfolding puts_def by (metis fun_upd_triv)

lemma puts_again: "puts d A v u \<Longrightarrow> puts d B u u' \<Longrightarrow> puts d B v u'"
  by (auto simp: puts_def)

lemma puts_mono: "puts d A v u \<Longrightarrow> (\<And>n. A n \<Longrightarrow> B n) \<Longrightarrow> puts d B v u"
  by (auto simp: puts_def)

lemma crash_post: "crash_run pr V I v m R \<Longrightarrow> (\<And>r u. R r u \<Longrightarrow> Q r u) \<Longrightarrow> crash_run pr V I v m Q"
  by (rule crash_conseq)

definition with_error :: "('a \<Rightarrow> 'b) \<Rightarrow> 'a + 'c \<Rightarrow> 'b + 'c" where
  "with_error f r = (case r of Inl e \<Rightarrow> Inl (f e) | Inr x \<Rightarrow> Inr x)"

lemma with_error_simps [simp]:
  "with_error f (Inl e) = Inl (f e)" "with_error f (Inr x) = Inr x" "with_error f r = Inr x \<longleftrightarrow> r = Inr x"
  by (auto simp: with_error_def split: sum.splits)

lemma with_error_program:
  assumes "crash_run pr V I v m (\<lambda>r. Q (with_error f r))"
  shows "crash_run pr V I v (\<lambda>w. case m w of (Inl k, w') \<Rightarrow> (Inl (f k), w') | (Inr x, w') \<Rightarrow> (Inr x, w')) Q"
proof -
  have "crash_run pr V I v (\<lambda>w. case m w of (r, w') \<Rightarrow> Pair (with_error f r) w') Q"
    by (rule crash_then, rule crash_post [OF assms]) (rule crash_return)
  moreover have "(\<lambda>w. case m w of (r, w') \<Rightarrow> Pair (with_error f r) w') =
      (\<lambda>w. case m w of (Inl k, w') \<Rightarrow> (Inl (f k), w') | (Inr x, w') \<Rightarrow> (Inr x, w'))"
    by (rule ext) (simp split: prod.split sum.split)
  ultimately show ?thesis by simp
qed

lemma crash_tx_io:
  assumes "crash_run pr V I v m (\<lambda>r. Q (with_error TxIo r))"
  shows "crash_run pr V I v (tx_io m) Q"
  unfolding tx_io_def [abs_def] using assms by (rule with_error_program)

lemma crash_tx_durable:
  assumes "crash_run pr V I v m (\<lambda>r. Q (with_error TxDurable r))"
  shows "crash_run pr V I v (tx_durable m) Q"
  unfolding tx_durable_def [abs_def] using assms by (rule with_error_program)

lemma crash_tx_return: "Q (Inr x) v \<Longrightarrow> crash_run pr V I v (tx_return x) Q"
  by (simp add: tx_return_def [abs_def] crash_return)

lemma crash_tx_fail: "Q (Inl e) v \<Longrightarrow> crash_run pr V I v (tx_fail e) Q"
  by (simp add: tx_fail_def [abs_def] crash_return)

lemma crash_sync: "I v \<Longrightarrow> (\<And>r. Q r v) \<Longrightarrow> crash_run pr V I v (sync_parent pr p) Q"
  unfolding sync_parent_is_fsync by (rule crash_post [OF crash_fsync]) auto

lemmas crash_steps = crash_bind crash_tx_io crash_tx_durable crash_tx_return crash_tx_fail

lemma crash_snapshot_file:
  assumes "I v" "p \<in> V" "p \<noteq> []"
  shows "crash_run pr V I v (snapshot_file p) (\<lambda>r u. u = v \<and> (\<forall>img. r = Inr img \<longrightarrow> text_is img (v p)))"
  unfolding snapshot_file_def [abs_def]
  apply (rule crash_then, rule crash_post [OF crash_stat [where I = I and v = v, OF assms]])
  subgoal for r u
    apply (cases r)
     apply (simp add: crash_return)
    subgoal for n
      by (cases n) (auto simp: crash_return intro!: crash_steps crash_post [OF crash_read [where I = I and v = v, OF assms(1,2)]] split: sum.split)
    done
  done

lemma crash_snapshot_link:
  assumes "I v" "p \<in> V" "p \<noteq> []"
  shows "crash_run pr V I v (snapshot_link p) (\<lambda>r u. u = v \<and> (\<forall>img. r = Inr img \<longrightarrow> link_is img (v p)))"
  unfolding snapshot_link_def [abs_def]
  apply (rule crash_then, rule crash_post [OF crash_stat [where I = I and v = v, OF assms]])
  subgoal for r u
    apply (cases r)
     apply (simp add: crash_return)
    subgoal for n
      by (cases n) (auto simp: crash_return intro!: crash_steps crash_post [OF crash_readlink [where I = I and v = v, OF assms(1,2)]] split: sum.split)
    done
  done

lemma crash_entry_exists:
  assumes "I v" "p \<in> V" "p \<noteq> []"
  shows "crash_run pr V I v (entry_exists p) (\<lambda>r u. u = v \<and> (\<forall>b. r = Inr b \<longrightarrow> b = (v p \<noteq> None)))"
  unfolding entry_exists_def [abs_def]
  apply (rule crash_then, rule crash_post [OF crash_stat [where I = I and v = v, OF assms]])
  subgoal for r u by (cases r) (simp_all add: crash_return)
  done

lemma crash_verify_image:
  assumes "I v" "p \<in> V" "p \<noteq> []"
  shows "crash_run pr V I v (verify_image p img) (\<lambda>r u. u = v \<and> (\<forall>x. r = Inr x \<longrightarrow> text_is img (v p)))"
  unfolding verify_image_def
  by (auto intro!: crash_steps crash_post [OF crash_snapshot_file [where I = I and v = v, OF assms]] split: sum.split)

lemma crash_verify_link_image:
  assumes "I v" "p \<in> V" "p \<noteq> []"
  shows "crash_run pr V I v (verify_link_image p img) (\<lambda>r u. u = v \<and> (\<forall>x. r = Inr x \<longrightarrow> link_is img (v p)))"
  unfolding verify_link_image_def
  by (auto intro!: crash_steps crash_post [OF crash_snapshot_link [where I = I and v = v, OF assms]] split: sum.split)

section \<open>Changing one location\<close>

text \<open>The paths a transaction names end in a name, and so do not leave the directory above them.\<close>

definition at_path :: "process \<Rightarrow> names set \<Rightarrow> component list \<Rightarrow> names \<Rightarrow> bool" where
  "at_path pr V path d \<longleftrightarrow> separated pr V \<and> pr_nonce pr \<noteq> None \<and> path_file_name path \<noteq> None \<and>
     d = locate (pr_cwd pr) path \<and> d \<in> V"

lemma at_pathD:
  assumes "at_path pr V path d"
  shows "separated pr V" "d \<in> V" "d = locate (pr_cwd pr) path" "d \<noteq> []"
  using assms by (auto simp: at_path_def separated_def)

lemma crash_write_at:
  assumes "at_path pr V path d" "I v" "\<And>n. text_is (Some content) n \<Longrightarrow> I (v(d := n))"
  shows "crash_run pr V I v (atomic_write_file pr path content mode)
    (\<lambda>r u. (u = v \<or> puts d (text_is (Some content)) v u) \<and> (\<forall>x. r = Inr x \<longrightarrow> puts d (text_is (Some content)) v u))"
proof -
  obtain n k where nk: "path_file_name path = Some n" "pr_nonce pr = Some k" using assms(1) by (auto simp: at_path_def)
  have "I (v(d \<mapsto> RegularFile m content))" for m using assms(3) by simp
  from crash_write [where I = I and v = v, OF at_pathD(1-3) [OF assms(1)] nk assms(2) this]
  show ?thesis by (rule crash_post) (auto simp: holds_file_def puts_def)
qed

lemma crash_unlink_sync:
  assumes "d \<in> V" "I v" "I (v(d := None))"
  shows "crash_run pr V I v (io_bind (tx_io (unlink_call d)) (\<lambda>_. tx_io (sync_parent pr path)))
    (\<lambda>r u. (u = v \<or> u = v(d := None)) \<and> (\<forall>x. r = Inr x \<longrightarrow> u = v(d := None)))"
  by (auto intro!: crash_steps crash_sync crash_post [OF crash_unlink [where I = I and v = v, OF assms(2,3,1)]] assms split: sum.split)

lemma crash_apply_image:
  assumes "at_path pr V path d" "I v" "\<And>n. text_is img n \<Longrightarrow> I (v(d := n))"
  shows "crash_run pr V I v (apply_image pr path img)
    (\<lambda>r u. (u = v \<or> puts d (text_is img) v u) \<and> (\<forall>x. r = Inr x \<longrightarrow> puts d (text_is img) v u))"
proof (cases img)
  case None
  have "I (v(d := None))" using assms(3) None by simp
  from crash_unlink_sync [where I = I and v = v, OF at_pathD(2) [OF assms(1)] assms(2) this]
  show ?thesis
    unfolding apply_image_def at_pathD(3) [OF assms(1), symmetric] None option.case
    by (rule crash_post) (auto simp: puts_def)
next
  case (Some content)
  note d = at_pathD [OF assms(1)]
  have "crash_run pr V I v (io_bind (tx_io (entry_exists d)) (\<lambda>exists. tx_durable (atomic_write_file pr path content (if exists then Replace else CreateNew))))
    (\<lambda>r u. (u = v \<or> puts d (text_is img) v u) \<and> (\<forall>x. r = Inr x \<longrightarrow> puts d (text_is img) v u))"
    using assms(3) Some
    by (auto intro!: crash_steps crash_post [OF crash_entry_exists [where I = I and v = v, OF assms(2) d(2,4)]]
        crash_post [OF crash_write_at [where I = I and v = v, OF assms(1,2)]] split: sum.split)
  then show ?thesis unfolding apply_image_def d(3) [symmetric] Some by simp
qed

definition link_mid :: "link_image \<Rightarrow> node option \<Rightarrow> bool" where
  "link_mid img n \<longleftrightarrow> link_is img n \<or> img = DirectoryImage \<and> n = None"

lemma outside_parent:
  assumes "at_path pr V path d" "path_parent path = Some parent" "q \<in> V"
  shows "\<not> prefix q (locate (pr_cwd pr) parent)"
proof
  assume below: "prefix q (locate (pr_cwd pr) parent)"
  obtain n where n: "path_file_name path = Some n" using assms(1) by (auto simp: at_path_def)
  then have "path = parent @ [Normal n]"
    using assms(2) by (auto simp: path_file_name_def path_parent_def split: list.splits component.splits if_splits)
  then have "d = locate (pr_cwd pr) parent @ [n]" using at_pathD(3) [OF assms(1)] by (simp add: locate_append)
  then have "strict_prefix q d" using below by (auto simp: strict_prefix_def prefix_def)
  then show False using at_pathD(1,2) [OF assms(1)] assms(3) by (auto simp: separated_def)
qed

lemma crash_make_directory:
  assumes "at_path pr V path d" "I v" "I (v(d \<mapsto> DirNode))"
  shows "crash_run pr V I v (make_directory pr path)
    (\<lambda>r u. (u = v \<or> u = v(d \<mapsto> DirNode)) \<and> (\<forall>x. r = Inr x \<longrightarrow> u = v(d \<mapsto> DirNode)))"
  unfolding make_directory_def at_pathD(3) [OF assms(1), symmetric]
  by (auto intro!: crash_steps crash_sync crash_post [OF crash_mkdir [where I = I and v = v, OF assms(2,3) at_pathD(1,2) [OF assms(1)]]]
      assms split: sum.split)

lemma crash_apply_link_image:
  assumes at: "at_path pr V path d" and I: "I v" "\<And>n. link_mid img n \<Longrightarrow> I (v(d := n))"
  shows "crash_run pr V I v (apply_link_image pr path img)
    (\<lambda>r u. (u = v \<or> puts d (link_mid img) v u) \<and> (\<forall>x. r = Inr x \<longrightarrow> puts d (link_is img) v u))"
proof -
  note d = at_pathD [OF at]
  note stat = crash_stat [where I = I and v = v, OF I(1) d(2,4), THEN crash_post]
  show ?thesis
  proof (cases img)
    case AbsentImage
    have gone: "I (v(d := None))" using I(2) AbsentImage by (simp add: link_mid_def)
    note unlink = crash_unlink_sync [where I = I and v = v, OF d(2) I(1) gone, THEN crash_post]
    have here: "v d = None \<Longrightarrow> puts d (link_is AbsentImage) v v" by (rule puts_here) simp
    show ?thesis
      unfolding apply_link_image_def [abs_def] Let_def d(3) [symmetric] AbsentImage link_image.case
      apply (rule crash_then, rule stat)
      subgoal for r u
        apply (cases r)
         apply (auto intro!: crash_return here) []
        subgoal for n
          by (cases n) (auto simp: puts_def link_mid_def intro!: crash_return unlink)
        done
      done
  next
    case DirectoryImage
    have mids: "I (v(d := None))" "I (v(d \<mapsto> DirNode))" using I(2) DirectoryImage by (simp_all add: link_mid_def)
    note unlink = crash_unlink [where I = I and v = v, OF I(1) mids(1) d(2), THEN crash_post]
    note make = crash_make_directory [where I = I and v = v, OF at I(1) mids(2), THEN crash_post]
    have again: "I ((v(d := None))(d \<mapsto> DirNode))" using mids(2) by simp
    note make' = crash_make_directory [where I = I and v = "v(d := None)", OF at mids(1) again, THEN crash_post]
    have put: "puts d (link_mid DirectoryImage) v (v(d := None))" "puts d (link_mid DirectoryImage) v (v(d \<mapsto> DirNode))"
      "puts d (link_is DirectoryImage) v (v(d \<mapsto> DirNode))"
      by (auto simp: puts_def link_mid_def)
    have same: "v = v(d := None) \<longleftrightarrow> v d = None" by (metis fun_upd_same fun_upd_triv)
    have here: "v d = Some DirNode \<Longrightarrow> puts d (link_is DirectoryImage) v v" by (rule puts_here) simp
    show ?thesis
      unfolding apply_link_image_def [abs_def] Let_def d(3) [symmetric] DirectoryImage link_image.case
      apply (rule crash_then, rule stat)
      subgoal for r u
        apply (cases r)
        subgoal for k
          by (cases "k = KNotFound") (auto simp: puts_def link_mid_def intro!: crash_return make)
        subgoal for n
          by (cases n) (auto simp: here put same intro!: crash_return crash_steps unlink make make' split: sum.split)
        done
      done
  next
    case (LinkImage t)
    have new: "I (v(d \<mapsto> LinkNode t))" using I(2) LinkImage by (simp add: link_mid_def)
    note link = crash_symlink [where I = I and v = v, OF I(1) new d(2), THEN crash_post]
    have out: "path_parent path = Some parent \<Longrightarrow> crash_run pr V I v (mkdir_all_call (locate (pr_cwd pr) parent)) (\<lambda>r u. u = v)" for parent
      by (rule crash_mkdir_outside) (use I(1) outside_parent [OF at] in auto)
    have tail: "crash_run pr V I v (io_bind (tx_io (symlink_call t d)) (\<lambda>_. tx_io (sync_parent pr path)))
        (\<lambda>r u. (u = v \<or> u = v(d \<mapsto> LinkNode t)) \<and> (\<forall>x. r = Inr x \<longrightarrow> u = v(d \<mapsto> LinkNode t)))"
      by (auto intro!: crash_steps crash_sync link I(1) new split: sum.split)
    have "crash_run pr V I v (io_bind (case path_parent path of
             Some parent \<Rightarrow> tx_io (mkdir_all_call (locate (pr_cwd pr) parent)) | None \<Rightarrow> tx_return ()) (\<lambda>_.
             io_bind (tx_io (symlink_call t d)) (\<lambda>_. tx_io (sync_parent pr path))))
        (\<lambda>r u. (u = v \<or> u = v(d \<mapsto> LinkNode t)) \<and> (\<forall>x. r = Inr x \<longrightarrow> u = v(d \<mapsto> LinkNode t)))"
      apply (rule crash_bind)
      apply (cases "path_parent path")
      apply (auto intro!: crash_tx_io crash_tx_return out [THEN crash_post] tail [THEN crash_post] split: sum.split)
      done
    then show ?thesis
      unfolding apply_link_image_def [abs_def] Let_def d(3) [symmetric] LinkImage link_image.case
      by (rule crash_post) (auto simp: puts_def link_mid_def)
  qed
qed

section \<open>Publication and rollback of one change\<close>

definition text_allowed :: "text_change \<Rightarrow> node option \<Rightarrow> bool" where
  "text_allowed c n \<longleftrightarrow> text_is (tc_before c) n \<or> text_is (tc_after c) n"

definition link_allowed :: "link_change \<Rightarrow> node option \<Rightarrow> bool" where
  "link_allowed c n \<longleftrightarrow> link_mid (lc_before c) n \<or> link_mid (lc_after c) n"

lemma allowed_images:
  "text_is (tc_before c) n \<Longrightarrow> text_allowed c n" "text_is (tc_after c) n \<Longrightarrow> text_allowed c n"
  "link_mid (lc_before d) n \<Longrightarrow> link_allowed d n" "link_mid (lc_after d) n \<Longrightarrow> link_allowed d n"
  "link_is (lc_before d) n \<Longrightarrow> link_allowed d n" "link_is (lc_after d) n \<Longrightarrow> link_allowed d n"
  by (simp_all add: text_allowed_def link_allowed_def link_mid_def)

lemma crash_publish_text:
  assumes at: "at_path pr V (tc_path c) d" and I: "I v" "\<And>n. text_allowed c n \<Longrightarrow> I (v(d := n))"
  shows "crash_run pr V I v (publish_text_change pr c)
    (\<lambda>r u. (u = v \<or> puts d (text_allowed c) v u) \<and> (\<forall>x. r = Inr x \<longrightarrow> puts d (text_is (tc_after c)) v u))"
proof -
  note d = at_pathD [OF at]
  have I': "text_is (tc_after c) n \<Longrightarrow> I (v(d := n))" for n using I(2) allowed_images(2) by simp
  have put: "puts d (text_is (tc_after c)) v u \<Longrightarrow> puts d (text_allowed c) v u" for u
    using puts_mono allowed_images(2) by metis
  show ?thesis
    unfolding publish_text_change_def d(3) [symmetric]
    by (auto intro!: crash_steps crash_post [OF crash_verify_image [where I = I and v = v, OF I(1) d(2,4)]]
        crash_post [OF crash_apply_image [where I = I and v = v, OF at I(1) I']] put split: sum.split)
qed

lemma crash_publish_link:
  assumes at: "at_path pr V (lc_path c) d" and I: "I v" "\<And>n. link_allowed c n \<Longrightarrow> I (v(d := n))"
  shows "crash_run pr V I v (publish_link_change pr c)
    (\<lambda>r u. (u = v \<or> puts d (link_allowed c) v u) \<and> (\<forall>x. r = Inr x \<longrightarrow> puts d (link_is (lc_after c)) v u))"
proof -
  note d = at_pathD [OF at]
  have I': "link_mid (lc_after c) n \<Longrightarrow> I (v(d := n))" for n using I(2) allowed_images(4) by simp
  have put: "puts d (link_mid (lc_after c)) v u \<Longrightarrow> puts d (link_allowed c) v u" for u
    using puts_mono allowed_images(4) by metis
  show ?thesis
    unfolding publish_link_change_def d(3) [symmetric]
    by (auto intro!: crash_steps crash_post [OF crash_verify_link_image [where I = I and v = v, OF I(1) d(2,4)]]
        crash_post [OF crash_apply_link_image [where I = I and v = v, OF at I(1) I']] put split: sum.split)
qed

definition rolled_back :: "names \<Rightarrow> (node option \<Rightarrow> bool) \<Rightarrow> (node option \<Rightarrow> bool) \<Rightarrow> fs \<Rightarrow> tx_error + restoration \<Rightarrow> fs \<Rightarrow> bool" where
  "rolled_back d before allowed v r u \<longleftrightarrow> (u = v \<or> puts d allowed v u) \<and>
     (\<forall>x. r = Inr x \<longrightarrow> x \<noteq> Conflict \<longrightarrow> puts d before v u)"

lemma crash_restored_by:
  assumes "crash_run pr V I v m (\<lambda>r. Q (case r of Inl _ \<Rightarrow> Inr Conflict | Inr _ \<Rightarrow> Inr Restored))"
  shows "crash_run pr V I v (restored_by m) Q"
proof -
  have "crash_run pr V I v (\<lambda>w. case m w of (r, w') \<Rightarrow> Pair (case r of Inl _ \<Rightarrow> Inr Conflict | Inr _ \<Rightarrow> Inr Restored) w') Q"
    by (rule crash_then, rule crash_post [OF assms]) (rule crash_return)
  moreover have "restored_by m = (\<lambda>w. case m w of (r, w') \<Rightarrow> Pair (case r of Inl _ \<Rightarrow> Inr Conflict | Inr _ \<Rightarrow> Inr Restored) w')"
    by (rule ext) (simp add: restored_by_def split: prod.split sum.split)
  ultimately show ?thesis by simp
qed

lemma puts_at: "puts d A v u \<Longrightarrow> A (u d)"
  by (auto simp: puts_def)

lemma crash_roll_back_text:
  assumes at: "at_path pr V (tc_path c) d" and I: "I v" "\<And>n. text_allowed c n \<Longrightarrow> I (v(d := n))"
  shows "crash_run pr V I v (roll_back_text pr c) (rolled_back d (text_is (tc_before c)) (text_allowed c) v)"
proof -
  note d = at_pathD [OF at]
  have I': "text_is (tc_before c) n \<Longrightarrow> I (v(d := n))" for n using I(2) allowed_images(1) by simp
  have put: "puts d (text_is (tc_before c)) v u \<Longrightarrow> puts d (text_allowed c) v u" for u
    using puts_mono allowed_images(1) by metis
  show ?thesis
    unfolding roll_back_text_def d(3) [symmetric]
    by (auto simp: rolled_back_def puts_here put intro!: crash_steps crash_restored_by
        crash_post [OF crash_snapshot_file [where I = I and v = v, OF I(1) d(2,4)]]
        crash_post [OF crash_apply_image [where I = I and v = v, OF at I(1) I']] split: sum.split)
qed

lemma crash_roll_back_link:
  assumes at: "at_path pr V (lc_path c) d" and I: "I v" "\<And>n. link_allowed c n \<Longrightarrow> I (v(d := n))"
  shows "crash_run pr V I v (roll_back_link pr c) (rolled_back d (link_is (lc_before c)) (link_allowed c) v)"
proof -
  note d = at_pathD [OF at]
  have I': "link_mid (lc_before c) n \<Longrightarrow> I (v(d := n))" for n using I(2) allowed_images(3) by simp
  have put: "puts d (link_mid (lc_before c)) v u \<Longrightarrow> puts d (link_allowed c) v u" for u
    using puts_mono allowed_images(3) by metis
  show ?thesis
    unfolding roll_back_link_def d(3) [symmetric]
    by (auto simp: rolled_back_def puts_here put intro!: crash_steps crash_restored_by
        crash_post [OF crash_snapshot_link [where I = I and v = v, OF I(1) d(2,4)]]
        crash_post [OF crash_apply_link_image [where I = I and v = v, OF at I(1) I']] split: sum.split)
qed

section \<open>Sequences of changes\<close>

definition moves :: "('c \<Rightarrow> names) \<Rightarrow> ('c \<Rightarrow> node option \<Rightarrow> bool) \<Rightarrow> 'c list \<Rightarrow> fs \<Rightarrow> fs \<Rightarrow> bool" where
  "moves loc allowed cs v u \<longleftrightarrow> (\<forall>q. u q = v q \<or> (\<exists>c \<in> set cs. loc c = q \<and> allowed c (u q)))"

lemma moves_refl [simp]: "moves loc allowed cs v v"
  by (simp add: moves_def)

lemma moves_put: "c \<in> set cs \<Longrightarrow> allowed c n \<Longrightarrow> moves loc allowed cs v (v(loc c := n))"
  by (auto simp: moves_def)

lemma moves_puts: "c \<in> set cs \<Longrightarrow> puts (loc c) (allowed c) v u \<Longrightarrow> moves loc allowed cs v u"
  by (auto simp: puts_def moves_put)

lemma moves_trans: "moves loc allowed cs v u \<Longrightarrow> moves loc allowed cs' u u' \<Longrightarrow> set cs \<subseteq> set ds \<Longrightarrow> set cs' \<subseteq> set ds \<Longrightarrow>
    moves loc allowed ds v u'"
  unfolding moves_def by (metis subsetD)

lemma moves_elsewhere: "moves loc allowed cs v u \<Longrightarrow> q \<notin> loc ` set cs \<Longrightarrow> u q = v q"
  by (auto simp: moves_def)

lemma crash_publish_all:
  assumes "\<And>c k v. c \<in> set cs \<Longrightarrow> I v \<Longrightarrow> (\<And>n. allowed c n \<Longrightarrow> I (v(loc c := n))) \<Longrightarrow>
      crash_run pr V I v (f k c) (\<lambda>r u. (u = v \<or> puts (loc c) (allowed c) v u) \<and> (\<forall>x. r = Inr x \<longrightarrow> puts (loc c) (after c) v u))"
    and "\<And>c n. after c n \<Longrightarrow> allowed c n" "distinct (map loc cs)" "\<And>u. moves loc allowed cs v u \<Longrightarrow> I u"
  shows "crash_run pr V I v (publish_all f k cs)
    (\<lambda>r u. moves loc allowed cs v u \<and> (\<forall>x. r = Inr x \<longrightarrow> (\<forall>c \<in> set cs. after c (u (loc c)))))"
  using assms(1,3,4)
proof (induction cs arbitrary: k v)
  case Nil
  then show ?case by (simp add: crash_tx_return)
next
  case (Cons c cs)
  have I: "I v" "\<And>n. allowed c n \<Longrightarrow> I (v(loc c := n))"
    by (rule Cons.prems(3), simp, rule Cons.prems(3), rule moves_put) simp_all
  have rest: "crash_run pr V I u (publish_all f (k + 1) cs)
      (\<lambda>r u'. moves loc allowed (c # cs) v u' \<and> (\<forall>x. r = Inr x \<longrightarrow> (\<forall>c \<in> set (c # cs). after c (u' (loc c)))))"
    if u: "puts (loc c) (after c) v u" for u
  proof (rule crash_post [OF Cons.IH])
    have first: "moves loc allowed (c # cs) v u"
      using moves_puts [of c "c # cs"] puts_mono [OF u] assms(2) by simp
    show "moves loc allowed cs u u' \<Longrightarrow> I u'" for u'
      using Cons.prems(3) moves_trans [OF first, of cs u' "c # cs"] by auto
    fix r u' assume "moves loc allowed cs u u' \<and> (\<forall>x. r = Inr x \<longrightarrow> (\<forall>c \<in> set cs. after c (u' (loc c))))"
    moreover from this have "u' (loc c) = u (loc c)"
      using Cons.prems(2) moves_elsewhere [of loc allowed cs u u' "loc c"] by auto
    ultimately show "moves loc allowed (c # cs) v u' \<and> (\<forall>x. r = Inr x \<longrightarrow> (\<forall>c \<in> set (c # cs). after c (u' (loc c))))"
      using moves_trans [OF first, of cs u' "c # cs"] puts_at [OF u] by auto
  qed (use Cons.prems in auto)
  show ?case
    using rest moves_puts [of c "c # cs" loc allowed v]
    by (auto intro!: crash_bind crash_post [OF Cons.prems(1) [OF _ I]] split: sum.split)
qed

lemma crash_verify_all:
  assumes "\<And>c. c \<in> set cs \<Longrightarrow> crash_run pr V I v (f c) (\<lambda>r u. u = v \<and> (\<forall>x. r = Inr x \<longrightarrow> holds c))"
  shows "crash_run pr V I v (verify_all f cs) (\<lambda>r u. u = v \<and> (\<forall>x. r = Inr x \<longrightarrow> (\<forall>c \<in> set cs. holds c)))"
  using assms
proof (induction cs)
  case Nil
  then show ?case by (simp add: crash_tx_return)
next
  case (Cons c cs)
  have tail: "crash_run pr V I v (verify_all f cs) (\<lambda>r u. u = v \<and> (\<forall>x. r = Inr x \<longrightarrow> (\<forall>c \<in> set cs. holds c)))"
    by (rule Cons.IH, rule Cons.prems) simp
  show ?case
    by (auto intro!: crash_bind crash_post [OF Cons.prems] crash_post [OF tail] split: sum.split)
qed

lemma crash_roll_back_all:
  assumes "\<And>c v. c \<in> set cs \<Longrightarrow> I v \<Longrightarrow> (\<And>n. allowed c n \<Longrightarrow> I (v(loc c := n))) \<Longrightarrow>
      crash_run pr V I v (f c) (rolled_back (loc c) (before c) (allowed c) v)"
    and "distinct (map loc cs)" "\<And>u. moves loc allowed cs v u \<Longrightarrow> I u"
  shows "crash_run pr V I v (roll_back_all f cs counts)
    (\<lambda>r u. moves loc allowed cs v u \<and> (\<forall>x. r = Inr x \<longrightarrow> snd counts \<le> snd x \<and>
       (snd x = snd counts \<longrightarrow> (\<forall>c \<in> set cs. before c (u (loc c))))))"
  using assms
proof (induction cs arbitrary: counts v)
  case Nil
  then show ?case by (simp add: crash_tx_return)
next
  case (Cons c cs)
  have I: "I v" "\<And>n. allowed c n \<Longrightarrow> I (v(loc c := n))"
    by (rule Cons.prems(3), simp, rule Cons.prems(3), rule moves_put) simp_all
  let ?Q = "\<lambda>counts r u. moves loc allowed (c # cs) v u \<and> (\<forall>x. r = Inr x \<longrightarrow> snd counts \<le> snd x \<and>
       (snd x = snd counts \<longrightarrow> (\<forall>c \<in> set (c # cs). before c (u (loc c)))))"
  have rest: "crash_run pr V I u (roll_back_all f cs
        (case x of InPlace \<Rightarrow> counts | Restored \<Rightarrow> (fst counts + 1, snd counts) | Conflict \<Rightarrow> (fst counts, snd counts + 1))) (?Q counts)"
    if u: "rolled_back (loc c) (before c) (allowed c) v (Inr x) u" for u x
  proof (rule crash_post [OF Cons.IH])
    have first: "moves loc allowed (c # cs) v u"
      using u moves_puts [of c "c # cs"] by (auto simp: rolled_back_def)
    show "moves loc allowed cs u u' \<Longrightarrow> I u'" for u'
      using Cons.prems(3) moves_trans [OF first, of cs u' "c # cs"] by auto
    fix r u'
    assume tail: "moves loc allowed cs u u' \<and> (\<forall>y. r = Inr y \<longrightarrow>
      snd (case x of InPlace \<Rightarrow> counts | Restored \<Rightarrow> (fst counts + 1, snd counts) | Conflict \<Rightarrow> (fst counts, snd counts + 1)) \<le> snd y \<and>
      (snd y = snd (case x of InPlace \<Rightarrow> counts | Restored \<Rightarrow> (fst counts + 1, snd counts) | Conflict \<Rightarrow> (fst counts, snd counts + 1)) \<longrightarrow>
        (\<forall>c \<in> set cs. before c (u' (loc c)))))"
    then have "u' (loc c) = u (loc c)"
      using Cons.prems(2) moves_elsewhere [of loc allowed cs u u' "loc c"] by auto
    then have "x \<noteq> Conflict \<Longrightarrow> before c (u' (loc c))"
      using u puts_at [of "loc c" "before c" v u] by (auto simp: rolled_back_def)
    then show "?Q counts r u'"
      using tail moves_trans [OF first, of cs u' "c # cs"] by (cases x) auto
  qed (use Cons.prems in auto)
  have fail: "rolled_back (loc c) (before c) (allowed c) v (Inl e) u \<Longrightarrow> moves loc allowed (c # cs) v u" for e u
    using moves_puts [of c "c # cs" loc allowed v u] by (auto simp: rolled_back_def)
  show ?case
    using rest fail
    by (auto intro!: crash_bind crash_post [OF Cons.prems(1) [OF _ I]] split: sum.split)
qed

section \<open>The contract of a link publisher\<close>

text \<open>
  A transaction takes the publisher of its links as an argument. What it relies on: the publisher
  changes nothing but the location of the link, passes only through the images of the change or an
  emptied directory, and has the link in place when it succeeds.
\<close>

locale link_publisher =
  fixes publish :: "process \<Rightarrow> nat \<Rightarrow> link_change \<Rightarrow> world \<Rightarrow> (tx_error + unit) \<times> world"
    and covers :: "link_change \<Rightarrow> bool"
  assumes publish: "covers c \<Longrightarrow> at_path pr V (lc_path c) d \<Longrightarrow> I v \<Longrightarrow> (\<And>n. link_allowed c n \<Longrightarrow> I (v(d := n))) \<Longrightarrow>
    crash_run pr V I v (publish pr k c)
      (\<lambda>r u. (u = v \<or> puts d (link_allowed c) v u) \<and> (\<forall>x. r = Inr x \<longrightarrow> puts d (link_is (lc_after c)) v u))"

definition plain_publisher :: "process \<Rightarrow> nat \<Rightarrow> link_change \<Rightarrow> world \<Rightarrow> (tx_error + unit) \<times> world" where
  "plain_publisher pr k = publish_link_change pr"

interpretation plain: link_publisher plain_publisher "\<lambda>_. True"
  by unfold_locales (unfold plain_publisher_def, rule crash_publish_link)

definition relative_files :: "skill_target list \<Rightarrow> bool" where
  "relative_files targets \<longleftrightarrow> (\<forall>t \<in> set targets. \<forall>f \<in> set (sk_files t). \<exists>ns. f = map Normal ns)"

lemma locate_normals: "locate ns (map Normal xs) = ns @ xs"
  by (induction xs arbitrary: ns) auto

lemma managed_directory:
  assumes "d \<in> set (managed_skill_directories t)" "\<forall>f \<in> set (sk_files t). \<exists>ns. f = map Normal ns"
  obtains ns where "d = sk_root t @ map Normal ns"
proof -
  consider "d = sk_root t" | f parent where "f \<in> set (sk_files t)" "path_parent f = Some parent" "d = sk_root t @ parent"
    using assms(1) by (auto simp: managed_skill_directories_def List.map_filter_def)
  then show thesis
  proof cases
    case 1
    then show ?thesis using that [of "[]"] by simp
  next
    case 2
    then obtain ns where "f = map Normal ns" using assms(2) by blast
    then have "parent = map Normal (butlast ns)" using 2(2) by (auto simp: path_parent_def map_butlast split: if_splits)
    then show ?thesis using that 2(3) by simp
  qed
qed

definition emptied :: "names \<Rightarrow> fs \<Rightarrow> fs \<Rightarrow> bool" where
  "emptied d v u \<longleftrightarrow> u = v \<or> u = v(d := None)"

lemma emptied_refl [simp]: "emptied d v v"
  by (simp add: emptied_def)

lemma emptied_trans: "emptied d v u \<Longrightarrow> emptied d u u' \<Longrightarrow> emptied d v u'"
  unfolding emptied_def by (metis fun_upd_upd)

lemma crash_remove_dir:
  assumes "\<And>u. emptied d v u \<Longrightarrow> I u" "p = d \<or> p \<notin> V"
  shows "crash_run pr V I v (remove_dir_call p) (\<lambda>r. emptied d v)"
proof -
  have I: "I v" "I (v(d := None))" using assms(1) by (simp_all add: emptied_def)
  show ?thesis
    unfolding remove_dir_call_def
    by (rule crash_syscall) (use I assms(2) in \<open>auto simp: untouched_def view_upd emptied_def split: option.split node.split\<close>)
qed

lemma crash_remove_directories:
  assumes "\<And>u. emptied d v u \<Longrightarrow> I u" "\<And>p. p \<in> set ds \<Longrightarrow> locate (pr_cwd pr) p = d \<or> locate (pr_cwd pr) p \<notin> V"
  shows "crash_run pr V I v (remove_directories pr ds) (\<lambda>r. emptied d v)"
  using assms
proof (induction ds arbitrary: v)
  case Nil
  have "remove_directories pr [] = Pair (Inr ())" by (rule ext) simp
  then show ?case by (simp add: crash_return)
next
  case (Cons p ds)
  have tail: "crash_run pr V I u (remove_directories pr ds) (\<lambda>r. emptied d v)" if u: "emptied d v u" for u
  proof (rule crash_post [OF Cons.IH])
    show "emptied d u u' \<Longrightarrow> I u'" for u' by (rule Cons.prems(1), rule emptied_trans [OF u])
    show "p \<in> set ds \<Longrightarrow> locate (pr_cwd pr) p = d \<or> locate (pr_cwd pr) p \<notin> V" for p by (rule Cons.prems(2)) simp
  qed (rule emptied_trans [OF u])
  have eq: "remove_directories pr (p # ds) = (\<lambda>w. case remove_dir_call (locate (pr_cwd pr) p) w of (r, w') \<Rightarrow>
      (case r of Inl k \<Rightarrow> if k = KNotFound then remove_directories pr ds else Pair (Inl (TxIo k)) | Inr _ \<Rightarrow> remove_directories pr ds) w')"
    by (rule ext) (simp split: prod.split sum.split)
  show ?case
    unfolding eq
    by (rule crash_then, rule crash_post [OF crash_remove_dir [where I = I and v = v]])
      (use Cons.prems in \<open>auto intro: tail crash_return split: sum.split\<close>)
qed

lemma crash_install_link:
  assumes files: "relative_files targets" and at: "at_path pr V (lc_path c) d"
    and I: "I v" "\<And>n. link_allowed c n \<Longrightarrow> I (v(d := n))"
  shows "crash_run pr V I v (publish_install_link targets pr k c)
    (\<lambda>r u. (u = v \<or> puts d (link_allowed c) v u) \<and> (\<forall>x. r = Inr x \<longrightarrow> puts d (link_is (lc_after c)) v u))"
proof (cases "lc_before c = DirectoryImage")
  case False
  then show ?thesis using crash_publish_link [where I = I and v = v, OF at I] by (simp add: publish_install_link_def)
next
  case True
  note d = at_pathD [OF at]
  have none: "link_allowed c None" using True by (simp add: link_allowed_def link_mid_def)
  have gone: "I (v(d := None))" by (rule I(2) [OF none])
  have put: "puts d (link_allowed c) v (v(d := None))" using none by (auto simp: puts_def)
  have put': "puts d (link_mid (lc_after c)) v u \<Longrightarrow> puts d (link_allowed c) v u"
      "puts d (link_mid (lc_after c)) (v(d := None)) u \<Longrightarrow> puts d (link_allowed c) v u"
      "puts d (link_is (lc_after c)) (v(d := None)) u \<Longrightarrow> puts d (link_is (lc_after c)) v u" for u
    using allowed_images(4) by (auto simp: puts_def)
  have dirs: "locate (pr_cwd pr) p = d \<or> locate (pr_cwd pr) p \<notin> V"
    if t: "find (\<lambda>t. lc_path c \<in> set (sk_links t)) targets = Some t"
      and p: "p \<in> set (managed_skill_directories (t\<lparr>sk_root := lc_path c, sk_links := []\<rparr>))" for t p
  proof -
    have "t \<in> set targets" using t by (metis find_Some_iff nth_mem)
    then have "\<forall>f \<in> set (sk_files (t\<lparr>sk_root := lc_path c, sk_links := []\<rparr>)). \<exists>ns. f = map Normal ns"
      using files by (simp add: relative_files_def)
    then obtain ns where "p = lc_path c @ map Normal ns" using managed_directory [OF p] by auto
    then have "locate (pr_cwd pr) p = d @ ns" using d(3) by (simp add: locate_append locate_normals)
    then show ?thesis using d(1,2) by (cases ns) (auto simp: separated_def strict_prefix_def prefix_def)
  qed
  have applied: "crash_run pr V I u (apply_link_image pr (lc_path c) (lc_after c))
    (\<lambda>r u. (u = v \<or> puts d (link_allowed c) v u) \<and> (\<forall>x. r = Inr x \<longrightarrow> puts d (link_is (lc_after c)) v u))"
    if u: "emptied d v u" for u
  proof -
    have "u = v \<Longrightarrow> ?thesis"
      by (simp, rule crash_post [OF crash_apply_link_image [where I = I and v = v, OF at]])
        (use I put' allowed_images(4) in auto)
    moreover have "crash_run pr V I (v(d := None)) (apply_link_image pr (lc_path c) (lc_after c))
      (\<lambda>r u. (u = v \<or> puts d (link_allowed c) v u) \<and> (\<forall>x. r = Inr x \<longrightarrow> puts d (link_is (lc_after c)) v u))"
      by (rule crash_post [OF crash_apply_link_image [where I = I and v = "v(d := None)", OF at]])
        (use I gone put put' allowed_images(4) in auto)
    ultimately show ?thesis using u by (auto simp: emptied_def)
  qed
  have away: "emptied d v u \<Longrightarrow> I u" "emptied d v u \<Longrightarrow> u = v \<or> puts d (link_allowed c) v u" for u
    using I(1) gone put by (auto simp: emptied_def)
  show ?thesis
  proof (cases "find (\<lambda>t. lc_path c \<in> set (sk_links t)) targets")
    case None
    then show ?thesis using True by (auto simp: publish_install_link_def intro: crash_tx_fail)
  next
    case (Some t)
    show ?thesis
      unfolding publish_install_link_def d(3) [symmetric]
      using True Some applied away(2)
      by (auto intro!: crash_bind crash_tx_fail crash_post [OF crash_snapshot_link [where I = I and v = v, OF I(1) d(2,4)]]
          crash_post [OF crash_remove_directories [where I = I and v = v, OF away(1) dirs [OF Some]]] split: sum.split)
  qed
qed

interpretation install: link_publisher "publish_install_link targets" "\<lambda>_. relative_files targets" for targets
  by unfold_locales (rule crash_install_link)

end
