(* ===== verification/TransactionSafety.thy ===== *)
theory TransactionSafety
  imports TransactionSteps
begin

text \<open>
  Crash safety of the transactions: whatever calls fail and wherever the program is cut off, the
  files are as before, or all changed, or a receipt on disk says how to reach one of the two, and
  recovery from such a state, itself cut off anywhere, keeps to this.
\<close>

section \<open>Transactions\<close>

definition text_at :: "process \<Rightarrow> text_change \<Rightarrow> names" where
  "text_at pr c = locate (pr_cwd pr) (tc_path c)"

definition link_at :: "process \<Rightarrow> link_change \<Rightarrow> names" where
  "link_at pr c = locate (pr_cwd pr) (lc_path c)"

definition all_before :: "process \<Rightarrow> text_change list \<Rightarrow> link_change list \<Rightarrow> fs \<Rightarrow> bool" where
  "all_before pr cs ls s \<longleftrightarrow> (\<forall>c \<in> set cs. text_is (tc_before c) (s (text_at pr c))) \<and>
     (\<forall>c \<in> set ls. link_is (lc_before c) (s (link_at pr c)))"

definition all_after :: "process \<Rightarrow> text_change list \<Rightarrow> link_change list \<Rightarrow> fs \<Rightarrow> bool" where
  "all_after pr cs ls s \<longleftrightarrow> (\<forall>c \<in> set cs. text_is (tc_after c) (s (text_at pr c))) \<and>
     (\<forall>c \<in> set ls. link_is (lc_after c) (s (link_at pr c)))"

definition between :: "process \<Rightarrow> text_change list \<Rightarrow> link_change list \<Rightarrow> fs \<Rightarrow> bool" where
  "between pr cs ls s \<longleftrightarrow> (\<forall>c \<in> set cs. text_allowed c (s (text_at pr c))) \<and>
     (\<forall>c \<in> set ls. link_allowed c (s (link_at pr c)))"

text \<open>
  What a transaction names: its receipt and its targets, all in view, at different locations, and
  the lock, out of view.
\<close>

definition tx_paths ::
    "process \<Rightarrow> names set \<Rightarrow> component list \<Rightarrow> text_change list \<Rightarrow> link_change list \<Rightarrow> bool" where
  "tx_paths pr V rp cs ls \<longleftrightarrow>
     at_path pr V rp (locate (pr_cwd pr) rp) \<and>
     (\<forall>c \<in> set cs. at_path pr V (tc_path c) (text_at pr c)) \<and>
     (\<forall>c \<in> set ls. at_path pr V (lc_path c) (link_at pr c)) \<and>
     distinct (locate (pr_cwd pr) rp # map (text_at pr) cs @ map (link_at pr) ls) \<and>
     locate (pr_cwd pr) (lock_path rp) \<notin> V"

definition shifts :: "process \<Rightarrow> text_change list \<Rightarrow> link_change list \<Rightarrow> fs \<Rightarrow> fs \<Rightarrow> bool" where
  "shifts pr cs ls v u \<longleftrightarrow> (\<forall>q. u q = v q \<or> (\<exists>c \<in> set cs. text_at pr c = q \<and> text_allowed c (u q)) \<or>
     (\<exists>c \<in> set ls. link_at pr c = q \<and> link_allowed c (u q)))"

lemma shifts_refl [simp]: "shifts pr cs ls v v"
  by (simp add: shifts_def)

lemma shifts_trans: "shifts pr cs ls v u \<Longrightarrow> shifts pr cs ls u u' \<Longrightarrow> shifts pr cs ls v u'"
  unfolding shifts_def by metis

lemma shifts_texts: "moves (text_at pr) text_allowed cs v u \<Longrightarrow> shifts pr cs ls v u"
  unfolding shifts_def moves_def by metis

lemma shifts_links: "moves (link_at pr) link_allowed ls v u \<Longrightarrow> shifts pr cs ls v u"
  unfolding shifts_def moves_def by metis

lemma moves_rev [simp]: "moves loc allowed (rev cs) = moves loc allowed cs"
  by (simp add: moves_def fun_eq_iff)

lemma shifts_control: "shifts pr cs ls v u \<Longrightarrow> tx_paths pr V rp cs ls \<Longrightarrow> u (locate (pr_cwd pr) rp) = v (locate (pr_cwd pr) rp)"
  unfolding shifts_def tx_paths_def by (auto simp: image_iff) (metis)+

lemma shifts_between:
  assumes "shifts pr cs ls v u" "tx_paths pr V rp cs ls" "between pr cs ls v"
  shows "between pr cs ls u"
proof -
  have inj: "inj_on (text_at pr) (set cs)" "inj_on (link_at pr) (set ls)" "text_at pr ` set cs \<inter> link_at pr ` set ls = {}"
    using assms(2) by (auto simp: tx_paths_def distinct_map)
  show ?thesis
    unfolding between_def
  proof (intro conjI ballI)
    fix c assume c: "c \<in> set cs"
    then consider "u (text_at pr c) = v (text_at pr c)" | c' where "c' \<in> set cs" "text_at pr c' = text_at pr c" "text_allowed c' (u (text_at pr c))"
      using assms(1) inj(3) unfolding shifts_def by (metis disjoint_iff imageI)
    then show "text_allowed c (u (text_at pr c))"
      using assms(3) c inj(1) by cases (auto simp: between_def dest: inj_onD)
  next
    fix c assume c: "c \<in> set ls"
    then consider "u (link_at pr c) = v (link_at pr c)" | c' where "c' \<in> set ls" "link_at pr c' = link_at pr c" "link_allowed c' (u (link_at pr c))"
      using assms(1) inj(3) unfolding shifts_def by (metis disjoint_iff imageI)
    then show "link_allowed c (u (link_at pr c))"
      using assms(3) c inj(2) by cases (auto simp: between_def dest: inj_onD)
  qed
qed

lemma all_between: "all_before pr cs ls v \<Longrightarrow> between pr cs ls v" "all_after pr cs ls v \<Longrightarrow> between pr cs ls v"
  by (auto simp: all_before_def all_after_def between_def allowed_images)

lemma crash_rollback_prepared:
  assumes paths: "tx_paths pr V rp (rc_changes rc) (rc_links rc)" and I: "\<And>u. shifts pr (rc_changes rc) (rc_links rc) v u \<Longrightarrow> I u"
  shows "crash_run pr V I v (rollback_prepared pr rc)
    (\<lambda>r u. shifts pr (rc_changes rc) (rc_links rc) v u \<and> (\<forall>x. r = Inr x \<longrightarrow> all_before pr (rc_changes rc) (rc_links rc) u))"
proof -
  let ?cs = "rc_changes rc" and ?ls = "rc_links rc"
  have dis: "distinct (map (text_at pr) (rev ?cs))" "distinct (map (link_at pr) (rev ?ls))"
      "text_at pr ` set ?cs \<inter> link_at pr ` set ?ls = {}"
    using paths by (auto simp: tx_paths_def distinct_map)
  have links: "crash_run pr V I v (roll_back_all (roll_back_link pr) (rev ?ls) (0, 0))
    (\<lambda>r u. moves (link_at pr) link_allowed (rev ?ls) v u \<and> (\<forall>x. r = Inr x \<longrightarrow> snd (0::nat, 0::nat) \<le> snd x \<and>
       (snd x = snd (0::nat, 0::nat) \<longrightarrow> (\<forall>c \<in> set (rev ?ls). link_is (lc_before c) (u (link_at pr c))))))"
  proof (rule crash_roll_back_all)
    fix c v assume "c \<in> set (rev ?ls)" "I v" "\<And>n. link_allowed c n \<Longrightarrow> I (v(link_at pr c := n))"
    then show "crash_run pr V I v (roll_back_link pr c) (rolled_back (link_at pr c) (link_is (lc_before c)) (link_allowed c) v)"
      using paths by (intro crash_roll_back_link) (auto simp: tx_paths_def)
  qed (use dis I shifts_links in auto)
  have texts: "crash_run pr V I u (roll_back_all (roll_back_text pr) (rev ?cs) counts)
    (\<lambda>r u'. moves (text_at pr) text_allowed (rev ?cs) u u' \<and> (\<forall>x. r = Inr x \<longrightarrow> snd counts \<le> snd x \<and>
       (snd x = snd counts \<longrightarrow> (\<forall>c \<in> set (rev ?cs). text_is (tc_before c) (u' (text_at pr c))))))"
    if u: "moves (link_at pr) link_allowed (rev ?ls) v u" for u counts
  proof (rule crash_roll_back_all)
    fix c v assume "c \<in> set (rev ?cs)" "I v" "\<And>n. text_allowed c n \<Longrightarrow> I (v(text_at pr c := n))"
    then show "crash_run pr V I v (roll_back_text pr c) (rolled_back (text_at pr c) (text_is (tc_before c)) (text_allowed c) v)"
      using paths by (intro crash_roll_back_text) (auto simp: tx_paths_def)
  next
    fix u' assume "moves (text_at pr) text_allowed (rev ?cs) u u'"
    then show "I u'" using I shifts_trans shifts_links shifts_texts u moves_rev by metis
  qed (use dis in auto)
  have final: "shifts pr ?cs ?ls v u' \<and> (\<forall>x. r = Inr x \<longrightarrow> snd x = 0 \<longrightarrow> all_before pr ?cs ?ls u')"
    if u: "moves (link_at pr) link_allowed (rev ?ls) v u" "snd counts = 0 \<longrightarrow> (\<forall>c \<in> set ?ls. link_is (lc_before c) (u (link_at pr c)))"
      and u': "moves (text_at pr) text_allowed (rev ?cs) u u'"
        "\<forall>x. r = Inr x \<longrightarrow> snd counts \<le> snd x \<and> (snd x = snd counts \<longrightarrow> (\<forall>c \<in> set ?cs. text_is (tc_before c) (u' (text_at pr c))))"
    for u u' counts and r :: "tx_error + nat \<times> nat"
  proof -
    have "c \<in> set ?ls \<Longrightarrow> u' (link_at pr c) = u (link_at pr c)" for c
      using u'(1) dis(3) by (intro moves_elsewhere) auto
    then have "\<forall>x. r = Inr x \<longrightarrow> snd x = 0 \<longrightarrow> all_before pr ?cs ?ls u'"
      using u(2) u'(2) by (auto simp: all_before_def)
    moreover have "shifts pr ?cs ?ls v u'" using u(1) u'(1) moves_rev shifts_trans shifts_links shifts_texts by metis
    ultimately show ?thesis by simp
  qed
  show ?thesis
    unfolding rollback_prepared_def
    apply (rule crash_bind, rule crash_post [OF links])
    subgoal for r u
      apply (cases r)
       apply (auto intro: shifts_links) []
      apply (simp, rule crash_bind, rule crash_post [OF texts], simp)
      subgoal for counts r' u'
        using final [of u counts u' r'] by (cases r') (auto intro!: crash_tx_return crash_tx_fail)
      done
    done
qed

section \<open>Errors before the receipt\<close>

definition never_restored :: "(world \<Rightarrow> (tx_error + 'a) \<times> world) \<Rightarrow> bool" where
  "never_restored m \<longleftrightarrow> (\<forall>w k e. fst (m w) \<noteq> Inl (RestoredPaths k e))"

lemma never_bind: "never_restored m \<Longrightarrow> (\<And>x. never_restored (k x)) \<Longrightarrow> never_restored (io_bind m k)"
  unfolding never_restored_def io_bind_def by (auto split: prod.split sum.split) (metis fst_conv)

lemma never_parts:
  "never_restored (tx_io m1)" "never_restored (tx_durable m2)" "never_restored (tx_return x)"
  "(\<forall>k f. e \<noteq> RestoredPaths k f) \<Longrightarrow> never_restored (tx_fail e)"
  by (auto simp: never_restored_def tx_io_def tx_durable_def tx_return_def tx_fail_def split: prod.split sum.split)

lemma never_snapshots: "never_restored (snapshot_file p)" "never_restored (snapshot_link p)"
proof -
  have "never_restored (io_bind (tx_io (read_call p)) (\<lambda>bytes. if valid_utf8 bytes then tx_return (Some bytes) else tx_fail TargetNotUtf8))"
    "never_restored (io_bind (tx_io (readlink_call p)) (\<lambda>t. tx_return (LinkImage t)))"
    by (auto intro!: never_bind never_parts)
  then show "never_restored (snapshot_file p)" "never_restored (snapshot_link p)"
    unfolding never_restored_def snapshot_file_def snapshot_link_def by (auto split: prod.split sum.split node.split)
qed

lemma never_verified: "never_restored (verify_image p img)" "never_restored (verify_link_image p limg)"
  unfolding verify_image_def verify_link_image_def by (auto intro!: never_bind never_snapshots never_parts)

lemma never_verify_all: "(\<And>c. never_restored (f c)) \<Longrightarrow> never_restored (verify_all f cs)"
  by (induction cs) (auto intro!: never_bind never_parts)

lemma never_lock: "never_restored (take_lock pr held rp)"
  unfolding take_lock_def by (auto intro!: never_bind never_parts)

lemma never_removed: "never_restored (remove_receipt pr rp)"
  unfolding remove_receipt_def by (auto intro!: never_bind never_parts)

lemma crash_never:
  assumes "crash_run pr V I v m R" "never_restored m" "\<And>r u. R r u \<Longrightarrow> (\<And>k e. r \<noteq> Inl (RestoredPaths k e)) \<Longrightarrow> Q r u"
  shows "crash_run pr V I v m Q"
  unfolding crash_run_def
proof (intro allI impI)
  fix w r w' assume "shielded pr V w" "w_fs w |` V = v" and m: "m w = (r, w')"
  note run = crash_runD [OF assms(1) this]
  have "r \<noteq> Inl (RestoredPaths k e)" for k e using assms(2) m by (auto simp: never_restored_def) (metis fst_conv)
  then show "shielded pr V w' \<and> guarantees (\<lambda>s s'. I (s |` V) \<and> I (s' |` V)) w w' \<and> Q r (w_fs w' |` V)"
    using run assms(3) by simp
qed

section \<open>Receipts\<close>

lemma file_parent_named: "path_file_name p = Some n \<Longrightarrow> locate cwd (file_parent p) = butlast (locate cwd p)"
  by (simp add: named_destination)

lemma crash_take_lock:
  assumes paths: "tx_paths pr V rp cs ls" and I: "I v"
  shows "crash_run pr V I v (take_lock pr held rp) (\<lambda>r u. u = v)"
proof -
  let ?l = "locate (pr_cwd pr) (lock_path rp)"
  have at: "at_path pr V rp (locate (pr_cwd pr) rp)" and out: "?l \<notin> V" using paths by (auto simp: tx_paths_def)
  obtain n where n: "path_file_name rp = Some n" using at by (auto simp: at_path_def)
  then have "rp = butlast rp @ [Normal n]"
    by (auto simp: path_file_name_def split: list.splits component.splits)
  then have parent: "path_parent rp = Some (butlast rp)" by (metis path_parent_def last_snoc snoc_eq_iff_butlast component.distinct(5))
  have lock: "lock_path rp = butlast rp @ [Normal (n @ ''.lock'')]" using n by (simp add: lock_path_def)
  have fp: "locate (pr_cwd pr) (file_parent (lock_path rp)) = locate (pr_cwd pr) (butlast rp)"
    by (simp add: lock file_parent_def path_parent_def)
  have above: "q \<in> V \<Longrightarrow> \<not> prefix q (locate (pr_cwd pr) (file_parent (lock_path rp)))" for q
    unfolding fp by (rule outside_parent [OF at parent])
  have mk: "crash_run pr V I v (mkdir_all_call (locate (pr_cwd pr) (file_parent (lock_path rp)))) (\<lambda>r u. u = v)"
    by (rule crash_mkdir_outside) (use I above in auto)
  have st: "crash_run pr V I v (stat_call ?l) (\<lambda>r u. u = v)"
    unfolding stat_call_def by (rule crash_syscall) (use I in \<open>auto simp: untouched_def\<close>)
  have op: "crash_run pr V I v (open_lock_call ?l) (\<lambda>r u. u = v)"
    unfolding open_lock_call_def
    by (rule crash_syscall) (use I out in \<open>auto simp: untouched_def view_upd split: option.split node.split\<close>)
  have "crash_run pr V I v (open_file_lock pr (lock_path rp)) (\<lambda>r u. u = v)"
    unfolding open_file_lock_def [abs_def]
    apply (rule crash_then, rule crash_post [OF mk])
    subgoal for r u
      apply (cases r)
       apply (simp add: crash_return)
      apply (simp, rule crash_then, rule crash_post [OF st])
      subgoal for r' u'
        apply (cases r')
        subgoal for k by (cases "k = KNotFound") (simp_all add: op crash_return)
        subgoal for nd by (cases nd) (simp_all add: op crash_return)
        done
      done
    done
  then show ?thesis
    unfolding take_lock_def
    by (auto intro!: crash_steps elim!: crash_post split: sum.split)
qed

lemma crash_load_receipt:
  assumes "at_path pr V rp R" "I v"
  shows "crash_run pr V I v (load_receipt decode pr rp)
    (\<lambda>r u. u = v \<and> (\<forall>rc. r = Inr rc \<longrightarrow> (\<exists>c. text_is (Some c) (v R) \<and> decode c = Some rc)))"
  unfolding load_receipt_def at_pathD(3) [OF assms(1), symmetric]
  by (auto intro!: crash_steps crash_post [OF crash_snapshot_file [where I = I and v = v, OF assms(2) at_pathD(2,4) [OF assms(1)]]]
      split: sum.split option.split)

lemma crash_remove_receipt:
  assumes "at_path pr V rp R" "I v" "I (v(R := None))"
  shows "crash_run pr V I v (remove_receipt pr rp)
    (\<lambda>r u. (u = v \<or> u = v(R := None)) \<and> (\<forall>x. r = Inr x \<longrightarrow> u = v(R := None)) \<and> (\<forall>k e. r \<noteq> Inl (RestoredPaths k e)))"
proof (rule crash_never [OF _ never_removed])
  show "crash_run pr V I v (remove_receipt pr rp) (\<lambda>r u. (u = v \<or> u = v(R := None)) \<and> (\<forall>x. r = Inr x \<longrightarrow> u = v(R := None)))"
    unfolding remove_receipt_def at_pathD(3) [OF assms(1), symmetric]
    by (rule crash_unlink_sync) (use assms at_pathD in auto)
qed auto

section \<open>States a crash may leave\<close>

definition published_receipt :: "text_change list \<Rightarrow> link_change list \<Rightarrow> receipt" where
  "published_receipt cs ls = (prepared_receipt cs ls)\<lparr>rc_phase := Published\<rparr>"

text \<open>The receipts of the transaction can be read back.\<close>

definition reads_back :: "(receipt \<Rightarrow> string) \<Rightarrow> (string \<Rightarrow> receipt option) \<Rightarrow> text_change list \<Rightarrow> link_change list \<Rightarrow> bool" where
  "reads_back encode decode cs ls \<longleftrightarrow>
     decode (encode (prepared_receipt cs ls)) = Some (prepared_receipt cs ls) \<and>
     decode (encode (published_receipt cs ls)) = Some (published_receipt cs ls)"

lemma other_phase: "published_receipt cs ls \<noteq> prepared_receipt cs ls"
  by (simp add: published_receipt_def prepared_receipt_def)

definition recoverable ::
    "(receipt \<Rightarrow> string) \<Rightarrow> process \<Rightarrow> component list \<Rightarrow> text_change list \<Rightarrow> link_change list \<Rightarrow> fs \<Rightarrow> bool" where
  "recoverable encode pr rp cs ls s \<longleftrightarrow>
     s (locate (pr_cwd pr) rp) = None \<and> (all_before pr cs ls s \<or> all_after pr cs ls s) \<or>
     text_is (Some (encode (prepared_receipt cs ls))) (s (locate (pr_cwd pr) rp)) \<and> between pr cs ls s \<or>
     text_is (Some (encode (published_receipt cs ls))) (s (locate (pr_cwd pr) rp)) \<and> all_after pr cs ls s"

definition tx_outcome ::
    "(receipt \<Rightarrow> string) \<Rightarrow> process \<Rightarrow> component list \<Rightarrow> text_change list \<Rightarrow> link_change list \<Rightarrow> tx_error + unit \<Rightarrow> fs \<Rightarrow> bool" where
  "tx_outcome encode pr rp cs ls r s \<longleftrightarrow> recoverable encode pr rp cs ls s \<and>
     (\<forall>x. r = Inr x \<longrightarrow> s (locate (pr_cwd pr) rp) = None \<and> all_after pr cs ls s) \<and>
     (\<forall>k e. r = Inl (RestoredPaths k e) \<longrightarrow> s (locate (pr_cwd pr) rp) = None \<and> all_before pr cs ls s)"

lemma control_update:
  assumes "tx_paths pr V rp cs ls" "R = locate (pr_cwd pr) rp"
  shows "all_before pr cs ls (v(R := n)) = all_before pr cs ls v" "all_after pr cs ls (v(R := n)) = all_after pr cs ls v"
    "between pr cs ls (v(R := n)) = between pr cs ls v"
proof -
  have "c \<in> set cs \<Longrightarrow> text_at pr c \<noteq> R" "l \<in> set ls \<Longrightarrow> link_at pr l \<noteq> R" for c l
    using assms by (auto simp: tx_paths_def image_iff)
  then show "all_before pr cs ls (v(R := n)) = all_before pr cs ls v" "all_after pr cs ls (v(R := n)) = all_after pr cs ls v"
    "between pr cs ls (v(R := n)) = between pr cs ls v"
    by (simp_all add: all_before_def all_after_def between_def)
qed

lemma crash_rollback_after_failure:
  assumes paths: "tx_paths pr V rp cs ls" and v: "text_is (Some (encode (prepared_receipt cs ls))) (v (locate (pr_cwd pr) rp))" "between pr cs ls v"
    and I: "\<And>u. recoverable encode pr rp cs ls u \<Longrightarrow> I u"
  shows "crash_run pr V I v (rollback_after_failure pr rp (prepared_receipt cs ls) e) (tx_outcome encode pr rp cs ls)"
proof -
  let ?R = "locate (pr_cwd pr) rp" and ?rc = "prepared_receipt cs ls"
  have at: "at_path pr V rp ?R" using paths by (simp add: tx_paths_def)
  have rc: "rc_changes ?rc = cs" "rc_links ?rc = ls" by (simp_all add: prepared_receipt_def)
  have state: "recoverable encode pr rp cs ls u" if "shifts pr cs ls v u" for u
    using shifts_control [OF that paths] shifts_between [OF that paths v(2)] v(1) by (simp add: recoverable_def)
  have "crash_run pr V I v (rollback_prepared pr ?rc)
    (\<lambda>r u. shifts pr cs ls v u \<and> (\<forall>x. r = Inr x \<longrightarrow> all_before pr cs ls u))"
    using crash_rollback_prepared [of pr V rp ?rc v I] paths I state by (simp add: rc)
  note rolled = this [THEN crash_post]
  have removed: "crash_run pr V I u (io_bind (remove_receipt pr rp) (\<lambda>_. tx_fail (RestoredPaths paths e))) (tx_outcome encode pr rp cs ls)"
    if u: "shifts pr cs ls v u" "all_before pr cs ls u" for u paths
  proof -
    have ok: "recoverable encode pr rp cs ls (u(?R := None))" using control_update(1) [OF paths] u(2) by (simp add: recoverable_def)
    have gone: "tx_outcome encode pr rp cs ls (Inl (RestoredPaths paths e)) (u(?R := None))"
      using ok control_update(1) [OF paths] u(2) by (simp add: tx_outcome_def)
    have out: "tx_outcome encode pr rp cs ls (Inl f) u'" if "u' = u \<or> u' = u(?R := None)" "\<forall>k g. f \<noteq> RestoredPaths k g" for f u'
      using that ok state [OF u(1)] by (auto simp: tx_outcome_def)
    show ?thesis
      by (rule crash_bind, rule crash_post [OF crash_remove_receipt [OF at I [OF state [OF u(1)]] I [OF ok]]])
        (auto intro!: crash_tx_fail gone out split: sum.split)
  qed
  have stay: "shifts pr cs ls v u \<Longrightarrow> tx_outcome encode pr rp cs ls (Inl (RollbackIncomplete e)) u" for u
    by (simp add: tx_outcome_def state)
  show ?thesis
    unfolding rollback_after_failure_def [abs_def]
    apply (rule crash_then, rule rolled)
    subgoal for r u
      by (cases r) (auto intro!: removed crash_return stay)
    done
qed

lemma crash_finish_failed:
  assumes paths: "tx_paths pr V rp cs ls" and codec: "reads_back encode decode cs ls"
    and v: "text_is (Some (encode (prepared_receipt cs ls))) (v (locate (pr_cwd pr) rp)) \<or>
      text_is (Some (encode (published_receipt cs ls))) (v (locate (pr_cwd pr) rp))" "all_after pr cs ls v"
    and I: "\<And>u. recoverable encode pr rp cs ls u \<Longrightarrow> I u"
  shows "crash_run pr V I v (finish_failed decode pr rp e) (tx_outcome encode pr rp cs ls)"
proof -
  let ?R = "locate (pr_cwd pr) rp"
  have at: "at_path pr V rp ?R" using paths by (simp add: tx_paths_def)
  have state: "recoverable encode pr rp cs ls v" using v all_between(2) [OF v(2)] by (auto simp: recoverable_def)
  have stay: "tx_outcome encode pr rp cs ls (Inl e) v" if "\<forall>k f. e \<noteq> RestoredPaths k f" for e
    using that state by (simp add: tx_outcome_def)
  show ?thesis
    unfolding finish_failed_def [abs_def]
    apply (rule crash_then, rule crash_post [OF crash_load_receipt [where I = I and v = v, OF at I [OF state]]])
    subgoal for r u
      apply (cases r)
       apply (auto intro!: crash_return stay) []
      subgoal for rc
        apply (cases "rc_phase rc")
        subgoal premises p
        proof -
          obtain c where c: "text_is (Some c) (v ?R)" "decode c = Some rc" using p by auto
          have "rc = prepared_receipt cs ls"
          proof -
            consider "c = encode (prepared_receipt cs ls)" | "c = encode (published_receipt cs ls)" using v(1) c(1) by auto
            then show ?thesis using c(2) codec p by cases (auto simp: reads_back_def, simp add: published_receipt_def)
          qed
          moreover from this have "text_is (Some (encode (prepared_receipt cs ls))) (v ?R)"
            using v(1) c codec other_phase [of cs ls] by (auto simp: reads_back_def)
          ultimately show ?thesis
            using p crash_rollback_after_failure [where I = I and v = v, OF paths _ all_between(2) [OF v(2)] I] by simp
        qed
        apply (auto intro!: crash_return stay)
        done
      done
    done
qed

lemma crash_finish_published:
  assumes paths: "tx_paths pr V rp cs ls"
    and v: "text_is (Some (encode (published_receipt cs ls))) (v (locate (pr_cwd pr) rp))" "all_after pr cs ls v"
    and I: "\<And>u. recoverable encode pr rp cs ls u \<Longrightarrow> I u"
  shows "crash_run pr V I v (finish_published pr rp) (tx_outcome encode pr rp cs ls)"
proof -
  let ?R = "locate (pr_cwd pr) rp"
  have at: "at_path pr V rp ?R" using paths by (simp add: tx_paths_def)
  have state: "recoverable encode pr rp cs ls v" using v by (auto simp: recoverable_def)
  have gone: "recoverable encode pr rp cs ls (v(?R := None))" "all_after pr cs ls (v(?R := None))"
    using v control_update(2) [OF paths] by (auto simp: recoverable_def)
  have stay: "tx_outcome encode pr rp cs ls (Inl e) u"
    if "\<forall>k f. e \<noteq> RestoredPaths k f" "u = v \<or> u = v(?R := None)" for e u
    using that state gone by (auto simp: tx_outcome_def)
  have ok: "tx_outcome encode pr rp cs ls (Inr x) (v(?R := None))" for x
    using gone by (simp add: tx_outcome_def)
  have look: "crash_run pr V I u (\<lambda>w. case entry_exists ?R w of (Inr False, w'') \<Rightarrow> (Inl e, w'') | (_, w'') \<Rightarrow> (Inl (ReceiptNotRemoved e), w''))
      (tx_outcome encode pr rp cs ls)"
    if e: "\<forall>k f. e \<noteq> RestoredPaths k f" and u: "u = v \<or> u = v(?R := None)" for e u
  proof -
    have Iu: "I u" using u I state gone by auto
    show ?thesis
      apply (rule crash_then, rule crash_post [OF crash_entry_exists [where I = I and v = u, OF Iu at_pathD(2,4) [OF at]]])
      subgoal for r u'
        apply (cases r)
        subgoal for k using e u by (auto intro!: crash_return stay)
        subgoal for b using e u by (cases b) (auto intro!: crash_return stay)
        done
      done
  qed
  have looked: "crash_run pr V I u (case r of Inl e \<Rightarrow> (\<lambda>w. case entry_exists ?R w of (Inr False, w'') \<Rightarrow> (Inl e, w'') | (_, w'') \<Rightarrow> (Inl (ReceiptNotRemoved e), w'')) | Inr _ \<Rightarrow> Pair (Inr ()))
      (tx_outcome encode pr rp cs ls)"
    if "(u = v \<or> u = v(?R := None)) \<and> (\<forall>x. r = Inr x \<longrightarrow> u = v(?R := None)) \<and> (\<forall>k e. r \<noteq> Inl (RestoredPaths k e))" for r :: "tx_error + unit" and u
    using that look ok by (cases r) (auto intro!: crash_return)
  have eq: "finish_published pr rp = (\<lambda>w. case remove_receipt pr rp w of (r, w') \<Rightarrow>
      (case r of Inl e \<Rightarrow> (\<lambda>w. case entry_exists ?R w of (Inr False, w'') \<Rightarrow> (Inl e, w'') | (_, w'') \<Rightarrow> (Inl (ReceiptNotRemoved e), w'')) | Inr _ \<Rightarrow> Pair (Inr ())) w')"
    by (rule ext) (simp add: finish_published_def split: prod.split sum.split)
  show ?thesis
    unfolding eq
    by (rule crash_then, rule crash_post [OF crash_remove_receipt [OF at I [OF state] I [OF gone(1)]]]) (rule looked)
qed

lemma crash_publish_phase:
  assumes paths: "tx_paths pr V rp cs ls" and codec: "reads_back encode decode cs ls"
    and v: "text_is (Some (encode (prepared_receipt cs ls))) (v (locate (pr_cwd pr) rp))" "all_after pr cs ls v"
    and I: "\<And>u. recoverable encode pr rp cs ls u \<Longrightarrow> I u"
  shows "crash_run pr V I v (publish_phase encode decode pr rp (prepared_receipt cs ls)) (tx_outcome encode pr rp cs ls)"
proof -
  let ?R = "locate (pr_cwd pr) rp" and ?new = "encode (published_receipt cs ls)"
  have at: "at_path pr V rp ?R" using paths by (simp add: tx_paths_def)
  have state: "recoverable encode pr rp cs ls v" using v all_between(2) [OF v(2)] by (auto simp: recoverable_def)
  have put: "text_is (Some ?new) n \<Longrightarrow> recoverable encode pr rp cs ls (v(?R := n))" for n
    using v control_update(2) [OF paths] by (auto simp: recoverable_def)
  have written: "puts ?R (text_is (Some ?new)) v u \<Longrightarrow> text_is (Some ?new) (u ?R) \<and> all_after pr cs ls u" for u
    using v control_update(2) [OF paths] by (auto simp: puts_def)
  have wrote: "crash_run pr V I v (write_receipt encode pr rp (published_receipt cs ls) Replace)
      (\<lambda>r u. (u = v \<or> puts ?R (text_is (Some ?new)) v u) \<and> (\<forall>x. r = Inr x \<longrightarrow> puts ?R (text_is (Some ?new)) v u))"
    unfolding write_receipt_def
    by (rule crash_tx_durable, rule crash_post [OF crash_write_at [where I = I and v = v, OF at]]) (use I state put in auto)
  have failed: "crash_run pr V I u (finish_failed decode pr rp e) (tx_outcome encode pr rp cs ls)"
    if "u = v \<or> puts ?R (text_is (Some ?new)) v u" for u e
    by (rule crash_finish_failed [OF paths codec]) (use that v written I in auto)
  have published: "crash_run pr V I u (finish_published pr rp) (tx_outcome encode pr rp cs ls)"
    if "puts ?R (text_is (Some ?new)) v u" for u
    by (rule crash_finish_published [OF paths]) (use that written I in auto)
  show ?thesis
    unfolding publish_phase_def [abs_def] published_receipt_def [symmetric]
    apply (rule crash_then, rule crash_post [OF wrote])
    subgoal for r u by (cases r) (auto intro: failed published)
    done
qed

section \<open>Execution, for every publisher of links\<close>

context link_publisher
begin

lemma crash_run_changes:
  assumes paths: "tx_paths pr V rp cs ls" and codec: "reads_back encode decode cs ls" and covered: "\<forall>c \<in> set ls. covers c"
    and v: "text_is (Some (encode (prepared_receipt cs ls))) (v (locate (pr_cwd pr) rp))" "between pr cs ls v"
    and I: "\<And>u. recoverable encode pr rp cs ls u \<Longrightarrow> I u"
  shows "crash_run pr V I v (run_changes publish encode decode pr rp (prepared_receipt cs ls)) (tx_outcome encode pr rp cs ls)"
proof -
  let ?R = "locate (pr_cwd pr) rp" and ?rc = "prepared_receipt cs ls"
  have rc: "rc_changes ?rc = cs" "rc_links ?rc = ls" by (simp_all add: prepared_receipt_def)
  have dis: "distinct (map (text_at pr) cs)" "distinct (map (link_at pr) ls)"
      "text_at pr ` set cs \<inter> link_at pr ` set ls = {}"
    using paths by (auto simp: tx_paths_def distinct_map)
  have kept: "text_is (Some (encode ?rc)) (u ?R) \<and> between pr cs ls u" if "shifts pr cs ls v u" for u
    using shifts_control [OF that paths] shifts_between [OF that paths v(2)] v(1) by simp
  have state: "I u" if "shifts pr cs ls v u" for u
    using kept [OF that] I by (simp add: recoverable_def)
  have texts: "crash_run pr V I v (publish_all (\<lambda>_. publish_text_change pr) 0 cs)
    (\<lambda>r u. moves (text_at pr) text_allowed cs v u \<and> (\<forall>x. r = Inr x \<longrightarrow> (\<forall>c \<in> set cs. text_is (tc_after c) (u (text_at pr c)))))"
  proof (rule crash_publish_all)
    fix c and k :: nat and v assume "c \<in> set cs" "I v" "\<And>n. text_allowed c n \<Longrightarrow> I (v(text_at pr c := n))"
    then show "crash_run pr V I v (publish_text_change pr c) (\<lambda>r u. (u = v \<or> puts (text_at pr c) (text_allowed c) v u) \<and>
        (\<forall>x. r = Inr x \<longrightarrow> puts (text_at pr c) (text_is (tc_after c)) v u))"
      using paths by (intro crash_publish_text) (auto simp: tx_paths_def)
  qed (use dis state shifts_texts allowed_images in auto)
  have links: "crash_run pr V I u (publish_all (publish pr) 0 ls)
    (\<lambda>r u'. moves (link_at pr) link_allowed ls u u' \<and> (\<forall>x. r = Inr x \<longrightarrow> (\<forall>c \<in> set ls. link_is (lc_after c) (u' (link_at pr c)))))"
    if u: "moves (text_at pr) text_allowed cs v u" for u
  proof (rule crash_publish_all)
    fix c k v assume "c \<in> set ls" "I v" "\<And>n. link_allowed c n \<Longrightarrow> I (v(link_at pr c := n))"
    then show "crash_run pr V I v (publish pr k c) (\<lambda>r u. (u = v \<or> puts (link_at pr c) (link_allowed c) v u) \<and>
        (\<forall>x. r = Inr x \<longrightarrow> puts (link_at pr c) (link_is (lc_after c)) v u))"
      using paths covered by (intro publish) (auto simp: tx_paths_def)
  next
    fix u' assume "moves (link_at pr) link_allowed ls u u'"
    then show "I u'" using state shifts_trans shifts_links shifts_texts u by metis
  qed (use dis allowed_images in auto)
  have all: "crash_run pr V I v (io_bind (publish_all (\<lambda>_. publish_text_change pr) 0 cs) (\<lambda>_. publish_all (publish pr) 0 ls))
    (\<lambda>r u. shifts pr cs ls v u \<and> (\<forall>x. r = Inr x \<longrightarrow> all_after pr cs ls u))"
    apply (rule crash_bind, rule crash_post [OF texts])
    subgoal for r u
      apply (cases r)
       apply (auto intro: shifts_texts) []
      apply (simp, rule crash_post [OF links], simp)
      subgoal premises p for r' u'
      proof -
        have "c \<in> set cs \<Longrightarrow> u' (text_at pr c) = u (text_at pr c)" for c
          using p dis(3) by (intro moves_elsewhere [of "link_at pr" link_allowed ls]) auto
        moreover have "shifts pr cs ls v u'" using p shifts_trans shifts_texts shifts_links by metis
        ultimately show ?thesis using p by (auto simp: all_after_def)
      qed
      done
    done
  show ?thesis
    unfolding run_changes_def [abs_def] rc
    apply (rule crash_then, rule crash_post [OF all])
    subgoal for r u
      using kept [of u] crash_rollback_after_failure [where I = I and v = u, OF paths _ _ I]
        crash_publish_phase [where I = I and v = u, OF paths codec _ _ I]
      by (cases r) auto
    done
qed

lemma crash_checked_run:
  assumes paths: "tx_paths pr V rp cs ls" and codec: "reads_back encode decode cs ls" and covered: "\<forall>c \<in> set ls. covers c"
  shows "crash_run pr V (\<lambda>u. u = v \<or> recoverable encode pr rp cs ls u) v (checked_run publish encode decode pr held rp cs ls)
    (\<lambda>r u. tx_outcome encode pr rp cs ls r u \<or> u = v \<and> (\<exists>e. r = Inl e \<and> (\<forall>k f. e \<noteq> RestoredPaths k f)))"
proof -
  let ?R = "locate (pr_cwd pr) rp" and ?rc = "prepared_receipt cs ls" and ?I = "\<lambda>u. u = v \<or> recoverable encode pr rp cs ls u"
  have at: "at_path pr V rp ?R" using paths by (simp add: tx_paths_def)
  note R = at_pathD(2,4) [OF at]
  have texts: "crash_run pr V ?I v (verify_all (\<lambda>c. verify_image (locate (pr_cwd pr) (tc_path c)) (tc_before c)) cs)
      (\<lambda>r u. u = v \<and> (\<forall>x. r = Inr x \<longrightarrow> (\<forall>c \<in> set cs. text_is (tc_before c) (v (text_at pr c)))))"
  proof (rule crash_verify_all)
    fix c assume "c \<in> set cs"
    then have "at_path pr V (tc_path c) (text_at pr c)" using paths by (auto simp: tx_paths_def)
    then show "crash_run pr V ?I v (verify_image (locate (pr_cwd pr) (tc_path c)) (tc_before c))
        (\<lambda>r u. u = v \<and> (\<forall>x. r = Inr x \<longrightarrow> text_is (tc_before c) (v (text_at pr c))))"
      unfolding text_at_def by (intro crash_verify_image) (auto dest: at_pathD)
  qed
  have links: "crash_run pr V ?I v (verify_all (\<lambda>c. verify_link_image (locate (pr_cwd pr) (lc_path c)) (lc_before c)) ls)
      (\<lambda>r u. u = v \<and> (\<forall>x. r = Inr x \<longrightarrow> (\<forall>c \<in> set ls. link_is (lc_before c) (v (link_at pr c)))))"
  proof (rule crash_verify_all)
    fix c assume "c \<in> set ls"
    then have "at_path pr V (lc_path c) (link_at pr c)" using paths by (auto simp: tx_paths_def)
    then show "crash_run pr V ?I v (verify_link_image (locate (pr_cwd pr) (lc_path c)) (lc_before c))
        (\<lambda>r u. u = v \<and> (\<forall>x. r = Inr x \<longrightarrow> link_is (lc_before c) (v (link_at pr c))))"
      unfolding link_at_def by (intro crash_verify_link_image) (auto dest: at_pathD)
  qed
  have wrote: "crash_run pr V ?I v (write_receipt encode pr rp ?rc CreateNew)
      (\<lambda>r u. (u = v \<or> puts ?R (text_is (Some (encode ?rc))) v u) \<and> (\<forall>x. r = Inr x \<longrightarrow> puts ?R (text_is (Some (encode ?rc))) v u) \<and>
        (\<forall>k e. r \<noteq> Inl (RestoredPaths k e)))"
    if before: "all_before pr cs ls v"
  proof -
    have put: "text_is (Some (encode ?rc)) n \<Longrightarrow> ?I (v(?R := n))" for n
      using control_update(3) [OF paths] all_between(1) [OF before] by (simp add: recoverable_def)
    have "crash_run pr V ?I v (write_receipt encode pr rp ?rc CreateNew)
      (\<lambda>r u. (u = v \<or> puts ?R (text_is (Some (encode ?rc))) v u) \<and> (\<forall>x. r = Inr x \<longrightarrow> puts ?R (text_is (Some (encode ?rc))) v u))"
      unfolding write_receipt_def
      by (rule crash_tx_durable, rule crash_post [OF crash_write_at [where I = ?I and v = v, OF at _ put]]) auto
    then show ?thesis
      by (rule crash_never) (auto simp: write_receipt_def never_parts)
  qed
  let ?Q = "\<lambda>r u. tx_outcome encode pr rp cs ls r u \<or> u = v \<and> (\<exists>e. r = Inl e \<and> (\<forall>k f. e \<noteq> RestoredPaths k f))"
  have written: "text_is (Some (encode ?rc)) (u ?R) \<and> between pr cs ls u" if "all_before pr cs ls v" "puts ?R (text_is (Some (encode ?rc))) v u" for u
    using that control_update(3) [OF paths] all_between(1) by (auto simp: puts_def)
  have ran: "crash_run pr V ?I v (io_bind (write_receipt encode pr rp ?rc CreateNew) (\<lambda>_. run_changes publish encode decode pr rp ?rc)) ?Q"
    if before: "all_before pr cs ls v"
    apply (rule crash_bind, rule crash_post [OF wrote [OF before]])
    subgoal for r u
      apply (cases r)
      subgoal using written [OF before, of u] by (auto simp: tx_outcome_def recoverable_def)
      subgoal using written [OF before, of u] crash_run_changes [where I = ?I and v = u, OF paths codec covered] by (auto intro: crash_post)
      done
    done
  have verified: "crash_run pr V ?I v (io_bind (verify_all (\<lambda>c. verify_image (locate (pr_cwd pr) (tc_path c)) (tc_before c)) cs) (\<lambda>_.
      io_bind (verify_all (\<lambda>c. verify_link_image (locate (pr_cwd pr) (lc_path c)) (lc_before c)) ls) (\<lambda>_.
      io_bind (write_receipt encode pr rp ?rc CreateNew) (\<lambda>_. run_changes publish encode decode pr rp ?rc)))) ?Q"
    apply (rule crash_bind, rule crash_never [OF texts never_verify_all [OF never_verified(1)]])
    subgoal for r u
      apply (cases r)
       apply auto []
      apply (simp, rule crash_bind, rule crash_never [OF links never_verify_all [OF never_verified(2)]])
      subgoal for r' u' using ran by (cases r') (auto simp: all_before_def)
      done
    done
  have look: "crash_run pr V ?I v (tx_io (entry_exists ?R)) (\<lambda>r u. u = v \<and> (\<forall>k e. r \<noteq> Inl (RestoredPaths k e)))"
    by (rule crash_never [OF _ never_parts(1)], rule crash_tx_io, rule crash_post [OF crash_entry_exists [where I = ?I and v = v, OF _ R]]) auto
  show ?thesis
    unfolding checked_run_def
    apply (rule crash_bind, rule crash_never [OF crash_take_lock [where I = ?I and v = v, OF paths] never_lock], simp)
    subgoal for r u
      apply (cases r)
       apply auto []
      apply (simp, rule crash_bind, rule crash_post [OF look])
      subgoal for r' u' using verified by (cases r') (auto intro: crash_tx_fail)
      done
    done
qed

end

section \<open>Validation\<close>

lemma scan_paths_ok:
  assumes "scan_paths seen xs = Inr x"
  shows "distinct (map fst xs)" "set (map fst xs) \<inter> set seen = {}" "(p, b) \<in> set xs \<Longrightarrow> \<not> b"
  using assms
  by (induction seen xs rule: scan_paths.induct) (auto split: if_splits)

lemma normalize_path_eq: "normalize_path pr p = normalize_path pr q \<longleftrightarrow> locate (pr_cwd pr) p = locate (pr_cwd pr) q"
  by (simp add: normalize_path_def inj_map_eq_map inj_def)

lemma locate_absolute: "locate (pr_cwd pr) (absolute_path pr p) = locate (pr_cwd pr) p"
proof (cases "take 1 p = [RootDir]")
  case False
  have "locate [] (map Normal (pr_cwd pr) @ p) = locate (pr_cwd pr) p"
    by (simp add: locate_append locate_normals)
  then show ?thesis using False by (simp add: absolute_path_def)
qed (simp add: absolute_path_def)

lemma file_name_absolute: "path_file_name p = Some n \<Longrightarrow> path_file_name (absolute_path pr p) = Some n"
  by (cases p rule: rev_cases) (auto simp: path_file_name_def absolute_path_def)

lemma lock_of_normalized:
  assumes "path_file_name p = Some n"
  shows "lock_path (normalize_path pr p) = normalize_path pr (lock_path p)"
proof -
  have "p = butlast p @ [Normal n]"
    using assms by (auto simp: path_file_name_def split: list.splits component.splits)
  then obtain q where p: "p = q @ [Normal n]" by metis
  show ?thesis
    by (simp add: p normalize_path_def lock_path_def path_file_name_def locate_append)
qed

lemma validated_control:
  assumes "validate_control_paths pr rp cs ls = Inr x" "path_file_name rp = Some n"
  shows "q \<in> tc_path ` set cs \<union> lc_path ` set ls \<Longrightarrow> locate (pr_cwd pr) q \<noteq> locate (pr_cwd pr) rp \<and>
    locate (pr_cwd pr) q \<noteq> locate (pr_cwd pr) (lock_path rp)"
  using assms lock_of_normalized [OF assms(2), of pr]
  by (auto simp: validate_control_paths_def Let_def find_None_iff normalize_path_eq split: option.splits)

section \<open>Recovery\<close>

definition recovered :: "process \<Rightarrow> component list \<Rightarrow> text_change list \<Rightarrow> link_change list \<Rightarrow> tx_error + recovery_outcome \<Rightarrow> fs \<Rightarrow> bool" where
  "recovered pr rp cs ls r s \<longleftrightarrow>
     (\<forall>k. r = Inr (RolledBack k) \<longrightarrow> s (locate (pr_cwd pr) rp) = None \<and> all_before pr cs ls s) \<and>
     (\<forall>k. r = Inr (Finalized k) \<longrightarrow> s (locate (pr_cwd pr) rp) = None \<and> all_after pr cs ls s \<and> k = length cs + length ls)"

lemma crash_recover_receipt:
  assumes paths: "tx_paths pr V rp cs ls" and rc: "rc = prepared_receipt cs ls \<and> between pr cs ls v \<or> rc = published_receipt cs ls \<and> all_after pr cs ls v"
    and v: "text_is (Some (encode rc)) (v (locate (pr_cwd pr) rp))"
    and I: "\<And>u. recoverable encode pr rp cs ls u \<Longrightarrow> I u"
  shows "crash_run pr V I v (recover_receipt pr rc) (\<lambda>r u. recoverable encode pr rp cs ls u \<and>
    (\<forall>x. r = Inr x \<longrightarrow> (\<exists>k. x = RolledBack k \<and> all_before pr cs ls u) \<or>
       x = Finalized (length cs + length ls) \<and> all_after pr cs ls u))"
proof -
  have state: "recoverable encode pr rp cs ls v" using rc v by (auto simp: recoverable_def)
  show ?thesis
  proof (cases "rc_phase rc")
    case Prepared
    then have eq: "rc = prepared_receipt cs ls" "between pr cs ls v" using rc by (auto simp: published_receipt_def)
    then have sub: "rc_changes rc = cs" "rc_links rc = ls" by (simp_all add: prepared_receipt_def)
    have kept: "recoverable encode pr rp cs ls u" if "shifts pr cs ls v u" for u
      using shifts_control [OF that paths] shifts_between [OF that paths eq(2)] v eq(1) by (simp add: recoverable_def)
    have "crash_run pr V I v (rollback_prepared pr rc) (\<lambda>r u. shifts pr cs ls v u \<and> (\<forall>x. r = Inr x \<longrightarrow> all_before pr cs ls u))"
      using crash_rollback_prepared [of pr V rp rc v I] paths kept I by (simp add: sub)
    note rolled = this [THEN crash_post]
    show ?thesis
      unfolding recover_receipt_def Prepared phase.case
      by (rule crash_bind, rule rolled) (auto simp: kept intro!: crash_tx_return split: sum.split)
  next
    case Published
    then have eq: "rc = published_receipt cs ls" "all_after pr cs ls v" using rc by (auto simp: prepared_receipt_def)
    then have sub: "rc_changes rc = cs" "rc_links rc = ls" by (simp_all add: published_receipt_def prepared_receipt_def)
    have Iv: "I v" using I state by simp
    have texts: "crash_run pr V I v (verify_all (\<lambda>c. verify_image (locate (pr_cwd pr) (tc_path c)) (tc_after c)) cs) (\<lambda>r u. u = v \<and> (\<forall>x. r = Inr x \<longrightarrow> (\<forall>c \<in> set cs. True)))"
    proof (rule crash_verify_all)
      fix c assume "c \<in> set cs"
      then have "at_path pr V (tc_path c) (text_at pr c)" using paths by (auto simp: tx_paths_def)
      then show "crash_run pr V I v (verify_image (locate (pr_cwd pr) (tc_path c)) (tc_after c)) (\<lambda>r u. u = v \<and> (\<forall>x. r = Inr x \<longrightarrow> True))"
        unfolding text_at_def
        by (intro crash_post [OF crash_verify_image [where I = I and v = v, OF Iv]]) (auto dest: at_pathD)
    qed
    have links: "crash_run pr V I v (verify_all (\<lambda>c. verify_link_image (locate (pr_cwd pr) (lc_path c)) (lc_after c)) ls) (\<lambda>r u. u = v \<and> (\<forall>x. r = Inr x \<longrightarrow> (\<forall>c \<in> set ls. True)))"
    proof (rule crash_verify_all)
      fix c assume "c \<in> set ls"
      then have "at_path pr V (lc_path c) (link_at pr c)" using paths by (auto simp: tx_paths_def)
      then show "crash_run pr V I v (verify_link_image (locate (pr_cwd pr) (lc_path c)) (lc_after c)) (\<lambda>r u. u = v \<and> (\<forall>x. r = Inr x \<longrightarrow> True))"
        unfolding link_at_def
        by (intro crash_post [OF crash_verify_link_image [where I = I and v = v, OF Iv]]) (auto dest: at_pathD)
    qed
    show ?thesis
      unfolding recover_receipt_def Published phase.case sub
      by (auto simp: state eq(2) intro!: crash_bind crash_tx_return crash_post [OF texts] crash_post [OF links] split: sum.split)
  qed
qed

lemma crash_recover:
  assumes paths: "tx_paths pr V rp cs ls" and codec: "reads_back encode decode cs ls" and v: "recoverable encode pr rp cs ls v"
  shows "crash_run pr V (recoverable encode pr rp cs ls) v (recover_transaction decode pr held rp)
    (\<lambda>r u. recoverable encode pr rp cs ls u \<and> recovered pr rp cs ls r u)"
proof -
  let ?R = "locate (pr_cwd pr) rp" and ?I = "recoverable encode pr rp cs ls"
  let ?Q = "\<lambda>r u. recoverable encode pr rp cs ls u \<and> recovered pr rp cs ls r u"
  have at: "at_path pr V rp ?R" using paths by (simp add: tx_paths_def)
  note R = at_pathD(2,4) [OF at]
  have failed: "?Q (Inl e) u" if "?I u" for e u using that by (simp add: recovered_def)
  have removed: "crash_run pr V ?I u (io_bind (remove_receipt pr rp) (\<lambda>_. tx_return outcome)) ?Q"
    if u: "?I u" and done': "(\<exists>k. outcome = RolledBack k \<and> all_before pr cs ls u) \<or> outcome = Finalized (length cs + length ls) \<and> all_after pr cs ls u"
    for u outcome
  proof -
    have gone: "?I (u(?R := None))" "?Q (Inr outcome) (u(?R := None))"
      using done' control_update(1,2) [OF paths] by (auto simp: recoverable_def recovered_def)
    show ?thesis
      by (rule crash_bind, rule crash_post [OF crash_remove_receipt [where I = ?I and v = u, OF at u gone(1)]])
        (use u gone failed in \<open>auto intro!: crash_tx_return split: sum.split\<close>)
  qed
  have loaded: "crash_run pr V ?I v (io_bind (recover_receipt pr rc) (\<lambda>outcome. io_bind (remove_receipt pr rp) (\<lambda>_. tx_return outcome))) ?Q"
    if c: "text_is (Some c) (v ?R)" "decode c = Some rc" for c rc
  proof -
    have "(rc = prepared_receipt cs ls \<and> between pr cs ls v \<or> rc = published_receipt cs ls \<and> all_after pr cs ls v) \<and> text_is (Some (encode rc)) (v ?R)"
      using v c codec by (auto simp: recoverable_def reads_back_def)
    then have rec: "crash_run pr V ?I v (recover_receipt pr rc) (\<lambda>r u. recoverable encode pr rp cs ls u \<and>
        (\<forall>x. r = Inr x \<longrightarrow> (\<exists>k. x = RolledBack k \<and> all_before pr cs ls u) \<or>
         x = Finalized (length cs + length ls) \<and> all_after pr cs ls u))"
      by (intro crash_recover_receipt [OF paths]) auto
    show ?thesis
      apply (rule crash_bind, rule crash_post [OF rec])
      subgoal for r u using failed [of u] removed [of u] by (cases r) auto
      done
  qed
  have load: "crash_run pr V ?I v (io_bind (load_receipt decode pr rp) (\<lambda>rc. io_bind (recover_receipt pr rc)
      (\<lambda>outcome. io_bind (remove_receipt pr rp) (\<lambda>_. tx_return outcome)))) ?Q"
    apply (rule crash_bind, rule crash_post [OF crash_load_receipt [where I = ?I and v = v, OF at v]])
    subgoal for r u using failed [OF v] loaded by (cases r) auto
    done
  have locked: "crash_run pr V ?I v (io_bind (take_lock pr held rp) (\<lambda>_. io_bind (load_receipt decode pr rp) (\<lambda>rc. io_bind (recover_receipt pr rc)
      (\<lambda>outcome. io_bind (remove_receipt pr rp) (\<lambda>_. tx_return outcome))))) ?Q"
    apply (rule crash_bind, rule crash_post [OF crash_take_lock [where I = ?I and v = v, OF paths v]])
    subgoal for r u using failed [OF v] load by (cases r) auto
    done
  show ?thesis
    unfolding recover_transaction_def
    apply (rule crash_bind, rule crash_tx_io, rule crash_post [OF crash_entry_exists [where I = ?I and v = v, OF v R]])
    subgoal for r u using failed [OF v] locked by (cases r) (auto intro: crash_tx_fail)
    done
qed

section \<open>Whole runs\<close>

definition tx_view :: "process \<Rightarrow> component list \<Rightarrow> text_change list \<Rightarrow> link_change list \<Rightarrow> names set" where
  "tx_view pr rp cs ls = insert (locate (pr_cwd pr) rp) (text_at pr ` set cs \<union> link_at pr ` set ls)"

text \<open>
  The paths name entries, none of them above another or in the place of a staging file, and no two
  changes have the same location.
\<close>

definition apart :: "process \<Rightarrow> component list \<Rightarrow> text_change list \<Rightarrow> link_change list \<Rightarrow> bool" where
  "apart pr rp cs ls \<longleftrightarrow> pr_nonce pr \<noteq> None \<and> separated pr (tx_view pr rp cs ls) \<and>
     (\<forall>p \<in> insert rp (tc_path ` set cs \<union> lc_path ` set ls). path_file_name p \<noteq> None) \<and>
     distinct (map (text_at pr) cs @ map (link_at pr) ls)"

lemma absolute_at:
  "text_at pr (c\<lparr>tc_path := absolute_path pr (tc_path c)\<rparr>) = text_at pr c"
  "link_at pr (l\<lparr>lc_path := absolute_path pr (lc_path l)\<rparr>) = link_at pr l"
  by (simp_all add: text_at_def link_at_def locate_absolute)

lemma absolute_same:
  "all_before pr (absolute_texts pr cs) (absolute_links pr ls) = all_before pr cs ls"
  "all_after pr (absolute_texts pr cs) (absolute_links pr ls) = all_after pr cs ls"
  "tx_view pr rp (absolute_texts pr cs) (absolute_links pr ls) = tx_view pr rp cs ls"
  by (auto simp: fun_eq_iff all_before_def all_after_def tx_view_def absolute_texts_def absolute_links_def absolute_at image_image)

lemma view_same:
  assumes "locate (pr_cwd pr) rp \<in> V" "text_at pr ` set cs \<subseteq> V" "link_at pr ` set ls \<subseteq> V"
  shows "recoverable encode pr rp cs ls (s |` V) = recoverable encode pr rp cs ls s"
    "all_before pr cs ls (s |` V) = all_before pr cs ls s" "all_after pr cs ls (s |` V) = all_after pr cs ls s"
proof -
  have at: "(s |` V) (locate (pr_cwd pr) rp) = s (locate (pr_cwd pr) rp)" "\<And>c. c \<in> set cs \<Longrightarrow> (s |` V) (text_at pr c) = s (text_at pr c)"
    "\<And>c. c \<in> set ls \<Longrightarrow> (s |` V) (link_at pr c) = s (link_at pr c)"
    using assms by (auto simp: restrict_map_def)
  show ab: "all_before pr cs ls (s |` V) = all_before pr cs ls s" "all_after pr cs ls (s |` V) = all_after pr cs ls s"
    using at by (simp_all add: all_before_def all_after_def)
  show "recoverable encode pr rp cs ls (s |` V) = recoverable encode pr rp cs ls s"
    using at ab by (simp add: recoverable_def between_def)
qed

text \<open>
  What a run promises: at each of its calls the locations are as at the start or in a recoverable
  state, success means that every change is made, a reported restoration that none is.
\<close>

definition crash_safe ::
    "(receipt \<Rightarrow> string) \<Rightarrow> process \<Rightarrow> component list \<Rightarrow> text_change list \<Rightarrow> link_change list \<Rightarrow> world \<Rightarrow> (tx_error + unit) \<times> world \<Rightarrow> bool" where
  "crash_safe encode pr rp cs ls w out \<longleftrightarrow>
     (let safe = (\<lambda>s. (\<forall>q \<in> tx_view pr rp cs ls. s q = w_fs w q) \<or>
            recoverable encode pr rp (absolute_texts pr cs) (absolute_links pr ls) s)
      in guarantees (\<lambda>s s'. safe s \<and> safe s') w (snd out) \<and> safe (w_fs (snd out)) \<and>
         (fst out = Inr () \<and> (cs \<noteq> [] \<or> ls \<noteq> []) \<longrightarrow>
            w_fs (snd out) (locate (pr_cwd pr) rp) = None \<and> all_after pr cs ls (w_fs (snd out))) \<and>
         (\<forall>k e. fst out = Inl (RestoredPaths k e) \<longrightarrow>
            w_fs (snd out) (locate (pr_cwd pr) rp) = None \<and> all_before pr cs ls (w_fs (snd out))))"

lemma apart_paths:
  assumes "apart pr rp cs ls" "validate_control_paths pr rp (absolute_texts pr cs) (absolute_links pr ls) = Inr x"
  shows "tx_paths pr (tx_view pr rp cs ls) rp (absolute_texts pr cs) (absolute_links pr ls)"
proof -
  obtain n where n: "path_file_name rp = Some n" using assms(1) by (auto simp: apart_def)
  have named: "path_file_name p \<noteq> None \<Longrightarrow> path_file_name (absolute_path pr p) \<noteq> None" for p
    using file_name_absolute by fastforce
  have free: "locate (pr_cwd pr) p \<noteq> locate (pr_cwd pr) rp \<and> locate (pr_cwd pr) p \<noteq> locate (pr_cwd pr) (lock_path rp)"
    if "p \<in> tc_path ` set cs \<union> lc_path ` set ls" for p
  proof -
    from that have "absolute_path pr p \<in> tc_path ` set (absolute_texts pr cs) \<union> lc_path ` set (absolute_links pr ls)"
      by (auto simp: absolute_texts_def absolute_links_def image_image)
    from validated_control [OF assms(2) n this] show ?thesis by (simp add: locate_absolute)
  qed
  then have control: "q \<in> text_at pr ` set cs \<union> link_at pr ` set ls \<Longrightarrow> q \<noteq> locate (pr_cwd pr) rp \<and> q \<noteq> locate (pr_cwd pr) (lock_path rp)" for q
    by (auto simp: text_at_def link_at_def)
  have lock: "locate (pr_cwd pr) (lock_path rp) \<noteq> locate (pr_cwd pr) rp"
  proof -
    obtain q where "rp = q @ [Normal n]"
      using n by (auto simp: path_file_name_def split: list.splits component.splits)
    then show ?thesis by (simp add: lock_path_def path_file_name_def locate_append)
  qed
  have at: "path_file_name p \<noteq> None \<Longrightarrow> locate (pr_cwd pr) p = d \<Longrightarrow> d \<in> tx_view pr rp cs ls \<Longrightarrow> at_path pr (tx_view pr rp cs ls) p d" for p d
    using assms(1) by (auto simp: apart_def at_path_def)
  show ?thesis
    unfolding tx_paths_def
  proof (intro conjI ballI)
    show "at_path pr (tx_view pr rp cs ls) rp (locate (pr_cwd pr) rp)"
      by (rule at) (simp_all add: n tx_view_def)
    fix c assume "c \<in> set (absolute_texts pr cs)"
    then obtain c' where c': "c' \<in> set cs" "c = c'\<lparr>tc_path := absolute_path pr (tc_path c')\<rparr>" by (auto simp: absolute_texts_def)
    then have "path_file_name (tc_path c') \<noteq> None" using assms(1) by (simp add: apart_def)
    then show "at_path pr (tx_view pr rp cs ls) (tc_path c) (text_at pr c)"
      using c' named by (intro at) (auto simp: text_at_def tx_view_def locate_absolute)
  next
    fix c assume "c \<in> set (absolute_links pr ls)"
    then obtain c' where c': "c' \<in> set ls" "c = c'\<lparr>lc_path := absolute_path pr (lc_path c')\<rparr>" by (auto simp: absolute_links_def)
    then have "path_file_name (lc_path c') \<noteq> None" using assms(1) by (simp add: apart_def)
    then show "at_path pr (tx_view pr rp cs ls) (lc_path c) (link_at pr c)"
      using c' named by (intro at) (auto simp: link_at_def tx_view_def locate_absolute)
  next
    have maps: "map (text_at pr) (absolute_texts pr cs) = map (text_at pr) cs" "map (link_at pr) (absolute_links pr ls) = map (link_at pr) ls"
      by (simp_all add: absolute_texts_def absolute_links_def absolute_at)
    have "locate (pr_cwd pr) rp \<notin> text_at pr ` set cs \<union> link_at pr ` set ls" using control by blast
    then show "distinct (locate (pr_cwd pr) rp # map (text_at pr) (absolute_texts pr cs) @ map (link_at pr) (absolute_links pr ls))"
      unfolding maps using assms(1) by (simp add: apart_def)
    show "locate (pr_cwd pr) (lock_path rp) \<notin> tx_view pr rp cs ls"
      using control lock by (auto simp: tx_view_def)
  qed
qed

context link_publisher
begin

lemma execution_crash_safe:
  assumes apart: "apart pr rp cs ls" and codec: "reads_back encode decode (absolute_texts pr cs) (absolute_links pr ls)"
    and covered: "\<forall>c \<in> set (absolute_links pr ls). covers c" and shield: "shielded pr (tx_view pr rp cs ls) w"
  shows "crash_safe encode pr rp cs ls w (execute_transaction publish encode decode pr held rp cs ls w)"
proof -
  let ?V = "tx_view pr rp cs ls" and ?cs = "absolute_texts pr cs" and ?ls = "absolute_links pr ls"
  define safe where "safe = (\<lambda>s. (\<forall>q \<in> ?V. s q = w_fs w q) \<or> recoverable encode pr rp ?cs ?ls s)"
  have refuse: "crash_safe encode pr rp cs ls w (Inl e, w)" if "\<forall>k f. e \<noteq> RestoredPaths k f" for e
    using that by (simp add: crash_safe_def)
  have scan: "scan_paths seen xs = Inl e \<Longrightarrow> \<forall>k f. e \<noteq> RestoredPaths k f" for seen xs e
    by (induction seen xs rule: scan_paths.induct) (auto split: if_splits)
  have result: "execute_transaction publish encode decode pr held rp cs ls w =
      (if ?cs = [] \<and> ?ls = [] then (Inr (), w) else case validate_changes ?cs ?ls of Inl e \<Rightarrow> (Inl e, w)
       | Inr _ \<Rightarrow> (case validate_control_paths pr rp ?cs ?ls of Inl e \<Rightarrow> (Inl e, w)
         | Inr _ \<Rightarrow> checked_run publish encode decode pr held rp ?cs ?ls w))"
    by (simp add: execute_transaction_def Let_def)
  have empty: "?cs = [] \<and> ?ls = [] \<longleftrightarrow> cs = [] \<and> ls = []" by (simp add: absolute_texts_def absolute_links_def)
  have ran: "crash_safe encode pr rp cs ls w (checked_run publish encode decode pr held rp ?cs ?ls w)"
    if "validate_control_paths pr rp ?cs ?ls = Inr x" for x
  proof -
    let ?v = "w_fs w |` ?V"
    obtain r w' where m: "checked_run publish encode decode pr held rp ?cs ?ls w = (r, w')" by force
    note run = crash_runD [OF crash_checked_run [OF apart_paths [OF apart that] codec covered, of ?v held] shield refl m]
    have V: "locate (pr_cwd pr) rp \<in> ?V" "text_at pr ` set cs \<subseteq> ?V" "link_at pr ` set ls \<subseteq> ?V" by (auto simp: tx_view_def)
    have V': "text_at pr ` set ?cs \<subseteq> ?V" "link_at pr ` set ?ls \<subseteq> ?V"
      using absolute_same(3) [of pr rp cs ls] by (auto simp: tx_view_def)
    have safe: "safe s" if "s |` ?V = ?v \<or> recoverable encode pr rp ?cs ?ls (s |` ?V)" for s
      using that view_same(1) [OF V(1) V', of encode s] by (auto simp: safe_def restrict_map_def dest: fun_cong split: if_splits)
    have "guarantees (\<lambda>s s'. safe s \<and> safe s') w w'"
      by (rule guarantees_mono [OF run(2)]) (use safe in auto)
    moreover have "safe (w_fs w')" using run(3) safe by (auto simp: tx_outcome_def)
    moreover have "r = Inr () \<longrightarrow> w_fs w' (locate (pr_cwd pr) rp) = None \<and> all_after pr cs ls (w_fs w')"
      using run(3) V(1) view_same(3) [OF V] by (auto simp: tx_outcome_def absolute_same)
    moreover have "\<forall>k e. r = Inl (RestoredPaths k e) \<longrightarrow> w_fs w' (locate (pr_cwd pr) rp) = None \<and> all_before pr cs ls (w_fs w')"
      using run(3) V(1) view_same(2) [OF V] by (auto simp: tx_outcome_def absolute_same)
    ultimately show ?thesis unfolding crash_safe_def m safe_def Let_def by simp
  qed
  have control: "validate_control_paths pr rp ?cs ?ls = Inl e \<Longrightarrow> \<forall>k f. e \<noteq> RestoredPaths k f" for e
    by (auto simp: validate_control_paths_def Let_def split: option.splits)
  show ?thesis
  proof (cases "cs = [] \<and> ls = []")
    case True
    then have "execute_transaction publish encode decode pr held rp cs ls w = (Inr (), w)"
      unfolding result using empty by simp
    then show ?thesis using True by (simp add: crash_safe_def)
  next
    case False
    then have "\<not> (?cs = [] \<and> ?ls = [])" using empty by simp
    then show ?thesis
      unfolding result using refuse scan control ran
      by (auto simp: validate_changes_def split: sum.split)
  qed
qed

end

end
