(* ===== verification/TransactionRecovery.thy ===== *)
theory TransactionRecovery
  imports TransactionSafety
begin

text \<open>
  Transactions and their recovery when nothing disturbs them: the run completes, recovery succeeds
  from every state a crash may have left. With these, the properties of the transactions.
\<close>

section \<open>Programs of a transaction, undisturbed\<close>

lemma with_error_calm:
  assumes "calm_run s m (\<lambda>r. Q (with_error f r))"
  shows "calm_run s (\<lambda>w. case m w of (Inl k, w') \<Rightarrow> (Inl (f k), w') | (Inr x, w') \<Rightarrow> (Inr x, w')) Q"
proof -
  have "calm_run s (\<lambda>w. case m w of (r, w') \<Rightarrow> Pair (with_error f r) w') Q"
    by (rule calm_then, rule calm_post [OF assms]) (rule calm_return)
  moreover have "(\<lambda>w. case m w of (r, w') \<Rightarrow> Pair (with_error f r) w') =
      (\<lambda>w. case m w of (Inl k, w') \<Rightarrow> (Inl (f k), w') | (Inr x, w') \<Rightarrow> (Inr x, w'))"
    by (rule ext) (simp split: prod.split sum.split)
  ultimately show ?thesis by simp
qed

lemma calm_tx_io: "calm_run s m (\<lambda>r. Q (with_error TxIo r)) \<Longrightarrow> calm_run s (tx_io m) Q"
  unfolding tx_io_def [abs_def] by (rule with_error_calm)

lemma calm_tx_durable: "calm_run s m (\<lambda>r. Q (with_error TxDurable r)) \<Longrightarrow> calm_run s (tx_durable m) Q"
  unfolding tx_durable_def [abs_def] by (rule with_error_calm)

lemma calm_tx_return: "Q (Inr x) s \<Longrightarrow> calm_run s (tx_return x) Q"
  by (simp add: tx_return_def [abs_def] calm_return)

lemma calm_tx_fail: "Q (Inl e) s \<Longrightarrow> calm_run s (tx_fail e) Q"
  by (simp add: tx_fail_def [abs_def] calm_return)

lemma calm_sync: "Q (Inr ()) s \<Longrightarrow> calm_run s (sync_parent pr p) Q"
  unfolding sync_parent_is_fsync fsync_call_def by (rule calm_syscall) simp

lemma calm_stat: "p \<noteq> [] \<Longrightarrow> Q (ok_or KNotFound (s p)) s \<Longrightarrow> calm_run s (stat_call p) Q"
  unfolding stat_call_def by (rule calm_syscall) simp




lemmas calm_steps = calm_bind calm_tx_io calm_tx_durable calm_tx_return calm_tx_fail calm_sync

lemma calm_entry_exists: "p \<noteq> [] \<Longrightarrow> Q (Inr (s p \<noteq> None)) s \<Longrightarrow> calm_run s (entry_exists p) Q"
  unfolding entry_exists_def [abs_def]
  by (rule calm_then, rule calm_stat) (cases "s p"; auto intro!: calm_return)+

lemma calm_snapshot_file:
  assumes "p \<noteq> []" "text_is img (s p)" "\<And>c. img = Some c \<Longrightarrow> valid_utf8 c" "Q (Inr img) s"
  shows "calm_run s (snapshot_file p) Q"
proof -
  have read: "calm_run s (read_call p) R" if "s p = Some (RegularFile m c)" "R (Inr c) s" for m c R
    unfolding read_call_def by (rule calm_syscall) (use that in \<open>simp add: link_depth_def eval_nat_numeral\<close>)
  show ?thesis
    unfolding snapshot_file_def [abs_def]
    by (rule calm_then, rule calm_stat)
      (use assms in \<open>cases img; auto intro!: calm_return calm_steps read\<close>)+
qed


section \<open>Where recovery can write\<close>

text \<open>
  Paths that can be written: they have names without NUL, no staging name is taken, and nothing but
  directories, if anything, lies above them.
\<close>

definition tidy :: "process \<Rightarrow> names set \<Rightarrow> component list set \<Rightarrow> bool" where
  "tidy pr V paths \<longleftrightarrow> separated pr V \<and> (\<exists>t. pr_nonce pr = Some t \<and>
     (\<forall>p \<in> paths. path_file_name p \<noteq> None \<and> path_file_name p \<noteq> Some [] \<and> locate (pr_cwd pr) p \<in> V \<and>
        (\<forall>k. \<not> has_nul (staging_location pr p t k)))) \<and>
     (\<forall>d \<in> V. \<not> has_nul d \<and> (\<forall>p t k. \<not> prefix (staging_location pr p t k) d))"

definition clear_above :: "names set \<Rightarrow> fs \<Rightarrow> bool" where
  "clear_above V s \<longleftrightarrow> (\<forall>d \<in> V. list_all (\<lambda>q. s q = None \<or> s q = Some DirNode) (ancestors (butlast d)))"

definition ready :: "process \<Rightarrow> names set \<Rightarrow> fs \<Rightarrow> bool" where
  "ready pr V s \<longleftrightarrow> clear_above V s \<and> (\<forall>p t k. s (staging_location pr p t k) = None)"

lemma in_ancestors: "q \<in> set (ancestors p) \<longleftrightarrow> q \<noteq> [] \<and> prefix q p"
proof
  assume "q \<in> set (ancestors p)"
  then obtain k where "1 \<le> k" "k \<le> length p" "q = take k p" by (auto simp: ancestors_def)
  then show "q \<noteq> [] \<and> prefix q p" by (auto simp: take_is_prefix)
next
  assume "q \<noteq> [] \<and> prefix q p"
  then have "q = take (length q) p" "1 \<le> length q" "length q \<le> length p"
    by (auto simp: prefix_def Suc_le_eq)
  then have "q = take (length q) p" "length q \<in> set [1..<Suc (length p)]"
    by (simp_all add: atLeastLessThanSuc_atLeastAtMost del: upt_Suc)
  then show "q \<in> set (ancestors p)" unfolding ancestors_def by (metis image_eqI list.set_map)
qed


lemma above_is_strict: "d \<noteq> [] \<Longrightarrow> prefix q (butlast d) \<Longrightarrow> strict_prefix q d"
  by (metis append_butlast_last_id prefix_prefix prefixI strict_prefix_def butlast_snoc append_Nil2 not_Cons_self2 prefix_length_le length_butlast diff_Suc_less length_greater_0_conv linorder_not_less One_nat_def)

lemma ready_update:
  assumes tidy: "tidy pr V paths" and d: "d \<in> V" and ready: "ready pr V s"
  shows "ready pr V ((make_dirs (butlast d) n s)(d := x))" "ready pr V (s(d := x))"
    and "q \<in> V \<Longrightarrow> make_dirs (butlast d) n s q = s q"
proof -
  have sep: "[] \<notin> V" "\<And>a b. a \<in> V \<Longrightarrow> b \<in> V \<Longrightarrow> \<not> strict_prefix a b" using tidy by (auto simp: tidy_def separated_def)
  have above: "a \<in> set (ancestors (butlast b)) \<Longrightarrow> b \<in> V \<Longrightarrow> a \<noteq> d" for a b
    using sep d above_is_strict [of b a] by (auto simp: in_ancestors)
  have staging: "staging_location pr p t k \<noteq> d \<and> \<not> prefix (staging_location pr p t k) (butlast d)" for p t k
    using tidy d sep(1) above_is_strict [of d "staging_location pr p t k"] unfolding tidy_def strict_prefix_def by blast
  show "ready pr V ((make_dirs (butlast d) n s)(d := x))" "ready pr V (s(d := x))"
    using ready above staging by (auto simp: ready_def clear_above_def list_all_iff make_dirs_def)
  show "make_dirs (butlast d) n s q = s q" if "q \<in> V"
    using sep d that above_is_strict [of d q] by (auto simp: make_dirs_def)
qed

section \<open>Rolling back one change\<close>


lemma calm_restored_by:
  assumes "calm_run s m (\<lambda>r u. (\<exists>x. r = Inr x) \<and> Q (Inr Restored) u)"
  shows "calm_run s (restored_by m) Q"
proof -
  have "calm_run s (\<lambda>w. case m w of (r, w') \<Rightarrow> Pair (case r of Inl _ \<Rightarrow> Inr Conflict | Inr _ \<Rightarrow> Inr Restored) w') Q"
    by (rule calm_then, rule calm_post [OF assms]) (auto intro: calm_return)
  moreover have "restored_by m = (\<lambda>w. case m w of (r, w') \<Rightarrow> Pair (case r of Inl _ \<Rightarrow> Inr Conflict | Inr _ \<Rightarrow> Inr Restored) w')"
    by (rule ext) (simp add: restored_by_def split: prod.split sum.split)
  ultimately show ?thesis by simp
qed

lemma tidy_path:
  assumes "tidy pr V paths" "p \<in> paths" "d = locate (pr_cwd pr) p"
  obtains name t where "path_file_name p = Some name" "name \<noteq> []" "pr_nonce pr = Some t" "d \<in> V" "d \<noteq> []" "\<not> has_nul d"
    "\<And>k. \<not> has_nul (staging_location pr p t k)"
proof -
  obtain t where t: "pr_nonce pr = Some t" "path_file_name p \<noteq> None" "path_file_name p \<noteq> Some []" "d \<in> V"
      "\<And>k. \<not> has_nul (staging_location pr p t k)"
    using assms unfolding tidy_def by blast
  moreover have "d \<noteq> []" "\<not> has_nul d" using assms(1) t(4) unfolding tidy_def separated_def by blast+
  moreover obtain name where "path_file_name p = Some name" using t(2) by blast
  ultimately show thesis using that t(3) by blast
qed

lemma calm_write_at:
  assumes tidy: "tidy pr V paths" "p \<in> paths" "d = locate (pr_cwd pr) p" and ready: "ready pr V s"
    and at: "s d = None \<or> mode = Replace \<and> (\<exists>m c. s d = Some (RegularFile m c))"
    and Q: "\<And>u. ready pr V u \<Longrightarrow> \<forall>q \<in> V. q \<noteq> d \<longrightarrow> u q = s q \<Longrightarrow> text_is (Some content) (u d) \<Longrightarrow>
      (s d = None \<Longrightarrow> u d = Some (RegularFile owner_only content)) \<Longrightarrow> Q (Inr ()) u"
  shows "calm_run s (atomic_write_file pr p content mode) Q"
proof -
  obtain name t where p: "path_file_name p = Some name" "name \<noteq> []" "pr_nonce pr = Some t" "d \<in> V" "d \<noteq> []" "\<not> has_nul d"
    "\<And>k. \<not> has_nul (staging_location pr p t k)"
    using tidy_path [OF tidy] by metis
  have free: "s (staging_location pr p t k) = None" for k using ready by (simp add: ready_def)
  have dirs: "list_all (\<lambda>q. s q = None \<or> s q = Some DirNode) (ancestors (butlast d))"
    using ready p(4) by (simp add: ready_def clear_above_def)
  show ?thesis
  proof (rule calm_write [where s = s and Q = Q, OF p(1-3) tidy(3) free p(7,6) dirs at])
    fix m assume "s d = None \<and> m = owner_only \<or> (\<exists>c. s d = Some (RegularFile m c))"
    then show "Q (Inr ()) ((make_dirs (butlast d) (length (butlast d)) s)(d \<mapsto> RegularFile m content))"
      using ready_update [OF tidy(1) p(4) ready] by (intro Q) auto
  qed
qed





text \<open>The changes the constructors of \<open>SymlinkChange\<close> make.\<close>

definition managed_link :: "link_change \<Rightarrow> bool" where
  "managed_link c \<longleftrightarrow> (\<exists>t. lc_before c = AbsentImage \<and> lc_after c = LinkImage t \<or>
     lc_before c = DirectoryImage \<and> lc_after c = LinkImage t \<or> lc_before c = LinkImage t \<and> lc_after c = AbsentImage)"

lemma constructed_links:
  "managed_link (install_link p t)" "managed_link (replace_directory p t)" "managed_link (remove_link p t)"
  by (auto simp: managed_link_def install_link_def replace_directory_def remove_link_def)





section \<open>Recovery, undisturbed\<close>




definition kept :: "process \<Rightarrow> names set \<Rightarrow> fs \<Rightarrow> fs \<Rightarrow> bool" where
  "kept pr V s u \<longleftrightarrow> ready pr V u \<and> (\<forall>q \<in> V. u q = s q)"

lemma kept_refl: "ready pr V s \<Longrightarrow> kept pr V s s"
  by (simp add: kept_def)









section \<open>Execution, undisturbed\<close>








section \<open>Concrete views\<close>

lemma staged_name_long: "length (last (staging_location pr d n k)) > 25"
  by (simp add: staging_location_def locate_append staging_name_def)

lemma short_names_unstaged:
  assumes "\<forall>q \<in> V. length (last q) \<le> 25"
  shows "staging_location pr d n k \<notin> V"
  using assms staged_name_long [of pr d n k] by (metis linorder_not_less)

text \<open>A process in a directory \<open>home\<close>, a receipt \<open>r\<close>, and codes for the two receipts of a transaction.\<close>

definition sample_process :: process where
  "sample_process = \<lparr>pr_pid = 7, pr_cwd = [''home''], pr_nonce = Some 5\<rparr>"

lemma sample_parts [simp]: "pr_cwd sample_process = [''home'']" "pr_nonce sample_process = Some 5"
  by (simp_all add: sample_process_def)

definition sample_encode :: "receipt \<Rightarrow> string" where
  "sample_encode rc = (if rc_phase rc = Prepared then ''p'' else ''q'')"

definition sample_decode :: "text_change list \<Rightarrow> link_change list \<Rightarrow> string \<Rightarrow> receipt option" where
  "sample_decode cs ls s = (if s = ''p'' then Some (prepared_receipt cs ls) else if s = ''q'' then Some (published_receipt cs ls) else None)"

lemma sample_reads_back: "reads_back sample_encode (sample_decode cs ls) cs ls"
  by (simp add: reads_back_def sample_encode_def sample_decode_def prepared_receipt_def published_receipt_def)


section \<open>Whole recoveries\<close>

lemma recovery_keeps:
  assumes "tx_paths pr V rp cs ls" "reads_back encode decode cs ls" "recoverable encode pr rp cs ls (w_fs w)" "shielded pr V w"
    and "recover_transaction decode pr held rp w = (r, w')"
  shows "guarantees (\<lambda>s s'. recoverable encode pr rp cs ls s \<and> recoverable encode pr rp cs ls s') w w' \<and>
    recoverable encode pr rp cs ls (w_fs w') \<and> recovered pr rp cs ls r (w_fs w')"
proof -
  have V: "locate (pr_cwd pr) rp \<in> V" "text_at pr ` set cs \<subseteq> V" "link_at pr ` set ls \<subseteq> V"
    using assms(1) by (auto simp: tx_paths_def at_path_def)
  note same = view_same [OF V]
  have "recoverable encode pr rp cs ls (w_fs w |` V)" using assms(3) same by simp
  note run = crash_runD [OF crash_recover [OF assms(1,2) this] assms(4) refl assms(5)]
  have "recovered pr rp cs ls r (w_fs w')"
    using run(3) same V(1) by (auto simp: recovered_def restrict_map_def)
  then show ?thesis using run(2,3) same by simp
qed

section \<open>Properties\<close>



text \<open>
  C5: recovery is crash safe and reaches one of the two ends. From any state a crash may have left,
  whatever calls fail and wherever recovery itself is cut off, each state it passes through can again
  be recovered; when it reports a rollback every file and link is as before, when it reports a
  finalized transaction every one is as after, and the receipt is gone.
\<close>

theorem recovery_crash_safe:
  assumes "tx_paths pr V rp cs ls" "reads_back encode decode cs ls" "recoverable encode pr rp cs ls (w_fs w)" "shielded pr V w"
    and "recover_transaction decode pr held rp w = (r, w')"
  shows "guarantees (\<lambda>s s'. recoverable encode pr rp cs ls s \<and> recoverable encode pr rp cs ls s') w w' \<and>
    recoverable encode pr rp cs ls (w_fs w') \<and> recovered pr rp cs ls r (w_fs w')"
  using assms by (rule recovery_keeps)

theorem recovery_crash_safe_witness:
  fixes cs w V
  defines "cs \<equiv> [write_change [Normal ''a''] None ''x'', remove_change [Normal ''b''] ''y'']"
  defines "w \<equiv> \<lparr>w_fs = [[''home''] \<mapsto> DirNode, [''home'', ''r''] \<mapsto> RegularFile 384 ''p'', [''home'', ''a''] \<mapsto> RegularFile 384 ''x''],
      w_turns = [Turn (\<lambda>s. s) None, Turn (\<lambda>s. s([''home'', ''z''] \<mapsto> DirNode)) None,
        Turn (\<lambda>s. s) (Some \<lparr>ft_kind = KOther, ft_done = 0, ft_gone = \<lambda>_. False\<rparr>)],
      w_log = [], w_seq = 0\<rparr>"
  defines "V \<equiv> {[''home'', ''r''], [''home'', ''a''], [''home'', ''b'']}"
  shows "recovered sample_process [Normal ''r''] cs []
      (fst (recover_transaction (sample_decode cs []) sample_process False [Normal ''r''] w))
      (w_fs (snd (recover_transaction (sample_decode cs []) sample_process False [Normal ''r''] w)))"
proof -
  have staged: "staging_location sample_process d n k \<notin> insert [''home'', ''z''] V" for d n k
    by (rule short_names_unstaged) (simp add: V_def)
  then have sep: "separated sample_process V"
    by (auto simp: V_def separated_def strict_prefix_def)
  have "locate [''home''] (lock_path [Normal ''r'']) \<notin> V" by (simp add: lock_path_def path_file_name_def V_def)
  with sep have paths: "tx_paths sample_process V [Normal ''r''] cs []"
    by (simp add: tx_paths_def at_path_def V_def text_at_def cs_def sample_process_def write_change_def remove_change_def path_file_name_def)
  have shield: "shielded sample_process V w"
    using staged by (auto simp: shielded_def rely_def w_def V_def)
  have "between sample_process cs [] (w_fs w)"
    by (simp add: between_def cs_def text_allowed_def text_at_def w_def sample_process_def write_change_def remove_change_def)
  then have state: "recoverable sample_encode sample_process [Normal ''r''] cs [] (w_fs w)"
    by (simp add: recoverable_def w_def sample_process_def sample_encode_def prepared_receipt_def)
  show ?thesis
    using recovery_crash_safe [OF paths sample_reads_back state shield surjective_pairing] by simp
qed




lemma sample_locations:
  assumes "\<forall>q \<in> dom s. q \<noteq> [] \<and> length (last q) \<le> 25" 
  shows "s (staging_location pr p t k) = None"
proof (rule ccontr)
  assume "s (staging_location pr p t k) \<noteq> None"
  then have "length (last (staging_location pr p t k)) \<le> 25" using assms by blast
  then show False using staged_name_long [of pr p t k] by simp
qed

lemma staged_prefix_long: "prefix (staging_location pr p t k) d \<Longrightarrow> \<exists>n \<in> set d. length n > 25"
proof -
  assume "prefix (staging_location pr p t k) d"
  moreover have "staging_location pr p t k \<noteq> []" by (simp add: staging_location_def locate_append)
  ultimately have "last (staging_location pr p t k) \<in> set d" by (metis last_in_set set_mono_prefix subsetD)
  then show ?thesis using staged_name_long by blast
qed

lemma staging_no_nul:
  assumes "path_file_name p \<noteq> None" "\<not> has_nul (locate (pr_cwd pr) (file_parent p))" "CHR 0x00 \<notin> set (lossy (the (path_file_name p)))"
  shows "\<not> has_nul (staging_location pr p t k)"
proof -
  obtain n where n: "path_file_name p = Some n" using assms(1) by blast
  have "CHR 0x00 \<notin> set (decimal m)" for m by (rule decimal_no_char) (simp add: is_ascii_digit_def)
  then show ?thesis using assms n by (simp add: staging_location_eq has_nul_def staging_name_def)
qed



text \<open>
  A rolled back removal loses the file's permissions. The image a receipt records is the text
  alone, so a file the transaction has removed comes back with its text but for its owner only,
  whatever its permissions were.
\<close>

theorem restored_removal_is_private:
  assumes tidy: "tidy pr V paths" "path \<in> paths" "d = locate (pr_cwd pr) path" and ready: "ready pr V (w_fs w)"
    and quiet: "w_turns w = []" and gone: "w_fs w d = None"
    and result: "roll_back_text pr (remove_change path before) w = (r, w')"
  shows "r = Inr Restored \<and> w_fs w' d = Some (RegularFile owner_only before)"
proof -
  let ?Q = "\<lambda>r u. r = Inr Restored \<and> u d = Some (RegularFile owner_only before)"
  have d: "d \<noteq> []" using tidy_path [OF tidy] by metis
  have wrote: "calm_run (w_fs w) (atomic_write_file pr path before CreateNew)
      (\<lambda>r u. (\<exists>x. with_error TxDurable r = Inr x) \<and> ?Q (Inr Restored) u)"
    by (rule calm_write_at [OF tidy ready]) (use gone in auto)
  have "calm_run (w_fs w) (restored_by (apply_image pr path (Some before))) ?Q"
    unfolding apply_image_def option.case tidy(3) [symmetric]
    by (rule calm_restored_by, rule calm_bind, rule calm_tx_io, rule calm_entry_exists [OF d], unfold with_error_simps sum.case,
        rule calm_tx_durable) (use wrote gone in simp)
  then have "calm_run (w_fs w) (roll_back_text pr (remove_change path before)) ?Q"
    unfolding roll_back_text_def remove_change_def text_change.select_convs tidy(3) [symmetric]
    by (intro calm_bind calm_snapshot_file [where img = None, OF d]) (simp_all add: gone)
  from calm_runD [OF this quiet refl result] show ?thesis by simp
qed

theorem restored_removal_is_private_witness:
  fixes w out
  defines "w \<equiv> \<lparr>w_fs = [[''home''] \<mapsto> DirNode], w_turns = [], w_log = [], w_seq = 0\<rparr>"
  defines "out \<equiv> roll_back_text sample_process (remove_change [Normal ''b''] ''y'') w"
  shows "fst out = Inr Restored \<and> w_fs (snd out) [''home'', ''b''] = Some (RegularFile owner_only ''y'')"
proof -
  have unstaged: "staging_location sample_process d n k \<notin> {[''home'', ''b'']}" for d n k
    by (rule short_names_unstaged) simp
  have staged: "\<not> prefix (staging_location sample_process p t k) d" if "\<forall>n \<in> set d. length n \<le> 25" for p t k d
    using staged_prefix_long [of sample_process p t k d] that by fastforce
  have nul: "\<not> has_nul (staging_location sample_process [Normal ''b''] 5 k)" for k
    by (intro staging_no_nul)
      (simp_all add: path_file_name_def file_parent_def path_parent_def has_nul_def lossy.simps sequence_length_def)
  have tidy: "tidy sample_process {[''home'', ''b'']} {[Normal ''b'']}"
    unfolding tidy_def using nul staged unstaged by (simp add: path_file_name_def has_nul_def separated_def)
  have "\<forall>q \<in> dom (w_fs w). q \<noteq> [] \<and> length (last q) \<le> 25" by (simp add: w_def)
  then have "w_fs w (staging_location sample_process p t k) = None" for p t k by (rule sample_locations)
  then have ready: "ready sample_process {[''home'', ''b'']} (w_fs w)"
    unfolding ready_def clear_above_def by (simp add: ancestors_def) (simp add: w_def)
  show ?thesis
    by (rule restored_removal_is_private [OF tidy _ _ ready, of "[Normal ''b'']"]) (simp_all add: w_def out_def)
qed

end
