(* ===== verification/Utf8Text.thy ===== *)
theory Utf8Text
  imports Prelude
begin

text \<open>
  UTF-8 as Rust's \<open>str\<close> uses it: a string is the list of its scalar values, byte offsets and byte
  slices go through the encoding. Slicing at an offset that is not a character boundary panics in
  Rust; the slices here give \<open>None\<close> then, so a function of the model that slices has a value only
  where the code does not panic.
\<close>

section \<open>Encoding\<close>

definition is_scalar :: "scalar \<Rightarrow> bool" where
  "is_scalar c \<longleftrightarrow> c < 0xD800 \<or> (0xE000 \<le> c \<and> c < 0x110000)"

definition valid_str :: "scalars \<Rightarrow> bool" where
  "valid_str s \<longleftrightarrow> list_all is_scalar s"

definition len_utf8 :: "scalar \<Rightarrow> nat" where
  "len_utf8 c = (if c < 0x80 then 1 else if c < 0x800 then 2 else if c < 0x10000 then 3 else 4)"

definition encode_utf8 :: "scalar \<Rightarrow> byte list" where
  "encode_utf8 c =
     (if c < 0x80 then [of_nat c]
      else if c < 0x800 then [of_nat (0xC0 + c div 64), of_nat (0x80 + c mod 64)]
      else if c < 0x10000 then
        [of_nat (0xE0 + c div 4096), of_nat (0x80 + c div 64 mod 64), of_nat (0x80 + c mod 64)]
      else
        [of_nat (0xF0 + c div 262144), of_nat (0x80 + c div 4096 mod 64),
         of_nat (0x80 + c div 64 mod 64), of_nat (0x80 + c mod 64)])"

definition as_bytes :: "scalars \<Rightarrow> byte list" where
  "as_bytes s = concat (map encode_utf8 s)"

definition str_len :: "scalars \<Rightarrow> nat" where
  "str_len s = sum_list (map len_utf8 s)"

section \<open>Offsets and slices\<close>

fun char_indices_from :: "nat \<Rightarrow> scalars \<Rightarrow> (nat \<times> scalar) list" where
  "char_indices_from b [] = []"
| "char_indices_from b (c # s) = (b, c) # char_indices_from (b + len_utf8 c) s"

definition char_indices :: "scalars \<Rightarrow> (nat \<times> scalar) list" where
  "char_indices s = char_indices_from 0 s"

text \<open>\<open>&s[b..]\<close>, \<open>&s[..b]\<close> and \<open>&s[a..b]\<close>.\<close>

fun str_from :: "scalars \<Rightarrow> nat \<Rightarrow> scalars option" where
  "str_from s 0 = Some s"
| "str_from [] (Suc b) = None"
| "str_from (c # s) (Suc b) = (if len_utf8 c \<le> Suc b then str_from s (Suc b - len_utf8 c) else None)"

fun str_to :: "scalars \<Rightarrow> nat \<Rightarrow> scalars option" where
  "str_to s 0 = Some []"
| "str_to [] (Suc b) = None"
| "str_to (c # s) (Suc b) =
     (if len_utf8 c \<le> Suc b then map_option ((#) c) (str_to s (Suc b - len_utf8 c)) else None)"

definition str_slice :: "scalars \<Rightarrow> nat \<Rightarrow> nat \<Rightarrow> scalars option" where
  "str_slice s a b = Option.bind (str_to s b) (\<lambda>t. str_from t a)"

definition is_char_boundary :: "scalars \<Rightarrow> nat \<Rightarrow> bool" where
  "is_char_boundary s b \<longleftrightarrow> str_from s b \<noteq> None"

text \<open>\<open>xs[i]\<close> and \<open>&xs[a..b]\<close> of a vector, which panic out of range.\<close>

definition vec_at :: "'a list \<Rightarrow> nat \<Rightarrow> 'a option" where
  "vec_at xs i = (if i < length xs then Some (xs ! i) else None)"

definition vec_slice :: "'a list \<Rightarrow> nat \<Rightarrow> nat \<Rightarrow> 'a list option" where
  "vec_slice xs a b = (if a \<le> b \<and> b \<le> length xs then Some (take (b - a) (drop a xs)) else None)"

fun position :: "('a \<Rightarrow> bool) \<Rightarrow> 'a list \<Rightarrow> nat option" where
  "position P [] = None"
| "position P (x # xs) = (if P x then Some 0 else map_option Suc (position P xs))"

section \<open>Lemmas\<close>

lemma len_utf8_pos [simp]: "0 < len_utf8 c" and len_utf8_le: "len_utf8 c \<le> 4"
  by (simp_all add: len_utf8_def)

lemma len_utf8_ascii: "c < 128 \<Longrightarrow> len_utf8 c = 1"
  by (simp add: len_utf8_def)

lemma str_len_simps [simp]:
  "str_len [] = 0" "str_len (c # s) = len_utf8 c + str_len s" "str_len (s @ t) = str_len s + str_len t"
  by (simp_all add: str_len_def)

lemma str_len_0 [simp]: "str_len s = 0 \<longleftrightarrow> s = []"
proof (cases s)
  case (Cons c t)
  then show ?thesis using len_utf8_pos [of c] by (simp del: len_utf8_pos)
qed simp

lemma length_encode_utf8 [simp]: "length (encode_utf8 c) = len_utf8 c"
  by (simp add: encode_utf8_def len_utf8_def)

lemma as_bytes_simps [simp]:
  "as_bytes [] = []" "as_bytes (c # s) = encode_utf8 c @ as_bytes s"
  "as_bytes (s @ t) = as_bytes s @ as_bytes t"
  by (simp_all add: as_bytes_def)

lemma length_as_bytes [simp]: "length (as_bytes s) = str_len s"
  by (induction s) simp_all

lemma valid_str_simps [simp]:
  "valid_str []" "valid_str (c # s) \<longleftrightarrow> is_scalar c \<and> valid_str s"
  "valid_str (s @ t) \<longleftrightarrow> valid_str s \<and> valid_str t"
  by (simp_all add: valid_str_def)

lemma encode_ascii: "c < 128 \<Longrightarrow> encode_utf8 c = [of_nat c]"
  by (simp add: encode_utf8_def)

lemma encode_lead:
  assumes "is_scalar c" and "128 \<le> c"
  obtains b bs where "encode_utf8 c = b # bs" "0xC0 \<le> b"
proof -
  have lead: "(0xC0 :: byte) \<le> of_nat n" if "0xC0 \<le> n" "n < 256" for n
    using that by (simp add: word_le_nat_alt unat_of_nat)
  have "c < 0x110000"
    using assms by (auto simp: is_scalar_def)
  consider "c < 0x800" | "0x800 \<le> c" "c < 0x10000" | "0x10000 \<le> c"
    by linarith
  then show thesis
  proof cases
    case 1
    then have "0xC0 + c div 64 < 256" by simp
    with 1 assms show thesis
      by (intro that [of "of_nat (0xC0 + c div 64)"] lead) (simp_all add: encode_utf8_def)
  next
    case 2
    then have "0xE0 + c div 4096 < 256" by simp
    with 2 show thesis
      by (intro that [of "of_nat (0xE0 + c div 4096)"] lead) (simp_all add: encode_utf8_def)
  next
    case 3
    with \<open>c < 0x110000\<close> have "0xF0 + c div 262144 < 256" by simp
    with 3 show thesis
      by (intro that [of "of_nat (0xF0 + c div 262144)"] lead) (simp_all add: encode_utf8_def)
  qed
qed

lemma str_from_step [simp]: "str_from (c # s) (len_utf8 c + b) = str_from s b"
proof (cases "len_utf8 c + b")
  case (Suc n)
  then have "Suc n - len_utf8 c = b" "len_utf8 c \<le> Suc n"
    by linarith+
  then show ?thesis unfolding Suc by simp
qed (use len_utf8_pos [of c] in simp)

lemma str_to_step [simp]: "str_to (c # s) (len_utf8 c + b) = map_option ((#) c) (str_to s b)"
proof (cases "len_utf8 c + b")
  case (Suc n)
  then have "Suc n - len_utf8 c = b" "len_utf8 c \<le> Suc n"
    by linarith+
  then show ?thesis unfolding Suc by simp
qed (use len_utf8_pos [of c] in simp)

lemma str_from_append [simp]: "str_from (u @ v) (str_len u) = Some v"
  by (induction u) simp_all

lemma str_to_append [simp]: "str_to (u @ v) (str_len u) = Some u"
  by (induction u) simp_all

lemma str_to_all [simp]: "str_to u (str_len u) = Some u"
  using str_to_append [of u "[]"] by simp

lemma str_from_SomeD: "str_from s b = Some v \<Longrightarrow> \<exists>u. s = u @ v \<and> str_len u = b"
proof (induction s b rule: str_from.induct)
  case (3 c s b)
  then obtain u where "s = u @ v" "str_len u = Suc b - len_utf8 c" "len_utf8 c \<le> Suc b"
    by (auto split: if_splits)
  then show ?case by (intro exI [of _ "c # u"]) simp
qed auto

lemma is_char_boundary_iff: "is_char_boundary s b \<longleftrightarrow> (\<exists>u v. s = u @ v \<and> str_len u = b)"
  unfolding is_char_boundary_def
  using str_from_SomeD [of s b] str_from_append by (metis not_None_eq)

lemma is_char_boundaryE:
  assumes "is_char_boundary s b"
  obtains u v where "s = u @ v" "str_len u = b"
  using assms by (auto simp: is_char_boundary_iff)

lemma str_slice_middle [simp]: "str_slice (u @ v @ w) (str_len u) (str_len u + str_len v) = Some v"
proof -
  have "str_to ((u @ v) @ w) (str_len (u @ v)) = Some (u @ v)"
    by (rule str_to_append)
  then show ?thesis by (simp add: str_slice_def)
qed

lemma boundary_prefix:
  assumes "u @ v = u' @ v'" and "str_len u \<le> str_len u'"
  obtains w where "u' = u @ w" "v = w @ v'"
proof -
  consider w where "u' = u @ w" "v = w @ v'" | w where "u = u' @ w" "v' = w @ v"
    using assms(1) by (auto simp: append_eq_append_conv2)
  then show thesis
    by cases (use assms(2) that in auto)
qed

lemma char_indices_from_append [simp]:
  "char_indices_from b (s @ t) = char_indices_from b s @ char_indices_from (b + str_len s) t"
  by (induction s arbitrary: b) (simp_all add: add.assoc)

lemma vec_at_Some [simp]: "vec_at xs i = Some x \<longleftrightarrow> i < length xs \<and> xs ! i = x"
  by (auto simp: vec_at_def)

lemma vec_at_lt: "i < length xs \<Longrightarrow> vec_at xs i = Some (xs ! i)"
  by simp

lemma vec_slice_bytes:
  "b \<le> str_len v \<Longrightarrow> vec_slice (as_bytes (u @ v)) (str_len u) (str_len u + b) = Some (take b (as_bytes v))"
  by (simp add: vec_slice_def)

lemma position_Cons_True: "P x \<Longrightarrow> position P (x # xs) = Some 0"
  by simp

text \<open>
  Looking in a window of the bytes for a byte that every lead byte of a longer character satisfies
  stops at a character boundary, and passes only ASCII characters.
\<close>

lemma position_in_window:
  assumes lead: "\<And>b. 0xC0 \<le> b \<Longrightarrow> P b" and "valid_str v"
  shows "case position P (take k (as_bytes v)) of
      Some d \<Rightarrow> \<exists>a c w. v = a @ c # w \<and> str_len a = d \<and> d < k \<and> (\<forall>x \<in> set a. x < 128 \<and> \<not> P (of_nat x))
    | None \<Rightarrow> \<exists>a w. v = a @ w \<and> str_len a = min k (str_len v) \<and> (\<forall>x \<in> set a. x < 128 \<and> \<not> P (of_nat x))"
  using \<open>valid_str v\<close>
proof (induction v arbitrary: k)
  case (Cons c v)
  show ?case
  proof (cases k)
    case 0
    then show ?thesis by (auto intro!: exI [of _ "[]"])
  next
    case (Suc k')
    show ?thesis
    proof (cases "c < 128 \<and> \<not> P (of_nat c)")
      case ascii: True
      then have window: "take k (as_bytes (c # v)) = of_nat c # take k' (as_bytes v)"
        by (simp add: encode_ascii Suc)
      have IH: "case position P (take k' (as_bytes v)) of
          Some d \<Rightarrow> \<exists>a c w. v = a @ c # w \<and> str_len a = d \<and> d < k' \<and> (\<forall>x \<in> set a. x < 128 \<and> \<not> P (of_nat x))
        | None \<Rightarrow> \<exists>a w. v = a @ w \<and> str_len a = min k' (str_len v) \<and> (\<forall>x \<in> set a. x < 128 \<and> \<not> P (of_nat x))"
        using Cons by simp
      show ?thesis
      proof (cases "position P (take k' (as_bytes v))")
        case None
        obtain a w where a: "v = a @ w" "str_len a = min k' (str_len v)"
          "\<forall>x \<in> set a. x < 128 \<and> \<not> P (of_nat x)"
          using IH unfolding None option.case by blast
        have "c # v = (c # a) @ w" "str_len (c # a) = min k (str_len (c # v))"
          "\<forall>x \<in> set (c # a). x < 128 \<and> \<not> P (of_nat x)"
          using ascii Suc a by (simp_all add: len_utf8_ascii)
        then have "\<exists>a w. c # v = a @ w \<and> str_len a = min k (str_len (c # v)) \<and>
            (\<forall>x \<in> set a. x < 128 \<and> \<not> P (of_nat x))"
          by blast
        then show ?thesis
          using ascii None by (simp del: as_bytes_simps str_len_simps add: window)
      next
        case (Some d)
        obtain a c' w where a: "v = a @ c' # w" "str_len a = d" "d < k'"
          "\<forall>x \<in> set a. x < 128 \<and> \<not> P (of_nat x)"
          using IH unfolding Some option.case by blast
        have "c # v = (c # a) @ c' # w" "str_len (c # a) = Suc d" "Suc d < k"
          "\<forall>x \<in> set (c # a). x < 128 \<and> \<not> P (of_nat x)"
          using ascii Suc a by (simp_all add: len_utf8_ascii)
        then have "\<exists>a c' w. c # v = a @ c' # w \<and> str_len a = Suc d \<and> Suc d < k \<and>
            (\<forall>x \<in> set a. x < 128 \<and> \<not> P (of_nat x))"
          by blast
        then show ?thesis
          using ascii Some by (simp del: as_bytes_simps str_len_simps add: window)
      qed
    next
      case stop: False
      obtain b bs where b: "encode_utf8 c = b # bs" "P b"
      proof (cases "c < 128")
        case True
        with stop that show thesis by (simp add: encode_ascii)
      next
        case False
        with Cons.prems obtain b bs where "encode_utf8 c = b # bs" "0xC0 \<le> b"
          by (auto elim: encode_lead)
        with lead that show thesis by blast
      qed
      have "position P (take k (as_bytes (c # v))) = Some 0"
        using b Suc by simp
      then show ?thesis
        using Suc by (simp del: as_bytes_simps)
    qed
  qed
qed simp

end
