(* ===== verification/CaselessMatch.thy ===== *)
theory CaselessMatch
  imports Utf8Text "HOL-Library.Monad_Syntax"
begin

text \<open>
  The caseless substring matcher of \<open>util.rs\<close> that session search, the SQL scalar
  \<open>unicode_lower_contains\<close>, the match evidence and the snippets share: the folding rule, the
  Knuth-Morris-Pratt table, the scan with its start-state skip over bytes, the polling of the
  cancellation callback and the walk back from the end of a match to its first source character.

  \<open>char::to_lowercase\<close> is a parameter, the function \<open>lower\<close>, of which \<open>unicode_lower\<close> states
  what the standard library documents. Every function that indexes a vector, slices a string or
  loops until a condition gives an \<open>option\<close>: \<open>None\<close> is a panic or a loop that never ends.
  A cancellation callback takes no argument, so its answers are a function of the number of calls
  before; the model threads that number.
\<close>

section \<open>Folding\<close>

definition fold_caseless_char :: "(scalar \<Rightarrow> scalars) \<Rightarrow> scalar \<Rightarrow> scalars" where
  "fold_caseless_char lower c = map (\<lambda>l. if l = 0x3C2 then 0x3C3 else l) (lower c)"

definition fold_caseless :: "(scalar \<Rightarrow> scalars) \<Rightarrow> scalars \<Rightarrow> scalars" where
  "fold_caseless lower s = concat (map (fold_caseless_char lower) s)"

definition is_ascii :: "scalar \<Rightarrow> bool" where
  "is_ascii c \<longleftrightarrow> c < 128"

definition to_ascii_upper :: "scalar \<Rightarrow> scalar" where
  "to_ascii_upper c = (if 97 \<le> c \<and> c \<le> 122 then c - 32 else c)"

definition unicode_lower :: "(scalar \<Rightarrow> scalars) \<Rightarrow> bool" where
  "unicode_lower lower \<longleftrightarrow>
     (\<forall>c. lower c \<noteq> []) \<and>
     (\<forall>c. is_ascii c \<longrightarrow> lower c = [if 65 \<le> c \<and> c \<le> 90 then c + 32 else c])"

section \<open>The table of a needle\<close>

record unicode_lower_needle =
  needle_pattern :: scalars
  needle_prefix :: "nat list"

partial_function (option) fall_back :: "scalars \<Rightarrow> nat list \<Rightarrow> scalar \<Rightarrow> nat \<Rightarrow> nat option" where
  "fall_back pat pre c matched =
     (if 0 < matched
      then Option.bind (vec_at pat matched)
        (\<lambda>p. if c \<noteq> p then Option.bind (vec_at pre (matched - 1)) (fall_back pat pre c) else Some matched)
      else Some matched)"

fun prefix_loop :: "scalars \<Rightarrow> nat list \<Rightarrow> nat list \<Rightarrow> nat list option" where
  "prefix_loop pat pre [] = Some pre"
| "prefix_loop pat pre (index # rest) = do {
     start \<leftarrow> vec_at pre (index - 1);
     c \<leftarrow> vec_at pat index;
     matched \<leftarrow> fall_back pat pre c start;
     p \<leftarrow> vec_at pat matched;
     prefix_loop pat (pre[index := (if c = p then matched + 1 else matched)]) rest
   }"

definition from_lowered :: "scalars \<Rightarrow> unicode_lower_needle option" where
  "from_lowered lowered =
     map_option (\<lambda>pre. \<lparr>needle_pattern = lowered, needle_prefix = pre\<rparr>)
       (prefix_loop lowered (replicate (length lowered) 0) [1..<length lowered])"

section \<open>The scan\<close>

definition cancellation_check_bytes :: nat where
  "cancellation_check_bytes = 64 * 1024"

datatype 'a control = Break | Continue 'a

text \<open>
  What one round of the outer loop comes to: the callback stopped it, a match, the start state
  again at a later character, or the end of the haystack. The numbers are the calls made so far.
\<close>

datatype scan_flow =
  Cancelled (flow_polls: nat)
| Found (flow_range: "nat \<times> nat") (flow_polls: nat)
| Restart (flow_cursor: nat) (flow_check: nat) (flow_polls: nat)
| Exhausted (flow_polls: nat)

datatype skip_flow =
  Skip_cancelled (skip_polls: nat)
| Skip_end (skip_polls: nat)
| Skip_to (skip_cursor: nat) (skip_check: nat) (skip_polls: nat)

definition candidate_byte :: "byte \<Rightarrow> byte \<Rightarrow> byte \<Rightarrow> bool" where
  "candidate_byte low up b \<longleftrightarrow> b = low \<or> b = up \<or> 0xC0 \<le> b"

partial_function (option) skip_ahead ::
  "byte list \<Rightarrow> byte \<Rightarrow> byte \<Rightarrow> (nat \<Rightarrow> bool) \<Rightarrow> nat \<Rightarrow> nat \<Rightarrow> nat \<Rightarrow> skip_flow option" where
  "skip_ahead bytes low up keep cursor next_check n =
     (if length bytes \<le> cursor then Some (Skip_end n)
      else if next_check \<le> cursor \<and> \<not> keep n then Some (Skip_cancelled (n + 1))
      else
        let polled = (next_check \<le> cursor);
            check = (if polled then cursor + cancellation_check_bytes else next_check);
            calls = (if polled then n + 1 else n);
            window_end = min (length bytes) check
        in Option.bind (vec_slice bytes cursor window_end)
          (\<lambda>window. if position (candidate_byte low up) window = None
             then skip_ahead bytes low up keep window_end check calls
             else Some (Skip_to (cursor + the (position (candidate_byte low up) window)) check calls)))"

fun walk_back :: "(scalar \<Rightarrow> scalars) \<Rightarrow> (nat \<times> scalar) list \<Rightarrow> nat \<Rightarrow> nat \<Rightarrow> nat" where
  "walk_back lower [] start remaining = start"
| "walk_back lower ((offset, c) # rest) start remaining =
     (if remaining = 0 then start
      else walk_back lower rest offset (remaining - length (fold_caseless_char lower c)))"

definition source_start_of_folded_match ::
  "(scalar \<Rightarrow> scalars) \<Rightarrow> scalars \<Rightarrow> nat \<Rightarrow> nat \<Rightarrow> nat option" where
  "source_start_of_folded_match lower haystack e folded_len =
     map_option (\<lambda>t. walk_back lower (rev (char_indices t)) e folded_len) (str_to haystack e)"

text \<open>The expansion of one character: the index at which it completes the needle, or the new state.\<close>

fun match_folded ::
  "unicode_lower_needle \<Rightarrow> nat \<Rightarrow> scalars \<Rightarrow> nat \<Rightarrow> (nat + nat) option" where
  "match_folded nd i [] matched = Some (Inr matched)"
| "match_folded nd i (lowered # rest) matched = do {
     matched \<leftarrow> fall_back (needle_pattern nd) (needle_prefix nd) lowered matched;
     p \<leftarrow> vec_at (needle_pattern nd) matched;
     if lowered = p then
       if matched + 1 = length (needle_pattern nd) then Some (Inl i)
       else match_folded nd (i + 1) rest (matched + 1)
     else match_folded nd (i + 1) rest matched
   }"

fun scan_chars ::
  "(scalar \<Rightarrow> scalars) \<Rightarrow> unicode_lower_needle \<Rightarrow> scalars \<Rightarrow> bool \<Rightarrow> (nat \<Rightarrow> bool) \<Rightarrow>
     (nat \<times> scalar) list \<Rightarrow> nat \<Rightarrow> nat \<Rightarrow> nat \<Rightarrow> scan_flow option" where
  "scan_chars lower nd haystack skips keep [] matched next_check n = Some (Exhausted n)"
| "scan_chars lower nd haystack skips keep ((offset, c) # rest) matched next_check n =
     (if next_check \<le> offset \<and> \<not> keep n then Some (Cancelled (n + 1))
      else
        let check = (if next_check \<le> offset then offset + cancellation_check_bytes else next_check);
            calls = (if next_check \<le> offset then n + 1 else n);
            character_end = offset + len_utf8 c
        in do {
          step \<leftarrow> match_folded nd 0 (fold_caseless_char lower c) matched;
          (case step of
             Inl folded_index \<Rightarrow>
               map_option (\<lambda>start. Found (start, character_end) calls)
                 (source_start_of_folded_match lower haystack offset
                    (length (needle_pattern nd) - (folded_index + 1)))
           | Inr matched \<Rightarrow>
               if matched = 0 \<and> skips then Some (Restart character_end check calls)
               else scan_chars lower nd haystack skips keep rest matched check calls)
        })"

text \<open>One round of the outer loop. It is entered in the start state only.\<close>

definition scan_round ::
  "(scalar \<Rightarrow> scalars) \<Rightarrow> unicode_lower_needle \<Rightarrow> scalars \<Rightarrow> scalar option \<Rightarrow> (nat \<Rightarrow> bool) \<Rightarrow>
     nat \<Rightarrow> nat \<Rightarrow> nat \<Rightarrow> scan_flow option" where
  "scan_round lower nd haystack skip_lead keep cursor next_check n = do {
     skipped \<leftarrow>
       (case skip_lead of
          Some low \<Rightarrow>
            skip_ahead (as_bytes haystack) (of_nat low) (of_nat (to_ascii_upper low)) keep
              cursor next_check n
        | None \<Rightarrow> Some (Skip_to cursor next_check n));
     (case skipped of
        Skip_cancelled n \<Rightarrow> Some (Cancelled n)
      | Skip_end n \<Rightarrow> Some (Exhausted n)
      | Skip_to cursor next_check n \<Rightarrow> do {
          tail \<leftarrow> str_from haystack cursor;
          scan_chars lower nd haystack (skip_lead \<noteq> None) keep
            (char_indices_from cursor tail) 0 next_check n
        })
   }"

partial_function (option) restart_loop ::
  "(scalar \<Rightarrow> scalars) \<Rightarrow> unicode_lower_needle \<Rightarrow> scalars \<Rightarrow> scalar option \<Rightarrow> (nat \<Rightarrow> bool) \<Rightarrow>
     nat \<Rightarrow> nat \<Rightarrow> nat \<Rightarrow> scan_flow option" where
  "restart_loop lower nd haystack skip_lead keep cursor next_check n =
     (if cursor < str_len haystack
      then Option.bind (scan_round lower nd haystack skip_lead keep cursor next_check n)
        (\<lambda>flow. if is_Restart flow
           then restart_loop lower nd haystack skip_lead keep (flow_cursor flow) (flow_check flow)
                  (flow_polls flow)
           else Some flow)
      else Some (Exhausted n))"

definition find_in_controlled ::
  "(scalar \<Rightarrow> scalars) \<Rightarrow> unicode_lower_needle \<Rightarrow> scalars \<Rightarrow> (nat \<Rightarrow> bool) \<Rightarrow> nat \<Rightarrow>
     ((nat \<times> nat) option control \<times> nat) option" where
  "find_in_controlled lower nd haystack keep n =
     (case needle_pattern nd of
        [] \<Rightarrow> Some (Continue (Some (0, 0)), n)
      | first # rest \<Rightarrow> do {
          flow \<leftarrow> restart_loop lower nd haystack (if is_ascii first then Some first else None)
                    keep 0 0 n;
          (case flow of
             Cancelled n \<Rightarrow> Some (Break, n)
           | Found found n \<Rightarrow> Some (Continue (Some found), n)
           | Restart cursor check n \<Rightarrow> None
           | Exhausted n \<Rightarrow> Some (Continue None, n))
        })"

definition find_in_while ::
  "(scalar \<Rightarrow> scalars) \<Rightarrow> unicode_lower_needle \<Rightarrow> scalars \<Rightarrow> (nat \<Rightarrow> bool) \<Rightarrow> nat \<Rightarrow>
     ((nat \<times> nat) option option \<times> nat) option" where
  "find_in_while lower nd haystack keep n =
     map_option (\<lambda>(c, n). (case c of Continue found \<Rightarrow> Some found | Break \<Rightarrow> None, n))
       (find_in_controlled lower nd haystack keep n)"

definition contains_while ::
  "(scalar \<Rightarrow> scalars) \<Rightarrow> unicode_lower_needle \<Rightarrow> scalars \<Rightarrow> (nat \<Rightarrow> bool) \<Rightarrow> nat \<Rightarrow>
     (bool option \<times> nat) option" where
  "contains_while lower nd haystack keep n =
     map_option (\<lambda>(found, n). (map_option (\<lambda>r. r \<noteq> None) found, n))
       (find_in_while lower nd haystack keep n)"

text \<open>\<open>contains\<close> reaches \<open>unreachable!\<close>, a panic, if the scan is cancelled.\<close>

definition contains :: "(scalar \<Rightarrow> scalars) \<Rightarrow> unicode_lower_needle \<Rightarrow> scalars \<Rightarrow> bool option" where
  "contains lower nd haystack =
     Option.bind (find_in_controlled lower nd haystack (\<lambda>_. True) 0)
       (\<lambda>(c, n). case c of Continue found \<Rightarrow> Some (found \<noteq> None) | Break \<Rightarrow> None)"

section \<open>Overlaps\<close>

text \<open>
  \<open>overlap p w m\<close>: the first \<open>m\<close> characters of the needle are the last ones of the text \<open>w\<close>. The
  state of the automaton after \<open>w\<close> is the longest overlap, and the table holds the longest
  overlaps of the needle with its own initial segments less their first character.
\<close>

definition overlap :: "scalars \<Rightarrow> scalars \<Rightarrow> nat \<Rightarrow> bool" where
  "overlap p w m \<longleftrightarrow> m \<le> length p \<and> suffix (take m p) w"

definition longest_overlap :: "scalars \<Rightarrow> scalars \<Rightarrow> nat \<Rightarrow> bool" where
  "longest_overlap p w k \<longleftrightarrow> k < length p \<and> overlap p w k \<and> (\<forall>m. overlap p w m \<longrightarrow> m \<le> k)"

definition table_upto :: "scalars \<Rightarrow> nat list \<Rightarrow> nat \<Rightarrow> bool" where
  "table_upto p pre i \<longleftrightarrow>
     length pre = length p \<and> (\<forall>j<i. longest_overlap p (tl (take (Suc j) p)) (pre ! j))"

lemma overlap_0 [simp]: "overlap p w 0"
  by (simp add: overlap_def)

lemma overlap_le: "overlap p w m \<Longrightarrow> m \<le> length w"
  by (auto simp: overlap_def dest: suffix_length_le)

lemma overlap_full: "overlap p w (length p) \<longleftrightarrow> suffix p w"
  by (simp add: overlap_def)

lemma overlap_Suc [simp]:
  "overlap p (w @ [c]) (Suc m) \<longleftrightarrow> m < length p \<and> p ! m = c \<and> overlap p w m"
proof (cases "m < length p")
  case True
  then show ?thesis
    by (auto simp: overlap_def take_Suc_conv_app_nth)
qed (simp add: overlap_def)

lemma overlap_within:
  assumes "overlap p w k" and "m < k"
  shows "overlap p w m \<longleftrightarrow> overlap p (tl (take k p)) m"
proof -
  have k: "k \<le> length p" "suffix (take k p) w"
    using assms(1) by (simp_all add: overlap_def)
  then have len: "length (take k p) = k"
    by simp
  with assms(2) obtain c q where q: "take k p = c # q"
    by (cases "take k p") auto
  then have q_len: "length q = k - 1"
    using len by simp
  have "suffix (take m p) w \<longleftrightarrow> suffix (take m p) (take k p)"
  proof
    assume "suffix (take m p) w"
    then show "suffix (take m p) (take k p)"
      using k assms(2) by (auto intro: suffix_length_suffix)
  next
    assume "suffix (take m p) (take k p)"
    then show "suffix (take m p) w"
      using k(2) by (rule suffix_order.trans)
  qed
  also have "\<dots> \<longleftrightarrow> suffix (take m p) q"
  proof -
    have "take m p \<noteq> c # q"
      using len q assms(2) k(1) by (metis length_take min.absorb2 min.strict_coboundedI2 nat_neq_iff)
    then show ?thesis
      unfolding q by (simp add: suffix_Cons)
  qed
  finally show ?thesis
    using k assms(2) by (auto simp: overlap_def q)
qed

lemma fall_back_correct:
  assumes "table_upto p pre k" and "k < length p" and "overlap p w k"
    and "\<forall>m. overlap p w m \<and> m < length p \<and> p ! m = c \<longrightarrow> m \<le> k"
  shows "\<exists>k' \<le> k. fall_back p pre c k = Some k' \<and> overlap p w k' \<and> (k' = 0 \<or> p ! k' = c) \<and>
      (\<forall>m. overlap p w m \<and> m < length p \<and> p ! m = c \<longrightarrow> m \<le> k')"
  using assms
proof (induction k rule: less_induct)
  case (less k)
  show ?case
  proof (cases "0 < k \<and> c \<noteq> p ! k")
    case False
    then show ?thesis
      using less.prems by (subst fall_back.simps) (auto simp: vec_at_lt)
  next
    case True
    define k1 where "k1 = pre ! (k - 1)"
    have lo: "longest_overlap p (tl (take k p)) k1" and len: "length pre = length p"
      using less.prems(1) True unfolding table_upto_def k1_def by (auto dest!: spec [of _ "k - 1"])
    have k1: "k1 < k" "overlap p (tl (take k p)) k1"
      using lo less.prems(2) True overlap_le [of p "tl (take k p)" k1]
      by (auto simp: longest_overlap_def)
    have "\<forall>m. overlap p w m \<and> m < length p \<and> p ! m = c \<longrightarrow> m \<le> k1"
    proof (intro allI impI)
      fix m assume m: "overlap p w m \<and> m < length p \<and> p ! m = c"
      then have "m < k"
        using less.prems(4) True by (metis le_neq_implies_less)
      with m overlap_within [OF less.prems(3)] lo show "m \<le> k1"
        by (simp add: longest_overlap_def)
    qed
    moreover have "table_upto p pre k1" "k1 < length p" "overlap p w k1"
      using less.prems k1 overlap_within [OF less.prems(3)] by (auto simp: table_upto_def)
    ultimately obtain k' where "k' \<le> k1" "fall_back p pre c k1 = Some k'" "overlap p w k'"
      "k' = 0 \<or> p ! k' = c" "\<forall>m. overlap p w m \<and> m < length p \<and> p ! m = c \<longrightarrow> m \<le> k'"
      using less.IH [OF k1(1)] by blast
    moreover have "fall_back p pre c k = fall_back p pre c k1"
      using True less.prems(2) len by (subst fall_back.simps) (simp add: vec_at_lt k1_def)
    ultimately show ?thesis
      using k1(1) by (auto intro: exI [of _ k'])
  qed
qed

text \<open>One character of text advances the longest overlap.\<close>

lemma advance:
  assumes "table_upto p pre k" and lo: "longest_overlap p w k"
  obtains k' where "fall_back p pre c k = Some k'" "k' < length p"
    "overlap p (w @ [c]) (if c = p ! k' then k' + 1 else k')"
    "\<forall>m. overlap p (w @ [c]) m \<longrightarrow> m \<le> (if c = p ! k' then k' + 1 else k')"
proof -
  obtain k' where k': "k' \<le> k" "fall_back p pre c k = Some k'" "overlap p w k'" "k' = 0 \<or> p ! k' = c"
    "\<forall>m. overlap p w m \<and> m < length p \<and> p ! m = c \<longrightarrow> m \<le> k'"
    using fall_back_correct [OF assms(1), of w c] lo by (auto simp: longest_overlap_def)
  have "k' < length p"
    using k'(1) lo by (simp add: longest_overlap_def)
  moreover have "m \<le> (if c = p ! k' then k' + 1 else k')" if "overlap p (w @ [c]) m" for m
    using that k' by (cases m) auto
  ultimately show thesis
    using that [OF k'(2)] k' by auto
qed

lemma advance_table:
  assumes "table_upto p pre i" and "0 < i" and "i < length p"
  obtains k' where "fall_back p pre (p ! i) (pre ! (i - 1)) = Some k'" "k' < length p"
    "longest_overlap p (tl (take (Suc i) p)) (if p ! i = p ! k' then k' + 1 else k')"
proof -
  define w where "w = tl (take i p)"
  have lo: "longest_overlap p w (pre ! (i - 1))"
    using assms unfolding table_upto_def w_def by (auto dest!: spec [of _ "i - 1"])
  have w: "tl (take (Suc i) p) = w @ [p ! i]"
    using assms by (cases p; cases i) (auto simp: w_def take_Suc_conv_app_nth)
  have len: "length (w @ [p ! i]) < length p"
    using assms by (simp add: w_def)
  have "pre ! (i - 1) \<le> i"
    using lo overlap_le [of p w] assms by (force simp: longest_overlap_def w_def)
  then have "table_upto p pre (pre ! (i - 1))"
    using assms(1) by (auto simp: table_upto_def)
  from advance [OF this lo, of "p ! i"] obtain k' where k': "fall_back p pre (p ! i) (pre ! (i - 1)) = Some k'"
    "k' < length p" "overlap p (w @ [p ! i]) (if p ! i = p ! k' then k' + 1 else k')"
    "\<forall>m. overlap p (w @ [p ! i]) m \<longrightarrow> m \<le> (if p ! i = p ! k' then k' + 1 else k')"
    by blast
  moreover have "(if p ! i = p ! k' then k' + 1 else k') < length p"
    using overlap_le [OF k'(3)] len by linarith
  ultimately show thesis
    using that by (simp add: w longest_overlap_def)
qed

lemma table_upto_update:
  assumes "table_upto p pre i" and "i < length p" and "longest_overlap p (tl (take (Suc i) p)) k"
  shows "table_upto p (pre[i := k]) (Suc i)"
  using assms by (auto simp: table_upto_def less_Suc_eq)

lemma prefix_loop_correct:
  assumes "table_upto p pre i" and "0 < i" and "i \<le> length p"
  shows "\<exists>pre'. prefix_loop p pre [i..<length p] = Some pre' \<and> table_upto p pre' (length p)"
  using assms
proof (induction "length p - i" arbitrary: pre i)
  case 0
  then show ?case by simp
next
  case (Suc d)
  then have i: "i < length p" by simp
  obtain k' where k': "fall_back p pre (p ! i) (pre ! (i - 1)) = Some k'" "k' < length p"
    "longest_overlap p (tl (take (Suc i) p)) (if p ! i = p ! k' then k' + 1 else k')"
    using advance_table [OF Suc.prems(1,2) i] by blast
  have "\<exists>pre'. prefix_loop p (pre[i := if p ! i = p ! k' then k' + 1 else k']) [Suc i..<length p] =
      Some pre' \<and> table_upto p pre' (length p)"
    by (rule Suc.hyps(1)) (use Suc i table_upto_update [OF Suc.prems(1) i k'(3)] in auto)
  moreover have "length pre = length p"
    using Suc.prems(1) by (simp add: table_upto_def)
  ultimately show ?case
    using i k' by (simp add: upt_conv_Cons vec_at_lt)
qed

lemma from_lowered_total:
  "\<exists>nd. from_lowered p = Some nd \<and> needle_pattern nd = p \<and> table_upto p (needle_prefix nd) (length p)"
proof (cases "p = []")
  case True
  then show ?thesis by (simp add: from_lowered_def table_upto_def)
next
  case False
  then have "longest_overlap p [] 0"
    by (auto simp: longest_overlap_def dest: overlap_le)
  then have "table_upto p (replicate (length p) 0) 1"
    using False by (cases p) (simp_all add: table_upto_def)
  from prefix_loop_correct [OF this] False show ?thesis
    by (auto simp: from_lowered_def Suc_le_eq)
qed

section \<open>The reference: fold the whole haystack and map the match back\<close>

definition first_occurrence :: "scalars \<Rightarrow> scalars \<Rightarrow> nat option" where
  "first_occurrence p t = find (\<lambda>i. take (length p) (drop i t) = p) [0..<Suc (length t)]"

text \<open>For every folded character the index of the source character it comes from.\<close>

fun origins_from :: "(scalar \<Rightarrow> scalars) \<Rightarrow> nat \<Rightarrow> scalars \<Rightarrow> nat list" where
  "origins_from lower i [] = []"
| "origins_from lower i (c # s) =
     replicate (length (fold_caseless_char lower c)) i @ origins_from lower (Suc i) s"

definition origins :: "(scalar \<Rightarrow> scalars) \<Rightarrow> scalars \<Rightarrow> nat list" where
  "origins lower s = origins_from lower 0 s"

definition char_offset :: "scalars \<Rightarrow> nat \<Rightarrow> nat" where
  "char_offset s i = str_len (take i s)"

definition caseless_range :: "(scalar \<Rightarrow> scalars) \<Rightarrow> scalars \<Rightarrow> scalars \<Rightarrow> (nat \<times> nat) option" where
  "caseless_range lower p s =
     (if p = [] then Some (0, 0)
      else map_option
        (\<lambda>i. (char_offset s (origins lower s ! i),
              char_offset s (Suc (origins lower s ! (i + length p - 1)))))
        (first_occurrence p (fold_caseless lower s)))"

lemma fold_caseless_simps [simp]:
  "fold_caseless lower [] = []"
  "fold_caseless lower (c # s) = fold_caseless_char lower c @ fold_caseless lower s"
  "fold_caseless lower (s @ t) = fold_caseless lower s @ fold_caseless lower t"
  by (simp_all add: fold_caseless_def)

lemma fold_caseless_char_ascii:
  assumes "unicode_lower lower" and "is_ascii c"
  shows "fold_caseless_char lower c = [if 65 \<le> c \<and> c \<le> 90 then c + 32 else c]"
  using assms by (auto simp: unicode_lower_def fold_caseless_char_def is_ascii_def)

lemma sublist_iff_drop: "sublist p t \<longleftrightarrow> (\<exists>i \<le> length t. take (length p) (drop i t) = p)"
proof
  assume "sublist p t"
  then obtain a b where "t = a @ p @ b"
    by (auto simp: sublist_def)
  then show "\<exists>i \<le> length t. take (length p) (drop i t) = p"
    by (intro exI [of _ "length a"]) simp
next
  assume "\<exists>i \<le> length t. take (length p) (drop i t) = p"
  then obtain i where "take (length p) (drop i t) = p"
    by blast
  then have "t = take i t @ p @ drop (length p) (drop i t)"
    by (metis append_take_drop_id)
  then show "sublist p t"
    unfolding sublist_def by blast
qed

lemma first_occurrence_None: "first_occurrence p t = None \<longleftrightarrow> \<not> sublist p t"
  by (auto simp: first_occurrence_def find_None_iff sublist_iff_drop less_Suc_eq_le
      simp del: upt_Suc)

lemma find_upt_first:
  assumes "i < n" and "P i" and "\<And>j. j < i \<Longrightarrow> \<not> P j"
  shows "find P [0..<n] = Some i"
proof -
  have "[0..<n] = [0..<i] @ i # [Suc i..<n]"
    using assms(1) by (metis le_add1 upt_add_eq_append upt_conv_Cons less_imp_add_positive add_0)
  moreover have "find P (xs @ i # ys) = Some i" if "\<forall>x \<in> set xs. \<not> P x" for xs ys
    using that assms(2) by (induction xs) auto
  ultimately show ?thesis
    using assms(3) by simp
qed

lemma first_occurrence_at_end:
  assumes "suffix p (w @ [c])" and "p \<noteq> []" and "\<not> sublist p w"
  shows "first_occurrence p (w @ [c] @ z) = Some (Suc (length w) - length p)"
  unfolding first_occurrence_def
proof (rule find_upt_first)
  obtain a where a: "w @ [c] = a @ p"
    using assms(1) by (auto simp: suffix_def)
  then have len: "Suc (length w) - length p = length a"
    by (metis add_diff_cancel_right' length_append length_append_singleton)
  have "w @ [c] @ z = a @ p @ z"
    using a by simp
  then show "take (length p) (drop (Suc (length w) - length p) (w @ [c] @ z)) = p"
    by (simp only: len) simp
  show "Suc (length w) - length p < Suc (length (w @ [c] @ z))"
    by simp
  fix j
  assume j: "j < Suc (length w) - length p"
  show "take (length p) (drop j (w @ [c] @ z)) \<noteq> p"
  proof
    assume "take (length p) (drop j (w @ [c] @ z)) = p"
    moreover have "take (length p) (drop j (w @ [c] @ z)) = take (length p) (drop j w)"
      using j by simp
    ultimately have "sublist p w"
      using j by (auto simp: sublist_iff_drop intro!: exI [of _ j])
    with assms(3) show False ..
  qed
qed

lemma length_origins_from: "length (origins_from lower i s) = length (fold_caseless lower s)"
  by (induction s arbitrary: i) simp_all

lemma origins_from_append:
  "origins_from lower i (s @ t) = origins_from lower i s @ origins_from lower (i + length s) t"
  by (induction s arbitrary: i) simp_all

lemma origins_before:
  "j < length (fold_caseless lower u) \<Longrightarrow> origins lower (u @ v) ! j = origins lower u ! j"
  by (simp add: origins_def origins_from_append nth_append length_origins_from)

lemma origins_here:
  assumes "length (fold_caseless lower u) \<le> j"
    and "j < length (fold_caseless lower u) + length (fold_caseless_char lower c)"
  shows "origins lower (u @ c # v) ! j = length u"
proof -
  have "j - length (fold_caseless lower u) < length (fold_caseless_char lower c)"
    using assms by linarith
  with assms(1) show ?thesis
    by (simp add: origins_def origins_from_append nth_append length_origins_from)
qed

lemma origins_bound: "j < length (fold_caseless lower u) \<Longrightarrow> origins lower u ! j < length u"
proof (induction u arbitrary: j rule: rev_induct)
  case (snoc c u)
  show ?case
  proof (cases "j < length (fold_caseless lower u)")
    case True
    then show ?thesis using snoc.IH [OF True] by (simp add: origins_before)
  next
    case False
    with snoc.prems origins_here [of lower u j c "[]"] show ?thesis by simp
  qed
qed simp

lemma walk_back_0 [simp]: "walk_back lower cs start 0 = start"
  by (cases cs) auto

lemma walk_back_origin:
  "0 < r \<Longrightarrow> r \<le> length (fold_caseless lower u) \<Longrightarrow>
   walk_back lower (rev (char_indices u)) e r =
     char_offset u (origins lower u ! (length (fold_caseless lower u) - r))"
proof (induction u arbitrary: e r rule: rev_induct)
  case (snoc c u)
  define f where "f = length (fold_caseless_char lower c)"
  define g where "g = length (fold_caseless lower u)"
  have len: "length (fold_caseless lower (u @ [c])) = g + f"
    by (simp add: f_def g_def)
  have step: "walk_back lower (rev (char_indices (u @ [c]))) e r =
      walk_back lower (rev (char_indices u)) (str_len u) (r - f)"
    using snoc.prems by (simp add: char_indices_def f_def)
  show ?case
  proof (cases "r \<le> f")
    case True
    then have "origins lower (u @ [c]) ! (g + f - r) = length u"
      by (intro origins_here) (use snoc.prems in \<open>auto simp: f_def g_def\<close>)
    then show ?thesis
      unfolding step len using True by (simp add: char_offset_def)
  next
    case False
    then have r: "0 < r - f" "r - f \<le> g" "g + f - r = g - (r - f)"
      using snoc.prems len by auto
    have "g - (r - f) < g"
      using r by linarith
    then have o: "origins lower (u @ [c]) ! (g - (r - f)) = origins lower u ! (g - (r - f))"
      "origins lower u ! (g - (r - f)) < length u"
      by (simp_all add: origins_before origins_bound g_def)
    show ?thesis
      unfolding step len r(3) using snoc.IH [of "r - f" "str_len u"] r o
      by (simp add: char_offset_def g_def)
  qed
qed simp

section \<open>The automaton over a text\<close>

definition matcher_state :: "scalars \<Rightarrow> scalars \<Rightarrow> nat \<Rightarrow> bool" where
  "matcher_state p w k \<longleftrightarrow> longest_overlap p w k \<and> \<not> sublist p w"

definition usable_needle :: "unicode_lower_needle \<Rightarrow> scalars \<Rightarrow> bool" where
  "usable_needle nd p \<longleftrightarrow>
     needle_pattern nd = p \<and> table_upto p (needle_prefix nd) (length p)"

lemma sublist_snoc: "sublist p (w @ [c]) \<longleftrightarrow> sublist p w \<or> suffix p (w @ [c])"
proof
  assume "sublist p (w @ [c])"
  then obtain a b where ab: "w @ [c] = a @ p @ b"
    by (auto simp: sublist_def)
  show "sublist p w \<or> suffix p (w @ [c])"
  proof (cases b rule: rev_cases)
    case Nil
    with ab show ?thesis by (auto simp: suffix_def)
  next
    case (snoc b' d)
    with ab have "w = a @ p @ b'" by simp
    then show ?thesis by (auto simp: sublist_def)
  qed
next
  assume "sublist p w \<or> suffix p (w @ [c])"
  moreover have "sublist p (w @ [c])" if "w = a @ p @ b" for a b
    unfolding sublist_def using that by (intro exI [of _ a] exI [of _ "b @ [c]"]) simp
  moreover have "sublist p (w @ [c])" if "suffix p (w @ [c])"
    using that by (rule suffix_imp_sublist)
  ultimately show "sublist p (w @ [c])"
    by (auto simp: sublist_def)
qed

lemma matcher_state_start: "p \<noteq> [] \<Longrightarrow> matcher_state p [] 0"
  by (auto simp: matcher_state_def longest_overlap_def dest: overlap_le)

lemma advance_state:
  assumes "usable_needle nd p" and st: "matcher_state p w k"
  obtains k' where "fall_back (needle_pattern nd) (needle_prefix nd) c k = Some k'" "k' < length p"
    "c = p ! k' \<and> k' + 1 = length p \<Longrightarrow> suffix p (w @ [c])"
    "c = p ! k' \<and> k' + 1 \<noteq> length p \<Longrightarrow> matcher_state p (w @ [c]) (k' + 1)"
    "c \<noteq> p ! k' \<Longrightarrow> matcher_state p (w @ [c]) k'"
proof -
  have "table_upto p (needle_prefix nd) k"
    using assms by (auto simp: usable_needle_def table_upto_def matcher_state_def longest_overlap_def)
  moreover have "longest_overlap p w k"
    using st by (simp add: matcher_state_def)
  ultimately obtain k' where k': "fall_back p (needle_prefix nd) c k = Some k'" "k' < length p"
    "overlap p (w @ [c]) (if c = p ! k' then k' + 1 else k')"
    "\<forall>m. overlap p (w @ [c]) m \<longrightarrow> m \<le> (if c = p ! k' then k' + 1 else k')"
    by (rule advance)
  define k2 where "k2 = (if c = p ! k' then k' + 1 else k')"
  have "matcher_state p (w @ [c]) k2" if "k2 < length p"
  proof -
    have "\<not> suffix p (w @ [c])"
      using k'(4) that by (auto simp flip: overlap_full simp: k2_def)
    with k' that st show ?thesis
      by (simp add: matcher_state_def longest_overlap_def sublist_snoc k2_def [symmetric])
  qed
  moreover have "suffix p (w @ [c])" if "k2 = length p"
    using k'(3) that by (simp flip: overlap_full add: k2_def)
  moreover have "k2 < length p \<or> k2 = length p"
    using k'(2) by (auto simp: k2_def)
  ultimately have full: "k2 = length p \<Longrightarrow> suffix p (w @ [c])"
    and more: "k2 \<noteq> length p \<Longrightarrow> matcher_state p (w @ [c]) k2"
    by blast+
  show thesis
  proof (rule that [of k'])
    show "fall_back (needle_pattern nd) (needle_prefix nd) c k = Some k'"
      using k'(1) assms(1) by (simp add: usable_needle_def)
    show "k' < length p" by (rule k'(2))
    show "suffix p (w @ [c])" if "c = p ! k' \<and> k' + 1 = length p"
      by (rule full) (use that in \<open>simp add: k2_def\<close>)
    show "matcher_state p (w @ [c]) (k' + 1)" if "c = p ! k' \<and> k' + 1 \<noteq> length p"
      using more that by (simp add: k2_def)
    show "matcher_state p (w @ [c]) k'" if "c \<noteq> p ! k'"
      using more that k'(2) by (simp add: k2_def)
  qed
qed

lemma match_folded_correct:
  assumes nd: "usable_needle nd p"
  shows "matcher_state p w k \<Longrightarrow> \<exists>r. match_folded nd i ls k = Some r \<and>
     (case r of
        Inl j \<Rightarrow> \<exists>a c b. ls = a @ c # b \<and> j = i + length a \<and>
                   suffix p ((w @ a) @ [c]) \<and> \<not> sublist p (w @ a)
      | Inr k' \<Rightarrow> matcher_state p (w @ ls) k')"
proof (induction ls arbitrary: w k i)
  case (Cons l ls)
  obtain k' where k': "fall_back (needle_pattern nd) (needle_prefix nd) l k = Some k'" "k' < length p"
    "l = p ! k' \<and> k' + 1 = length p \<Longrightarrow> suffix p (w @ [l])"
    "l = p ! k' \<and> k' + 1 \<noteq> length p \<Longrightarrow> matcher_state p (w @ [l]) (k' + 1)"
    "l \<noteq> p ! k' \<Longrightarrow> matcher_state p (w @ [l]) k'"
    using advance_state [OF nd Cons.prems] by blast
  have pat: "needle_pattern nd = p"
    using nd by (simp add: usable_needle_def)
  have later: "\<exists>r. match_folded nd (i + 1) ls m = Some r \<and>
     (case r of
        Inl j \<Rightarrow> \<exists>a c b. l # ls = a @ c # b \<and> j = i + length a \<and>
                   suffix p ((w @ a) @ [c]) \<and> \<not> sublist p (w @ a)
      | Inr k' \<Rightarrow> matcher_state p (w @ l # ls) k')" if st: "matcher_state p (w @ [l]) m" for m
  proof -
    obtain r where r: "match_folded nd (i + 1) ls m = Some r"
      "case r of
        Inl j \<Rightarrow> \<exists>a c b. ls = a @ c # b \<and> j = i + 1 + length a \<and>
                   suffix p (((w @ [l]) @ a) @ [c]) \<and> \<not> sublist p ((w @ [l]) @ a)
      | Inr k' \<Rightarrow> matcher_state p ((w @ [l]) @ ls) k'"
      using Cons.IH [OF st] by blast
    show ?thesis
    proof (cases r)
      case (Inl j)
      with r(2) obtain a c b where "ls = a @ c # b" "j = i + 1 + length a"
        "suffix p (((w @ [l]) @ a) @ [c])" "\<not> sublist p ((w @ [l]) @ a)"
        by auto
      then have "l # ls = (l # a) @ c # b" "j = i + length (l # a)"
        "suffix p ((w @ (l # a)) @ [c])" "\<not> sublist p (w @ (l # a))"
        by (simp_all del: suffix_snoc)
      then have "\<exists>a c b. l # ls = a @ c # b \<and> j = i + length a \<and>
          suffix p ((w @ a) @ [c]) \<and> \<not> sublist p (w @ a)"
        by (intro exI conjI)
      then show ?thesis
        unfolding r(1) Inl by simp
    next
      case (Inr k')
      with r show ?thesis by simp
    qed
  qed
  show ?case
  proof (cases "l = p ! k' \<and> k' + 1 = length p")
    case True
    then have done_here: "match_folded nd i (l # ls) k = Some (Inl i)"
      using k'(1,2) by (simp add: pat vec_at_lt)
    have "suffix p ((w @ []) @ [l])"
      using k'(3) True by (simp del: suffix_snoc)
    moreover have "\<not> sublist p (w @ [])"
      using Cons.prems by (simp add: matcher_state_def)
    moreover have "l # ls = [] @ l # ls" "i = i + length ([] :: scalars)"
      by (rule append_Nil [symmetric]) simp
    ultimately have "\<exists>a c b. l # ls = a @ c # b \<and> i = i + length a \<and>
        suffix p ((w @ a) @ [c]) \<and> \<not> sublist p (w @ a)"
      by (intro exI conjI)
    then show ?thesis
      unfolding done_here by simp
  next
    case False
    define m where "m = (if l = p ! k' then k' + 1 else k')"
    have "matcher_state p (w @ [l]) m"
      using k'(4,5) False by (auto simp: m_def)
    moreover have "match_folded nd i (l # ls) k = match_folded nd (i + 1) ls m"
      using k'(1,2) False by (auto simp: pat vec_at_lt m_def)
    ultimately show ?thesis
      using later by simp
  qed
qed simp

section \<open>Polling\<close>

definition all_kept :: "(nat \<Rightarrow> bool) \<Rightarrow> nat \<Rightarrow> nat \<Rightarrow> bool" where
  "all_kept keep n0 n \<longleftrightarrow> n0 \<le> n \<and> (\<forall>k. n0 \<le> k \<and> k < n \<longrightarrow> keep k)"

definition stopped_at :: "(nat \<Rightarrow> bool) \<Rightarrow> nat \<Rightarrow> nat \<Rightarrow> bool" where
  "stopped_at keep n0 n \<longleftrightarrow> n0 < n \<and> all_kept keep n0 (n - 1) \<and> \<not> keep (n - 1)"

definition paced :: "nat \<Rightarrow> nat \<Rightarrow> nat \<Rightarrow> nat \<Rightarrow> bool" where
  "paced n0 n check offset \<longleftrightarrow>
     offset \<le> check + 3 \<and> check \<le> (n - n0) * (cancellation_check_bytes + 3)"

lemma all_kept_start [simp]: "all_kept keep n n"
  by (auto simp add: all_kept_def)

lemma paced_start [simp]: "paced n0 n0 0 0"
  by (simp add: paced_def)

lemma all_kept_Suc: "all_kept keep n0 n \<Longrightarrow> keep n \<Longrightarrow> all_kept keep n0 (Suc n)"
  by (auto simp: all_kept_def less_Suc_eq)

lemma stopped_Suc: "all_kept keep n0 n \<Longrightarrow> \<not> keep n \<Longrightarrow> stopped_at keep n0 (Suc n)"
  by (auto simp: all_kept_def stopped_at_def)

lemma poll:
  assumes "all_kept keep n0 n" and "paced n0 n check offset" and "check \<le> offset \<Longrightarrow> keep n"
  defines "check' \<equiv> if check \<le> offset then offset + cancellation_check_bytes else check"
    and "n' \<equiv> if check \<le> offset then n + 1 else n"
  shows "all_kept keep n0 n'" and "paced n0 n' check' offset" and "offset < check'"
    and "paced n0 n' check' (offset + len_utf8 c)"
proof -
  have pos: "0 < cancellation_check_bytes"
    by (simp add: cancellation_check_bytes_def)
  show "all_kept keep n0 n'"
    using assms by (auto simp: n'_def all_kept_Suc)
  show lt: "offset < check'"
    using pos by (simp add: check'_def)
  have "n0 \<le> n"
    using assms(1) by (simp add: all_kept_def)
  then have "check' \<le> (n' - n0) * (cancellation_check_bytes + 3)"
    using assms(2) by (auto simp: paced_def check'_def n'_def Suc_diff_le)
  with lt show "paced n0 n' check' offset" "paced n0 n' check' (offset + len_utf8 c)"
    using len_utf8_le [of c] by (simp_all add: paced_def)
qed

lemma paced_le: "paced n0 n check offset \<Longrightarrow> offset' \<le> offset \<Longrightarrow> paced n0 n check offset'"
  by (simp add: paced_def)

lemma paced_check: "paced n0 n check offset \<Longrightarrow> offset' \<le> check \<Longrightarrow> paced n0 n check offset'"
  by (simp add: paced_def)

lemma paced_bound:
  "paced n0 n check offset \<Longrightarrow> offset \<le> (n - n0) * (cancellation_check_bytes + 3) + 3"
  by (simp add: paced_def)

section \<open>One round of the scan\<close>

definition at_offset ::
  "(scalar \<Rightarrow> scalars) \<Rightarrow> scalars \<Rightarrow> scalars \<Rightarrow> nat \<Rightarrow> nat \<Rightarrow> bool" where
  "at_offset lower p haystack k offset \<longleftrightarrow>
     (\<exists>u v. haystack = u @ v \<and> offset = str_len u \<and> matcher_state p (fold_caseless lower u) k)"

fun flow_ok ::
  "(scalar \<Rightarrow> scalars) \<Rightarrow> scalars \<Rightarrow> scalars \<Rightarrow> (nat \<Rightarrow> bool) \<Rightarrow> nat \<Rightarrow> scan_flow \<Rightarrow> bool" where
  "flow_ok lower p haystack keep n0 (Cancelled n) \<longleftrightarrow> stopped_at keep n0 n"
| "flow_ok lower p haystack keep n0 (Found r n) \<longleftrightarrow>
     all_kept keep n0 n \<and> caseless_range lower p haystack = Some r"
| "flow_ok lower p haystack keep n0 (Restart cursor check n) \<longleftrightarrow>
     all_kept keep n0 n \<and> paced n0 n check cursor \<and> at_offset lower p haystack 0 cursor"
| "flow_ok lower p haystack keep n0 (Exhausted n) \<longleftrightarrow>
     all_kept keep n0 n \<and> \<not> sublist p (fold_caseless lower haystack) \<and>
     str_len haystack \<le> (n - n0) * (cancellation_check_bytes + 3) + 3"

text \<open>The range reported where the expansion of one character completes the needle.\<close>

lemma found_range:
  assumes "p \<noteq> []" and hay: "haystack = u @ c # v"
    and exp: "fold_caseless_char lower c = a @ x # b"
    and suf: "suffix p ((fold_caseless lower u @ a) @ [x])"
    and new: "\<not> sublist p (fold_caseless lower u @ a)"
  shows "\<exists>start. source_start_of_folded_match lower haystack (str_len u) (length p - (length a + 1)) =
           Some start \<and> caseless_range lower p haystack = Some (start, str_len u + len_utf8 c)"
proof -
  define g where "g = length (fold_caseless lower u)"
  have "fold_caseless lower haystack =
      (fold_caseless lower u @ a) @ [x] @ (b @ fold_caseless lower v)"
    by (simp add: hay exp)
  then have first: "first_occurrence p (fold_caseless lower haystack) = Some (Suc (g + length a) - length p)"
    using first_occurrence_at_end [OF suf \<open>p \<noteq> []\<close> new] by (simp add: g_def)
  have plen: "length p \<le> Suc (g + length a)" "0 < length p"
    using suffix_length_le [OF suf] \<open>p \<noteq> []\<close> by (simp_all add: g_def)
  then have last_index: "Suc (g + length a) - length p + length p - 1 = g + length a"
    by simp
  have "origins lower haystack ! (g + length a) = length u"
    unfolding hay by (rule origins_here) (simp_all add: g_def exp)
  then have e: "char_offset haystack (Suc (origins lower haystack ! (g + length a))) = str_len u + len_utf8 c"
    by (simp add: hay char_offset_def)
  have start: "walk_back lower (rev (char_indices u)) (str_len u) (length p - (length a + 1)) =
      char_offset haystack (origins lower haystack ! (Suc (g + length a) - length p))"
  proof (cases "length p \<le> length a + 1")
    case True
    have "g \<le> Suc (g + length a) - length p"
      "Suc (g + length a) - length p < g + length (fold_caseless_char lower c)"
      using True plen unfolding exp length_append list.size by linarith+
    then have "origins lower haystack ! (Suc (g + length a) - length p) = length u"
      unfolding hay g_def by (rule origins_here)
    then show ?thesis
      using True by (simp add: hay char_offset_def)
  next
    case False
    define r where "r = length p - (length a + 1)"
    have r: "0 < r" "r \<le> g" "Suc (g + length a) - length p = g - r" "g - r < g"
      using False plen by (auto simp: r_def)
    have "origins lower haystack ! (g - r) = origins lower u ! (g - r)"
      unfolding hay by (rule origins_before) (use r in \<open>simp add: g_def\<close>)
    moreover have "origins lower u ! (g - r) < length u"
      by (rule origins_bound) (use r in \<open>simp add: g_def\<close>)
    ultimately show ?thesis
      unfolding r_def [symmetric] using walk_back_origin [of r lower u "str_len u"] r
      by (simp add: hay char_offset_def g_def)
  qed
  show ?thesis
    using \<open>p \<noteq> []\<close> first e start last_index
    by (simp add: source_start_of_folded_match_def caseless_range_def hay)
qed

lemma scan_chars_correct:
  assumes nd: "usable_needle nd p" and "p \<noteq> []"
  shows "\<lbrakk>haystack = u @ v; matcher_state p (fold_caseless lower u) k; all_kept keep n0 n;
     paced n0 n check (str_len u)\<rbrakk> \<Longrightarrow>
   \<exists>f. scan_chars lower nd haystack skips keep (char_indices_from (str_len u) v) k check n = Some f \<and>
       flow_ok lower p haystack keep n0 f \<and> (is_Restart f \<longrightarrow> skips \<and> str_len u < flow_cursor f)"
proof (induction v arbitrary: u k check n)
  case Nil
  then show ?case
    by (auto simp: matcher_state_def dest: paced_bound)
next
  case (Cons c v)
  define offset where "offset = str_len u"
  define check' where "check' = (if check \<le> offset then offset + cancellation_check_bytes else check)"
  define n' where "n' = (if check \<le> offset then n + 1 else n)"
  show ?case
  proof (cases "check \<le> offset \<and> \<not> keep n")
    case True
    then show ?thesis
      using stopped_Suc [OF Cons.prems(3)] by (simp add: offset_def)
  next
    case False
    have P: "paced n0 n check offset"
      using Cons.prems(4) by (simp add: offset_def)
    have kept: "all_kept keep n0 n'" and pace: "paced n0 n' check' (offset + len_utf8 c)"
      unfolding n'_def check'_def using poll(1,4) [OF Cons.prems(3) P] False by blast+
    obtain r where r: "match_folded nd 0 (fold_caseless_char lower c) k = Some r"
      "case r of
        Inl j \<Rightarrow> \<exists>a x b. fold_caseless_char lower c = a @ x # b \<and> j = 0 + length a \<and>
                   suffix p ((fold_caseless lower u @ a) @ [x]) \<and> \<not> sublist p (fold_caseless lower u @ a)
      | Inr k' \<Rightarrow> matcher_state p (fold_caseless lower u @ fold_caseless_char lower c) k'"
      using match_folded_correct [OF nd Cons.prems(2)] by blast
    have step: "scan_chars lower nd haystack skips keep (char_indices_from (str_len u) (c # v)) k check n =
      (case r of
         Inl j \<Rightarrow> map_option (\<lambda>start. Found (start, offset + len_utf8 c) n')
                   (source_start_of_folded_match lower haystack offset (length p - (j + 1)))
       | Inr k' \<Rightarrow>
           if k' = 0 \<and> skips then Some (Restart (offset + len_utf8 c) check' n')
           else scan_chars lower nd haystack skips keep
             (char_indices_from (offset + len_utf8 c) v) k' check' n')"
      using False r(1) nd
      by (cases r; cases "check \<le> str_len u")
        (simp_all add: offset_def check'_def n'_def usable_needle_def Let_def)
    show ?thesis
    proof (cases r)
      case (Inl j)
      with r(2) obtain a x b where a: "fold_caseless_char lower c = a @ x # b" "j = length a"
        "suffix p ((fold_caseless lower u @ a) @ [x])" "\<not> sublist p (fold_caseless lower u @ a)"
        by (auto simp del: suffix_snoc)
      obtain start where "source_start_of_folded_match lower haystack offset (length p - (j + 1)) = Some start"
        "caseless_range lower p haystack = Some (start, offset + len_utf8 c)"
        using found_range [OF assms(2) Cons.prems(1) a(1,3,4)] by (auto simp: a(2) offset_def)
      then show ?thesis
        unfolding step Inl using kept by simp
    next
      case (Inr k')
      have off: "str_len (u @ [c]) = offset + len_utf8 c"
        by (simp add: offset_def)
      have st: "matcher_state p (fold_caseless lower (u @ [c])) k'" and hay: "haystack = (u @ [c]) @ v"
        using r(2) Inr Cons.prems(1) by simp_all
      show ?thesis
      proof (cases "k' = 0 \<and> skips")
        case True
        have "at_offset lower p haystack 0 (offset + len_utf8 c)"
          unfolding at_offset_def using st hay off True by metis
        then show ?thesis
          unfolding step Inr using True kept pace len_utf8_pos [of c] by (simp add: offset_def del: len_utf8_pos)
      next
        case False
        have "paced n0 n' check' (str_len (u @ [c]))"
          using pace by (simp only: off)
        from Cons.IH [OF hay st kept this] obtain f where
          "scan_chars lower nd haystack skips keep (char_indices_from (str_len (u @ [c])) v) k' check' n' = Some f"
          "flow_ok lower p haystack keep n0 f" "is_Restart f \<longrightarrow> skips \<and> str_len (u @ [c]) < flow_cursor f"
          by blast
        then show ?thesis
          unfolding step Inr using False by (auto simp: off offset_def)
      qed
    qed
  qed
qed

section \<open>The skip\<close>

definition passed_over :: "scalar \<Rightarrow> scalar \<Rightarrow> bool" where
  "passed_over low c \<longleftrightarrow>
     is_ascii c \<and> \<not> candidate_byte (of_nat low) (of_nat (to_ascii_upper low)) (of_nat c)"

text \<open>An ASCII character that is neither spelling of the first character keeps the start state.\<close>

lemma passed_over_keeps_start:
  assumes "unicode_lower lower" and p: "p = low # rest" and "is_ascii low"
  shows "list_all (passed_over low) a \<Longrightarrow> matcher_state p (fold_caseless lower u) 0 \<Longrightarrow>
     matcher_state p (fold_caseless lower (u @ a)) 0"
proof (induction a arbitrary: u)
  case (Cons c a)
  define x where "x = (if 65 \<le> c \<and> c \<le> 90 then c + 32 else c)"
  have c: "is_ascii c" "(of_nat c :: byte) \<noteq> of_nat low" "(of_nat c :: byte) \<noteq> of_nat (to_ascii_upper low)"
    using Cons.prems(1) by (auto simp: passed_over_def candidate_byte_def)
  then have "c \<noteq> low" "c \<noteq> to_ascii_upper low"
    by auto
  then have "x \<noteq> low"
    by (auto simp: x_def to_ascii_upper_def split: if_splits)
  have zero: "m = 0" if "overlap p (fold_caseless lower u @ [x]) m" for m
    using that Cons.prems(2) \<open>x \<noteq> low\<close>
    by (cases m) (auto simp: matcher_state_def longest_overlap_def p)
  have "\<not> suffix p (fold_caseless lower u @ [x])"
    using zero [of "length p"] by (auto simp only: overlap_full) (simp add: p)
  with zero have "matcher_state p (fold_caseless lower (u @ [c])) 0"
    using Cons.prems(2) fold_caseless_char_ascii [OF assms(1) c(1)]
    by (simp add: matcher_state_def longest_overlap_def sublist_snoc flip: x_def)
  from Cons.IH [OF _ this] Cons.prems(1) show ?case
    by simp
qed simp

fun skip_ok ::
  "(scalar \<Rightarrow> scalars) \<Rightarrow> scalars \<Rightarrow> scalars \<Rightarrow> (nat \<Rightarrow> bool) \<Rightarrow> nat \<Rightarrow> nat \<Rightarrow> skip_flow \<Rightarrow> bool" where
  "skip_ok lower p haystack keep n0 b (Skip_cancelled n) \<longleftrightarrow> stopped_at keep n0 n"
| "skip_ok lower p haystack keep n0 b (Skip_end n) \<longleftrightarrow> flow_ok lower p haystack keep n0 (Exhausted n)"
| "skip_ok lower p haystack keep n0 b (Skip_to cursor check n) \<longleftrightarrow>
     b \<le> cursor \<and> cursor < str_len haystack \<and> flow_ok lower p haystack keep n0 (Restart cursor check n)"

lemma skip_ok_later:
  "skip_ok lower p haystack keep n0 b' f \<Longrightarrow> b \<le> b' \<Longrightarrow> skip_ok lower p haystack keep n0 b f"
  by (cases f) auto

lemma skip_ahead_correct:
  assumes "unicode_lower lower" and "valid_str haystack" and p: "p = low # rest" and "is_ascii low"
  shows "\<lbrakk>haystack = u @ v; matcher_state p (fold_caseless lower u) 0; all_kept keep n0 n;
     paced n0 n check (str_len u)\<rbrakk> \<Longrightarrow>
   \<exists>f. skip_ahead (as_bytes haystack) (of_nat low) (of_nat (to_ascii_upper low)) keep (str_len u) check n = Some f \<and>
     skip_ok lower p haystack keep n0 (str_len u) f"
proof (induction "str_len v" arbitrary: u v check n rule: less_induct)
  case less
  define P where "P = candidate_byte (of_nat low) (of_nat (to_ascii_upper low))"
  define offset where "offset = str_len u"
  define check' where "check' = (if check \<le> offset then offset + cancellation_check_bytes else check)"
  define n' where "n' = (if check \<le> offset then n + 1 else n)"
  consider "v = []" | "v \<noteq> []" "check \<le> offset" "\<not> keep n" | "v \<noteq> []" "check \<le> offset \<Longrightarrow> keep n"
    by blast
  then show ?case
  proof cases
    case 1
    with less.prems show ?thesis
      by (subst skip_ahead.simps) (auto simp: matcher_state_def dest: paced_bound)
  next
    case 2
    then show ?thesis
      using stopped_Suc [OF less.prems(3)] less.prems(1)
      by (subst skip_ahead.simps) (simp add: offset_def)
  next
    case 3
    have Pa: "paced n0 n check offset"
      using less.prems(4) by (simp add: offset_def)
    have kept: "all_kept keep n0 n'" and pace: "paced n0 n' check' offset" and lt: "offset < check'"
      unfolding n'_def check'_def using poll(1,2,3) [OF less.prems(3) Pa] 3 by blast+
    define k where "k = min (str_len v) (check' - offset)"
    have "0 < str_len v"
      using 3(1) by (metis neq0_conv str_len_0)
    then have k: "0 < k" "k \<le> str_len v" "offset + k \<le> check'"
      "min (str_len haystack) check' = offset + k"
      using lt 3(1) less.prems(1) by (auto simp: k_def offset_def)
    have window: "vec_slice (as_bytes haystack) offset (offset + k) = Some (take k (as_bytes v))"
      unfolding less.prems(1) offset_def by (rule vec_slice_bytes) (rule k(2))
    have pos: "case position P (take k (as_bytes v)) of
        Some d \<Rightarrow> \<exists>a c w. v = a @ c # w \<and> str_len a = d \<and> d < k \<and> (\<forall>x \<in> set a. x < 128 \<and> \<not> P (of_nat x))
      | None \<Rightarrow> \<exists>a w. v = a @ w \<and> str_len a = min k (str_len v) \<and> (\<forall>x \<in> set a. x < 128 \<and> \<not> P (of_nat x))"
      by (rule position_in_window) (use assms(2) less.prems(1) in \<open>auto simp: P_def candidate_byte_def\<close>)
    have keeps: "matcher_state p (fold_caseless lower (u @ a)) 0"
      if "\<forall>x \<in> set a. x < 128 \<and> \<not> P (of_nat x)" for a
      by (rule passed_over_keeps_start [OF assms(1) p assms(4) _ less.prems(2)])
        (use that in \<open>auto simp: list_all_iff passed_over_def is_ascii_def P_def\<close>)
    have step: "skip_ahead (as_bytes haystack) (of_nat low) (of_nat (to_ascii_upper low)) keep offset check n =
      (if position P (take k (as_bytes v)) = None
       then skip_ahead (as_bytes haystack) (of_nat low) (of_nat (to_ascii_upper low)) keep (offset + k) check' n'
       else Some (Skip_to (offset + the (position P (take k (as_bytes v)))) check' n'))"
      using 3 less.prems(1) k(4) window
      by (subst skip_ahead.simps) (auto simp: Let_def offset_def check'_def n'_def P_def)
    show ?thesis
    proof (cases "position P (take k (as_bytes v))")
      case None
      then obtain a w where a: "v = a @ w" "str_len a = min k (str_len v)"
        "\<forall>x \<in> set a. x < 128 \<and> \<not> P (of_nat x)"
        using pos unfolding None option.case by blast
      have len: "str_len a = k" "str_len (u @ a) = offset + k"
        using a(2) k(2) by (simp_all add: offset_def)
      have "str_len w < str_len v"
        using a(1) len(1) k(1) by simp
      moreover have "haystack = (u @ a) @ w"
        using less.prems(1) a(1) by simp
      moreover have "paced n0 n' check' (str_len (u @ a))"
        unfolding len(2) by (rule paced_check [OF pace k(3)])
      ultimately obtain f where "skip_ahead (as_bytes haystack) (of_nat low) (of_nat (to_ascii_upper low)) keep
          (str_len (u @ a)) check' n' = Some f"
        "skip_ok lower p haystack keep n0 (str_len (u @ a)) f"
        using less.hyps [OF _ _ keeps [OF a(3)] kept] by blast
      then show ?thesis
        using step None skip_ok_later by (auto simp: len offset_def)
    next
      case (Some d)
      then obtain a c w where a: "v = a @ c # w" "str_len a = d" "d < k"
        "\<forall>x \<in> set a. x < 128 \<and> \<not> P (of_nat x)"
        using pos unfolding Some option.case by blast
      have "haystack = (u @ a) @ c # w" "offset + d = str_len (u @ a)"
        using less.prems(1) a by (simp_all add: offset_def)
      then have "at_offset lower p haystack 0 (offset + d)"
        unfolding at_offset_def using keeps [OF a(4)] by metis
      moreover have "paced n0 n' check' (offset + d)"
        by (rule paced_check [OF pace]) (use a(3) k(3) in simp)
      moreover have "offset + d < str_len haystack"
        using a less.prems(1) by (simp add: offset_def)
      ultimately show ?thesis
        using step Some kept by (simp add: offset_def)
    qed
  qed
qed

section \<open>The whole scan\<close>

definition lead_of :: "scalars \<Rightarrow> scalar option" where
  "lead_of p = (if p \<noteq> [] \<and> is_ascii (hd p) then Some (hd p) else None)"

lemma scan_round_correct:
  assumes nd: "usable_needle nd p" and p: "p \<noteq> []" and lower: "unicode_lower lower" and val: "valid_str haystack"
    and start: "flow_ok lower p haystack keep n0 (Restart cursor check n)"
  shows "\<exists>f. scan_round lower nd haystack (lead_of p) keep cursor check n = Some f \<and>
     flow_ok lower p haystack keep n0 f \<and> (is_Restart f \<longrightarrow> cursor < flow_cursor f)"
proof -
  have scanned: "\<exists>f. Option.bind (str_from haystack c) (\<lambda>tail.
        scan_chars lower nd haystack skips keep (char_indices_from c tail) 0 ch m) = Some f \<and>
      flow_ok lower p haystack keep n0 f \<and> (is_Restart f \<longrightarrow> cursor < flow_cursor f)"
    if "cursor \<le> c" and ok: "flow_ok lower p haystack keep n0 (Restart c ch m)" for c ch m skips
  proof -
    obtain u v where u: "haystack = u @ v" "c = str_len u" "matcher_state p (fold_caseless lower u) 0"
      using ok by (auto simp: at_offset_def)
    obtain f where "scan_chars lower nd haystack skips keep (char_indices_from (str_len u) v) 0 ch m = Some f"
      "flow_ok lower p haystack keep n0 f" "is_Restart f \<longrightarrow> skips \<and> str_len u < flow_cursor f"
      using scan_chars_correct [OF nd p u(1,3)] ok unfolding flow_ok.simps u(2) by blast
    moreover have "str_from haystack c = Some v"
      by (simp add: u)
    ultimately show ?thesis
      using that(1) u(2) by (intro exI [of _ f]) auto
  qed
  show ?thesis
  proof (cases "lead_of p")
    case None
    then show ?thesis
      using scanned [OF order.refl start] by (simp add: scan_round_def)
  next
    case (Some low)
    then obtain rest where lead: "p = low # rest" "is_ascii low"
      using p by (cases p) (auto simp: lead_of_def split: if_splits)
    obtain u v where u: "haystack = u @ v" "cursor = str_len u" "matcher_state p (fold_caseless lower u) 0"
      using start by (auto simp: at_offset_def)
    obtain f where f: "skip_ahead (as_bytes haystack) (of_nat low) (of_nat (to_ascii_upper low)) keep
        cursor check n = Some f" "skip_ok lower p haystack keep n0 cursor f"
      using skip_ahead_correct [OF lower val lead u(1,3)] start unfolding flow_ok.simps u(2) by blast
    show ?thesis
    proof (cases f)
      case (Skip_to c ch m)
      with f(2) have "cursor \<le> c" "flow_ok lower p haystack keep n0 (Restart c ch m)"
        by simp_all
      from scanned [OF this, of True] show ?thesis
        using f(1) Skip_to by (simp add: scan_round_def Some)
    qed (use f in \<open>simp_all add: scan_round_def Some\<close>)
  qed
qed

lemma restart_loop_correct:
  assumes nd: "usable_needle nd p" and p: "p \<noteq> []" and lower: "unicode_lower lower" and val: "valid_str haystack"
  shows "flow_ok lower p haystack keep n0 (Restart cursor check n) \<Longrightarrow>
     \<exists>f. restart_loop lower nd haystack (lead_of p) keep cursor check n = Some f \<and>
       flow_ok lower p haystack keep n0 f \<and> \<not> is_Restart f"
proof (induction "str_len haystack - cursor" arbitrary: cursor check n rule: less_induct)
  case less
  obtain u v where u: "haystack = u @ v" "cursor = str_len u" "matcher_state p (fold_caseless lower u) 0"
    using less.prems by (auto simp: at_offset_def)
  show ?case
  proof (cases "cursor < str_len haystack")
    case False
    then have "haystack = u"
      using u by (cases v) auto
    then show ?thesis
      using False u(3) less.prems
      by (subst restart_loop.simps) (auto simp: matcher_state_def dest!: paced_bound)
  next
    case True
    obtain f where f: "scan_round lower nd haystack (lead_of p) keep cursor check n = Some f"
      "flow_ok lower p haystack keep n0 f" "is_Restart f \<longrightarrow> cursor < flow_cursor f"
      using scan_round_correct [OF nd p lower val less.prems] by blast
    show ?thesis
    proof (cases f)
      case (Restart c ch m)
      with f have "cursor < c" "flow_ok lower p haystack keep n0 (Restart c ch m)"
        by simp_all
      from less.hyps [OF _ this(2)] this(1) True Restart f(1) show ?thesis
        by (subst restart_loop.simps) (simp add: diff_less_mono2)
    qed (use f True in \<open>(subst restart_loop.simps, simp)+\<close>)
  qed
qed

lemma find_in_controlled_correct:
  assumes nd: "usable_needle nd p" and lower: "unicode_lower lower" and val: "valid_str haystack"
  shows "\<exists>c m. find_in_controlled lower nd haystack keep n = Some (c, m) \<and>
     (case c of
        Break \<Rightarrow> stopped_at keep n m
      | Continue found \<Rightarrow> all_kept keep n m \<and> found = caseless_range lower p haystack \<and>
          (found = None \<longrightarrow> str_len haystack \<le> (m - n) * (cancellation_check_bytes + 3) + 3))"
proof (cases p)
  case Nil
  then show ?thesis
    using nd by (simp add: find_in_controlled_def usable_needle_def caseless_range_def)
next
  case (Cons first rest)
  have "at_offset lower p haystack 0 0"
    unfolding at_offset_def using matcher_state_start [of p] Cons
    by (intro exI [of _ "[]"] exI [of _ haystack]) simp
  then have "flow_ok lower p haystack keep n (Restart 0 0 n)"
    by simp
  from restart_loop_correct [OF nd _ lower val this] Cons
  obtain f where f: "restart_loop lower nd haystack (lead_of p) keep 0 0 n = Some f"
    "flow_ok lower p haystack keep n f" "\<not> is_Restart f"
    by blast
  have pat: "needle_pattern nd = first # rest"
    using nd Cons by (simp add: usable_needle_def)
  have lead: "(if is_ascii first then Some first else None) = lead_of p"
    using Cons by (simp add: lead_of_def)
  have result: "find_in_controlled lower nd haystack keep n =
     (case f of
        Cancelled n \<Rightarrow> Some (Break, n)
      | Found found n \<Rightarrow> Some (Continue (Some found), n)
      | Restart cursor check n \<Rightarrow> None
      | Exhausted n \<Rightarrow> Some (Continue None, n))"
    unfolding find_in_controlled_def pat list.case lead f(1) by simp
  have none: "\<not> sublist p (fold_caseless lower haystack) \<Longrightarrow> caseless_range lower p haystack = None"
    using Cons by (simp add: caseless_range_def first_occurrence_None)
  show ?thesis
    unfolding result using f(2,3) none by (cases f) auto
qed

text \<open>What the matcher gives: the folding of the whole haystack, without folding it.\<close>

lemma from_lowered_usable:
  obtains nd where "from_lowered p = Some nd" "usable_needle nd p"
  using from_lowered_total [of p] by (auto simp: usable_needle_def)

lemma caseless_range_iff: "caseless_range lower p s \<noteq> None \<longleftrightarrow> sublist p (fold_caseless lower s)"
  using first_occurrence_None [of p "fold_caseless lower s"] by (auto simp: caseless_range_def)

lemma contains_correct:
  assumes "usable_needle nd p" and "unicode_lower lower" and "valid_str haystack"
  shows "contains lower nd haystack = Some (sublist p (fold_caseless lower haystack))"
proof -
  obtain c m where "find_in_controlled lower nd haystack (\<lambda>_. True) 0 = Some (c, m)"
    "case c of Break \<Rightarrow> stopped_at (\<lambda>_. True) 0 m
     | Continue found \<Rightarrow> all_kept (\<lambda>_. True) 0 m \<and> found = caseless_range lower p haystack \<and>
          (found = None \<longrightarrow> str_len haystack \<le> (m - 0) * (cancellation_check_bytes + 3) + 3)"
    using find_in_controlled_correct [OF assms] by blast
  then show ?thesis
    by (cases c) (auto simp: contains_def stopped_at_def simp flip: caseless_range_iff)
qed

text \<open>The range is a slice of the haystack whose folding holds the needle.\<close>

lemma origins_spec:
  "j < length (fold_caseless lower s) \<Longrightarrow>
     origins lower s ! j < length s \<and>
     length (fold_caseless lower (take (origins lower s ! j) s)) \<le> j \<and>
     j < length (fold_caseless lower (take (Suc (origins lower s ! j)) s))"
proof (induction s arbitrary: j rule: rev_induct)
  case (snoc c s)
  show ?case
  proof (cases "j < length (fold_caseless lower s)")
    case True
    with snoc.IH [OF True] show ?thesis by (simp add: origins_before)
  next
    case False
    then have "origins lower (s @ [c]) ! j = length s"
      using snoc.prems by (intro origins_here) auto
    then show ?thesis using False snoc.prems by simp
  qed
qed simp

lemma caseless_range_slice:
  assumes "caseless_range lower p s = Some (a, b)"
  obtains u m v where "s = u @ m @ v" "a = str_len u" "b = str_len u + str_len m"
    "sublist p (fold_caseless lower m)"
proof (cases "p = []")
  case True
  with assms show thesis
    by (intro that [of "[]" "[]" s]) (auto simp: caseless_range_def)
next
  case False
  with assms obtain i where i: "first_occurrence p (fold_caseless lower s) = Some i"
    "a = char_offset s (origins lower s ! i)"
    "b = char_offset s (Suc (origins lower s ! (i + length p - 1)))"
    by (auto simp: caseless_range_def)
  define t where "t = fold_caseless lower s"
  define x where "x = origins lower s ! i"
  define y where "y = origins lower s ! (i + length p - 1)"
  have at: "take (length p) (drop i t) = p"
    using i(1) by (auto simp: first_occurrence_def t_def dest: find_SomeD)
  have "length (take (length p) (drop i t)) = length p"
    by (simp only: at)
  then have "length p \<le> length t - i"
    by (simp add: min_def split: if_splits)
  moreover have "0 < length p"
    using False by simp
  ultimately have bound: "i < length t" "i + length p - 1 < length t"
    by linarith+
  have x: "x < length s" "length (fold_caseless lower (take x s)) \<le> i"
    using origins_spec [of i lower s] bound by (simp_all add: x_def t_def)
  have y: "y < length s" "i + length p - 1 < length (fold_caseless lower (take (Suc y) s))"
    using origins_spec [of "i + length p - 1" lower s] bound by (simp_all add: y_def t_def)
  have "x \<le> y"
  proof (rule ccontr)
    assume "\<not> x \<le> y"
    then have "min (Suc y) x = Suc y"
      by simp
    then have "take x s = take (Suc y) s @ drop (Suc y) (take x s)"
      using append_take_drop_id [of "Suc y" "take x s"] by simp
    then have "length (fold_caseless lower (take (Suc y) s)) \<le> length (fold_caseless lower (take x s))"
      using fold_caseless_simps(3) [of lower "take (Suc y) s" "drop (Suc y) (take x s)"] by simp
    with x(2) y(2) False show False
      by (cases p) auto
  qed
  define u where "u = take x s"
  define m where "m = drop x (take (Suc y) s)"
  define v where "v = drop (Suc y) s"
  have um: "take (Suc y) s = u @ m"
    using \<open>x \<le> y\<close> append_take_drop_id [of x "take (Suc y) s"] by (simp add: m_def u_def min_absorb1)
  then have s: "s = u @ m @ v"
    using append_take_drop_id [of "Suc y" s] by (simp add: v_def)
  define k where "k = length (fold_caseless lower u)"
  have "k \<le> i" "i + length p \<le> k + length (fold_caseless lower m)"
    using x(2) y(2) False unfolding um by (simp_all add: k_def u_def)
  moreover have "drop i t = drop (i - k) (fold_caseless lower m) @ fold_caseless lower v"
    using calculation False by (simp add: t_def s k_def)
  ultimately have at': "take (length p) (drop (i - k) (fold_caseless lower m)) = p"
    and "i - k \<le> length (fold_caseless lower m)"
    using at by simp_all
  then have "sublist p (fold_caseless lower m)"
    unfolding sublist_iff_drop by (auto simp: sublist_iff_drop intro!: exI [of _ "i - k"])
  moreover have "a = str_len u" "b = str_len u + str_len m"
    using i(2,3) um by (simp_all add: char_offset_def x_def y_def u_def)
  ultimately show thesis
    using that s by blast
qed

end
