(* ===== verification/DisplayText.thy ===== *)
theory DisplayText
  imports CaselessMatch
begin

text \<open>
  Text prepared for display, from \<open>util.rs\<close>: whitespace compaction, the character-bounded
  truncation that compacts lazily and remembers a byte position to cut at, the selection of lines
  at the head or tail of a message, and the snippet around the first match of a query.
\<close>

section \<open>Words and lines\<close>

fun split_words :: "scalars \<Rightarrow> scalars \<Rightarrow> scalars list" where
  "split_words cur [] = (if cur = [] then [] else [cur])"
| "split_words cur (c # s) =
     (if is_whitespace c then (if cur = [] then split_words [] s else cur # split_words [] s)
      else split_words (cur @ [c]) s)"

definition split_whitespace :: "scalars \<Rightarrow> scalars list" where
  "split_whitespace s = split_words [] s"

text \<open>\<open>str::lines\<close>: a newline ends a line and takes one carriage return before it along.\<close>

definition strip_cr :: "scalars \<Rightarrow> scalars" where
  "strip_cr s = (if s \<noteq> [] \<and> last s = 13 then butlast s else s)"

definition str_lines :: "scalars \<Rightarrow> scalars list" where
  "str_lines s =
     (let pieces = split_on 10 s
      in map strip_cr (butlast pieces) @ (if last pieces = [] then [] else [last pieces]))"

definition join_lines :: "scalars list \<Rightarrow> scalars" where
  "join_lines ls = join [10] ls"

section \<open>Compaction\<close>

fun compact_loop ::
  "(nat \<Rightarrow> bool) \<Rightarrow> (nat \<times> scalar) list \<Rightarrow> scalars \<Rightarrow> bool \<Rightarrow> bool \<Rightarrow> nat \<Rightarrow> nat \<Rightarrow>
     scalars option \<times> nat" where
  "compact_loop keep [] result in_word saw_word next_check n = (Some result, n)"
| "compact_loop keep ((offset, c) # rest) result in_word saw_word next_check n =
     (if next_check \<le> offset \<and> \<not> keep n then (None, n + 1)
      else
        let check = (if next_check \<le> offset then offset + cancellation_check_bytes else next_check);
            calls = (if next_check \<le> offset then n + 1 else n)
        in if is_whitespace c then compact_loop keep rest result False saw_word check calls
           else compact_loop keep rest
             (result @ (if \<not> in_word \<and> saw_word then [32] else []) @ [c]) True True check calls)"

definition compact_whitespace_while :: "scalars \<Rightarrow> (nat \<Rightarrow> bool) \<Rightarrow> nat \<Rightarrow> scalars option \<times> nat" where
  "compact_whitespace_while value keep n = compact_loop keep (char_indices value) [] False False 0 n"

definition compact_whitespace :: "scalars \<Rightarrow> scalars option" where
  "compact_whitespace value = fst (compact_whitespace_while value (\<lambda>_. True) 0)"

section \<open>Truncation\<close>

definition truncation_ellipsis :: scalars where
  "truncation_ellipsis = lit ''...''"

record truncation =
  tr_compact :: scalars
  tr_chars :: nat
  tr_keep_bytes :: nat
  tr_saw :: bool
  tr_pending :: bool

text \<open>\<open>push_char\<close>: \<open>Inl\<close> is the truncated text.\<close>

definition push_char ::
  "nat \<Rightarrow> nat \<Rightarrow> scalars \<Rightarrow> scalar \<Rightarrow> truncation \<Rightarrow> (scalars + truncation) option" where
  "push_char max_len keep_chars ellipsis c st =
     (if max_len < tr_chars st + 1 then
        map_option (\<lambda>kept. Inl (kept @ ellipsis)) (str_to (tr_compact st) (tr_keep_bytes st))
      else
        let compact = tr_compact st @ [c]
        in Some (Inr (st\<lparr>tr_compact := compact, tr_chars := tr_chars st + 1,
             tr_keep_bytes := (if tr_chars st + 1 = keep_chars then str_len compact else tr_keep_bytes st)\<rparr>)))"

fun truncate_loop ::
  "nat \<Rightarrow> nat \<Rightarrow> scalars \<Rightarrow> scalars \<Rightarrow> truncation \<Rightarrow> (scalars \<times> bool) option" where
  "truncate_loop max_len keep_chars ellipsis [] st = Some (tr_compact st, False)"
| "truncate_loop max_len keep_chars ellipsis (c # rest) st =
     (if is_whitespace c then
        truncate_loop max_len keep_chars ellipsis rest (st\<lparr>tr_pending := tr_saw st\<rparr>)
      else do {
        spaced \<leftarrow> (if tr_pending st then push_char max_len keep_chars ellipsis 32 st else Some (Inr st));
        (case spaced of
           Inl kept \<Rightarrow> Some (kept, True)
         | Inr st \<Rightarrow> do {
             pushed \<leftarrow> push_char max_len keep_chars ellipsis c (st\<lparr>tr_pending := False\<rparr>);
             (case pushed of
                Inl kept \<Rightarrow> Some (kept, True)
              | Inr st \<Rightarrow> truncate_loop max_len keep_chars ellipsis rest (st\<lparr>tr_saw := True\<rparr>))
           })
      })"

definition truncate_compacted_chars :: "scalars \<Rightarrow> nat \<Rightarrow> (scalars \<times> bool) option" where
  "truncate_compacted_chars chars max_len =
     (let ellipsis = (if length truncation_ellipsis \<le> max_len then truncation_ellipsis else [])
      in truncate_loop max_len (max_len - length ellipsis) ellipsis chars
           \<lparr>tr_compact = [], tr_chars = 0, tr_keep_bytes = 0, tr_saw = False, tr_pending = False\<rparr>)"

definition truncate_for_display_with_extent :: "scalars \<Rightarrow> nat \<Rightarrow> (scalars \<times> bool) option" where
  "truncate_for_display_with_extent value max_len = truncate_compacted_chars value max_len"

definition truncate_for_display :: "scalars \<Rightarrow> nat \<Rightarrow> scalars option" where
  "truncate_for_display value max_len = map_option fst (truncate_for_display_with_extent value max_len)"

section \<open>Lines of a message or a transcript\<close>

fun tail_lines_loop :: "nat \<Rightarrow> scalars list \<Rightarrow> nat \<Rightarrow> scalars list \<Rightarrow> scalars list \<times> nat" where
  "tail_lines_loop requested selected seen [] = (selected, seen)"
| "tail_lines_loop requested selected seen (l # ls) =
     tail_lines_loop requested
       ((if length selected = requested then tl selected else selected) @ [l]) (seen + 1) ls"

definition truncated_label :: "string \<Rightarrow> nat \<Rightarrow> string" where
  "truncated_label side n =
     side @ '' '' @ decimal n @ '' (truncated; 0 returns the entire transcript and may be very large)''"

definition select_transcript_lines :: "scalars \<Rightarrow> int \<Rightarrow> scalars \<times> string" where
  "select_transcript_lines transcript transcript_lines =
     (if transcript_lines = 0 then (transcript, ''all'')
      else if transcript_lines < 0 then
        let (selected, seen) = tail_lines_loop (nat (- transcript_lines)) [] 0 (str_lines transcript)
        in (join_lines selected,
            if length selected < seen then truncated_label ''last'' (length selected)
            else decimal (length selected))
      else
        let n = nat transcript_lines;
            selected = take n (str_lines transcript);
            truncated = (drop n (str_lines transcript) \<noteq> [])
        in (join_lines selected,
            if truncated then truncated_label ''first'' n else decimal (length selected)))"

definition select_message_lines :: "scalars \<Rightarrow> int \<Rightarrow> scalars" where
  "select_message_lines content lines_per_message =
     (if lines_per_message = 0 then content
      else fst (select_transcript_lines content lines_per_message))"

section \<open>Snippets\<close>

fun boundary_down :: "scalars \<Rightarrow> nat \<Rightarrow> nat" where
  "boundary_down s 0 = 0"
| "boundary_down s (Suc b) = (if is_char_boundary s (Suc b) then Suc b else boundary_down s b)"

function boundary_up :: "scalars \<Rightarrow> nat \<Rightarrow> nat" where
  "boundary_up s b = (if b < str_len s \<and> \<not> is_char_boundary s b then boundary_up s (b + 1) else b)"
  by pat_completeness auto
termination by (relation "measure (\<lambda>(s, b). str_len s - b)") auto

declare boundary_up.simps [simp del]

definition window_around_match :: "scalars \<Rightarrow> nat \<times> nat \<Rightarrow> nat \<Rightarrow> scalars option" where
  "window_around_match compact found max_len =
     (let half = max_len div 2;
          start = boundary_down compact (fst found - half);
          e = boundary_up compact (min (snd found + half) (str_len compact))
      in map_option
        (\<lambda>snippet. (if 0 < start then lit ''...'' else []) @ snippet @
           (if e < str_len compact then lit ''...'' else []))
        (str_slice compact start e))"

text \<open>The needles of a query are tried in turn: \<open>None\<close> in the result means cancelled.\<close>

fun locate_tokens ::
  "(scalar \<Rightarrow> scalars) \<Rightarrow> scalars \<Rightarrow> nat \<Rightarrow> (nat \<Rightarrow> bool) \<Rightarrow> scalars list \<Rightarrow> nat \<Rightarrow>
     (scalars option \<times> nat) option" where
  "locate_tokens lower compact max_len keep [] n =
     (if keep n then map_option (\<lambda>t. (Some t, n + 1)) (truncate_for_display compact max_len)
      else Some (None, n + 1))"
| "locate_tokens lower compact max_len keep (token # tokens) n = do {
     needle \<leftarrow> from_lowered token;
     (found, n) \<leftarrow> find_in_while lower needle compact keep n;
     (case found of
        None \<Rightarrow> Some (None, n)
      | Some (Some r) \<Rightarrow> map_option (\<lambda>t. (Some t, n)) (window_around_match compact r max_len)
      | Some None \<Rightarrow> locate_tokens lower compact max_len keep tokens n)
   }"

definition snippet_from_match_while ::
  "(scalar \<Rightarrow> scalars) \<Rightarrow> scalars \<Rightarrow> scalars \<Rightarrow> nat \<Rightarrow> (nat \<Rightarrow> bool) \<Rightarrow> nat \<Rightarrow>
     (scalars option \<times> nat) option" where
  "snippet_from_match_while lower value query max_len keep n =
     (case compact_whitespace_while value keep n of
        (None, n) \<Rightarrow> Some (None, n)
      | (Some compact, n) \<Rightarrow>
          if compact = [] then Some (Some (lit ''(no snippet available)''), n)
          else
            let query_lower = fold_caseless lower query
            in locate_tokens lower compact max_len keep
                 (query_lower # split_whitespace query_lower) n)"

text \<open>\<open>snippet_from_match\<close> expects an answer: cancellation would be a panic.\<close>

definition snippet_from_match ::
  "(scalar \<Rightarrow> scalars) \<Rightarrow> scalars \<Rightarrow> scalars \<Rightarrow> nat \<Rightarrow> scalars option" where
  "snippet_from_match lower value query max_len =
     Option.bind (snippet_from_match_while lower value query max_len (\<lambda>_. True) 0) fst"

section \<open>Compaction joins the words\<close>

fun squeeze :: "bool \<Rightarrow> bool \<Rightarrow> scalars \<Rightarrow> scalars" where
  "squeeze in_word saw [] = []"
| "squeeze in_word saw (c # s) =
     (if is_whitespace c then squeeze False saw s
      else (if \<not> in_word \<and> saw then [32] else []) @ c # squeeze True True s)"

definition compacted :: "scalars \<Rightarrow> scalars" where
  "compacted s = join [32] (split_whitespace s)"

lemma split_words_cur: "cur \<noteq> [] \<Longrightarrow> split_words cur s \<noteq> []"
  by (induction s arbitrary: cur) auto

lemma join_Cons: "join sep (w # ws) = w @ (if ws = [] then [] else sep @ join sep ws)"
  by (cases ws) auto

lemma squeeze_words:
  "join [32] (split_words cur s) = cur @ squeeze (cur \<noteq> []) (cur \<noteq> []) s"
  "squeeze False True s = (if split_words [] s = [] then [] else 32 # join [32] (split_words [] s))"
proof (induction s arbitrary: cur)
  case (Cons c s)
  {
    case 1
    show ?case
      using Cons.IH(1) [of "[]"] Cons.IH(1) [of "cur @ [c]"] Cons.IH(2) by (simp add: join_Cons)
  next
    case 2
    show ?case
      using Cons.IH(1) [of "[c]"] Cons.IH(2) split_words_cur [of "[c]" s] by simp
  }
qed simp_all

lemma compacted_squeeze: "compacted s = squeeze False False s"
  using squeeze_words(1) [of "[]" s] by (simp add: compacted_def split_whitespace_def)

fun compact_ok :: "(nat \<Rightarrow> bool) \<Rightarrow> nat \<Rightarrow> scalars \<Rightarrow> scalars option \<times> nat \<Rightarrow> bool" where
  "compact_ok keep n want (None, m) \<longleftrightarrow> n < m \<and> \<not> keep (m - 1)"
| "compact_ok keep n want (Some t, m) \<longleftrightarrow> t = want"

lemma compact_ok_later: "compact_ok keep k want r \<Longrightarrow> n \<le> k \<Longrightarrow> compact_ok keep n want r"
  by (cases "(keep, n, want, r)" rule: compact_ok.cases) auto

lemma compact_loop_correct:
  "compact_ok keep n (result @ squeeze in_word saw s)
     (compact_loop keep (char_indices_from b s) result in_word saw check n)"
proof (induction s arbitrary: b result in_word saw check n)
  case (Cons c s)
  define check' where "check' = (if check \<le> b then b + cancellation_check_bytes else check)"
  define n' where "n' = (if check \<le> b then n + 1 else n)"
  have IH: "compact_ok keep n (r @ squeeze i w s)
      (compact_loop keep (char_indices_from (b + len_utf8 c) s) r i w check' n')" for r i w
    by (rule compact_ok_later [OF Cons.IH]) (simp add: n'_def)
  consider "check \<le> b \<and> \<not> keep n" | "\<not> (check \<le> b \<and> \<not> keep n)" "is_whitespace c"
    | "\<not> (check \<le> b \<and> \<not> keep n)" "\<not> is_whitespace c"
    by blast
  then show ?case
  proof cases
    case 1
    then show ?thesis by simp
  next
    case 2
    with IH [of result False saw] show ?thesis
      by (simp add: Let_def check'_def n'_def split: if_splits)
  next
    case 3
    with IH [of "result @ (if \<not> in_word \<and> saw then [32] else []) @ [c]" True True] show ?thesis
      by (simp add: Let_def check'_def n'_def split: if_splits)
  qed
qed simp

lemma compact_loop_kept:
  assumes "\<forall>k. keep k"
  shows "fst (compact_loop keep (char_indices_from b s) result in_word saw check n) =
    Some (result @ squeeze in_word saw s)"
  using assms by (induction s arbitrary: b result in_word saw check n) (simp_all add: Let_def)

lemma compact_whitespace_correct: "compact_whitespace s = Some (compacted s)"
  by (simp add: compact_whitespace_def compact_whitespace_while_def char_indices_def
      compact_loop_kept compacted_squeeze)

lemma compact_whitespace_while_cases:
  obtains (stopped) m where "compact_whitespace_while s keep n = (None, m)" "n < m" "\<not> keep (m - 1)"
  | (finished) m where "compact_whitespace_while s keep n = (Some (compacted s), m)"
proof -
  have "compact_ok keep n (compacted s) (compact_whitespace_while s keep n)"
    using compact_loop_correct [where keep = keep and b = 0 and s = s and result = "[]" and in_word = False
        and saw = False and check = 0 and n = n]
    by (simp add: compact_whitespace_while_def char_indices_def compacted_squeeze)
  then show thesis
    using that by (cases "compact_whitespace_while s keep n"; cases "fst (compact_whitespace_while s keep n)") auto
qed

section \<open>Truncation is the truncation of the compacted text\<close>

text \<open>The eager reference: compact everything, then cut.\<close>

definition shortened :: "nat \<Rightarrow> scalars \<Rightarrow> scalars \<times> bool" where
  "shortened max_len t =
     (if length t \<le> max_len then (t, False)
      else if 3 \<le> max_len then (take (max_len - 3) t @ lit ''...'', True)
      else (take max_len t, True))"

definition keeps_to :: "nat \<Rightarrow> nat \<Rightarrow> truncation \<Rightarrow> bool" where
  "keeps_to max_len k st \<longleftrightarrow>
     tr_chars st = length (tr_compact st) \<and> tr_chars st \<le> max_len \<and> k \<le> max_len \<and>
     (k \<le> tr_chars st \<longrightarrow> tr_keep_bytes st = str_len (take k (tr_compact st)))"

definition cut :: "nat \<Rightarrow> nat \<Rightarrow> scalars \<Rightarrow> scalars \<Rightarrow> scalars \<times> bool" where
  "cut max_len k ellipsis t = (if length t \<le> max_len then (t, False) else (take k t @ ellipsis, True))"

lemma str_to_take: "str_to t (str_len (take k t)) = Some (take k t)"
  by (metis append_take_drop_id str_to_append)

lemma push_char_full:
  assumes "keeps_to max_len k st" and "max_len < tr_chars st + 1"
  shows "push_char max_len k e c st = Some (Inl (take k (tr_compact st) @ e))"
    and "cut max_len k e (tr_compact st @ c # t) = (take k (tr_compact st) @ e, True)"
proof -
  have k: "tr_chars st = max_len" "k \<le> max_len" "length (tr_compact st) = max_len"
    using assms by (auto simp: keeps_to_def)
  then have "tr_keep_bytes st = str_len (take k (tr_compact st))"
    using assms by (simp add: keeps_to_def)
  then show "push_char max_len k e c st = Some (Inl (take k (tr_compact st) @ e))"
    using k by (simp add: push_char_def str_to_take)
  show "cut max_len k e (tr_compact st @ c # t) = (take k (tr_compact st) @ e, True)"
    using k by (simp add: cut_def)
qed

lemma push_char_room:
  assumes "keeps_to max_len k st" and "\<not> max_len < tr_chars st + 1"
  obtains st' where "push_char max_len k e c st = Some (Inr st')" "keeps_to max_len k st'"
    "tr_compact st' = tr_compact st @ [c]" "tr_saw st' = tr_saw st" "tr_pending st' = tr_pending st"
proof -
  have "take (Suc (length t)) (t @ [x]) = t @ [x]" for t :: scalars and x
    by simp
  then show thesis
    using assms that by (fastforce simp: push_char_def keeps_to_def Let_def)
qed

lemma truncate_loop_correct:
  "keeps_to max_len k st \<Longrightarrow> (tr_pending st \<Longrightarrow> tr_saw st) \<Longrightarrow>
   truncate_loop max_len k e s st =
     Some (cut max_len k e (tr_compact st @ squeeze (tr_saw st \<and> \<not> tr_pending st) (tr_saw st) s))"
proof (induction s arbitrary: st)
  case Nil
  then show ?case by (simp add: keeps_to_def cut_def)
next
  case (Cons c s)
  have upd: "keeps_to max_len k (st\<lparr>tr_pending := b\<rparr>)" "keeps_to max_len k (st\<lparr>tr_saw := b\<rparr>)"
    if "keeps_to max_len k st" for st b
    using that by (simp_all add: keeps_to_def)
  show ?case
  proof (cases "is_whitespace c")
    case True
    then show ?thesis
      using Cons.IH [OF upd(1) [OF Cons.prems(1)], of "tr_saw st"] by simp
  next
    case False
    define spaced where
      "spaced = (if tr_pending st then push_char max_len k e 32 st else Some (Inr st))"
    have rest: "Option.bind (push_char max_len k e c (st'\<lparr>tr_pending := False\<rparr>))
        (\<lambda>pushed. case pushed of Inl kept \<Rightarrow> Some (kept, True)
          | Inr st \<Rightarrow> truncate_loop max_len k e s (st\<lparr>tr_saw := True\<rparr>)) =
        Some (cut max_len k e (tr_compact st' @ c # squeeze True True s))"
      if ok: "keeps_to max_len k st'" for st'
    proof (cases "max_len < tr_chars st' + 1")
      case True
      then show ?thesis
        using push_char_full [OF upd(1) [OF ok, of False]] by simp
    next
      case False
      then obtain st2 where "push_char max_len k e c (st'\<lparr>tr_pending := False\<rparr>) = Some (Inr st2)"
        "keeps_to max_len k st2" "tr_compact st2 = tr_compact st' @ [c]" "tr_pending st2 = False"
        using push_char_room [OF upd(1) [OF ok, of False], of e c] by auto
      with Cons.IH [OF upd(2) [of st2 True]] show ?thesis by simp
    qed
    have step: "truncate_loop max_len k e (c # s) st =
        Option.bind spaced (\<lambda>spaced. case spaced of Inl kept \<Rightarrow> Some (kept, True)
          | Inr st \<Rightarrow> Option.bind (push_char max_len k e c (st\<lparr>tr_pending := False\<rparr>))
              (\<lambda>pushed. case pushed of Inl kept \<Rightarrow> Some (kept, True)
                | Inr st \<Rightarrow> truncate_loop max_len k e s (st\<lparr>tr_saw := True\<rparr>)))"
      using False by (simp add: spaced_def)
    show ?thesis
    proof (cases "tr_pending st")
      case False
      with step rest [OF Cons.prems(1)] \<open>\<not> is_whitespace c\<close> show ?thesis
        by (cases "tr_saw st") (simp_all add: spaced_def)
    next
      case pending: True
      show ?thesis
      proof (cases "max_len < tr_chars st + 1")
        case True
        then show ?thesis
          using step pending push_char_full [OF Cons.prems(1) True] Cons.prems(2) False
          by (simp add: spaced_def)
      next
        case room: False
        obtain st1 where "push_char max_len k e 32 st = Some (Inr st1)" "keeps_to max_len k st1"
          "tr_compact st1 = tr_compact st @ [32]"
          using push_char_room [OF Cons.prems(1) room] by blast
        then show ?thesis
          using step pending rest [of st1] Cons.prems(2) False by (simp add: spaced_def)
      qed
    qed
  qed
qed

lemma truncation_correct: "truncate_compacted_chars s max_len = Some (shortened max_len (compacted s))"
proof -
  define e where "e = (if 3 \<le> max_len then lit ''...'' else [])"
  have e: "length e = (if 3 \<le> max_len then 3 else 0)"
    by (simp add: e_def lit_def)
  have "truncate_compacted_chars s max_len = Some (cut max_len (max_len - length e) e (compacted s))"
    unfolding truncate_compacted_chars_def
    by (simp add: truncation_ellipsis_def e_def lit_def Let_def compacted_squeeze)
      (subst truncate_loop_correct; simp add: keeps_to_def)+
  also have "cut max_len (max_len - length e) e (compacted s) = shortened max_len (compacted s)"
    using e by (simp add: cut_def shortened_def e_def)
  finally show ?thesis .
qed

text \<open>The words of compacted text are the words of the text.\<close>

lemma split_words_word:
  "list_all (\<lambda>c. \<not> is_whitespace c) w \<Longrightarrow> split_words cur (w @ s) = split_words (cur @ w) s"
  by (induction w arbitrary: cur) simp_all

lemma split_words_good:
  "list_all (\<lambda>c. \<not> is_whitespace c) cur \<Longrightarrow>
     \<forall>w \<in> set (split_words cur s). w \<noteq> [] \<and> list_all (\<lambda>c. \<not> is_whitespace c) w"
proof (induction s arbitrary: cur)
  case (Cons c s)
  show ?case
    using Cons.IH [of "[]"] Cons.IH [of "cur @ [c]"] Cons.prems by (simp del: split_paired_All)
qed simp

lemma split_join_words:
  "\<forall>w \<in> set ws. w \<noteq> [] \<and> list_all (\<lambda>c. \<not> is_whitespace c) w \<Longrightarrow> split_words [] (join [32] ws) = ws"
proof (induction ws)
  case (Cons w ws)
  have sp: "is_whitespace 32"
    by (simp add: is_whitespace_def)
  show ?case
    using Cons split_words_word [of w "[]" "[]"] split_words_word [of w "[]" "32 # join [32] ws"] sp
    by (simp add: join_Cons)
qed simp

lemma compacted_words: "split_whitespace (compacted s) = split_whitespace s"
  unfolding compacted_def split_whitespace_def
  by (rule split_join_words) (rule split_words_good, simp)

lemma compacted_idem: "compacted (compacted s) = compacted s"
  by (simp add: compacted_def [of "compacted s"] compacted_words) (simp add: compacted_def)

lemma is_scalar_space: "is_scalar 32"
  by (simp add: is_scalar_def)

lemma valid_squeeze: "valid_str s \<Longrightarrow> valid_str (squeeze i w s)"
  by (induction i w s rule: squeeze.induct) (auto simp: is_scalar_space)

section \<open>Selected lines\<close>

lemma tail_lines_loop_correct:
  assumes "0 < k"
  shows "length selected \<le> k \<Longrightarrow>
    tail_lines_loop k selected seen ls =
      (drop (length selected + length ls - k) (selected @ ls), seen + length ls)"
proof (induction ls arbitrary: selected seen)
  case (Cons l ls)
  show ?case
  proof (cases "length selected = k")
    case True
    then have "selected \<noteq> []"
      using assms by auto
    then obtain x xs where sel: "selected = x # xs"
      by (cases selected) auto
    have "Suc (length xs + length ls) - k = length ls" "Suc (length ls) - k = length ls - length xs"
      using True sel by simp_all
    then show ?thesis
      using Cons.IH [of "xs @ [l]" "seen + 1"] True sel by simp
  next
    case False
    then show ?thesis
      using Cons.IH [of "selected @ [l]" "seen + 1"] Cons.prems by simp
  qed
qed simp

lemma select_message_lines_tail:
  "0 < k \<Longrightarrow> select_message_lines s (- int k) =
     join_lines (drop (length (str_lines s) - k) (str_lines s))"
  using tail_lines_loop_correct [of k "[]" 0 "str_lines s"]
  by (simp add: select_message_lines_def select_transcript_lines_def)

lemma select_message_lines_head:
  "0 < k \<Longrightarrow> select_message_lines s (int k) = join_lines (take k (str_lines s))"
  by (simp add: select_message_lines_def select_transcript_lines_def Let_def)

section \<open>Windows around a match\<close>

lemma boundary_ends [simp]: "is_char_boundary s 0" "is_char_boundary s (str_len s)"
  by (auto simp: is_char_boundary_iff)

lemma boundary_near:
  assumes "b \<le> str_len s"
  shows "(\<exists>k \<le> b. is_char_boundary s k \<and> b < k + 4) \<and>
    (\<exists>k \<ge> b. k \<le> str_len s \<and> is_char_boundary s k \<and> k < b + 4)"
  using assms
proof (induction s arbitrary: b)
  case (Cons c s)
  have shift: "is_char_boundary (c # s) (len_utf8 c + k)" if k: "is_char_boundary s k" for k
  proof -
    obtain u v where "s = u @ v" "str_len u = k"
      using is_char_boundaryE [OF k] by blast
    then have "c # s = (c # u) @ v" "str_len (c # u) = len_utf8 c + k"
      by simp_all
    then show ?thesis
      unfolding is_char_boundary_iff by blast
  qed
  show ?case
  proof (cases "b < len_utf8 c")
    case True
    have "is_char_boundary (c # s) (len_utf8 c)"
      using shift [of 0] by simp
    then have "\<exists>k \<ge> b. k \<le> str_len (c # s) \<and> is_char_boundary (c # s) k \<and> k < b + 4"
      using True len_utf8_le [of c] boundary_ends(1) [of "c # s"]
      by (cases "b = 0") (auto intro: exI [of _ 0] exI [of _ "len_utf8 c"])
    moreover have "b < 0 + 4"
      using True len_utf8_le [of c] by simp
    ultimately show ?thesis
      using boundary_ends(1) [of "c # s"] by blast
  next
    case False
    then obtain d where d: "b = len_utf8 c + d" "d \<le> str_len s"
      using Cons.prems by (auto dest: le_Suc_ex simp: not_less)
    obtain k l where "k \<le> d" "is_char_boundary s k" "d < k + 4"
      "l \<ge> d" "l \<le> str_len s" "is_char_boundary s l" "l < d + 4"
      using Cons.IH [OF d(2)] by blast
    then show ?thesis
      unfolding d(1) using shift [of k] shift [of l]
      by (intro conjI exI [of _ "len_utf8 c + k"] exI [of _ "len_utf8 c + l"]) auto
  qed
qed auto

lemma boundary_down_greatest:
  "boundary_down s b \<le> b \<and> is_char_boundary s (boundary_down s b) \<and>
     (\<forall>k \<le> b. is_char_boundary s k \<longrightarrow> k \<le> boundary_down s b)"
  by (induction b) (auto simp: le_Suc_eq)

lemma boundary_up_least:
  "b \<le> str_len s \<Longrightarrow> b \<le> boundary_up s b \<and> boundary_up s b \<le> str_len s \<and>
     is_char_boundary s (boundary_up s b) \<and> (\<forall>k \<ge> b. is_char_boundary s k \<longrightarrow> boundary_up s b \<le> k)"
proof (induction s b rule: boundary_up.induct)
  case (1 s b)
  show ?case
  proof (cases "b < str_len s \<and> \<not> is_char_boundary s b")
    case True
    then have "boundary_up s b = boundary_up s (b + 1)"
      by (subst boundary_up.simps) simp
    with 1 True show ?thesis
      by (auto simp: Suc_le_eq) (metis Suc_leI le_neq_implies_less)
  next
    case False
    with 1 show ?thesis
      by (subst (1 2 3 4) boundary_up.simps) (auto simp: le_less)
  qed
qed

lemma window_correct:
  assumes "compact = x @ m @ y"
  shows "\<exists>u pre post v. compact = u @ pre @ m @ post @ v \<and> x = u @ pre \<and> y = post @ v \<and>
    str_len pre \<le> max_len div 2 + 3 \<and> str_len post \<le> max_len div 2 + 3 \<and>
    window_around_match compact (str_len x, str_len x + str_len m) max_len =
      Some ((if u = [] then [] else lit ''...'') @ (pre @ m @ post) @ (if v = [] then [] else lit ''...''))"
proof -
  define half where "half = max_len div 2"
  define start where "start = boundary_down compact (str_len x - half)"
  define e where "e = boundary_up compact (min (str_len x + str_len m + half) (str_len compact))"
  have bx: "is_char_boundary compact (str_len x)" "is_char_boundary compact (str_len (x @ m))"
    unfolding is_char_boundary_iff assms by (metis append.assoc)+
  have start: "start \<le> str_len x - half" "is_char_boundary compact start"
    "\<And>k. k \<le> str_len x - half \<Longrightarrow> is_char_boundary compact k \<Longrightarrow> k \<le> start"
    using boundary_down_greatest [of compact "str_len x - half"] by (auto simp: start_def)
  have e: "min (str_len x + str_len m + half) (str_len compact) \<le> e" "e \<le> str_len compact"
    "is_char_boundary compact e"
    "\<And>k. min (str_len x + str_len m + half) (str_len compact) \<le> k \<Longrightarrow> is_char_boundary compact k \<Longrightarrow> e \<le> k"
    using boundary_up_least [of "min (str_len x + str_len m + half) (str_len compact)" compact]
    by (auto simp: e_def)
  have "str_len x - half \<le> str_len compact"
    by (simp add: assms)
  then have start_near: "str_len x - half < start + 4"
    using boundary_near [of "str_len x - half" compact] start(3) by fastforce
  have e_near: "e < str_len x + str_len m + half + 4"
  proof -
    obtain k where "k \<ge> min (str_len x + str_len m + half) (str_len compact)" "is_char_boundary compact k"
      "k < min (str_len x + str_len m + half) (str_len compact) + 4"
      using boundary_near [of "min (str_len x + str_len m + half) (str_len compact)" compact] by auto
    then show ?thesis using e(4) [of k] by linarith
  qed
  obtain u where u: "start = str_len u" "\<exists>z. compact = u @ z"
    using start(2) by (auto elim!: is_char_boundaryE)
  obtain w v where w: "e = str_len w" "compact = w @ v"
    using e(3) by (auto elim!: is_char_boundaryE)
  have "str_len u \<le> str_len x"
    using start(1) u(1) by simp
  then obtain pre where pre: "x = u @ pre"
    using u(2) assms by (metis boundary_prefix append.assoc)
  have "str_len (x @ m) \<le> str_len w"
    using e(1) w(1) assms by auto
  then obtain post where post: "w = (x @ m) @ post" "y = post @ v"
    using w(2) assms by (metis boundary_prefix append.assoc)
  have "str_len pre \<le> half + 3" "str_len post \<le> half + 3"
    using start_near u(1) pre e_near w(1) post(1) by simp_all
  moreover have "window_around_match compact (str_len x, str_len x + str_len m) max_len =
      Some ((if u = [] then [] else lit ''...'') @ (pre @ m @ post) @ (if v = [] then [] else lit ''...''))"
  proof -
    have whole: "compact = u @ (pre @ m @ post) @ v"
      using w(2) post(1) pre by simp
    have "str_slice compact start e = Some (pre @ m @ post)"
      using str_slice_middle [of u "pre @ m @ post" v] by (simp only: whole u(1) w(1) post(1) pre) simp
    moreover have "(0 < start) = (u \<noteq> [])"
      unfolding u(1) by (metis neq0_conv str_len_0)
    moreover have "(e < str_len compact) = (v \<noteq> [])"
      unfolding w str_len_simps by (metis less_add_same_cancel1 neq0_conv str_len_0)
    ultimately show ?thesis
      unfolding window_around_match_def Let_def fst_conv snd_conv half_def [symmetric] start_def [symmetric]
        e_def [symmetric] by simp
  qed
  ultimately show ?thesis
    using pre post(2) assms unfolding half_def [symmetric]
    by (intro exI [of _ u] exI [of _ pre] exI [of _ post] exI [of _ v] conjI) simp_all
qed

section \<open>Snippets\<close>

text \<open>\<open>shows_match\<close>: the snippet is a stretch of the text around a match, marked where it is cut.\<close>

definition shows_match ::
  "(scalar \<Rightarrow> scalars) \<Rightarrow> scalars \<Rightarrow> nat \<Rightarrow> scalars \<Rightarrow> scalars \<Rightarrow> bool" where
  "shows_match lower compact max_len p snippet \<longleftrightarrow>
     (\<exists>u pre m post v. compact = u @ pre @ m @ post @ v \<and> sublist p (fold_caseless lower m) \<and>
        caseless_range lower p compact = Some (str_len (u @ pre), str_len (u @ pre @ m)) \<and>
        str_len pre \<le> max_len div 2 + 3 \<and> str_len post \<le> max_len div 2 + 3 \<and>
        snippet = (if u = [] then [] else lit ''...'') @ (pre @ m @ post) @ (if v = [] then [] else lit ''...''))"

definition snippet_of ::
  "(scalar \<Rightarrow> scalars) \<Rightarrow> scalars \<Rightarrow> nat \<Rightarrow> scalars list \<Rightarrow> scalars \<Rightarrow> bool" where
  "snippet_of lower compact max_len needles snippet \<longleftrightarrow>
     (case find (\<lambda>p. sublist p (fold_caseless lower compact)) needles of
        None \<Rightarrow> snippet = fst (shortened max_len (compacted compact))
      | Some p \<Rightarrow> shows_match lower compact max_len p snippet)"

lemma truncate_for_display_correct:
  "truncate_for_display s max_len = Some (fst (shortened max_len (compacted s)))"
  by (simp add: truncate_for_display_def truncate_for_display_with_extent_def truncation_correct)

lemma find_in_while_correct:
  assumes "usable_needle nd p" and "unicode_lower lower" and "valid_str haystack"
  obtains (stopped) m where "find_in_while lower nd haystack keep n = Some (None, m)" "stopped_at keep n m"
  | (finished) m where
      "find_in_while lower nd haystack keep n = Some (Some (caseless_range lower p haystack), m)"
      "all_kept keep n m"
      "caseless_range lower p haystack = None \<Longrightarrow>
         str_len haystack \<le> (m - n) * (cancellation_check_bytes + 3) + 3"
proof -
  obtain c m where "find_in_controlled lower nd haystack keep n = Some (c, m)"
    "case c of Break \<Rightarrow> stopped_at keep n m
     | Continue found \<Rightarrow> all_kept keep n m \<and> found = caseless_range lower p haystack \<and>
          (found = None \<longrightarrow> str_len haystack \<le> (m - n) * (cancellation_check_bytes + 3) + 3)"
    using find_in_controlled_correct [OF assms] by blast
  then show thesis
    using that by (cases c) (auto simp: find_in_while_def)
qed

lemma locate_tokens_correct:
  assumes lower: "unicode_lower lower" and val: "valid_str compact"
  shows "\<exists>r m. locate_tokens lower compact max_len keep needles n = Some (r, m) \<and>
     (case r of
        None \<Rightarrow> n < m \<and> \<not> keep (m - 1)
      | Some snippet \<Rightarrow> snippet_of lower compact max_len needles snippet)"
proof (induction needles arbitrary: n)
  case Nil
  then show ?case
    by (simp add: truncate_for_display_correct snippet_of_def)
next
  case (Cons p ps)
  obtain nd where nd: "from_lowered p = Some nd" "usable_needle nd p"
    by (rule from_lowered_usable)
  from nd(2) lower val show ?case
  proof (cases rule: find_in_while_correct [where keep = keep and n = n])
    case (stopped m)
    then show ?thesis
      using nd(1) by (simp add: stopped_at_def)
  next
    case (finished m)
    show ?thesis
    proof (cases "caseless_range lower p compact")
      case None
      obtain r k where "locate_tokens lower compact max_len keep ps m = Some (r, k)"
        "case r of None \<Rightarrow> m < k \<and> \<not> keep (k - 1)
         | Some snippet \<Rightarrow> snippet_of lower compact max_len ps snippet"
        using Cons.IH by blast
      moreover have "\<not> sublist p (fold_caseless lower compact)"
        using None caseless_range_iff by blast
      ultimately show ?thesis
        using nd(1) finished None by (auto simp: snippet_of_def all_kept_def split: option.splits)
    next
      case (Some r)
      obtain a b where ab: "r = (a, b)" by (cases r)
      obtain x m' y where x: "compact = x @ m' @ y" "a = str_len x" "b = str_len x + str_len m'"
        "sublist p (fold_caseless lower m')"
        using caseless_range_slice Some unfolding ab by blast
      obtain u pre post v where w: "compact = u @ pre @ m' @ post @ v" "x = u @ pre" "y = post @ v"
        "str_len pre \<le> max_len div 2 + 3" "str_len post \<le> max_len div 2 + 3"
        "window_around_match compact (str_len x, str_len x + str_len m') max_len =
          Some ((if u = [] then [] else lit ''...'') @ (pre @ m' @ post) @ (if v = [] then [] else lit ''...''))"
        using window_correct [OF x(1)] by blast
      have "caseless_range lower p compact = Some (str_len (u @ pre), str_len (u @ pre @ m'))"
        using Some x w(2) by (simp add: ab)
      with w x(4) have "shows_match lower compact max_len p
          ((if u = [] then [] else lit ''...'') @ (pre @ m' @ post) @ (if v = [] then [] else lit ''...''))"
        unfolding shows_match_def by blast
      moreover have "sublist p (fold_caseless lower compact)"
        using Some caseless_range_iff by blast
      ultimately show ?thesis
        using nd(1) finished(1) Some w(6) x(2,3) by (simp add: ab snippet_of_def)
    qed
  qed
qed


text \<open>A lowercasing of ASCII and of the capital I with a dot, which becomes two scalars.\<close>

definition sample_lower :: "scalar \<Rightarrow> scalars" where
  "sample_lower c = (if c = 0x130 then [0x69, 0x307] else if 65 \<le> c \<and> c \<le> 90 then [c + 32] else [c])"

lemma sample_lower: "unicode_lower sample_lower"
  by (auto simp: unicode_lower_def sample_lower_def is_ascii_def)


text \<open>
  C23: a snippet is always produced, whatever the width: it is a stretch of the whitespace-compacted
  value around the first caseless match of the query, or else of the first word of the query that
  occurs, with at most half the width and three bytes on each side and marked where it is cut; if
  nothing occurs it is the head of the value, at most the width in characters.
\<close>

theorem snippet_shows_first_match:
  assumes "unicode_lower lower" and "valid_str value"
  shows "\<exists>snippet. snippet_from_match lower value query max_len = Some snippet \<and>
    (if compacted value = [] then snippet = lit ''(no snippet available)''
     else snippet_of lower (compacted value) max_len
       (fold_caseless lower query # split_whitespace (fold_caseless lower query)) snippet)"
proof (cases "compacted value = []")
  case True
  then show ?thesis
    by (cases rule: compact_whitespace_while_cases [of "value" "\<lambda>_. True" 0])
      (simp_all add: snippet_from_match_def snippet_from_match_while_def)
next
  case False
  have val: "valid_str (compacted value)"
    using assms(2) by (simp add: compacted_squeeze valid_squeeze)
  obtain k where k: "compact_whitespace_while value (\<lambda>_. True) 0 = (Some (compacted value), k)"
    by (cases rule: compact_whitespace_while_cases [of "value" "\<lambda>_. True" 0]) auto
  obtain r m where "locate_tokens lower (compacted value) max_len (\<lambda>_. True)
      (fold_caseless lower query # split_whitespace (fold_caseless lower query)) k = Some (r, m)"
    "case r of None \<Rightarrow> k < m \<and> \<not> (\<lambda>_. True) (m - 1)
     | Some snippet \<Rightarrow> snippet_of lower (compacted value) max_len
         (fold_caseless lower query # split_whitespace (fold_caseless lower query)) snippet"
    using locate_tokens_correct [OF assms(1) val] by blast
  with k False show ?thesis
    by (cases r) (simp_all add: snippet_from_match_def snippet_from_match_while_def Let_def del: locate_tokens.simps)
qed

theorem snippet_shows_first_match_witness:
  "\<exists>snippet. snippet_from_match sample_lower (lit ''  permission   DENIED here'') (lit ''denied'') 8 = Some snippet \<and>
     snippet_of sample_lower (lit ''permission DENIED here'') 8 [lit ''denied'', lit ''denied''] snippet"
proof -
  have "valid_str (lit ''  permission   DENIED here'')"
    by (simp add: lit_def is_scalar_def)
  moreover have "compacted (lit ''  permission   DENIED here'') = lit ''permission DENIED here''"
    by (simp add: compacted_squeeze lit_def is_whitespace_def)
  moreover have "fold_caseless sample_lower (lit ''denied'') = lit ''denied''"
    by (simp add: lit_def fold_caseless_char_def sample_lower_def)
  moreover have "split_whitespace (lit ''denied'') = [lit ''denied'']"
    by (simp add: lit_def split_whitespace_def is_whitespace_def)
  moreover have "lit ''permission DENIED here'' \<noteq> []"
    by (simp add: lit_def)
  ultimately show ?thesis
    using snippet_shows_first_match [OF sample_lower, of "lit ''  permission   DENIED here''" "lit ''denied''" 8]
    by auto
qed

text \<open>
  C29: lazy truncation is eager truncation: the text with runs of whitespace replaced by one space,
  whole if it fits the cap, otherwise its first characters and the ellipsis, or without the
  ellipsis where the cap cannot afford one. It is never longer than the cap, and the flag is set
  exactly if something was dropped.
\<close>

theorem truncation_is_eager_truncation:
  "\<exists>t dropped. truncate_for_display_with_extent value max_len = Some (t, dropped) \<and>
    (t, dropped) =
      (let compact = join [32] (split_whitespace value)
       in if length compact \<le> max_len then (compact, False)
          else if 3 \<le> max_len then (take (max_len - 3) compact @ lit ''...'', True)
          else (take max_len compact, True)) \<and>
    length t \<le> max_len"
proof -
  obtain t dropped where r: "shortened max_len (compacted value) = (t, dropped)"
    by (cases "shortened max_len (compacted value)")
  then have "length t \<le> max_len"
    by (auto simp: shortened_def lit_def split: if_splits)
  with r show ?thesis
    by (auto simp: truncate_for_display_with_extent_def truncation_correct shortened_def compacted_def Let_def)
qed

end
