(* ===== verification/MatchEvidence.thy ===== *)
theory MatchEvidence
  imports DisplayText MessageSearch "HOL-Library.Product_Lexorder"
begin

text \<open>
  Match evidence of \<open>message_search.rs\<close>: where a query matches in the selected field of a message,
  the excerpt of at most the budget's characters that shows it with its markers, and the complete
  literal occurrence, all in coordinates of Unicode scalars of the field.

  The regex engine, the fuzzy matcher, the segmentation into graphemes and the JSON reader are
  parameters, collected in \<open>match_lib\<close>. \<open>None\<close> of the outermost \<open>option\<close> is a panic.
\<close>

section \<open>Ranges, markers, evidence\<close>

record field_char_range =
  field_start_char :: nat
  field_end_char_exclusive :: nat

record view_char_range =
  view_start_char :: nat
  view_end_char_exclusive :: nat

datatype match_view_markers =
  MarkCharacters "view_char_range list" (marked_total: nat) (marked_shown: nat)
| MarkBoundary nat

record match_evidence =
  ev_text :: scalars
  ev_field_start :: nat
  ev_field_total :: nat
  ev_markers :: match_view_markers

record literal_match =
  lm_text :: scalars
  lm_field_start :: nat
  lm_field_end :: nat

record ('re, 'json) match_lib =
  ml_lower :: "scalar \<Rightarrow> scalars"
  ml_regex :: "scalars \<Rightarrow> 're option"
  ml_find :: "'re \<Rightarrow> scalars \<Rightarrow> (nat \<times> nat) option"
  ml_fuzzy :: "scalars \<Rightarrow> scalars \<Rightarrow> nat list option"
  ml_ascii_units :: "scalars \<Rightarrow> bool"
  ml_graphemes :: "scalars \<Rightarrow> scalars list"
  ml_json :: "scalars \<Rightarrow> 'json option"
  ml_member :: "'json \<Rightarrow> string \<Rightarrow> 'json option"
  ml_pointer :: "'json \<Rightarrow> string \<Rightarrow> 'json option"
  ml_string :: "'json \<Rightarrow> scalars option"
  ml_to_string :: "'json \<Rightarrow> scalars option"

section \<open>The selected field\<close>

record message_hit =
  mh_session_id :: string
  mh_provider :: provider
  mh_seq :: int
  mh_role :: role
  mh_kind :: message_kind
  mh_ts :: "instant option"
  mh_tool_name :: "scalars option"
  mh_tool_call_id :: "string option"
  mh_fuzzy_score :: "nat option"
  mh_content :: scalars

definition selected_message_field_parts ::
  "('re, 'json) match_lib \<Rightarrow> message_hit \<Rightarrow> search_field \<Rightarrow> string option \<Rightarrow> scalars option" where
  "selected_message_field_parts lib hit field argument_path =
     (case field of
        FieldContent \<Rightarrow> Some (mh_content hit)
      | FieldToolName \<Rightarrow> mh_tool_name hit
      | FieldToolArgument \<Rightarrow> do {
          envelope \<leftarrow> ml_json lib (mh_content hit);
          args \<leftarrow> ml_member lib envelope ''args'';
          v \<leftarrow> (case argument_path of
                 None \<Rightarrow> Some args
               | Some pointer \<Rightarrow> if pointer = [] then Some args else ml_pointer lib args pointer);
          (case ml_string lib v of
             Some s \<Rightarrow> Some s
           | None \<Rightarrow> ml_to_string lib v)
        })"

definition selected_message_field ::
  "('re, 'json) match_lib \<Rightarrow> message_hit \<Rightarrow> message_target \<Rightarrow> scalars option" where
  "selected_message_field lib hit target =
     selected_message_field_parts lib hit (mt_field target) (mt_argument_path target)"

section \<open>Locating the matches\<close>

datatype 're prepared =
  PreparedAll
| PreparedLiteral scalars
| PreparedRegex 're
| PreparedFuzzy scalars

definition prepared_new :: "('re, 'json) match_lib \<Rightarrow> message_query \<Rightarrow> 're prepared option" where
  "prepared_new lib query =
     (case query of
        QueryAll \<Rightarrow> Some PreparedAll
      | QueryLiteral q \<Rightarrow> Some (PreparedLiteral (fold_caseless (ml_lower lib) q))
      | QueryRegex q \<Rightarrow> map_option PreparedRegex (ml_regex lib q)
      | QueryFuzzy q \<Rightarrow> Some (PreparedFuzzy q))"

definition match_view_budget_chars :: "match_view_budget \<Rightarrow> nat \<Rightarrow> field_char_range list \<Rightarrow> nat" where
  "match_view_budget_chars budget field_total_chars ranges =
     (case budget of
        MatchMaxChars max_chars \<Rightarrow> min max_chars (max field_total_chars 1)
      | MinimalSpan \<Rightarrow>
          if ranges = [] then 0
          else field_end_char_exclusive (last ranges) - field_start_char (hd ranges))"

definition literal_char_range ::
  "(scalar \<Rightarrow> scalars) \<Rightarrow> scalars \<Rightarrow> scalars \<Rightarrow> field_char_range option option" where
  "literal_char_range lower selected lowered_query = do {
     needle \<leftarrow> from_lowered lowered_query;
     (answer, n) \<leftarrow> find_in_while lower needle selected (\<lambda>_. True) 0;
     found \<leftarrow> answer;
     (case found of
        None \<Rightarrow> Some None
      | Some (a, b) \<Rightarrow> do {
          before \<leftarrow> str_to selected a;
          inside \<leftarrow> str_slice selected a b;
          Some (Some \<lparr>field_start_char = length before,
                      field_end_char_exclusive = length before + length inside\<rparr>)
        })
   }"

fun grapheme_ranges :: "nat \<Rightarrow> scalars list \<Rightarrow> field_char_range list" where
  "grapheme_ranges scalar_start [] = []"
| "grapheme_ranges scalar_start (g # gs) =
     \<lparr>field_start_char = scalar_start, field_end_char_exclusive = scalar_start + length g\<rparr>
       # grapheme_ranges (scalar_start + length g) gs"

definition scalar_ranges_by_grapheme :: "('re, 'json) match_lib \<Rightarrow> scalars \<Rightarrow> field_char_range list" where
  "scalar_ranges_by_grapheme lib selected = grapheme_ranges 0 (ml_graphemes lib selected)"

fun ascii_unit_ranges :: "nat \<Rightarrow> scalars list \<Rightarrow> field_char_range list" where
  "ascii_unit_ranges scalar_start [] = []"
| "ascii_unit_ranges scalar_start (g # gs) =
     replicate (str_len g) \<lparr>field_start_char = scalar_start, field_end_char_exclusive = scalar_start + length g\<rparr>
       @ ascii_unit_ranges (scalar_start + length g) gs"

definition scalar_ranges_by_matcher_unit :: "('re, 'json) match_lib \<Rightarrow> scalars \<Rightarrow> field_char_range list" where
  "scalar_ranges_by_matcher_unit lib selected =
     (if ml_ascii_units lib selected then ascii_unit_ranges 0 (ml_graphemes lib selected)
      else scalar_ranges_by_grapheme lib selected)"

text \<open>The list of coalesced ranges is kept reversed, its head is \<open>last_mut()\<close>.\<close>

fun coalesce_loop :: "field_char_range list \<Rightarrow> field_char_range list \<Rightarrow> field_char_range list" where
  "coalesce_loop done [] = rev done"
| "coalesce_loop [] (r # rs) = coalesce_loop [r] rs"
| "coalesce_loop (l # done) (r # rs) =
     (if field_start_char r \<le> field_end_char_exclusive l then
        coalesce_loop
          (l\<lparr>field_end_char_exclusive := max (field_end_char_exclusive l) (field_end_char_exclusive r)\<rparr> # done) rs
      else coalesce_loop (r # l # done) rs)"

definition coalesce_character_ranges :: "field_char_range list \<Rightarrow> field_char_range list" where
  "coalesce_character_ranges ranges =
     coalesce_loop [] (sort_key (\<lambda>r. (field_start_char r, field_end_char_exclusive r)) ranges)"

section \<open>The excerpt\<close>

function advance_right :: "nat list \<Rightarrow> nat \<Rightarrow> nat \<Rightarrow> nat" where
  "advance_right indices bound right =
     (if right < length indices \<and> indices ! right < bound then advance_right indices bound (right + 1)
      else right)"
  by pat_completeness auto
termination by (relation "measure (\<lambda>(indices, bound, right). length indices - right)") auto

declare advance_right.simps [simp del]

fun densest_loop ::
  "nat list \<Rightarrow> nat \<Rightarrow> nat \<Rightarrow> nat list \<Rightarrow> nat \<Rightarrow> nat \<times> nat \<Rightarrow> nat \<times> nat" where
  "densest_loop indices maximum chars [] right best = best"
| "densest_loop indices maximum chars (left # lefts) right best =
     (let right = advance_right indices (indices ! left + maximum) right;
          candidate = (right - left, min (indices ! left) (chars - maximum))
      in densest_loop indices maximum chars lefts right
           (if fst best < fst candidate \<or> fst candidate = fst best \<and> snd candidate < snd best
            then candidate else best))"

definition densest_excerpt_start :: "field_char_range list \<Rightarrow> nat \<Rightarrow> nat \<Rightarrow> nat" where
  "densest_excerpt_start ranges maximum field_total_chars =
     (let indices = concat (map (\<lambda>r. [field_start_char r..<field_end_char_exclusive r]) ranges)
      in snd (densest_loop indices maximum field_total_chars [0..<length indices] 0 (0, 0)))"

definition clip_range :: "nat \<Rightarrow> nat \<Rightarrow> field_char_range \<Rightarrow> view_char_range option" where
  "clip_range field_start field_end r =
     (let start = max (field_start_char r) field_start;
          e = min (field_end_char_exclusive r) field_end
      in if start < e
         then Some \<lparr>view_start_char = start - field_start, view_end_char_exclusive = e - field_start\<rparr>
         else None)"

definition character_evidence ::
  "scalars \<Rightarrow> nat \<Rightarrow> nat \<Rightarrow> field_char_range list \<Rightarrow> bool \<Rightarrow> match_evidence option" where
  "character_evidence selected field_total_chars maximum ranges densest_window = do {
     field_start \<leftarrow>
       (if field_total_chars \<le> maximum then Some 0
        else if densest_window then Some (densest_excerpt_start ranges maximum field_total_chars)
        else do {
          first \<leftarrow> vec_at ranges 0;
          let width = field_end_char_exclusive first - field_start_char first;
          Some (min (field_start_char first - (maximum - width) div 2) (field_total_chars - maximum))
        });
     let field_end = min (field_start + maximum) field_total_chars;
     let shown = List.map_filter (clip_range field_start field_end) ranges;
     Some \<lparr>ev_text = take (field_end - field_start) (drop field_start selected),
           ev_field_start = field_start, ev_field_total = field_total_chars,
           ev_markers = MarkCharacters shown
             (sum_list (map (\<lambda>r. field_end_char_exclusive r - field_start_char r) ranges))
             (sum_list (map (\<lambda>r. view_end_char_exclusive r - view_start_char r) shown))\<rparr>
   }"

definition boundary_evidence :: "scalars \<Rightarrow> nat \<Rightarrow> nat \<Rightarrow> nat \<Rightarrow> match_evidence" where
  "boundary_evidence selected field_total_chars maximum boundary =
     (let field_start = min (boundary - maximum div 2) (field_total_chars - maximum);
          field_end = min (field_start + maximum) field_total_chars
      in \<lparr>ev_text = take (field_end - field_start) (drop field_start selected),
          ev_field_start = field_start, ev_field_total = field_total_chars,
          ev_markers = MarkBoundary (boundary - field_start)\<rparr>)"

text \<open>\<open>PreparedMatchEvidence::build\<close>.\<close>

definition build_evidence ::
  "('re, 'json) match_lib \<Rightarrow> 're prepared \<Rightarrow> scalars \<Rightarrow> match_view_budget \<Rightarrow> match_evidence option option" where
  "build_evidence lib prepared selected match_view =
     (let total = length selected in
      case prepared of
        PreparedAll \<Rightarrow> Some None
      | PreparedLiteral lowered_query \<Rightarrow> do {
          located \<leftarrow> literal_char_range (ml_lower lib) selected lowered_query;
          (case located of
             None \<Rightarrow> Some None
           | Some r \<Rightarrow>
               map_option Some
                 (character_evidence selected total (match_view_budget_chars match_view total [r]) [r] False))
        }
      | PreparedRegex re \<Rightarrow>
          (case ml_find lib re selected of
             None \<Rightarrow> Some None
           | Some (a, b) \<Rightarrow> do {
               before \<leftarrow> str_to selected a;
               matched \<leftarrow> str_slice selected a b;
               let start = length before;
               let e = start + length matched;
               if start = e then
                 Some (Some (boundary_evidence selected total
                   (case match_view of
                      MinimalSpan \<Rightarrow> 0
                    | MatchMaxChars max_chars \<Rightarrow> min max_chars (max total 1)) start))
               else
                 let r = \<lparr>field_start_char = start, field_end_char_exclusive = e\<rparr>
                 in map_option Some
                      (character_evidence selected total (match_view_budget_chars match_view total [r]) [r] False)
             })
      | PreparedFuzzy q \<Rightarrow>
          (case ml_fuzzy lib q selected of
             None \<Rightarrow> Some None
           | Some indices \<Rightarrow>
               let units = scalar_ranges_by_matcher_unit lib selected
               in if list_all (\<lambda>i. i < length units) indices then
                    let ranges = coalesce_character_ranges (map (\<lambda>i. units ! i) indices)
                    in map_option Some
                         (character_evidence selected total (match_view_budget_chars match_view total ranges)
                            ranges True)
                  else Some None))"

section \<open>Evidence of a page of hits\<close>

datatype attach_error =
  InvalidQuery
| Inactive
| CannotProject search_field string int
| EvidenceDisagrees search_field string int
| NoCharacterRange string int

record enriched_hit =
  eh_message :: message_hit
  eh_evidence :: "match_evidence option"
  eh_literal :: "literal_match option"

definition literal_occurrence :: "scalars \<Rightarrow> match_evidence \<Rightarrow> literal_match option" where
  "literal_occurrence selected evidence =
     (case ev_markers evidence of
        MarkCharacters ranges matched_total shown \<Rightarrow>
          (case ranges of
             [] \<Rightarrow> None
           | r # rs \<Rightarrow>
               let start = ev_field_start evidence + view_start_char r;
                   e = start + matched_total
               in Some \<lparr>lm_text = take (e - start) (drop start selected),
                        lm_field_start = start, lm_field_end = e\<rparr>)
      | MarkBoundary at_char \<Rightarrow> None)"

text \<open>The body of the loop over the hits after its first poll. \<open>active n\<close> is the answer of the poll.\<close>

definition attach_one ::
  "('re, 'json) match_lib \<Rightarrow> message_query \<Rightarrow> message_target \<Rightarrow> match_view_budget \<Rightarrow> 're prepared \<Rightarrow>
     (nat \<Rightarrow> bool) \<Rightarrow> nat \<Rightarrow> message_hit \<Rightarrow> ((attach_error + enriched_hit) \<times> nat) option" where
  "attach_one lib query target match_view prepared active n hit =
     (if query = QueryAll then
        Some (Inr \<lparr>eh_message = hit, eh_evidence = None, eh_literal = None\<rparr>, n)
      else
        (case selected_message_field lib hit target of
           None \<Rightarrow> Some (Inl (CannotProject (mt_field target) (mh_session_id hit) (mh_seq hit)), n)
         | Some selected \<Rightarrow> do {
             built \<leftarrow> build_evidence lib prepared selected match_view;
             (case built of
                None \<Rightarrow> Some (Inl (EvidenceDisagrees (mt_field target) (mh_session_id hit) (mh_seq hit)), n)
              | Some evidence \<Rightarrow>
                  if \<not> active n then Some (Inl Inactive, n + 1)
                  else
                    (case query of
                       QueryLiteral q \<Rightarrow>
                         (case literal_occurrence selected evidence of
                            None \<Rightarrow> Some (Inl (NoCharacterRange (mh_session_id hit) (mh_seq hit)), n + 1)
                          | Some occurrence \<Rightarrow>
                              Some (Inr \<lparr>eh_message = hit, eh_evidence = Some evidence,
                                eh_literal = Some occurrence\<rparr>, n + 1))
                     | _ \<Rightarrow> Some (Inr \<lparr>eh_message = hit, eh_evidence = Some evidence, eh_literal = None\<rparr>, n + 1)))
           }))"

fun attach_loop ::
  "(nat \<Rightarrow> message_hit \<Rightarrow> ((attach_error + enriched_hit) \<times> nat) option) \<Rightarrow> (nat \<Rightarrow> bool) \<Rightarrow> nat \<Rightarrow>
     message_hit list \<Rightarrow> (attach_error + enriched_hit list) option" where
  "attach_loop one active n [] = Some (Inr [])"
| "attach_loop one active n (hit # hits) =
     (if \<not> active n then Some (Inl Inactive)
      else do {
        (r, n) \<leftarrow> one (n + 1) hit;
        (case r of
           Inl e \<Rightarrow> Some (Inl e)
         | Inr h \<Rightarrow> map_option (res_map ((#) h)) (attach_loop one active n hits))
      })"

definition attach_match_evidence_cancellable ::
  "('re, 'json) match_lib \<Rightarrow> message_query \<Rightarrow> message_target \<Rightarrow> match_view_budget \<Rightarrow> message_hit list \<Rightarrow>
     (nat \<Rightarrow> bool) \<Rightarrow> (attach_error + enriched_hit list) option" where
  "attach_match_evidence_cancellable lib query target match_view hits active =
     (case prepared_new lib query of
        None \<Rightarrow> Some (Inl InvalidQuery)
      | Some prepared \<Rightarrow> attach_loop (attach_one lib query target match_view prepared active) active 0 hits)"

section \<open>Spans and their positions\<close>

definition span_positions :: "(nat \<times> nat) list \<Rightarrow> nat set" where
  "span_positions xs = (\<Union>(a, b) \<in> set xs. {a..<b})"

definition spans_apart :: "(nat \<times> nat) list \<Rightarrow> bool" where
  "spans_apart xs \<longleftrightarrow> (\<forall>(a, b) \<in> set xs. a < b) \<and> sorted_wrt (\<lambda>x y. snd x \<le> fst y) xs"

definition field_spans :: "field_char_range list \<Rightarrow> (nat \<times> nat) list" where
  "field_spans rs = map (\<lambda>r. (field_start_char r, field_end_char_exclusive r)) rs"

definition view_spans :: "view_char_range list \<Rightarrow> (nat \<times> nat) list" where
  "view_spans rs = map (\<lambda>r. (view_start_char r, view_end_char_exclusive r)) rs"

lemma span_positions_simps [simp]:
  "span_positions [] = {}" "span_positions ((a, b) # xs) = {a..<b} \<union> span_positions xs"
  "span_positions (xs @ ys) = span_positions xs \<union> span_positions ys"
  "span_positions (rev xs) = span_positions xs"
  by (auto simp: span_positions_def)

lemma finite_span_positions [simp]: "finite (span_positions xs)"
  by (auto simp: span_positions_def)

lemma field_spans_simps [simp]:
  "field_spans [] = []"
  "field_spans (r # rs) = (field_start_char r, field_end_char_exclusive r) # field_spans rs"
  "field_spans (rs @ ss) = field_spans rs @ field_spans ss" "field_spans (rev rs) = rev (field_spans rs)"
  by (simp_all add: field_spans_def rev_map)

lemma view_spans_simps [simp]:
  "view_spans [] = []"
  "view_spans (r # rs) = (view_start_char r, view_end_char_exclusive r) # view_spans rs"
  by (simp_all add: view_spans_def)

lemma spans_apart_simps [simp]:
  "spans_apart []"
  "spans_apart ((a, b) # xs) \<longleftrightarrow> a < b \<and> (\<forall>y \<in> set xs. b \<le> fst y) \<and> spans_apart xs"
  by (auto simp: spans_apart_def)

lemma spans_apart_snoc:
  "spans_apart (xs @ [(a, b)]) \<longleftrightarrow> a < b \<and> (\<forall>y \<in> set xs. snd y \<le> a) \<and> spans_apart xs"
  by (induction xs) auto

lemma spans_apart_after: "\<forall>y \<in> set xs. b \<le> fst y \<Longrightarrow> x \<in> span_positions xs \<Longrightarrow> b \<le> x"
  by (force simp: span_positions_def)

lemma spans_apart_card:
  "spans_apart xs \<Longrightarrow> card (span_positions xs) = sum_list (map (\<lambda>(a, b). b - a) xs)"
proof (induction xs)
  case (Cons p xs)
  obtain a b where p: "p = (a, b)" by (cases p)
  have "{a..<b} \<inter> span_positions xs = {}"
    using Cons.prems spans_apart_after [of xs b] by (force simp: p)
  then show ?case
    using Cons by (simp add: p card_Un_disjoint)
qed simp

lemma sum_field: "sum_list (map (\<lambda>r. field_end_char_exclusive r - field_start_char r) rs) =
    sum_list (map (\<lambda>(a, b). b - a) (field_spans rs))"
  by (simp add: field_spans_def comp_def)

lemma sum_view: "sum_list (map (\<lambda>r. view_end_char_exclusive r - view_start_char r) rs) =
    sum_list (map (\<lambda>(a, b). b - a) (view_spans rs))"
  by (simp add: view_spans_def comp_def)

text \<open>Clipping to a window cuts the positions and keeps the spans apart.\<close>

lemma clip_correct:
  assumes "spans_apart (field_spans rs)"
  shows "spans_apart (view_spans (List.map_filter (clip_range s e) rs)) \<and>
    (+) s ` span_positions (view_spans (List.map_filter (clip_range s e) rs)) =
      span_positions (field_spans rs) \<inter> {s..<e} \<and>
    (\<forall>b. (\<forall>y \<in> set (field_spans rs). b \<le> fst y) \<longrightarrow>
       (\<forall>y \<in> set (view_spans (List.map_filter (clip_range s e) rs)). b - s \<le> fst y))"
  using assms
proof (induction rs)
  case Nil
  then show ?case by (simp add: map_filter_simps)
next
  case (Cons r rs)
  define a where "a = field_start_char r"
  define b where "b = field_end_char_exclusive r"
  define shown where "shown = view_spans (List.map_filter (clip_range s e) rs)"
  have IH: "spans_apart shown" "(+) s ` span_positions shown = span_positions (field_spans rs) \<inter> {s..<e}"
    "\<And>c. \<forall>y \<in> set (field_spans rs). c \<le> fst y \<Longrightarrow> \<forall>y \<in> set shown. c - s \<le> fst y"
    using Cons by (auto simp: shown_def)
  have sep: "a < b" "\<forall>y \<in> set (field_spans rs). b \<le> fst y"
    using Cons.prems by (simp_all add: a_def b_def)
  show ?case
  proof (cases "max a s < min b e")
    case True
    then have new: "view_spans (List.map_filter (clip_range s e) (r # rs)) =
        (max a s - s, min b e - s) # shown"
      by (simp add: map_filter_simps clip_range_def a_def b_def shown_def)
    have "(+) s ` {max a s - s..<min b e - s} = {a..<b} \<inter> {s..<e}"
    proof -
      have "(+) s ` {max a s - s..<min b e - s} = {max a s..<min b e}"
        using True by (simp add: image_add_atLeastLessThan)
      then show ?thesis by auto
    qed
    moreover have "\<forall>y \<in> set shown. min b e - s \<le> fst y"
      using IH(3) [OF sep(2)] by fastforce
    moreover have "max a s - s < min b e - s"
      using True by linarith
    ultimately show ?thesis
      unfolding new
      by (intro conjI allI impI)
        (use IH in \<open>simp_all add: image_Un Int_Un_distrib2 a_def [symmetric] b_def [symmetric]\<close>, fastforce)
  next
    case False
    then have new: "view_spans (List.map_filter (clip_range s e) (r # rs)) = shown"
      by (simp add: map_filter_simps clip_range_def a_def b_def shown_def)
    have empty: "{max a s..<min b e} = {}" "{a..<b} \<inter> {s..<e} = {}"
      using False by auto
    then show ?thesis
      unfolding new
      by (intro conjI allI impI)
        (use IH empty in \<open>simp_all add: Int_Un_distrib2 a_def [symmetric] b_def [symmetric]
          del: max_less_iff_conj min_less_iff_conj\<close>)
  qed
qed

lemma coalesce_loop_correct:
  assumes "spans_apart (field_spans (rev acc))" and "\<forall>r \<in> set rs. field_start_char r < field_end_char_exclusive r"
    and "sorted (map field_start_char rs)"
    and "\<forall>l \<in> set acc. \<forall>r \<in> set rs. field_start_char l \<le> field_start_char r"
  shows "spans_apart (field_spans (coalesce_loop acc rs)) \<and>
    span_positions (field_spans (coalesce_loop acc rs)) =
      span_positions (field_spans acc) \<union> span_positions (field_spans rs)"
  using assms
proof (induction acc rs rule: coalesce_loop.induct)
  case (1 acc)
  then show ?case by simp
next
  case (2 r rs)
  then show ?case by simp
next
  case (3 l acc r rs)
  show ?case
  proof (cases "field_start_char r \<le> field_end_char_exclusive l")
    case True
    define l' where
      "l' = l\<lparr>field_end_char_exclusive := max (field_end_char_exclusive l) (field_end_char_exclusive r)\<rparr>"
    have "spans_apart (field_spans (rev (l' # acc)))"
      using 3(3) by (auto simp: l'_def spans_apart_snoc less_max_iff_disj)
    moreover have "\<forall>l \<in> set (l' # acc). \<forall>r \<in> set rs. field_start_char l \<le> field_start_char r"
      using 3(6) by (auto simp: l'_def)
    ultimately have "spans_apart (field_spans (coalesce_loop (l' # acc) rs)) \<and>
      span_positions (field_spans (coalesce_loop (l' # acc) rs)) =
        span_positions (field_spans (l' # acc)) \<union> span_positions (field_spans rs)"
      using 3(1) [OF True] 3(4,5) by (simp add: l'_def [symmetric])
    moreover have "{field_start_char l'..<field_end_char_exclusive l'} =
        {field_start_char l..<field_end_char_exclusive l} \<union> {field_start_char r..<field_end_char_exclusive r}"
      using True 3(6) by (auto simp: l'_def)
    ultimately show ?thesis
      using True by (simp add: l'_def [symmetric] Un_assoc Un_left_commute)
  next
    case False
    have "spans_apart (field_spans (rev (r # l # acc)))"
    proof -
      have l: "spans_apart (field_spans (rev acc))" "\<forall>y \<in> set (field_spans acc). snd y \<le> field_start_char l"
        "field_start_char l < field_end_char_exclusive l"
        using 3(3) by (simp_all add: spans_apart_snoc)
      then have "\<forall>y \<in> set (field_spans acc). snd y \<le> field_start_char r"
        using False by fastforce
      then show ?thesis
        using l 3(4) False spans_apart_snoc [of "rev (field_spans acc) @ [(field_start_char l, field_end_char_exclusive l)]"]
        by (simp add: spans_apart_snoc)
    qed
    moreover have "\<forall>x \<in> set (r # l # acc). \<forall>y \<in> set rs. field_start_char x \<le> field_start_char y"
      using 3(5,6) by auto
    ultimately show ?thesis
      using 3(2) [OF False] 3(4,5) False by (simp add: Un_assoc Un_left_commute)
  qed
qed

lemma coalesce_correct:
  assumes "\<forall>r \<in> set rs. field_start_char r < field_end_char_exclusive r"
  shows "spans_apart (field_spans (coalesce_character_ranges rs))"
    and "span_positions (field_spans (coalesce_character_ranges rs)) = span_positions (field_spans rs)"
proof -
  define ss where "ss = sort_key (\<lambda>r. (field_start_char r, field_end_char_exclusive r)) rs"
  have "sorted (map (\<lambda>r. (field_start_char r, field_end_char_exclusive r)) ss)"
    by (simp add: ss_def)
  then have "sorted_wrt (\<lambda>x y. field_start_char x \<le> field_start_char y) ss"
    unfolding sorted_map by (rule sorted_wrt_mono_rel [rotated]) (auto simp: less_eq_prod_def)
  then have "sorted (map field_start_char ss)"
    by (simp add: sorted_map)
  moreover have "set ss = set rs"
    by (simp add: ss_def)
  moreover have "span_positions (field_spans ss) = span_positions (field_spans rs)"
    by (simp add: span_positions_def field_spans_def ss_def)
  ultimately show "spans_apart (field_spans (coalesce_character_ranges rs))"
    "span_positions (field_spans (coalesce_character_ranges rs)) = span_positions (field_spans rs)"
    using coalesce_loop_correct [of "[]" ss] assms
    by (simp_all add: coalesce_character_ranges_def ss_def [symmetric])
qed

section \<open>The densest window\<close>

lemma advance_right_correct:
  assumes "right \<le> length xs" and "\<forall>j < right. xs ! j < bound"
  shows "right \<le> advance_right xs bound right \<and> advance_right xs bound right \<le> length xs \<and>
    (\<forall>j < advance_right xs bound right. xs ! j < bound) \<and>
    (advance_right xs bound right < length xs \<longrightarrow> bound \<le> xs ! advance_right xs bound right)"
  using assms
proof (induction xs bound right rule: advance_right.induct)
  case (1 xs bound right)
  show ?case
  proof (cases "right < length xs \<and> xs ! right < bound")
    case True
    then have "advance_right xs bound right = advance_right xs bound (right + 1)"
      by (subst advance_right.simps) simp
    moreover have "\<forall>j < right + 1. xs ! j < bound"
      using True "1.prems"(2) by (auto simp: less_Suc_eq)
    ultimately show ?thesis
      using "1.IH" [OF True] True by simp
  next
    case False
    then have "advance_right xs bound right = right"
      by (subst advance_right.simps) auto
    then show ?thesis
      using "1.prems" False by auto
  qed
qed

lemma window_count:
  fixes xs :: "nat list"
  assumes "sorted_wrt (<) xs" and "left \<le> right" and "right \<le> length xs" and "left < length xs"
    and "\<forall>j < right. xs ! j < bound" and "right < length xs \<longrightarrow> bound \<le> xs ! right"
  shows "card (set xs \<inter> {xs ! left..<bound}) = right - (left :: nat)"
proof -
  have less: "xs ! i < xs ! j" if "i < j" "j < length xs" for i j
    using sorted_wrt_nth_less [OF assms(1) that] .
  have "set xs \<inter> {xs ! left..<bound} = (!) xs ` {left..<right}"
  proof (rule set_eqI, rule iffI)
    fix x assume x: "x \<in> set xs \<inter> {xs ! left..<bound}"
    then obtain i where i: "i < length xs" "xs ! i = x"
      by (auto simp: in_set_conv_nth)
    have "left \<le> i"
    proof (rule ccontr)
      assume "\<not> left \<le> i"
      with less [of i left] i x assms(4) show False by auto
    qed
    moreover have "i < right"
    proof (rule ccontr)
      assume "\<not> i < right"
      then have "right < length xs" "xs ! right \<le> xs ! i"
        using i less [of right i] by (auto simp: not_less le_less)
      with assms(6) i x show False by auto
    qed
    ultimately show "x \<in> (!) xs ` {left..<right}"
      using i by auto
  next
    fix x assume "x \<in> (!) xs ` {left..<right}"
    then obtain i where i: "left \<le> i" "i < right" "x = xs ! i"
      by auto
    then have "xs ! left \<le> x"
      using less [of left i] assms(3) by (cases "left = i") auto
    then show "x \<in> set xs \<inter> {xs ! left..<bound}"
      using i assms(3,5) by auto
  qed
  moreover have "inj_on ((!) xs) {left..<right}"
  proof (rule inj_onI)
    fix i j assume "i \<in> {left..<right}" "j \<in> {left..<right}" "xs ! i = xs ! j"
    then show "i = j"
      using less [of i j] less [of j i] assms(3) by (cases i j rule: linorder_cases) auto
  qed
  ultimately show ?thesis
    by (simp add: card_image)
qed

definition in_window :: "nat set \<Rightarrow> nat \<Rightarrow> nat \<Rightarrow> nat" where
  "in_window M start width = card (M \<inter> {start..<start + width})"

lemma in_window_mono: "M \<inter> {a..<a + w} \<subseteq> {b..<b + w} \<Longrightarrow> finite M \<Longrightarrow> in_window M a w \<le> in_window M b w"
  unfolding in_window_def by (intro card_mono) auto

lemma densest_loop_correct:
  assumes sorted: "sorted_wrt (<) xs" and bound: "\<forall>x \<in> set xs. x < chars" and fits: "maximum \<le> chars"
  shows "\<lbrakk>l \<le> length xs; right \<le> length xs; l < length xs \<Longrightarrow> \<forall>j < right. xs ! j < xs ! l + maximum;
      fst best \<le> in_window (set xs) (snd best) maximum; snd best \<le> chars - maximum;
      best' = densest_loop xs maximum chars [l..<length xs] right best\<rbrakk> \<Longrightarrow>
    fst best \<le> fst best' \<and> (\<forall>i \<in> {l..<length xs}. in_window (set xs) (xs ! i) maximum \<le> fst best') \<and>
      fst best' \<le> in_window (set xs) (snd best') maximum \<and> snd best' \<le> chars - maximum"
proof (induction "length xs - l" arbitrary: l right best)
  case 0
  then show ?case by simp
next
  case (Suc d)
  then have l: "l < length xs" by simp
  define right' where "right' = advance_right xs (xs ! l + maximum) right"
  have adv: "right' \<le> length xs" "\<forall>j < right'. xs ! j < xs ! l + maximum"
    "right' < length xs \<longrightarrow> xs ! l + maximum \<le> xs ! right'"
    using advance_right_correct [of right xs "xs ! l + maximum"] Suc.prems(2,3) l
    by (simp_all add: right'_def)
  have less: "xs ! i < xs ! j" if "i < j" "j < length xs" for i j
    using sorted_wrt_nth_less [OF sorted that] .
  have "l \<le> right'"
  proof (rule ccontr)
    assume "\<not> l \<le> right'"
    with less [of right' l] adv(3) l show False by simp
  qed
  then have count: "in_window (set xs) (xs ! l) maximum = right' - l"
    unfolding in_window_def using window_count [OF sorted _ adv(1) l adv(2,3)] by simp
  define cand where "cand = (right' - l, min (xs ! l) (chars - maximum))"
  have "in_window (set xs) (xs ! l) maximum \<le> in_window (set xs) (snd cand) maximum"
  proof (rule in_window_mono)
    show "set xs \<inter> {xs ! l..<xs ! l + maximum} \<subseteq> {snd cand..<snd cand + maximum}"
    proof
      fix x assume "x \<in> set xs \<inter> {xs ! l..<xs ! l + maximum}"
      moreover from this have "x < chars"
        using bound by simp
      ultimately show "x \<in> {snd cand..<snd cand + maximum}"
        using fits by (cases "xs ! l \<le> chars - maximum") (auto simp: cand_def)
    qed
  qed simp
  then have cand: "fst cand = in_window (set xs) (xs ! l) maximum"
    "fst cand \<le> in_window (set xs) (snd cand) maximum" "snd cand \<le> chars - maximum"
    using count by (simp_all add: cand_def)
  define b where
    "b = (if fst best < fst cand \<or> fst cand = fst best \<and> snd cand < snd best then cand else best)"
  have b: "fst best \<le> fst b" "fst cand \<le> fst b" "fst b \<le> in_window (set xs) (snd b) maximum"
    "snd b \<le> chars - maximum"
    using Suc.prems(4,5) cand by (auto simp: b_def)
  have step: "best' = densest_loop xs maximum chars [Suc l..<length xs] right' b"
    unfolding Suc.prems(6) using l by (simp add: upt_conv_Cons right'_def cand_def b_def Let_def)
  have "\<forall>j < right'. xs ! j < xs ! Suc l + maximum" if "Suc l < length xs"
    using adv(2) less [of l "Suc l"] that by (meson add_less_cancel_right lessI order.strict_trans)
  from Suc.hyps(1) [OF _ _ adv(1) this b(3,4) step] Suc.hyps(2) l
  have "fst b \<le> fst best'" "\<forall>i \<in> {Suc l..<length xs}. in_window (set xs) (xs ! i) maximum \<le> fst best'"
    "fst best' \<le> in_window (set xs) (snd best') maximum" "snd best' \<le> chars - maximum"
    by simp_all
  moreover from this have "in_window (set xs) (xs ! i) maximum \<le> fst best'" if "i \<in> {l..<length xs}" for i
    using b(2) cand(1) that by (cases "i = l") (auto simp: Suc_le_eq)
  ultimately show ?case
    using b(1) by auto
qed

lemma positions_list:
  assumes "spans_apart (field_spans rs)"
  defines "xs \<equiv> concat (map (\<lambda>r. [field_start_char r..<field_end_char_exclusive r]) rs)"
  shows "set xs = span_positions (field_spans rs)" and "sorted_wrt (<) xs"
proof -
  show "set xs = span_positions (field_spans rs)"
    unfolding xs_def by (induction rs) auto
  show "sorted_wrt (<) xs"
    using assms(1) unfolding xs_def
  proof (induction rs)
    case (Cons r rs)
    have "set (concat (map (\<lambda>r. [field_start_char r..<field_end_char_exclusive r]) rs)) =
        span_positions (field_spans rs)"
      by (induction rs) auto
    then show ?case
      using Cons spans_apart_after [of "field_spans rs" "field_end_char_exclusive r"]
      by (force simp: sorted_wrt_append)
  qed simp
qed

text \<open>The window the two pointers choose shows as many matched characters as any window of its width.\<close>

lemma densest_excerpt_start_correct:
  assumes sep: "spans_apart (field_spans rs)" and bound: "\<forall>x \<in> span_positions (field_spans rs). x < chars"
    and fits: "maximum \<le> chars"
  defines "s \<equiv> densest_excerpt_start rs maximum chars"
  shows "s \<le> chars - maximum"
    and "in_window (span_positions (field_spans rs)) w maximum \<le>
      in_window (span_positions (field_spans rs)) s maximum"
proof -
  define xs where "xs = concat (map (\<lambda>r. [field_start_char r..<field_end_char_exclusive r]) rs)"
  define M where "M = span_positions (field_spans rs)"
  have xs: "set xs = M" "sorted_wrt (<) xs"
    using positions_list [OF sep] by (simp_all add: xs_def M_def)
  define best where "best = densest_loop xs maximum chars [0..<length xs] 0 (0, 0)"
  have s: "s = snd best"
    by (simp add: s_def densest_excerpt_start_def xs_def best_def Let_def)
  have best: "\<forall>i \<in> {0..<length xs}. in_window M (xs ! i) maximum \<le> fst best"
    "fst best \<le> in_window M (snd best) maximum" "snd best \<le> chars - maximum"
    using densest_loop_correct [OF xs(2) _ fits _ _ _ _ _ best_def] bound
    by (simp_all add: xs(1) M_def [symmetric])
  show "s \<le> chars - maximum"
    using best(3) by (simp add: s)
  have "in_window M w maximum \<le> in_window M s maximum"
  proof (cases "M \<inter> {w..<w + maximum} = {}")
    case True
    then show ?thesis by (simp add: in_window_def)
  next
    case False
    define x where "x = Min (M \<inter> {w..<w + maximum})"
    have fin: "finite M" by (simp add: M_def)
    then have x: "x \<in> M \<inter> {w..<w + maximum}" "\<forall>y \<in> M \<inter> {w..<w + maximum}. x \<le> y"
      using Min_in [of "M \<inter> {w..<w + maximum}"] False by (simp_all add: x_def)
    have "M \<inter> {w..<w + maximum} \<subseteq> {x..<x + maximum}"
      using x by fastforce
    then have "in_window M w maximum \<le> in_window M x maximum"
      by (rule in_window_mono) (rule fin)
    moreover have "x \<in> set xs"
      using x(1) xs(1) by simp
    then obtain i where i: "i < length xs" "xs ! i = x"
      by (auto simp: in_set_conv_nth)
    then have "in_window M x maximum \<le> fst best"
      using best(1) by auto
    ultimately show ?thesis
      using best(2) unfolding s by linarith
  qed
  then show "in_window (span_positions (field_spans rs)) w maximum \<le>
      in_window (span_positions (field_spans rs)) s maximum"
    by (simp add: M_def)
qed

end
