(* ===== verification/EvidenceExact.thy ===== *)
theory EvidenceExact
  imports MatchEvidence
begin

text \<open>
  What match evidence states of the field: the excerpt is the slice of the field at its coordinates,
  its markers are exactly the matched characters inside it, the two counts are the numbers of
  matched characters, the budget is kept, and the literal occurrence is complete even when the
  excerpt is not. The evidence is built for every query mode, under the documented behaviour of the
  libraries.
\<close>

section \<open>What evidence says\<close>

definition evidence_ok :: "scalars \<Rightarrow> nat set \<Rightarrow> nat \<Rightarrow> match_evidence \<Rightarrow> bool" where
  "evidence_ok selected M width ev \<longleftrightarrow>
     (let s = ev_field_start ev; n = length (ev_text ev) in
      ev_field_total ev = length selected \<and> n = min width (length selected) \<and> s + n \<le> length selected \<and>
      ev_text ev = take n (drop s selected) \<and>
      (case ev_markers ev of
         MarkCharacters ranges in_field in_view \<Rightarrow>
           spans_apart (view_spans ranges) \<and>
           (+) s ` span_positions (view_spans ranges) = M \<inter> {s..<s + n} \<and>
           in_field = card M \<and> in_view = card (M \<inter> {s..<s + n})
       | MarkBoundary b \<Rightarrow> M = {} \<and> b \<le> n))"

lemma character_evidence_correct:
  assumes sep: "spans_apart (field_spans ranges)"
    and bound: "\<forall>x \<in> span_positions (field_spans ranges). x < length selected"
    and first: "densest \<or> ranges \<noteq> []"
  shows "\<exists>ev. character_evidence selected (length selected) width ranges densest = Some ev \<and>
    evidence_ok selected (span_positions (field_spans ranges)) width ev \<and>
    (width < length selected \<longrightarrow> ev_field_start ev =
      (if densest then densest_excerpt_start ranges width (length selected)
       else min (field_start_char (hd ranges) -
           (width - (field_end_char_exclusive (hd ranges) - field_start_char (hd ranges))) div 2)
         (length selected - width)))"
proof -
  define chars where "chars = length selected"
  define M where "M = span_positions (field_spans ranges)"
  define s where "s = (if chars \<le> width then 0
    else if densest then densest_excerpt_start ranges width chars
    else min (field_start_char (hd ranges) -
        (width - (field_end_char_exclusive (hd ranges) - field_start_char (hd ranges))) div 2)
      (chars - width))"
  define e where "e = min (s + width) chars"
  define shown where "shown = List.map_filter (clip_range s e) ranges"
  define ev where "ev = \<lparr>ev_text = take (e - s) (drop s selected), ev_field_start = s, ev_field_total = chars,
    ev_markers = MarkCharacters shown
      (sum_list (map (\<lambda>r. field_end_char_exclusive r - field_start_char r) ranges))
      (sum_list (map (\<lambda>r. view_end_char_exclusive r - view_start_char r) shown))\<rparr>"
  have s: "s + min width chars \<le> chars" "e = s + min width chars"
    using densest_excerpt_start_correct(1) [OF sep, of chars width] bound
    by (auto simp: s_def e_def chars_def)
  have "character_evidence selected chars width ranges densest = Some ev"
  proof -
    consider "chars \<le> width" | "\<not> chars \<le> width" "densest" | "\<not> chars \<le> width" "\<not> densest" by blast
    then show ?thesis
    proof cases
      case 3
      then have "vec_at ranges 0 = Some (hd ranges)"
        using first by (simp add: hd_conv_nth)
      with 3 show ?thesis
        unfolding character_evidence_def ev_def shown_def e_def s_def by (simp del: vec_at_Some add: Let_def)
    qed (simp_all add: character_evidence_def ev_def shown_def e_def s_def Let_def)
  qed
  moreover have "evidence_ok selected M width ev"
  proof -
    have cut_len: "length (ev_text ev) = min width chars"
      using s by (simp add: ev_def chars_def)
    have clip: "spans_apart (view_spans shown)" "(+) s ` span_positions (view_spans shown) = M \<inter> {s..<e}"
      using clip_correct [OF sep, of s e] by (simp_all add: shown_def M_def)
    have "card (M \<inter> {s..<e}) = card (span_positions (view_spans shown))"
      unfolding clip(2) [symmetric] by (rule card_image) simp
    moreover have "take (min width chars) (drop s selected) = ev_text ev"
      using s by (simp add: ev_def)
    ultimately show ?thesis
      using clip s cut_len spans_apart_card [OF sep] spans_apart_card [OF clip(1)]
      by (simp add: evidence_ok_def Let_def ev_def chars_def [symmetric] sum_field sum_view M_def [symmetric])
  qed
  ultimately show ?thesis
    by (intro exI [of _ ev]) (auto simp: ev_def s_def chars_def [symmetric] M_def [symmetric])
qed


section \<open>Matched positions\<close>

text \<open>The characters of a field that lie in a byte range.\<close>

definition chars_in :: "scalars \<Rightarrow> nat \<times> nat \<Rightarrow> nat set" where
  "chars_in s r = {i. i < length s \<and> fst r \<le> char_offset s i \<and> char_offset s (Suc i) \<le> snd r}"

definition matched_positions :: "('re, 'json) match_lib \<Rightarrow> 're prepared \<Rightarrow> scalars \<Rightarrow> nat set" where
  "matched_positions lib prepared s =
     (case prepared of
        PreparedAll \<Rightarrow> {}
      | PreparedLiteral p \<Rightarrow> (case caseless_range (ml_lower lib) p s of Some r \<Rightarrow> chars_in s r | None \<Rightarrow> {})
      | PreparedRegex re \<Rightarrow> (case ml_find lib re s of Some r \<Rightarrow> chars_in s r | None \<Rightarrow> {})
      | PreparedFuzzy q \<Rightarrow>
          (case ml_fuzzy lib q s of
             Some indices \<Rightarrow>
               span_positions (field_spans (map (\<lambda>i. scalar_ranges_by_matcher_unit lib s ! i) indices))
           | None \<Rightarrow> {}))"

text \<open>
  The documented behaviour of the libraries: a match of the regex engine is a slice of the text, and
  the graphemes of a text are nonempty and partition it.
\<close>

definition match_lib_ok :: "('re, 'json) match_lib \<Rightarrow> bool" where
  "match_lib_ok lib \<longleftrightarrow> unicode_lower (ml_lower lib) \<and>
     (\<forall>re s a b. ml_find lib re s = Some (a, b) \<longrightarrow>
        (\<exists>u m v. s = u @ m @ v \<and> a = str_len u \<and> b = str_len u + str_len m)) \<and>
     (\<forall>s. concat (ml_graphemes lib s) = s \<and> [] \<notin> set (ml_graphemes lib s))"

lemma str_len_take_le: "str_len (take i s) \<le> str_len (take j s)" if "i \<le> j"
proof -
  have "take j s = take i s @ drop i (take j s)"
    using append_take_drop_id [of i "take j s"] that by (simp add: min_absorb1)
  then show ?thesis
    using str_len_simps(3) [of "take i s" "drop i (take j s)"] by simp
qed

lemma str_len_take_less: "i < j \<Longrightarrow> i < length s \<Longrightarrow> str_len (take i s) < str_len (take j s)"
  using str_len_take_le [of "Suc i" j s] by (simp add: take_Suc_conv_app_nth) 
    (metis add_le_imp_le_right add_less_same_cancel1 len_utf8_pos less_add_same_cancel1 order.strict_trans2)

lemma chars_in_slice: "chars_in (u @ m @ v) (str_len u, str_len u + str_len m) = {length u..<length u + length m}"
proof -
  define s where "s = u @ m @ v"
  have u: "(str_len u, str_len u + str_len m) = (char_offset s (length u), char_offset s (length u + length m))"
    by (simp_all add: s_def char_offset_def)
  have mono: "char_offset s i \<le> char_offset s j \<longleftrightarrow> i \<le> j" if "i \<le> length s" "j \<le> length s" for i j
    using str_len_take_le [of i j s] str_len_take_less [of j i s] that
    by (auto simp: char_offset_def not_le [symmetric])
  show ?thesis
    unfolding s_def [symmetric] u unfolding chars_in_def fst_conv snd_conv
  proof (rule set_eqI)
    fix i
    have "length u + length m \<le> length s"
      by (simp add: s_def)
    then show "i \<in> {i. i < length s \<and> char_offset s (length u) \<le> char_offset s i \<and>
        char_offset s (Suc i) \<le> char_offset s (length u + length m)} \<longleftrightarrow>
        i \<in> {length u..<length u + length m}"
      using mono [of "length u" i] mono [of "Suc i" "length u + length m"] by auto
  qed
qed

lemma grapheme_ranges_correct:
  "[] \<notin> set gs \<Longrightarrow>
   (\<forall>r \<in> set (grapheme_ranges b gs). b \<le> field_start_char r \<and> field_start_char r < field_end_char_exclusive r \<and>
      field_end_char_exclusive r \<le> b + length (concat gs)) \<and>
   (\<forall>r \<in> set (ascii_unit_ranges b gs). b \<le> field_start_char r \<and> field_start_char r < field_end_char_exclusive r \<and>
      field_end_char_exclusive r \<le> b + length (concat gs))"
proof (induction gs arbitrary: b)
  case (Cons g gs)
  then show ?case
    using Cons.IH [of "b + length g"] by fastforce
qed simp

lemma literal_char_range_correct:
  assumes "unicode_lower lower" and "valid_str selected"
  shows "\<exists>r. literal_char_range lower selected p = Some r \<and>
    (case r of
       None \<Rightarrow> caseless_range lower p selected = None
     | Some r \<Rightarrow> \<exists>u m v. selected = u @ m @ v \<and>
         caseless_range lower p selected = Some (str_len u, str_len u + str_len m) \<and>
         sublist p (fold_caseless lower m) \<and>
         r = \<lparr>field_start_char = length u, field_end_char_exclusive = length u + length m\<rparr>)"
proof -
  obtain nd where nd: "from_lowered p = Some nd" "usable_needle nd p"
    by (rule from_lowered_usable)
  obtain m where find: "find_in_while lower nd selected (\<lambda>_. True) 0 = Some (Some (caseless_range lower p selected), m)"
    using nd(2) assms by (cases rule: find_in_while_correct [where keep = "\<lambda>_. True" and n = 0])
      (auto simp: stopped_at_def)
  show ?thesis
  proof (cases "caseless_range lower p selected")
    case None
    then show ?thesis
      using nd(1) find by (simp add: literal_char_range_def)
  next
    case (Some r)
    obtain a b where r: "r = (a, b)" by (cases r)
    obtain u m' v where u: "selected = u @ m' @ v" "a = str_len u" "b = str_len u + str_len m'"
      "sublist p (fold_caseless lower m')"
      using caseless_range_slice Some unfolding r by blast
    have "str_to selected a = Some u" "str_slice selected a b = Some m'"
      using u by simp_all
    then show ?thesis
      using nd(1) find Some u by (auto simp: literal_char_range_def r)
  qed
qed

section \<open>The built evidence\<close>




text \<open>Ranges of one nonempty slice.\<close>

lemma one_range:
  assumes "selected = u @ m @ v" and "m \<noteq> []"
  defines "r \<equiv> \<lparr>field_start_char = length u, field_end_char_exclusive = length u + length m\<rparr>"
  shows "spans_apart (field_spans [r])" and "\<forall>x \<in> span_positions (field_spans [r]). x < length selected"
    and "span_positions (field_spans [r]) = chars_in selected (str_len u, str_len u + str_len m)"
  using assms by (simp_all add: r_def chars_in_slice)

lemma fuzzy_ranges:
  assumes "match_lib_ok lib" and "list_all (\<lambda>i. i < length (scalar_ranges_by_matcher_unit lib s)) indices"
  defines "rs \<equiv> map (\<lambda>i. scalar_ranges_by_matcher_unit lib s ! i) indices"
  shows "\<forall>r \<in> set rs. field_start_char r < field_end_char_exclusive r \<and> field_end_char_exclusive r \<le> length s"
proof
  fix r assume "r \<in> set rs"
  then have "r \<in> set (scalar_ranges_by_matcher_unit lib s)"
    using assms(2) by (auto simp: rs_def list_all_iff)
  moreover have "concat (ml_graphemes lib s) = s" "[] \<notin> set (ml_graphemes lib s)"
    using assms(1) by (simp_all add: match_lib_ok_def)
  ultimately show "field_start_char r < field_end_char_exclusive r \<and> field_end_char_exclusive r \<le> length s"
    using grapheme_ranges_correct [of "ml_graphemes lib s" 0]
    by (auto simp: scalar_ranges_by_matcher_unit_def scalar_ranges_by_grapheme_def split: if_splits)
qed


section \<open>Evidence of a page\<close>

lemma fold_caseless_nonempty: "unicode_lower lower \<Longrightarrow> fold_caseless lower q = [] \<longleftrightarrow> q = []"
  by (cases q) (auto simp: unicode_lower_def fold_caseless_char_def)




text \<open>
  A library for the witnesses: a regex is the text it matches, the fuzzy matcher marks every
  character of the query, every scalar is a grapheme and no text is JSON.
\<close>

definition sample_lib :: "(scalars, unit) match_lib" where
  "sample_lib = \<lparr>
     ml_lower = sample_lower, ml_regex = Some, ml_find = caseless_range (\<lambda>c. [c]),
     ml_fuzzy = (\<lambda>q s. Some (filter (\<lambda>i. s ! i \<in> set q) [0..<length s])),
     ml_ascii_units = (\<lambda>_. False), ml_graphemes = map (\<lambda>c. [c]),
     ml_json = (\<lambda>_. None), ml_member = (\<lambda>_ _. None), ml_pointer = (\<lambda>_ _. None),
     ml_string = (\<lambda>_. None), ml_to_string = (\<lambda>_. None)\<rparr>"

lemma sample_lib_ok: "match_lib_ok sample_lib"
proof -
  have "concat (map (\<lambda>c. [c]) s) = s" for s :: scalars
    by (induction s) simp_all
  moreover have "\<exists>u m v. s = u @ m @ v \<and> a = str_len u \<and> b = str_len u + str_len m"
    if "caseless_range (\<lambda>c. [c]) re s = Some (a, b)" for re s a b
    using that by (rule caseless_range_slice) blast
  ultimately show ?thesis
    using sample_lower by (auto simp: match_lib_ok_def sample_lib_def)
qed

definition sample_hit :: message_hit where
  "sample_hit = \<lparr>mh_session_id = ''s'', mh_provider = Codex, mh_seq = 3, mh_role = RoleUser, mh_kind = KindConversation,
     mh_ts = None, mh_tool_name = None, mh_tool_call_id = None, mh_fuzzy_score = None,
     mh_content = [0x78, 0x44, 0x45, 0x4E, 0x79]\<rparr>"

lemma sample_field:
  "selected_message_field sample_lib sample_hit target_content = Some [0x78, 0x44, 0x45, 0x4E, 0x79]"
  by (simp add: selected_message_field_def selected_message_field_parts_def target_content_def sample_hit_def)

lemma sample_valid: "valid_str [0x78, 0x44, 0x45, 0x4E, 0x79]"
  by (simp add: is_scalar_def)



text \<open>
  C19: in literal mode a hit whose field, folded, holds the folded query always gets evidence, with
  the complete first occurrence: its text is the slice of the field at its coordinates, of which the
  folding holds the query, whatever part of it the excerpt shows. A field that does not hold the
  query is reported as a disagreement.
\<close>

theorem literal_occurrence_is_exact:
  assumes "match_lib_ok lib" and "q \<noteq> []" and "view \<noteq> MatchMaxChars 0"
    and "selected_message_field lib hit target = Some selected" and "valid_str selected"
    and "prepared_new lib (QueryLiteral q) = Some prepared" and "active n"
  shows "if sublist (fold_caseless (ml_lower lib) q) (fold_caseless (ml_lower lib) selected)
    then \<exists>h u m v. attach_one lib (QueryLiteral q) target view prepared active n hit = Some (Inr h, n + 1) \<and>
      selected = u @ m @ v \<and> sublist (fold_caseless (ml_lower lib) q) (fold_caseless (ml_lower lib) m) \<and>
      caseless_range (ml_lower lib) (fold_caseless (ml_lower lib) q) selected =
        Some (str_len u, str_len u + str_len m) \<and>
      eh_literal h = Some \<lparr>lm_text = m, lm_field_start = length u, lm_field_end = length u + length m\<rparr>
    else attach_one lib (QueryLiteral q) target view prepared active n hit =
      Some (Inl (EvidenceDisagrees (mt_field target) (mh_session_id hit) (mh_seq hit)), n)"
proof -
  define p where "p = fold_caseless (ml_lower lib) q"
  have lower: "unicode_lower (ml_lower lib)"
    using assms(1) by (simp add: match_lib_ok_def)
  have prep: "prepared = PreparedLiteral p"
    using assms(6) by (simp add: prepared_new_def p_def)
  have "p \<noteq> []"
    using assms(2) fold_caseless_nonempty [OF lower] by (simp add: p_def)
  obtain r where r: "literal_char_range (ml_lower lib) selected p = Some r"
    "case r of
       None \<Rightarrow> caseless_range (ml_lower lib) p selected = None
     | Some r \<Rightarrow> \<exists>u m v. selected = u @ m @ v \<and>
         caseless_range (ml_lower lib) p selected = Some (str_len u, str_len u + str_len m) \<and>
         sublist p (fold_caseless (ml_lower lib) m) \<and>
         r = \<lparr>field_start_char = length u, field_end_char_exclusive = length u + length m\<rparr>"
    using literal_char_range_correct [OF lower assms(5)] by blast
  show ?thesis
  proof (cases r)
    case None
    then have "\<not> sublist p (fold_caseless (ml_lower lib) selected)"
      using r(2) caseless_range_iff [of "ml_lower lib" p selected] by simp
    then show ?thesis
      using None r(1) assms(4) by (simp add: attach_one_def build_evidence_def prep Let_def p_def)
  next
    case (Some fr)
    with r(2) obtain u m v where u: "selected = u @ m @ v"
      "caseless_range (ml_lower lib) p selected = Some (str_len u, str_len u + str_len m)"
      "sublist p (fold_caseless (ml_lower lib) m)"
      "fr = \<lparr>field_start_char = length u, field_end_char_exclusive = length u + length m\<rparr>"
      by auto
    have "m \<noteq> []"
      using u(3) \<open>p \<noteq> []\<close> by auto
    note one = one_range [OF u(1) this, folded u(4)]
    define width where "width = match_view_budget_chars view (length selected) [fr]"
    have "0 < length m"
      using \<open>m \<noteq> []\<close> by simp
    then have wpos: "0 < width"
      using assms(3) by (cases view) (auto simp: width_def match_view_budget_chars_def u(4))
    obtain ev where ev: "character_evidence selected (length selected) width [fr] False = Some ev"
      "width < length selected \<longrightarrow>
         ev_field_start ev = min (length u - (width - length m) div 2) (length selected - width)"
      using character_evidence_correct [OF one(1,2), of False width] by (auto simp: u(4))
    define s where "s = (if length selected \<le> width then 0
      else min (length u - (width - length m) div 2) (length selected - width))"
    define e where "e = min (s + width) (length selected)"
    have ev_eq: "ev = \<lparr>ev_text = take (e - s) (drop s selected), ev_field_start = s,
        ev_field_total = length selected,
        ev_markers = MarkCharacters (List.map_filter (clip_range s e) [fr]) (length m)
          (sum_list (map (\<lambda>r. view_end_char_exclusive r - view_start_char r) (List.map_filter (clip_range s e) [fr])))\<rparr>"
      using ev(1) by (auto simp: character_evidence_def s_def e_def Let_def u(4) vec_at_def)
    have "s \<le> length u"
      by (simp add: s_def min.coboundedI1)
    moreover have "length u < e"
    proof -
      have lt: "length u < length selected"
        using \<open>m \<noteq> []\<close> by (simp add: u(1))
      have "length u < s + width"
      proof (cases "length selected \<le> width")
        case True
        then show ?thesis using lt by (simp add: s_def)
      next
        case False
        moreover have "length u < length selected - width + width"
          using False lt by simp
        moreover have "length u < length u - (width - length m) div 2 + width"
          using wpos by linarith
        ultimately show ?thesis by (simp add: s_def min_def)
      qed
      then show ?thesis using lt by (simp add: e_def)
    qed
    ultimately have "List.map_filter (clip_range s e) [fr] =
        [\<lparr>view_start_char = length u - s, view_end_char_exclusive = min (length u + length m) e - s\<rparr>]"
      using \<open>0 < length m\<close> by (simp add: map_filter_simps clip_range_def Let_def u(4) max_def)
    then have "literal_occurrence selected ev =
        Some \<lparr>lm_text = m, lm_field_start = length u, lm_field_end = length u + length m\<rparr>"
      using \<open>s \<le> length u\<close> unfolding ev_eq by (simp add: literal_occurrence_def Let_def u(1))
    moreover have "build_evidence lib prepared selected view = Some (Some ev)"
      using r(1) Some ev(1) by (simp add: build_evidence_def prep Let_def width_def)
    moreover have "sublist p (fold_caseless (ml_lower lib) selected)"
      using u(2) caseless_range_iff [of "ml_lower lib" p selected] by simp
    ultimately have one': "attach_one lib (QueryLiteral q) target view prepared active n hit =
        Some (Inr \<lparr>eh_message = hit, eh_evidence = Some ev, eh_literal =
          Some \<lparr>lm_text = m, lm_field_start = length u, lm_field_end = length u + length m\<rparr>\<rparr>, n + 1)"
      and sub: "sublist p (fold_caseless (ml_lower lib) selected)"
      using assms(4,7) by (simp_all add: attach_one_def)
    show ?thesis
      unfolding p_def [symmetric] if_P [OF sub]
      by (intro exI conjI, rule one', rule u(1), rule u(3), rule u(2)) simp
  qed
qed

theorem literal_occurrence_is_exact_witness:
  "\<exists>prepared h u m v. attach_one sample_lib (QueryLiteral [0x64, 0x65]) target_content MinimalSpan prepared
      (\<lambda>_. True) 0 sample_hit = Some (Inr h, 1) \<and>
     [0x78, 0x44, 0x45, 0x4E, 0x79] = u @ m @ v \<and>
     sublist [0x64, 0x65] (fold_caseless sample_lower m) \<and>
     eh_literal h = Some \<lparr>lm_text = m, lm_field_start = length u, lm_field_end = length u + length m\<rparr>"
proof -
  define prepared :: "scalars prepared" where
    "prepared = PreparedLiteral (fold_caseless (ml_lower sample_lib) [0x64, 0x65])"
  have p: "prepared_new sample_lib (QueryLiteral [0x64, 0x65]) = Some prepared"
    by (simp add: prepared_new_def prepared_def)
  have low: "ml_lower sample_lib = sample_lower"
    by (simp add: sample_lib_def)
  have folded: "fold_caseless sample_lower [0x64, 0x65] = [0x64, 0x65]"
    "fold_caseless sample_lower [0x78, 0x44, 0x45, 0x4E, 0x79] = [0x78, 0x64, 0x65, 0x6E, 0x79]"
    by (simp_all add: fold_caseless_char_def sample_lower_def)
  have sub: "sublist [0x64, 0x65 :: scalar] [0x78, 0x64, 0x65, 0x6E, 0x79]"
    by (simp add: sublist_Cons_right)
  have "if sublist [0x64, 0x65 :: scalar] [0x78, 0x64, 0x65, 0x6E, 0x79]
    then \<exists>h u m v. attach_one sample_lib (QueryLiteral [0x64, 0x65]) target_content MinimalSpan prepared
        (\<lambda>_. True) 0 sample_hit = Some (Inr h, 0 + 1) \<and>
      [0x78, 0x44, 0x45, 0x4E, 0x79] = u @ m @ v \<and> sublist [0x64, 0x65] (fold_caseless sample_lower m) \<and>
      caseless_range sample_lower [0x64, 0x65] [0x78, 0x44, 0x45, 0x4E, 0x79] =
        Some (str_len u, str_len u + str_len m) \<and>
      eh_literal h = Some \<lparr>lm_text = m, lm_field_start = length u, lm_field_end = length u + length m\<rparr>
    else attach_one sample_lib (QueryLiteral [0x64, 0x65]) target_content MinimalSpan prepared
        (\<lambda>_. True) 0 sample_hit =
      Some (Inl (EvidenceDisagrees (mt_field target_content) (mh_session_id sample_hit) (mh_seq sample_hit)), 0)"
    by (rule literal_occurrence_is_exact [OF sample_lib_ok _ _ sample_field sample_valid p,
      of MinimalSpan "\<lambda>_. True" 0, unfolded low folded]) simp_all
  with sub obtain h u m v where "attach_one sample_lib (QueryLiteral [0x64, 0x65]) target_content MinimalSpan
      prepared (\<lambda>_. True) 0 sample_hit = Some (Inr h, 0 + 1)"
    "[0x78, 0x44, 0x45, 0x4E, 0x79] = u @ m @ v" "sublist [0x64, 0x65] (fold_caseless sample_lower m)"
    "eh_literal h = Some \<lparr>lm_text = m, lm_field_start = length u, lm_field_end = length u + length m\<rparr>"
    unfolding if_P [OF sub] by blast
  then show ?thesis
    unfolding add_0 by blast
qed

text \<open>
  C20: the excerpt of a fuzzy match is a densest one: no window of the excerpt's width over the field
  holds more of the matched characters than the excerpt shows, and the two pointers find it in one
  pass.
\<close>

theorem fuzzy_excerpt_is_densest:
  assumes "match_lib_ok lib" and "valid_str selected"
    and "build_evidence lib (PreparedFuzzy q) selected view = Some (Some ev)"
  shows "card (matched_positions lib (PreparedFuzzy q) selected \<inter> {w..<w + length (ev_text ev)}) \<le>
    marked_shown (ev_markers ev)"
proof -
  obtain indices where ix: "ml_fuzzy lib q selected = Some indices"
    using assms(3) by (cases "ml_fuzzy lib q selected") (simp_all add: build_evidence_def)
  define units where "units = scalar_ranges_by_matcher_unit lib selected"
  define rs where "rs = map (\<lambda>i. units ! i) indices"
  define cs where "cs = coalesce_character_ranges rs"
  define width where "width = match_view_budget_chars view (length selected) cs"
  have ok: "list_all (\<lambda>i. i < length units) indices"
    using assms(3) ix by (simp add: build_evidence_def units_def Let_def split: if_splits)
  have ce: "character_evidence selected (length selected) width cs True = Some ev"
    using assms(3) ix ok
    by (simp add: build_evidence_def units_def [symmetric] rs_def [symmetric] cs_def [symmetric] width_def Let_def)
  have rs: "\<forall>r \<in> set rs. field_start_char r < field_end_char_exclusive r \<and>
      field_end_char_exclusive r \<le> length selected"
    using fuzzy_ranges [OF assms(1), of selected indices] ok by (simp add: rs_def units_def)
  have cs: "spans_apart (field_spans cs)" "span_positions (field_spans cs) = span_positions (field_spans rs)"
    using coalesce_correct [of rs] rs by (auto simp: cs_def)
  have bound: "\<forall>x \<in> span_positions (field_spans cs). x < length selected"
    using rs unfolding cs(2) by (force simp: span_positions_def field_spans_def)
  define M where "M = span_positions (field_spans cs)"
  have M: "matched_positions lib (PreparedFuzzy q) selected = M"
    using ix cs(2) by (simp add: matched_positions_def rs_def units_def M_def)
  have ev: "evidence_ok selected M width ev"
    "width < length selected \<longrightarrow> ev_field_start ev = densest_excerpt_start cs width (length selected)"
    using character_evidence_correct [OF cs(1) bound, of True width] ce by (auto simp: M_def)
  have n: "length (ev_text ev) = min width (length selected)"
    "marked_shown (ev_markers ev) =
       card (M \<inter> {ev_field_start ev..<ev_field_start ev + length (ev_text ev)})"
    using ev(1) ce by (auto simp: evidence_ok_def Let_def character_evidence_def split: Option.bind_split_asm)
  have "card (M \<inter> {w..<w + length (ev_text ev)}) \<le>
      card (M \<inter> {ev_field_start ev..<ev_field_start ev + length (ev_text ev)})"
  proof (cases "width < length selected")
    case True
    then have "in_window M w width \<le> in_window M (ev_field_start ev) width"
      using densest_excerpt_start_correct(2) [OF cs(1) bound, of width w] ev(2) by (simp add: M_def)
    then show ?thesis
      using True n(1) by (simp add: in_window_def)
  next
    case False
    then have "M \<inter> {ev_field_start ev..<ev_field_start ev + length (ev_text ev)} = M"
      using ev(1) bound n(1) by (auto simp: evidence_ok_def Let_def M_def)
    then show ?thesis
      by (simp only:) (rule card_mono, simp_all add: M_def)
  qed
  then show ?thesis
    unfolding M n(2) .
qed

theorem fuzzy_excerpt_is_densest_witness:
  "\<exists>ev. build_evidence sample_lib (PreparedFuzzy [0x44, 0x4E]) [0x78, 0x44, 0x45, 0x4E, 0x79] (MatchMaxChars 3) =
       Some (Some ev) \<and>
     card (matched_positions sample_lib (PreparedFuzzy [0x44, 0x4E]) [0x78, 0x44, 0x45, 0x4E, 0x79] \<inter>
       {1..<1 + length (ev_text ev)}) \<le> marked_shown (ev_markers ev) \<and>
     ev_text ev = [0x44, 0x45, 0x4E]"
proof -
  define rs :: "field_char_range list" where
    "rs = [\<lparr>field_start_char = 1, field_end_char_exclusive = 2\<rparr>, \<lparr>field_start_char = 3, field_end_char_exclusive = 4\<rparr>]"
  have units: "scalar_ranges_by_matcher_unit sample_lib [0x78, 0x44, 0x45, 0x4E, 0x79] =
      [\<lparr>field_start_char = 0, field_end_char_exclusive = 1\<rparr>, \<lparr>field_start_char = 1, field_end_char_exclusive = 2\<rparr>,
       \<lparr>field_start_char = 2, field_end_char_exclusive = 3\<rparr>, \<lparr>field_start_char = 3, field_end_char_exclusive = 4\<rparr>,
       \<lparr>field_start_char = 4, field_end_char_exclusive = 5\<rparr>]"
    by (simp add: sample_lib_def scalar_ranges_by_matcher_unit_def scalar_ranges_by_grapheme_def)
  have indices: "ml_fuzzy sample_lib [0x44, 0x4E] [0x78, 0x44, 0x45, 0x4E, 0x79] = Some [1, 3]"
    by (simp add: sample_lib_def upt_conv_Cons)
  have co: "coalesce_character_ranges rs = rs"
    by (simp add: coalesce_character_ranges_def rs_def less_eq_prod_def)
  have start: "densest_excerpt_start rs 3 5 = 1"
    by (simp add: densest_excerpt_start_def rs_def upt_conv_Cons advance_right.simps Let_def)
  have len: "length [0x78, 0x44, 0x45, 0x4E, 0x79 :: scalar] = 5"
    by simp
  have width: "match_view_budget_chars (MatchMaxChars 3) 5 rs = 3"
    by (simp add: match_view_budget_chars_def)
  obtain ev where ce: "character_evidence [0x78, 0x44, 0x45, 0x4E, 0x79] 5 3 rs True = Some ev"
    "ev_text ev = [0x44, 0x45, 0x4E]"
    by (simp add: character_evidence_def start Let_def)
  have picked: "map (\<lambda>i. scalar_ranges_by_matcher_unit sample_lib [0x78, 0x44, 0x45, 0x4E, 0x79] ! i) [1, 3] = rs"
    by (simp add: units rs_def)
  have inside: "list_all (\<lambda>i. i < length (scalar_ranges_by_matcher_unit sample_lib
      [0x78, 0x44, 0x45, 0x4E, 0x79])) [1, 3]"
    by (simp add: units)
  have ev: "build_evidence sample_lib (PreparedFuzzy [0x44, 0x4E]) [0x78, 0x44, 0x45, 0x4E, 0x79]
      (MatchMaxChars 3) = Some (Some ev)" "ev_text ev = [0x44, 0x45, 0x4E]"
    unfolding build_evidence_def prepared.case Let_def indices option.case if_P [OF inside] picked co len width ce(1)
    using ce(2) by simp_all
  from fuzzy_excerpt_is_densest [OF sample_lib_ok sample_valid ev(1), of 1] ev show ?thesis
    by blast
qed

end
