(* ===== verification/FieldViews.thy ===== *)
theory FieldViews
  imports EvidenceExact
begin

text \<open>
  The views of a selected field that \<open>message_search.rs\<close> returns: the field after line selection and
  character budget, the excerpt of the evidence as a view, and the two views of a classified
  message. A view names the half-open range of the field it shows, whether there is more text on
  either side, and the length of the field where it was counted.
\<close>

section \<open>Views\<close>

datatype additional_field_text = ExtraNone | ExtraBefore | ExtraAfter | ExtraBeforeAndAfter

fun additional_text :: "bool \<Rightarrow> bool \<Rightarrow> additional_field_text" where
  "additional_text False False = ExtraNone"
| "additional_text False True = ExtraAfter"
| "additional_text True False = ExtraBefore"
| "additional_text True True = ExtraBeforeAndAfter"

record field_view =
  fv_text :: scalars
  fv_start :: nat
  fv_end :: nat
  fv_markers :: "view_char_range list"
  fv_extra :: additional_field_text
  fv_total :: "nat option"

definition evidence_field_view :: "match_evidence \<Rightarrow> field_view" where
  "evidence_field_view evidence =
     (let markers = (case ev_markers evidence of
            MarkCharacters ranges in_field in_view \<Rightarrow> ranges
          | MarkBoundary b \<Rightarrow> [\<lparr>view_start_char = b, view_end_char_exclusive = b\<rparr>]);
          returned = length (ev_text evidence)
      in \<lparr>fv_text = ev_text evidence, fv_start = ev_field_start evidence,
          fv_end = ev_field_start evidence + returned, fv_markers = markers,
          fv_extra = additional_text (0 < ev_field_start evidence)
            (ev_field_start evidence + returned < ev_field_total evidence),
          fv_total = Some (ev_field_total evidence)\<rparr>)"

text \<open>\<open>str::rfind\<close>: the byte offset of the last occurrence.\<close>

definition str_rfind :: "scalars \<Rightarrow> scalars \<Rightarrow> nat option" where
  "str_rfind s p =
     map_option (\<lambda>i. str_len (take i s))
       (find (\<lambda>i. take (length p) (drop i s) = p) (rev [0..<Suc (length s)]))"

definition line_start_of :: "scalars \<Rightarrow> scalars \<Rightarrow> line_window \<Rightarrow> nat option \<Rightarrow> nat option" where
  "line_start_of original line_selected lines known =
     (case lines of
        LinesTail n \<Rightarrow>
          let selected_chars = length line_selected
          in (case known of
                Some chars \<Rightarrow> Some (chars - selected_chars)
              | None \<Rightarrow>
                  (case str_rfind original line_selected of
                     Some byte \<Rightarrow> map_option length (str_to original byte)
                   | None \<Rightarrow> Some (length original - selected_chars)))
      | _ \<Rightarrow> Some 0)"

definition is_tail :: "line_window \<Rightarrow> bool" where
  "is_tail lines = (case lines of LinesTail n \<Rightarrow> True | _ \<Rightarrow> False)"

definition is_head :: "line_window \<Rightarrow> bool" where
  "is_head lines = (case lines of LinesHead n \<Rightarrow> True | _ \<Rightarrow> False)"

definition counted_chars :: "scalars \<Rightarrow> scalars \<Rightarrow> nat \<Rightarrow> line_window \<Rightarrow> field_view_budget \<Rightarrow> nat option \<Rightarrow> nat option" where
  "counted_chars original line_selected line_end lines budget known =
     (case (known, lines, budget) of
        (Some chars, _, _) \<Rightarrow> Some chars
      | (None, LinesFull, FieldNoCharLimit) \<Rightarrow> Some (length original)
      | (None, LinesTail n, _) \<Rightarrow> None
      | (None, LinesHead n, _) \<Rightarrow> if line_selected = original then Some line_end else None
      | _ \<Rightarrow> None)"

definition budgeted :: "scalars \<Rightarrow> nat \<Rightarrow> line_window \<Rightarrow> field_view_budget \<Rightarrow> (scalars \<times> nat \<times> bool \<times> bool) option" where
  "budgeted line_selected line_start lines budget =
     (case budget of
        FieldNoCharLimit \<Rightarrow> Some (line_selected, line_start, False, False)
      | FieldMaxChars maximum \<Rightarrow>
          (case lines of
             LinesTail n \<Rightarrow>
               let selected_chars = length line_selected
               in if selected_chars \<le> maximum then Some (line_selected, line_start, False, False)
                  else
                    let skipped = selected_chars - maximum;
                        start_byte = (if skipped < length (char_indices line_selected)
                          then fst (char_indices line_selected ! skipped) else str_len line_selected)
                    in map_option (\<lambda>t. (t, line_start + skipped, True, False))
                         (str_from line_selected start_byte)
           | _ \<Rightarrow> Some (take maximum line_selected, line_start, False, drop maximum line_selected \<noteq> [])))"

definition selected_field_view ::
  "scalars \<Rightarrow> line_window \<Rightarrow> field_view_budget \<Rightarrow> nat option \<Rightarrow> (message_search_error + field_view) option" where
  "selected_field_view original lines budget known =
     (case line_window_to_signed lines of
        Inl e \<Rightarrow> Some (Inl e)
      | Inr signed_lines \<Rightarrow> do {
          let line_selected =
            (if signed_lines = 0 then original else select_message_lines original signed_lines);
          line_start \<leftarrow> line_start_of original line_selected lines known;
          let line_end = line_start + length line_selected;
          let tail_has_text_after = (is_tail lines \<and> \<not> suffix line_selected original);
          let counted = counted_chars original line_selected line_end lines budget known;
          let line_has_text_after =
            ((case counted of Some chars \<Rightarrow> line_end < chars | None \<Rightarrow> False) \<or>
             (is_head lines \<and> line_selected \<noteq> original) \<or> tail_has_text_after);
          (t, start, budget_before, budget_after) \<leftarrow> budgeted line_selected line_start lines budget;
          Some (Inr \<lparr>fv_text = t, fv_start = start, fv_end = start + length t, fv_markers = [],
            fv_extra = additional_text (0 < line_start \<or> budget_before) (line_has_text_after \<or> budget_after),
            fv_total = counted\<rparr>)
        })"

section \<open>Presentation of a page\<close>

datatype presentation_error =
  PresentationInactive
| PresentationCannotProject search_field string int
| PresentationField message_search_error

record presented_hit =
  ph_hit :: enriched_hit
  ph_field_view :: field_view
  ph_match_view :: "field_view option"

definition present_one ::
  "('re, 'json) match_lib \<Rightarrow> message_target \<Rightarrow> line_window \<Rightarrow> field_view_budget \<Rightarrow> enriched_hit \<Rightarrow>
     (presentation_error + presented_hit) option" where
  "present_one lib target lines budget hit =
     (case (case selected_message_field lib (eh_message hit) target of
          Some selected \<Rightarrow> Some selected
        | None \<Rightarrow> if eh_evidence hit = None then Some (mh_content (eh_message hit)) else None) of
        None \<Rightarrow> Some (Inl (PresentationCannotProject (mt_field target) (mh_session_id (eh_message hit))
          (mh_seq (eh_message hit))))
      | Some selected \<Rightarrow>
          map_option
            (\<lambda>r. case r of
               Inl e \<Rightarrow> Inl (PresentationField e)
             | Inr view \<Rightarrow> Inr \<lparr>ph_hit = hit, ph_field_view = view,
                 ph_match_view = map_option evidence_field_view (eh_evidence hit)\<rparr>)
            (selected_field_view selected lines budget (map_option ev_field_total (eh_evidence hit))))"

text \<open>The callback is polled before and after each hit.\<close>

fun apply_message_presentation ::
  "(enriched_hit \<Rightarrow> (presentation_error + presented_hit) option) \<Rightarrow> (nat \<Rightarrow> bool) \<Rightarrow> nat \<Rightarrow>
     enriched_hit list \<Rightarrow> (presentation_error + presented_hit list) option" where
  "apply_message_presentation present active n [] = Some (Inr [])"
| "apply_message_presentation present active n (hit # hits) =
     (if \<not> active n then Some (Inl PresentationInactive)
      else do {
        r \<leftarrow> present hit;
        (case r of
           Inl e \<Rightarrow> Some (Inl e)
         | Inr h \<Rightarrow>
             if \<not> active (n + 1) then Some (Inl PresentationInactive)
             else map_option (res_map ((#) h)) (apply_message_presentation present active (n + 2) hits))
      })"

section \<open>Classified messages\<close>

datatype classification_error = MatchOutside nat nat nat | ClassificationField message_search_error

definition classification_presentation ::
  "scalars \<Rightarrow> nat \<Rightarrow> nat \<Rightarrow> field_view_budget \<Rightarrow> match_view_budget \<Rightarrow>
     (classification_error + field_view \<times> field_view) option" where
  "classification_presentation content match_start match_end field_budget match_budget =
     (let chars = length content
      in if match_end \<le> match_start \<or> chars < match_end then
           Some (Inl (MatchOutside match_start match_end chars))
         else
           let r = \<lparr>field_start_char = match_start, field_end_char_exclusive = match_end\<rparr>
           in do {
             evidence \<leftarrow> character_evidence content chars (match_view_budget_chars match_budget chars [r]) [r] False;
             view \<leftarrow> selected_field_view content LinesFull field_budget (Some chars);
             (case view of
                Inl e \<Rightarrow> Some (Inl (ClassificationField e))
              | Inr v \<Rightarrow> Some (Inr (v, evidence_field_view evidence)))
           })"

section \<open>What a view says\<close>

text \<open>A view is true of a field: it shows the slice it names, and its marks are right.\<close>

definition view_of :: "scalars \<Rightarrow> field_view \<Rightarrow> bool" where
  "view_of original v \<longleftrightarrow>
     fv_start v \<le> fv_end v \<and> fv_end v \<le> length original \<and>
     fv_text v = take (fv_end v - fv_start v) (drop (fv_start v) original) \<and>
     fv_extra v = additional_text (0 < fv_start v) (fv_end v < length original) \<and>
     (\<forall>n. fv_total v = Some n \<longrightarrow> n = length original)"

lemma evidence_view_of:
  assumes "evidence_ok selected M width ev"
  shows "view_of selected (evidence_field_view ev)"
  using assms by (auto simp: evidence_ok_def view_of_def evidence_field_view_def Let_def)

text \<open>Joining the lines of a text without carriage returns gives the text less a final newline.\<close>

lemma split_on_no: "d \<notin> set xs \<or> True \<Longrightarrow> \<forall>p \<in> set (split_on d xs). set p \<subseteq> set xs \<and> d \<notin> set p"
  by (induction xs) (auto split: list.splits)

lemma strip_cr_id: "13 \<notin> set p \<Longrightarrow> strip_cr p = p"
  by (auto simp: strip_cr_def dest: last_in_set)

lemma join_append:
  "as \<noteq> [] \<Longrightarrow> bs \<noteq> [] \<Longrightarrow> join sep (as @ bs) = join sep as @ sep @ join sep bs"
proof (induction as)
  case (Cons a as)
  then show ?case by (cases as) (simp_all add: join_Cons)
qed simp

definition body_of :: "scalars \<Rightarrow> scalars" where
  "body_of s = (if s \<noteq> [] \<and> last s = 10 then butlast s else s)"

lemma join_str_lines:
  assumes "13 \<notin> set s"
  shows "join_lines (str_lines s) = body_of s"
proof -
  define ps where "ps = split_on 10 s"
  have ps: "ps \<noteq> []" "join [10] ps = s" "\<forall>p \<in> set ps. set p \<subseteq> set s \<and> 10 \<notin> set p"
    using split_on_no [of 10 s] by (simp_all add: ps_def join_split_on)
  have strip: "map strip_cr (butlast ps) = butlast ps"
    using ps(3) assms by (intro map_idI) (auto intro!: strip_cr_id dest!: in_set_butlastD)
  have split: "ps = butlast ps @ [last ps]"
    using ps(1) by simp
  show ?thesis
  proof (cases "last ps = []")
    case True
    have lines: "str_lines s = butlast ps"
      using True strip by (simp add: str_lines_def ps_def [symmetric] Let_def)
    show ?thesis
    proof (cases "butlast ps = []")
      case True': True
      then have "s = []"
        using split ps(2) True by (metis append_Nil join.simps(2))
      then show ?thesis
        using lines True' by (simp add: join_lines_def body_of_def)
    next
      case False
      then have "s = join [10] (butlast ps) @ [10]"
        using join_append [of "butlast ps" "[[]]" "[10]"] split ps(2) True by simp
      then show ?thesis
        using lines by (simp add: join_lines_def body_of_def)
    qed
  next
    case False
    then have lines: "str_lines s = ps"
      using strip split by (simp add: str_lines_def ps_def [symmetric] Let_def)
    have "\<exists>a. s = a @ last ps"
      using split ps(2) join_append [of "butlast ps" "[last ps]" "[10]"]
      by (cases "butlast ps = []") (metis append_Nil join.simps(2), metis append.assoc join.simps(2) list.distinct(1))
    then have "last s = last (last ps)"
      using False by auto
    moreover have "last (last ps) \<noteq> 10"
      using ps(1,3) False last_in_set by (metis last_in_set)
    ultimately show ?thesis
      using lines ps(2) by (simp add: join_lines_def body_of_def)
  qed
qed

lemma body_of_cases: "s = body_of s \<or> s = body_of s @ [10]"
  by (metis append_butlast_last_id body_of_def)

lemma join_take_prefix: "prefix (join_lines (take n ls)) (join_lines ls)"
proof (cases "take n ls = [] \<or> drop n ls = []")
  case True
  then show ?thesis by (auto simp: join_lines_def)
next
  case False
  then show ?thesis
    using join_append [of "take n ls" "drop n ls" "[10]"] by (simp add: join_lines_def prefix_def)
qed

lemma join_drop_suffix: "suffix (join_lines (drop n ls)) (join_lines ls)"
proof (cases "take n ls = [] \<or> drop n ls = []")
  case True
  then show ?thesis by (auto simp: join_lines_def)
next
  case False
  then show ?thesis
    using join_append [of "take n ls" "drop n ls" "[10]"] by (simp add: join_lines_def suffix_def)
qed

lemma find_rev_upt:
  "find P (rev [0..<n]) = Some i \<Longrightarrow> i < n \<and> P i \<and> (\<forall>j. i < j \<and> j < n \<longrightarrow> \<not> P j)"
  by (induction n) (auto split: if_splits simp: less_Suc_eq)

lemma str_rfind_correct:
  assumes "sublist p s"
  shows "\<exists>i \<le> length s. str_rfind s p = Some (str_len (take i s)) \<and> take (length p) (drop i s) = p \<and>
    (suffix p s \<longrightarrow> i + length p = length s)"
proof -
  define P where "P i \<longleftrightarrow> take (length p) (drop i s) = p" for i
  obtain k where "k \<le> length s" "P k"
    using assms unfolding sublist_iff_drop P_def by blast
  then have "find P (rev [0..<Suc (length s)]) \<noteq> None"
    unfolding find_None_iff by (auto simp del: upt_Suc simp: less_Suc_eq_le)
  then obtain i where i: "find P (rev [0..<Suc (length s)]) = Some i"
    by blast
  from find_rev_upt [OF this] have max: "i \<le> length s" "P i" "\<And>j. i < j \<Longrightarrow> j \<le> length s \<Longrightarrow> \<not> P j"
    by auto
  have "i + length p = length s" if suf: "suffix p s"
  proof -
    obtain a where "s = a @ p"
      using suf by (auto simp: suffix_def)
    then have "P (length s - length p)"
      by (simp add: P_def)
    then have "length s - length p \<le> i"
      using max(3) [of "length s - length p"] by (meson diff_le_self not_le)
    moreover have "length p \<le> length s - i"
      using max(2) unfolding P_def by (metis length_drop length_take min.cobounded1 min.commute)
    ultimately show ?thesis
      using max(1) suffix_length_le [OF suf] by linarith
  qed
  then show ?thesis
    using i max by (auto simp: str_rfind_def P_def [abs_def] simp del: upt_Suc)
qed

lemma length_char_indices [simp]: "length (char_indices s) = length s"
proof -
  have "length (char_indices_from b s) = length s" for b
    by (induction s arbitrary: b) simp_all
  then show ?thesis by (simp add: char_indices_def)
qed

lemma nth_char_indices: "j < length s \<Longrightarrow> char_indices s ! j = (str_len (take j s), s ! j)"
proof -
  assume j: "j < length s"
  have "char_indices_from b s ! j = (b + str_len (take j s), s ! j)" for b
    using j
  proof (induction s arbitrary: b j)
    case (Cons c s)
    then show ?case by (cases j) (simp_all add: add.assoc)
  qed simp
  then show ?thesis by (simp add: char_indices_def)
qed

lemma budgeted_correct:
  "\<exists>k m. k + m \<le> length sel \<and>
     budgeted sel start lines budget = Some (take m (drop k sel), start + k, 0 < k, k + m < length sel)"
proof (cases budget)
  case FieldNoCharLimit
  then show ?thesis
    by (intro exI [of _ 0] exI [of _ "length sel"]) (simp add: budgeted_def)
next
  case (FieldMaxChars maximum)
  show ?thesis
  proof (cases "is_tail lines \<and> maximum < length sel")
    case True
    then obtain n where lines: "lines = LinesTail n"
      by (auto simp: is_tail_def split: line_window.splits)
    define k where "k = length sel - maximum"
    have "(if k < length (char_indices sel) then fst (char_indices sel ! k) else str_len sel) =
        str_len (take k sel)"
    proof (cases "k < length sel")
      case True
      then show ?thesis by (simp add: nth_char_indices)
    qed simp
    moreover have "str_from sel (str_len (take k sel)) = Some (drop k sel)"
      by (metis append_take_drop_id str_from_append)
    ultimately have "budgeted sel start lines budget = Some (drop k sel, start + k, True, False)"
      using True by (simp add: budgeted_def FieldMaxChars lines Let_def k_def [symmetric])
    then show ?thesis
      using True by (intro exI [of _ k] exI [of _ maximum]) (simp add: k_def)
  next
    case False
    then show ?thesis
      by (intro exI [of _ 0] exI [of _ "min maximum (length sel)"])
        (auto simp: budgeted_def FieldMaxChars is_tail_def min_def split: line_window.splits)
  qed
qed

definition selected_lines :: "scalars \<Rightarrow> line_window \<Rightarrow> scalars" where
  "selected_lines original lines =
     (case line_window_to_signed lines of
        Inr sg \<Rightarrow> (if sg = 0 then original else select_message_lines original sg)
      | Inl e \<Rightarrow> [])"

lemma selected_lines_cases:
  assumes "13 \<notin> set original" and "line_window_to_signed lines = Inr sg"
    and "lines \<noteq> LinesHead 0" and "lines \<noteq> LinesTail 0"
  shows "(lines = LinesFull \<longrightarrow> selected_lines original lines = original) \<and>
    (is_head lines \<longrightarrow> prefix (selected_lines original lines) original) \<and>
    (is_tail lines \<longrightarrow> suffix (selected_lines original lines) (body_of original))"
proof (cases lines)
  case LinesFull
  then show ?thesis by (simp add: selected_lines_def is_head_def is_tail_def)
next
  case (LinesHead n)
  then have "selected_lines original lines = join_lines (take n (str_lines original))"
    using assms(2,3) by (auto simp: selected_lines_def res_cases i64_try_from_def select_message_lines_head
        split: if_splits)
  then have "prefix (selected_lines original lines) (body_of original)"
    using join_take_prefix [of n "str_lines original"] join_str_lines [OF assms(1)] by simp
  then have "prefix (selected_lines original lines) original"
    using body_of_cases [of original] by (metis prefix_order.trans prefixI)
  then show ?thesis using LinesHead by (simp add: is_head_def is_tail_def)
next
  case (LinesTail n)
  then have "selected_lines original lines =
      join_lines (drop (length (str_lines original) - n) (str_lines original))"
    using assms(2,4) by (auto simp: selected_lines_def res_cases i64_try_from_def select_message_lines_tail
        split: if_splits)
  then show ?thesis
    using join_drop_suffix [of "length (str_lines original) - n" "str_lines original"]
      join_str_lines [OF assms(1)] LinesTail by (simp add: is_head_def is_tail_def)
qed

text \<open>Where the selected lines start, and whether the field goes on behind them.\<close>

lemma line_start_correct:
  assumes "13 \<notin> set original" and "line_window_to_signed lines = Inr sg"
    and "lines \<noteq> LinesHead 0" and "lines \<noteq> LinesTail 0"
    and "known = None \<or> known = Some (length original)"
    and "is_tail lines \<and> known \<noteq> None \<Longrightarrow> body_of original = original"
  defines "sel \<equiv> selected_lines original lines"
  shows "\<exists>s. line_start_of original sel lines known = Some s \<and> s + length sel \<le> length original \<and>
    take (length sel) (drop s original) = sel \<and>
    ((case counted_chars original sel (s + length sel) lines budget known of
        Some n \<Rightarrow> s + length sel < n | None \<Rightarrow> False) \<or>
      is_head lines \<and> sel \<noteq> original \<or> is_tail lines \<and> \<not> suffix sel original
      \<longleftrightarrow> s + length sel < length original) \<and>
    (\<forall>n. counted_chars original sel (s + length sel) lines budget known = Some n \<longrightarrow> n = length original)"
proof -
  note sel = selected_lines_cases [OF assms(1-4), folded sel_def]
  show ?thesis
  proof (cases "is_tail lines")
    case False
    then have pre: "prefix sel original" "lines = LinesFull \<or> is_head lines"
      using sel by (cases lines; simp add: is_head_def is_tail_def)+
    then obtain t where t: "original = sel @ t"
      by (auto simp: prefix_def)
    have "line_start_of original sel lines known = Some 0"
      using False by (auto simp: line_start_of_def is_tail_def split: line_window.splits)
    moreover have counted: "n = length original"
      if "counted_chars original sel (length sel) lines budget known = Some n" for n
      using that False assms(5)
      by (auto simp: counted_chars_def is_tail_def split: line_window.splits option.splits
          field_view_budget.splits if_splits)
    moreover have "((case counted_chars original sel (length sel) lines budget known of
        Some n \<Rightarrow> length sel < n | None \<Rightarrow> False) \<or>
      is_head lines \<and> sel \<noteq> original \<or> is_tail lines \<and> \<not> suffix sel original)
      = (length sel < length original)"
    proof (cases "sel = original")
      case True
      then show ?thesis
        using counted False by (auto split: option.splits)
    next
      case neq: False
      then have "is_head lines"
        using pre(2) sel by blast
      moreover have "t \<noteq> []"
        using neq t by auto
      then have "length sel < length original"
        unfolding t by simp
      ultimately show ?thesis
        using neq by simp
    qed
    moreover have "length sel \<le> length original" "take (length sel) original = sel"
      unfolding t by simp_all
    ultimately show ?thesis
      by (intro exI [of _ 0], unfold add_0 drop_0) blast
  next
    case True
    then obtain n where lines: "lines = LinesTail n"
      by (auto simp: is_tail_def split: line_window.splits)
    have suf: "suffix sel (body_of original)"
      using sel True by simp
    show ?thesis
    proof (cases known)
      case None
      obtain a where a: "body_of original = a @ sel"
        using suf by (auto simp: suffix_def)
      have "original = a @ sel @ [] \<or> original = a @ sel @ [10]"
        using body_of_cases [of original] unfolding a by simp
      then have "sublist sel original"
        unfolding sublist_def by blast
      then obtain i where i: "i \<le> length original" "str_rfind original sel = Some (str_len (take i original))"
        "take (length sel) (drop i original) = sel" "suffix sel original \<longrightarrow> i + length sel = length original"
        using str_rfind_correct by blast
      have fit: "i + length sel \<le> length original"
        using i(1,3) by (metis le_diff_conv2 add.commute length_drop length_take min.cobounded1)
      moreover have "\<not> suffix sel original \<longrightarrow> i + length sel \<noteq> length original"
        using i(3) by (metis append_take_drop_id drop_all length_drop le_refl suffix_drop take_all
            add_diff_cancel_left')
      ultimately show ?thesis
        using i None by (auto simp: lines line_start_of_def counted_chars_def str_to_take is_head_def is_tail_def)
    next
      case (Some k)
      then have "suffix sel original" "k = length original"
        using suf assms(5,6) True by simp_all
      then obtain a where "original = a @ sel"
        by (auto simp: suffix_def)
      then show ?thesis
        using Some \<open>k = length original\<close>
        by (auto simp: lines line_start_of_def counted_chars_def is_head_def is_tail_def suffix_def)
    qed
  qed
qed

lemma selected_field_view_correct:
  assumes "13 \<notin> set original" and "lines \<noteq> LinesHead 0" and "lines \<noteq> LinesTail 0"
    and "known = None \<or> known = Some (length original)"
    and "is_tail lines \<and> known \<noteq> None \<Longrightarrow> body_of original = original"
  shows "\<exists>r. selected_field_view original lines budget known = Some r \<and>
    (case r of
       Inl e \<Rightarrow> line_window_to_signed lines = Inl e
     | Inr v \<Rightarrow> view_of original v \<and> (\<exists>k m. fv_text v = take m (drop k (selected_lines original lines))))"
proof (cases "line_window_to_signed lines")
  case (Inl e)
  then show ?thesis by (simp add: selected_field_view_def)
next
  case (Inr sg)
  define sel where "sel = selected_lines original lines"
  have sel: "(if sg = 0 then original else select_message_lines original sg) = sel"
    by (simp add: sel_def selected_lines_def Inr)
  obtain s where s: "line_start_of original sel lines known = Some s" "s + length sel \<le> length original"
    "take (length sel) (drop s original) = sel"
    "((case counted_chars original sel (s + length sel) lines budget known of
        Some n \<Rightarrow> s + length sel < n | None \<Rightarrow> False) \<or>
      is_head lines \<and> sel \<noteq> original \<or> is_tail lines \<and> \<not> suffix sel original)
      = (s + length sel < length original)"
    "\<forall>n. counted_chars original sel (s + length sel) lines budget known = Some n \<longrightarrow> n = length original"
    using line_start_correct [OF assms(1) Inr assms(2-5), of budget] unfolding sel_def by blast
  obtain k m where b: "k + m \<le> length sel"
    "budgeted sel s lines budget = Some (take m (drop k sel), s + k, 0 < k, k + m < length sel)"
    using budgeted_correct by blast
  define v where "v = \<lparr>fv_text = take m (drop k sel), fv_start = s + k, fv_end = s + k + m, fv_markers = [],
    fv_extra = additional_text (0 < s \<or> 0 < k) (s + length sel < length original \<or> k + m < length sel),
    fv_total = counted_chars original sel (s + length sel) lines budget known\<rparr>"
  have "selected_field_view original lines budget known = Some (Inr v)"
    unfolding selected_field_view_def Inr sum.case Let_def sel s(1) Option.bind.bind_lunit b(2) prod.case s(4)
    using b(1) by (simp add: v_def min_absorb2)
  moreover have "view_of original v"
  proof -
    have "take m (drop k sel) = take m (drop k (take (length sel) (drop s original)))"
      by (simp only: s(3))
    also have "\<dots> = take m (drop (s + k) original)"
      using b(1) by (simp add: drop_take add.commute)
    finally show ?thesis
      using s(2,5) b(1) by (auto simp: view_of_def v_def intro!: arg_cong2 [where f = additional_text])
  qed
  moreover have "fv_text v = take m (drop k (selected_lines original lines))"
    by (simp add: v_def sel_def)
  ultimately show ?thesis
    by auto
qed

text \<open>The two views of a classified message are views of its content.\<close>

lemma classification_views:
  assumes "13 \<notin> set content"
    and "classification_presentation content a b field_budget match_budget = Some (Inr (v, mv))"
  shows "view_of content v \<and> view_of content mv \<and> a < b \<and> b \<le> length content"
proof -
  define r where "r = \<lparr>field_start_char = a, field_end_char_exclusive = b\<rparr>"
  have ab: "a < b" "b \<le> length content"
    using assms(2) by (auto simp: classification_presentation_def Let_def split: if_splits)
  then have sep: "spans_apart (field_spans [r])" "\<forall>x \<in> span_positions (field_spans [r]). x < length content"
    by (auto simp: r_def)
  obtain ev where ev: "character_evidence content (length content)
      (match_view_budget_chars match_budget (length content) [r]) [r] False = Some ev"
    "evidence_ok content (span_positions (field_spans [r]))
      (match_view_budget_chars match_budget (length content) [r]) ev"
    using character_evidence_correct [OF sep, of False] by blast
  obtain w where "selected_field_view content LinesFull field_budget (Some (length content)) = Some w"
    "case w of Inl e \<Rightarrow> line_window_to_signed LinesFull = Inl e
     | Inr v \<Rightarrow> view_of content v \<and> (\<exists>k m. fv_text v = take m (drop k (selected_lines content LinesFull)))"
    using selected_field_view_correct [OF assms(1), of LinesFull "Some (length content)" field_budget]
    by (auto simp: is_tail_def)
  then show ?thesis
    using assms(2) ab ev evidence_view_of [OF ev(2)]
    by (cases w) (auto simp: classification_presentation_def Let_def r_def [symmetric])
qed

text \<open>
  C24: a field view is true of its field, for every choice of lines and every character budget: its
  text is the slice of the field between its coordinates, the marks for more text before and after
  are set exactly when there is more, and the length it gives is the length of the field. This holds
  for fields without carriage returns, and for a tail of lines unless the length was counted before
  and the field ends with a newline.
\<close>

theorem field_view_is_exact:
  assumes "13 \<notin> set original" and "lines \<noteq> LinesHead 0" and "lines \<noteq> LinesTail 0"
    and "known = None \<or> known = Some (length original)"
    and "is_tail lines \<longrightarrow> known = None \<or> original = [] \<or> last original \<noteq> 10"
  shows "\<exists>r. selected_field_view original lines budget known = Some r \<and>
    (case r of
       Inl e \<Rightarrow> line_window_to_signed lines = Inl e
     | Inr v \<Rightarrow>
         fv_start v \<le> fv_end v \<and> fv_end v \<le> length original \<and>
         fv_text v = take (fv_end v - fv_start v) (drop (fv_start v) original) \<and>
         fv_extra v = additional_text (0 < fv_start v) (fv_end v < length original) \<and>
         (\<forall>n. fv_total v = Some n \<longrightarrow> n = length original))"
proof -
  have "body_of original = original" if "is_tail lines \<and> known \<noteq> None"
    using that assms(5) by (auto simp: body_of_def)
  from selected_field_view_correct [OF assms(1-4) this, of budget] show ?thesis
    by (auto simp: view_of_def split: sum.splits)
qed

theorem field_view_is_exact_witness:
  "\<exists>v. selected_field_view (lit ''ab cd'') (LinesTail 1) (FieldMaxChars 3) (Some 5) = Some (Inr v) \<and>
     fv_text v = take (fv_end v - fv_start v) (drop (fv_start v) (lit ''ab cd'')) \<and>
     fv_extra v = additional_text (0 < fv_start v) (fv_end v < 5)"
proof -
  have five: "length (lit ''ab cd'') = 5"
    by (simp add: lit_def)
  have tail: "line_window_to_signed (LinesTail 1) = Inr (- 1)"
    by (simp add: i64_try_from_def i64_max_def)
  have "\<exists>r. selected_field_view (lit ''ab cd'') (LinesTail 1) (FieldMaxChars 3) (Some 5) = Some r \<and>
    (case r of
       Inl e \<Rightarrow> line_window_to_signed (LinesTail 1) = Inl e
     | Inr v \<Rightarrow>
         fv_start v \<le> fv_end v \<and> fv_end v \<le> length (lit ''ab cd'') \<and>
         fv_text v = take (fv_end v - fv_start v) (drop (fv_start v) (lit ''ab cd'')) \<and>
         fv_extra v = additional_text (0 < fv_start v) (fv_end v < length (lit ''ab cd'')) \<and>
         (\<forall>n. fv_total v = Some n \<longrightarrow> n = length (lit ''ab cd'')))"
    by (rule field_view_is_exact) (simp_all add: lit_def)
  then obtain r where r: "selected_field_view (lit ''ab cd'') (LinesTail 1) (FieldMaxChars 3) (Some 5) = Some r"
    "case r of
       Inl e \<Rightarrow> line_window_to_signed (LinesTail 1) = Inl e
     | Inr v \<Rightarrow>
         fv_start v \<le> fv_end v \<and> fv_end v \<le> length (lit ''ab cd'') \<and>
         fv_text v = take (fv_end v - fv_start v) (drop (fv_start v) (lit ''ab cd'')) \<and>
         fv_extra v = additional_text (0 < fv_start v) (fv_end v < length (lit ''ab cd'')) \<and>
         (\<forall>n. fv_total v = Some n \<longrightarrow> n = length (lit ''ab cd''))"
    by blast
  show ?thesis
  proof (cases r)
    case (Inl e)
    have "line_window_to_signed (LinesTail 1) = Inl e"
      using r(2) unfolding Inl sum.case .
    then show ?thesis
      unfolding tail by simp
  next
    case (Inr v)
    show ?thesis
      using r unfolding Inr sum.case five by blast
  qed
qed

lemma tail_of_terminated_text:
  assumes "13 \<notin> set body" and "body \<noteq> []" and "last body \<noteq> 10" and "0 < n" and "int n \<le> i64_max"
  defines "sel \<equiv> selected_lines (body @ [10]) (LinesTail n)"
  shows "suffix sel body" and "sel \<noteq> []" and "\<not> suffix sel (body @ [10])"
    and "line_window_to_signed (LinesTail n) = Inr (- int n)"
proof -
  define ls where "ls = str_lines (body @ [10])"
  show sg: "line_window_to_signed (LinesTail n) = Inr (- int n)"
    using assms(5) by (simp add: i64_try_from_def)
  have no_cr: "13 \<notin> set (body @ [10])"
    using assms(1) by simp
  have join: "join_lines ls = body"
    using join_str_lines [OF no_cr] by (simp add: ls_def body_of_def)
  have sel: "sel = join_lines (drop (length ls - n) ls)"
    using assms(4) sg by (simp add: sel_def selected_lines_def select_message_lines_tail ls_def)
  show suf: "suffix sel body"
    using join_drop_suffix [of "length ls - n" ls] by (simp add: sel join)
  have "ls \<noteq> []"
    using join assms(2) by (auto simp: join_lines_def)
  have "last ls \<noteq> []"
  proof
    assume "last ls = []"
    then have "ls = butlast ls @ [[]]"
      using \<open>ls \<noteq> []\<close> by (metis append_butlast_last_id)
    then have "body = join [10] (butlast ls @ [[]])"
      using join by (simp add: join_lines_def)
    then show False
      using join_append [of "butlast ls" "[[]]" "[10]"] assms(2,3) by (cases "butlast ls = []") auto
  qed
  define ds where "ds = drop (length ls - n) ls"
  have ds: "ds \<noteq> []" "last ds = last ls"
    using \<open>ls \<noteq> []\<close> assms(4) diff_less [of n "length ls"] by (simp_all add: ds_def not_le)
  have "join [10] ds \<noteq> []"
  proof (cases "butlast ds = []")
    case True
    then have "ds = [last ds]"
      using ds(1) by (metis append_Nil append_butlast_last_id)
    then show ?thesis
      using ds(2) \<open>last ls \<noteq> []\<close> by (metis join.simps(2))
  next
    case False
    then show ?thesis
      using join_append [of "butlast ds" "[last ds]" "[10]"] ds(1) by simp
  qed
  then show ne: "sel \<noteq> []"
    by (simp add: sel join_lines_def ds_def)
  have "last sel = last body"
    using suf ne by (auto simp: suffix_def)
  then show "\<not> suffix sel (body @ [10])"
    using ne assms(3) by (auto simp: suffix_def) (metis last_appendR last_snoc)
qed

text \<open>
  C38: for a tail of lines of a field that ends with a newline, with the length of the field already
  counted, the coordinates are one too high: the text shown lies one character before them, the
  slice they name is another text, and the view reports more text behind the end of the field.
\<close>

theorem counted_tail_view_is_shifted:
  assumes "13 \<notin> set body" and "body \<noteq> []" and "last body \<noteq> 10" and "0 < n" and "int n \<le> i64_max"
  shows "\<exists>v. selected_field_view (body @ [10]) (LinesTail n) FieldNoCharLimit (Some (length (body @ [10]))) =
      Some (Inr v) \<and>
    fv_text v = take (fv_end v - fv_start v) (drop (fv_start v - 1) (body @ [10])) \<and> 0 < fv_start v \<and>
    fv_text v \<noteq> take (fv_end v - fv_start v) (drop (fv_start v) (body @ [10])) \<and>
    fv_end v = length (body @ [10]) \<and> fv_extra v = ExtraBeforeAndAfter"
proof -
  define sel where "sel = selected_lines (body @ [10]) (LinesTail n)"
  note tail = tail_of_terminated_text [OF assms, folded sel_def]
  obtain a where a: "body = a @ sel"
    using tail(1) by (auto simp: suffix_def)
  define v where "v = \<lparr>fv_text = sel, fv_start = Suc (length a), fv_end = length (body @ [10]), fv_markers = [],
    fv_extra = ExtraBeforeAndAfter, fv_total = Some (length (body @ [10]))\<rparr>"
  have "select_message_lines (body @ [10]) (- int n) = sel"
    using assms(4) tail(4) by (simp add: sel_def selected_lines_def)
  then have "selected_field_view (body @ [10]) (LinesTail n) FieldNoCharLimit (Some (length (body @ [10]))) =
      Some (Inr v)"
    using tail(3,4) assms(4)
    by (simp add: selected_field_view_def line_start_of_def counted_chars_def budgeted_def is_tail_def
        is_head_def Let_def v_def a)
  moreover have "sel \<noteq> take (length sel) (drop (Suc (length a)) (body @ [10]))"
  proof
    assume "sel = take (length sel) (drop (Suc (length a)) (body @ [10]))"
    also have "\<dots> = tl sel @ [10]"
      using tail(2) by (simp add: a) (cases sel; simp)
    finally have "last sel = 10"
      by (metis last_snoc)
    moreover have "last sel = last body"
      using tail(2) by (simp add: a)
    ultimately show False
      using assms(3) by simp
  qed
  ultimately show ?thesis
    by (intro exI [of _ v]) (simp add: v_def a)
qed

theorem counted_tail_view_is_shifted_witness:
  "\<exists>v. selected_field_view (lit ''beta'' @ [10]) (LinesTail 1) FieldNoCharLimit (Some (length (lit ''beta'' @ [10]))) =
      Some (Inr v) \<and>
    fv_text v \<noteq> take (fv_end v - fv_start v) (drop (fv_start v) (lit ''beta'' @ [10])) \<and>
    fv_extra v = ExtraBeforeAndAfter"
proof -
  have "13 \<notin> set (lit ''beta'')" "lit ''beta'' \<noteq> []" "last (lit ''beta'') \<noteq> 10" "0 < (1 :: nat)"
    "int 1 \<le> i64_max"
    by (simp_all add: lit_def i64_max_def)
  from counted_tail_view_is_shifted [OF this] show ?thesis
    by blast
qed

end
