(* ===== verification/OrderedMap.thy ===== *)
theory OrderedMap
  imports Prelude
begin

text \<open>
  \<open>BTreeMap\<close> of the Rust standard library as the list of its entries in the order of the keys, and the
  lemmas on it that the components share. Two maps with the same bindings are the same list.
\<close>

type_synonym ('k, 'v) ordered_map = "('k \<times> 'v) list"

definition ordered :: "('k::linorder, 'v) ordered_map \<Rightarrow> bool" where
  "ordered m \<longleftrightarrow> sorted_wrt (<) (map fst m)"

text \<open>\<open>m.entry(k).or_insert(v)\<close>, followed by a change \<open>f\<close> of the entry.\<close>

fun entry_or_insert :: "'k::linorder \<Rightarrow> 'v \<Rightarrow> ('v \<Rightarrow> 'v) \<Rightarrow> ('k, 'v) ordered_map \<Rightarrow> ('k, 'v) ordered_map" where
  "entry_or_insert k v f [] = [(k, f v)]"
| "entry_or_insert k v f ((k', v') # m) =
     (if k < k' then (k, f v) # (k', v') # m
      else if k = k' then (k, f v') # m
      else (k', v') # entry_or_insert k v f m)"

definition map_insert :: "'k::linorder \<Rightarrow> 'v \<Rightarrow> ('k, 'v) ordered_map \<Rightarrow> ('k, 'v) ordered_map" where
  "map_insert k v m = entry_or_insert k v (\<lambda>_. v) m"

lemma ordered_map_simps [simp]:
  "ordered []"
  "ordered ((k, v) # m) \<longleftrightarrow> (\<forall>k' \<in> fst ` set m. k < k') \<and> ordered m"
  by (auto simp: ordered_def)

lemma keys_entry: "fst ` set (entry_or_insert k v f m) = insert k (fst ` set m)"
  by (induction k v f m rule: entry_or_insert.induct) (simp_all add: insert_commute)

lemma ordered_entry [simp]: "ordered m \<Longrightarrow> ordered (entry_or_insert k v f m)"
proof (induction m)
  case Nil
  then show ?case by simp
next
  case (Cons e m)
  obtain k' v' where e: "e = (k', v')"
    by (cases e)
  show ?case
    using Cons by (auto simp: e keys_entry)
qed

lemma lookup_entry:
  "ordered m \<Longrightarrow> map_of (entry_or_insert k v f m) =
     (map_of m)(k \<mapsto> f (case map_of m k of None \<Rightarrow> v | Some x \<Rightarrow> x))"
proof (induction m)
  case Nil
  then show ?case by simp
next
  case (Cons e m)
  obtain k' v' where e: "e = (k', v')"
    by (cases e)
  have none: "map_of m x = None" if "x \<le> k'" for x
    using Cons.prems that by (force simp: e map_of_eq_None_iff)
  show ?case
    using Cons none [of k] by (auto simp: e fun_eq_iff split: if_splits option.splits)
qed

lemma ordered_distinct: "ordered m \<Longrightarrow> distinct (map fst m)"
  by (auto simp: ordered_def strict_sorted_iff)

lemma length_entry:
  "ordered m \<Longrightarrow> length (entry_or_insert k v f m) = (if map_of m k = None then Suc (length m) else length m)"
proof (induction m)
  case Nil
  then show ?case by simp
next
  case (Cons e m)
  obtain k' v' where e: "e = (k', v')"
    by (cases e)
  have "k < k' \<Longrightarrow> map_of m k = None"
    using Cons.prems by (force simp: e map_of_eq_None_iff)
  then show ?case
    using Cons by (auto simp: e)
qed

lemma length_keys: "ordered m \<Longrightarrow> length m = card (fst ` set m)"
  using distinct_card [OF ordered_distinct, of m] by simp

lemma ordered_map_of:
  assumes "ordered m"
  shows "m = map (\<lambda>k. (k, the (map_of m k))) (map fst m)"
proof (rule nth_equalityI)
  fix i assume i: "i < length m"
  then have "map_of m (fst (m ! i)) = Some (snd (m ! i))"
    using ordered_distinct [OF assms] by (intro map_of_is_SomeI) simp_all
  then show "m ! i = map (\<lambda>k. (k, the (map_of m k))) (map fst m) ! i"
    using i by simp
qed simp

lemma ordered_map_eqI:
  assumes "ordered m" and "ordered m'" and "map_of m = map_of m'"
  shows "m = m'"
proof -
  have "fst ` set m = fst ` set m'"
    using assms(3) by (metis dom_map_of_conv_image_fst)
  then have "map fst m = map fst m'"
    using assms(1,2) unfolding ordered_def by (intro strict_sorted_equal) simp_all
  then show ?thesis
    using ordered_map_of [OF assms(1)] ordered_map_of [OF assms(2)] assms(3) by simp
qed

end
