(* ===== verification/ContextUnion.thy ===== *)
theory ContextUnion
  imports FieldViews OrderedMap
begin

text \<open>
  Messages around the hits of an exhaustive search: the windows \<open>db.rs\<close> fetches for a batch of hits,
  and the ordered union of the overlapping windows that \<open>messages.rs\<close> writes, one row per message.

  The message table is its rows in the published order \<open>(session_id, seq, id)\<close>, in which the code
  documents that the first two columns are not unique. \<open>visible\<close> is the condition of the access
  scope. A \<open>BTreeMap\<close> is an \<open>ordered_map\<close>.
\<close>

section \<open>The windows\<close>

definition i64_saturating_sub :: "int \<Rightarrow> int \<Rightarrow> int" where
  "i64_saturating_sub a b = max i64_min (min i64_max (a - b))"

definition i64_saturating_add :: "int \<Rightarrow> int \<Rightarrow> int" where
  "i64_saturating_add a b = max i64_min (min i64_max (a + b))"

datatype context_error = NegativeBefore | NegativeAfter | BeforeExceeds | AfterExceeds

definition seq_between :: "int \<Rightarrow> int \<Rightarrow> int \<Rightarrow> message_hit \<Rightarrow> bool" where
  "seq_between anchor_seq before after r \<longleftrightarrow>
     i64_saturating_sub anchor_seq before \<le> mh_seq r \<and> mh_seq r \<le> i64_saturating_add anchor_seq after"

definition message_context ::
  "message_hit list \<Rightarrow> (message_hit \<Rightarrow> bool) \<Rightarrow> string \<Rightarrow> int \<Rightarrow> int \<Rightarrow> int \<Rightarrow> context_error + message_hit list" where
  "message_context rows visible session anchor_seq before after =
     (if before < 0 then Inl NegativeBefore
      else if after < 0 then Inl NegativeAfter
      else Inr (filter (\<lambda>r. mh_session_id r = session \<and> seq_between anchor_seq before after r \<and> visible r) rows))"

definition message_context_windows ::
  "message_hit list \<Rightarrow> (message_hit \<Rightarrow> bool) \<Rightarrow> (string \<times> int) list \<Rightarrow> int \<Rightarrow> int \<Rightarrow>
     context_error + message_hit list list" where
  "message_context_windows rows visible anchors before after =
     (if before < 0 then Inl NegativeBefore
      else if after < 0 then Inl NegativeAfter
      else Inr (map (\<lambda>(session, anchor_seq).
             filter (\<lambda>r. mh_session_id r = session \<and> seq_between anchor_seq before after r \<and> visible r) rows)
           anchors))"

definition context_windows_of ::
  "message_hit list \<Rightarrow> (message_hit \<Rightarrow> bool) \<Rightarrow> nat \<Rightarrow> nat \<Rightarrow> enriched_hit list \<Rightarrow>
     context_error + message_hit list list" where
  "context_windows_of rows visible messages_before messages_after hits =
     (if messages_before = 0 \<and> messages_after = 0 then Inr []
      else
        res_bind (ok_or BeforeExceeds (i64_try_from messages_before)) (\<lambda>before.
        res_bind (ok_or AfterExceeds (i64_try_from messages_after)) (\<lambda>after.
          message_context_windows rows visible
            (map (\<lambda>h. (mh_session_id (eh_message h), mh_seq (eh_message h))) hits) before after)))"

section \<open>The union\<close>

record pending_row =
  pr_hit :: message_hit
  pr_match :: bool
  pr_evidence :: "match_evidence option"

definition surrounding :: "message_hit \<Rightarrow> pending_row" where
  "surrounding hit = \<lparr>pr_hit = hit, pr_match = False, pr_evidence = None\<rparr>"

record window_union =
  wu_session :: "string option"
  wu_last_anchor :: "int option"
  wu_last_emitted :: "int option"
  wu_pending :: "(int \<times> pending_row) list"

definition empty_union :: window_union where
  "empty_union = \<lparr>wu_session = None, wu_last_anchor = None, wu_last_emitted = None, wu_pending = []\<rparr>"

datatype union_error =
  SessionsUnordered string string
| AnchorsUnordered string int int
| ForeignRow string string
| AlreadyEmitted string int
| WindowCount nat nat
| NextBatchFailed string

definition is_none_or :: "int option \<Rightarrow> (int \<Rightarrow> bool) \<Rightarrow> bool" where
  "is_none_or x P = (case x of None \<Rightarrow> True | Some v \<Rightarrow> P v)"

fun insert_window ::
  "string \<Rightarrow> int option \<Rightarrow> message_hit list \<Rightarrow> (int \<times> pending_row) list \<Rightarrow>
     union_error + (int \<times> pending_row) list" where
  "insert_window session last_emitted [] pending = Inr pending"
| "insert_window session last_emitted (hit # hits) pending =
     (if mh_session_id hit \<noteq> session then Inl (ForeignRow (mh_session_id hit) session)
      else insert_window session last_emitted hits
        (if is_none_or last_emitted (\<lambda>e. e < mh_seq hit)
         then entry_or_insert (mh_seq hit) (surrounding hit) (\<lambda>v. v) pending else pending))"

fun pop_ready ::
  "int \<Rightarrow> pending_row list \<Rightarrow> int option \<Rightarrow> (int \<times> pending_row) list \<Rightarrow>
     pending_row list \<times> int option \<times> (int \<times> pending_row) list" where
  "pop_ready anchor_seq ready last_emitted [] = (ready, last_emitted, [])"
| "pop_ready anchor_seq ready last_emitted ((k, row) # m) =
     (if k \<le> anchor_seq
      then pop_ready anchor_seq (ready @ [row]) (Some (mh_seq (pr_hit row))) m
      else (ready, last_emitted, (k, row) # m))"

definition drain_pending :: "window_union \<Rightarrow> pending_row list" where
  "drain_pending u = map snd (wu_pending u)"

definition enter_session :: "string \<Rightarrow> window_union \<Rightarrow> union_error + pending_row list \<times> window_union" where
  "enter_session session u =
     (if wu_session u \<noteq> Some session then
        (case wu_session u of
           Some current \<Rightarrow>
             if current < session
             then Inr (drain_pending u, \<lparr>wu_session = Some session, wu_last_anchor = None,
                    wu_last_emitted = None, wu_pending = []\<rparr>)
             else Inl (SessionsUnordered session current)
         | None \<Rightarrow> Inr (drain_pending u, \<lparr>wu_session = Some session, wu_last_anchor = None,
                    wu_last_emitted = None, wu_pending = []\<rparr>))
      else Inr ([], u))"

definition mark_match :: "match_evidence option \<Rightarrow> pending_row \<Rightarrow> pending_row" where
  "mark_match evidence row = row\<lparr>pr_match := True, pr_evidence := evidence\<rparr>"

definition push_anchor ::
  "enriched_hit \<Rightarrow> message_hit list \<Rightarrow> window_union \<Rightarrow> union_error + pending_row list \<times> window_union" where
  "push_anchor anchor window u =
     (let session = mh_session_id (eh_message anchor);
          anchor_seq = mh_seq (eh_message anchor)
      in res_bind (enter_session session u) (\<lambda>(ready, u).
         if \<not> is_none_or (wu_last_anchor u) (\<lambda>l. l < anchor_seq)
         then Inl (AnchorsUnordered session anchor_seq (the (wu_last_anchor u)))
         else res_bind (insert_window session (wu_last_emitted u) window (wu_pending u)) (\<lambda>pending.
           if \<not> is_none_or (wu_last_emitted u) (\<lambda>l. l < anchor_seq)
           then Inl (AlreadyEmitted session anchor_seq)
           else
             let pending = entry_or_insert anchor_seq (surrounding (eh_message anchor))
                   (mark_match (eh_evidence anchor)) pending
             in (case pop_ready anchor_seq ready (wu_last_emitted u) pending of
                   (ready, last_emitted, pending) \<Rightarrow>
                     Inr (ready, u\<lparr>wu_last_anchor := Some anchor_seq, wu_last_emitted := last_emitted,
                       wu_pending := pending\<rparr>)))))"

section \<open>Writing the rows\<close>

record context_row =
  cr_hit :: message_hit
  cr_match :: bool
  cr_evidence :: "match_evidence option"

definition from_pending :: "int \<Rightarrow> pending_row \<Rightarrow> context_row" where
  "from_pending lines_per_message row =
     \<lparr>cr_hit = (pr_hit row)\<lparr>mh_content := select_message_lines (mh_content (pr_hit row)) lines_per_message\<rparr>,
      cr_match = pr_match row, cr_evidence = pr_evidence row\<rparr>"

fun push_all ::
  "int \<Rightarrow> window_union \<Rightarrow> (enriched_hit \<times> message_hit list) list \<Rightarrow> context_row list \<times> (union_error + window_union)" where
  "push_all lines u [] = ([], Inr u)"
| "push_all lines u ((anchor, window) # rest) =
     (case push_anchor anchor window u of
        Inl e \<Rightarrow> ([], Inl e)
      | Inr (ready, u) \<Rightarrow>
          (case push_all lines u rest of
             (rows, r) \<Rightarrow> (map (from_pending lines) ready @ rows, r)))"

text \<open>The rows written, and the error that ends the writing. \<open>failed\<close> is the error of the last \<open>next_batch\<close>.\<close>

fun write_context_batches ::
  "int \<Rightarrow> window_union \<Rightarrow> string option \<Rightarrow> (enriched_hit list \<times> message_hit list list) list \<Rightarrow>
     context_row list \<times> union_error option" where
  "write_context_batches lines u failed [] =
     (case failed of
        Some e \<Rightarrow> ([], Some (NextBatchFailed e))
      | None \<Rightarrow> (map (from_pending lines) (drain_pending u), None))"
| "write_context_batches lines u failed ((results, near) # batches) =
     (if length results \<noteq> length near then ([], Some (WindowCount (length results) (length near)))
      else (case push_all lines u (zip results near) of
          (rows, Inl e) \<Rightarrow> (rows, Some e)
        | (rows, Inr u) \<Rightarrow>
            (case write_context_batches lines u failed batches of (later, e) \<Rightarrow> (rows @ later, e))))"

section \<open>Entries of an ordered map\<close>

lemma entry_below:
  "\<forall>(k' :: int, v') \<in> set m. k < k' \<Longrightarrow> entry_or_insert k v f m = (k, f v) # m"
  by (cases m) auto

lemma entry_of_filter:
  assumes "sorted_wrt (\<lambda>x y. key x < key y) xs" and "r \<in> set xs"
  shows "entry_or_insert (key r :: int) (g r) f (map (\<lambda>x. (key x, g x)) (filter Q xs)) =
    map (\<lambda>x. (key x, if x = r then f (g x) else g x)) (filter (\<lambda>x. Q x \<or> x = r) xs)"
  using assms
proof (induction xs)
  case Nil
  then show ?case by simp
next
  case (Cons x xs)
  have later: "\<forall>y \<in> set xs. key x < key y" "sorted_wrt (\<lambda>x y. key x < key y) xs"
    using Cons.prems(1) by simp_all
  show ?case
  proof (cases "r = x")
    case True
    have other: "\<forall>y \<in> set xs. y \<noteq> r"
      using later(1) True by auto
    then have same: "filter (\<lambda>y. Q y \<or> y = r) xs = filter Q xs"
      "map (\<lambda>y. (key y, if y = r then f (g y) else g y)) (filter Q xs) = map (\<lambda>y. (key y, g y)) (filter Q xs)"
      by (auto intro: filter_cong)
    show ?thesis
      using True later(1) same by (auto simp: entry_below)
  next
    case False
    then have "r \<in> set xs" "key x < key r"
      using Cons.prems(2) later(1) by auto
    then show ?thesis
      using Cons.IH [OF later(2)] False by auto
  qed
qed

lemma insert_window_filter:
  assumes "sorted_wrt (\<lambda>x y. mh_seq x < mh_seq y) xs" and "\<forall>x \<in> set xs. mh_session_id x = session"
    and "set hits \<subseteq> set xs"
  shows "insert_window session last_emitted hits (map (\<lambda>x. (mh_seq x, surrounding x)) (filter Q xs)) =
    Inr (map (\<lambda>x. (mh_seq x, surrounding x))
      (filter (\<lambda>x. Q x \<or> x \<in> set hits \<and> is_none_or last_emitted (\<lambda>e. e < mh_seq x)) xs))"
  using assms(3)
proof (induction hits arbitrary: Q)
  case Nil
  then show ?case by simp
next
  case (Cons h hits)
  have h: "h \<in> set xs" "mh_session_id h = session"
    using Cons.prems assms(2) by auto
  note step = entry_of_filter [OF assms(1) h(1), of surrounding "\<lambda>v. v"]
  show ?case
  proof (cases "is_none_or last_emitted (\<lambda>e. e < mh_seq h)")
    case True
    have "insert_window session last_emitted (h # hits) (map (\<lambda>x. (mh_seq x, surrounding x)) (filter Q xs)) =
      insert_window session last_emitted hits
        (map (\<lambda>x. (mh_seq x, surrounding x)) (filter (\<lambda>x. Q x \<or> x = h) xs))"
      using True h(2) by (simp add: step)
    also have "\<dots> = Inr (map (\<lambda>x. (mh_seq x, surrounding x)) (filter (\<lambda>x. (Q x \<or> x = h) \<or>
        x \<in> set hits \<and> is_none_or last_emitted (\<lambda>e. e < mh_seq x)) xs))"
      using Cons by simp
    also have "filter (\<lambda>x. (Q x \<or> x = h) \<or> x \<in> set hits \<and> is_none_or last_emitted (\<lambda>e. e < mh_seq x)) xs =
      filter (\<lambda>x. Q x \<or> x \<in> set (h # hits) \<and> is_none_or last_emitted (\<lambda>e. e < mh_seq x)) xs"
      using True by (intro filter_cong) auto
    finally show ?thesis .
  next
    case False
    have "filter (\<lambda>x. Q x \<or> x \<in> set hits \<and> is_none_or last_emitted (\<lambda>e. e < mh_seq x)) xs =
      filter (\<lambda>x. Q x \<or> x \<in> set (h # hits) \<and> is_none_or last_emitted (\<lambda>e. e < mh_seq x)) xs"
      using False by (intro filter_cong) auto
    then show ?thesis
      using Cons False h(2) by simp
  qed
qed

lemma pop_ready_filter:
  assumes "sorted_wrt (\<lambda>x y. key x < key y) xs"
  shows "\<exists>e. pop_ready n ready last_emitted (map (\<lambda>x. (key x, h x)) xs) =
    (ready @ map h (filter (\<lambda>x. key x \<le> n) xs), e, map (\<lambda>x. (key x, h x)) (filter (\<lambda>x. n < key x) xs)) \<and>
    (r \<in> set xs \<longrightarrow> key r = n \<longrightarrow> mh_seq (pr_hit (h r)) = n \<longrightarrow> e = Some n)"
  using assms
proof (induction xs arbitrary: ready last_emitted)
  case Nil
  then show ?case by simp
next
  case (Cons x xs)
  have later: "\<forall>y \<in> set xs. key x < key y" "sorted_wrt (\<lambda>x y. key x < key y) xs"
    using Cons.prems by simp_all
  show ?case
  proof (cases "key x \<le> n")
    case True
    obtain e where e: "pop_ready n (ready @ [h x]) (Some (mh_seq (pr_hit (h x)))) (map (\<lambda>x. (key x, h x)) xs) =
      ((ready @ [h x]) @ map h (filter (\<lambda>x. key x \<le> n) xs), e,
        map (\<lambda>x. (key x, h x)) (filter (\<lambda>x. n < key x) xs))"
      "r \<in> set xs \<longrightarrow> key r = n \<longrightarrow> mh_seq (pr_hit (h r)) = n \<longrightarrow> e = Some n"
      using Cons.IH [OF later(2)] by blast
    have "r = x \<longrightarrow> key r = n \<longrightarrow> mh_seq (pr_hit (h r)) = n \<longrightarrow> e = Some n"
    proof (intro impI)
      assume r: "r = x" "key r = n" "mh_seq (pr_hit (h r)) = n"
      then have "filter (\<lambda>x. key x \<le> n) xs = []"
        using later(1) by (auto simp: filter_empty_conv)
      moreover have "pop_ready n (ready @ [h x]) (Some n) (map (\<lambda>x. (key x, h x)) xs) =
        (ready @ [h x], Some n, map (\<lambda>x. (key x, h x)) xs)"
        using later(1) r by (cases xs) auto
      ultimately show "e = Some n"
        using e(1) r by simp
    qed
    then show ?thesis
      using True e by (intro exI [of _ e]) auto
  next
    case False
    then have "filter (\<lambda>x. key x \<le> n) xs = []" "filter (\<lambda>x. n < key x) xs = xs"
      using later(1) by (auto simp: filter_empty_conv filter_id_conv)
    then show ?thesis
      using False later(1) by (intro exI [of _ last_emitted]) auto
  qed
qed

section \<open>What the union writes\<close>

definition key_before :: "message_hit \<Rightarrow> message_hit \<Rightarrow> bool" where
  "key_before r q \<longleftrightarrow> mh_session_id r < mh_session_id q \<or> mh_session_id r = mh_session_id q \<and> mh_seq r < mh_seq q"

definition near :: "int \<Rightarrow> int \<Rightarrow> message_hit \<Rightarrow> message_hit \<Rightarrow> bool" where
  "near before after a r \<longleftrightarrow> mh_session_id r = mh_session_id a \<and> seq_between (mh_seq a) before after r"

definition near_any :: "int \<Rightarrow> int \<Rightarrow> enriched_hit list \<Rightarrow> message_hit \<Rightarrow> bool" where
  "near_any before after anchors r \<longleftrightarrow> (\<exists>a \<in> set anchors. near before after (eh_message a) r)"

text \<open>A row as it is shown: a hit with its evidence, any other row as context.\<close>

definition marked :: "enriched_hit list \<Rightarrow> message_hit \<Rightarrow> pending_row" where
  "marked anchors r =
     (case find (\<lambda>a. eh_message a = r) anchors of
        None \<Rightarrow> surrounding r
      | Some a \<Rightarrow> mark_match (eh_evidence a) (surrounding r))"

lemma marked_other: "r \<notin> eh_message ` set anchors \<Longrightarrow> marked anchors r = surrounding r"
  by (auto simp: marked_def find_None_iff split: option.splits dest!: find_SomeD)

lemma marked_snoc:
  "marked (anchors @ [b]) r =
     (if r = eh_message b \<and> r \<notin> eh_message ` set anchors then mark_match (eh_evidence b) (surrounding r)
      else marked anchors r)"
  by (induction anchors) (auto simp: marked_def)

lemma filter_parts:
  assumes "sorted_wrt R xs" and "\<forall>x \<in> set xs. \<forall>y \<in> set xs. P x \<longrightarrow> Q y \<longrightarrow> \<not> R y x"
    and "\<forall>x \<in> set xs. \<not> (P x \<and> Q x)"
  shows "filter P xs @ filter Q xs = filter (\<lambda>x. P x \<or> Q x) xs"
  using assms
proof (induction xs)
  case Nil
  then show ?case by simp
next
  case (Cons x xs)
  then have ih: "filter P xs @ filter Q xs = filter (\<lambda>x. P x \<or> Q x) xs"
    by simp
  show ?case
  proof (cases "Q x")
    case True
    then have "\<forall>y \<in> set xs. \<not> P y"
      using Cons.prems by auto
    then have "filter P xs = []"
      by (auto simp: filter_empty_conv)
    then show ?thesis
      using True ih Cons.prems(3) by auto
  next
    case False
    then show ?thesis
      using ih by auto
  qed
qed

lemma key_order:
  "key_before a b \<Longrightarrow> key_before b c \<Longrightarrow> key_before a c" "\<not> key_before a a" "key_before a b \<Longrightarrow> \<not> key_before b a"
  by (auto simp: key_before_def)

lemma key_before_session: "mh_session_id a = mh_session_id b \<Longrightarrow> key_before a b \<longleftrightarrow> mh_seq a < mh_seq b"
  by (auto simp: key_before_def)

lemma session_rows:
  assumes "sorted_wrt key_before rows"
  shows "sorted_wrt (\<lambda>x y. mh_seq x < mh_seq y) (filter (\<lambda>r. mh_session_id r = s) rows)"
proof -
  have "sorted_wrt key_before (filter (\<lambda>r. mh_session_id r = s) rows)"
    using assms by (rule sorted_wrt_filter)
  then show ?thesis
    by (rule sorted_wrt_mono_rel [rotated]) (auto simp: key_before_def)
qed

lemma near_self: "0 \<le> before \<Longrightarrow> 0 \<le> after \<Longrightarrow> i64 (mh_seq a) \<Longrightarrow> near before after a a"
  by (auto simp: near_def seq_between_def i64_saturating_sub_def i64_saturating_add_def i64_def)

lemma near_earlier:
  assumes "0 \<le> after" and "i64 (mh_seq a)" and "mh_session_id a = mh_session_id b" and "mh_seq a < mh_seq b"
    and "near before after b r" and "mh_seq r \<le> mh_seq a"
  shows "near before after a r"
  using assms by (auto simp: near_def seq_between_def i64_saturating_sub_def i64_saturating_add_def i64_def)

lemma push_core:
  fixes rows :: "message_hit list" and anchor :: enriched_hit
  defines "b \<equiv> eh_message anchor"
  defines "xs \<equiv> filter (\<lambda>r. mh_session_id r = mh_session_id b) rows"
  assumes "sorted_wrt key_before rows" and "b \<in> set rows" and "set window \<subseteq> set xs"
    and "enter_session (mh_session_id b) u = Inr (ready, v)"
    and "is_none_or (wu_last_anchor v) (\<lambda>l. l < mh_seq b)" and "is_none_or (wu_last_emitted v) (\<lambda>l. l < mh_seq b)"
    and "wu_pending v = map (\<lambda>x. (mh_seq x, surrounding x)) (filter Q xs)"
  defines "Q' \<equiv> \<lambda>x. (Q x \<or> x \<in> set window \<and> is_none_or (wu_last_emitted v) (\<lambda>e. e < mh_seq x)) \<or> x = b"
  shows "push_anchor anchor window u =
    Inr (ready @ map (\<lambda>x. if x = b then mark_match (eh_evidence anchor) (surrounding x) else surrounding x)
           (filter (\<lambda>x. Q' x \<and> mh_seq x \<le> mh_seq b) xs),
         v\<lparr>wu_last_anchor := Some (mh_seq b), wu_last_emitted := Some (mh_seq b),
           wu_pending := map (\<lambda>x. (mh_seq x, surrounding x)) (filter (\<lambda>x. Q' x \<and> mh_seq b < mh_seq x) xs)\<rparr>)"
proof -
  define h where "h = (\<lambda>x. if x = b then mark_match (eh_evidence anchor) (surrounding x) else surrounding x)"
  have sorted: "sorted_wrt (\<lambda>x y. mh_seq x < mh_seq y) xs"
    using session_rows [OF assms(3)] by (simp add: xs_def)
  have sessions: "\<forall>x \<in> set xs. mh_session_id x = mh_session_id b" and b: "b \<in> set xs"
    using assms(4) by (simp_all add: xs_def)
  define Q1 where "Q1 = (\<lambda>x. Q x \<or> x \<in> set window \<and> is_none_or (wu_last_emitted v) (\<lambda>e. e < mh_seq x))"
  have one: "insert_window (mh_session_id b) (wu_last_emitted v) window (wu_pending v) =
    Inr (map (\<lambda>x. (mh_seq x, surrounding x)) (filter Q1 xs))"
    unfolding assms(9) Q1_def by (rule insert_window_filter [OF sorted sessions assms(5)])
  have two: "entry_or_insert (mh_seq b) (surrounding b) (mark_match (eh_evidence anchor))
      (map (\<lambda>x. (mh_seq x, surrounding x)) (filter Q1 xs)) = map (\<lambda>x. (mh_seq x, h x)) (filter Q' xs)"
    using entry_of_filter [OF sorted b, of surrounding "mark_match (eh_evidence anchor)" Q1]
    by (simp add: Q'_def Q1_def h_def)
  have "sorted_wrt (\<lambda>x y. mh_seq x < mh_seq y) (filter Q' xs)"
    using sorted by (rule sorted_wrt_filter)
  from pop_ready_filter [OF this, of "mh_seq b" ready "wu_last_emitted v" h b]
  have three: "pop_ready (mh_seq b) ready (wu_last_emitted v) (map (\<lambda>x. (mh_seq x, h x)) (filter Q' xs)) =
      (ready @ map h (filter (\<lambda>x. mh_seq x \<le> mh_seq b) (filter Q' xs)), Some (mh_seq b),
       map (\<lambda>x. (mh_seq x, h x)) (filter (\<lambda>x. mh_seq b < mh_seq x) (filter Q' xs)))"
    using b by (auto simp: Q'_def h_def mark_match_def surrounding_def)
  have plain: "map (\<lambda>x. (mh_seq x, h x)) (filter (\<lambda>x. Q' x \<and> mh_seq b < mh_seq x) xs) =
      map (\<lambda>x. (mh_seq x, surrounding x)) (filter (\<lambda>x. Q' x \<and> mh_seq b < mh_seq x) xs)"
    by (auto simp: h_def)
  have kept: "filter (\<lambda>x. mh_seq x \<le> mh_seq b) (filter Q' xs) = filter (\<lambda>x. Q' x \<and> mh_seq x \<le> mh_seq b) xs"
    by (simp add: conj_commute)
  show ?thesis
    unfolding push_anchor_def Let_def b_def [symmetric] assms(6) res_bind_simps split h_def [symmetric]
    using assms(7,8) by (simp add: one two three plain kept)
qed

definition in_context :: "int \<Rightarrow> int \<Rightarrow> (message_hit \<Rightarrow> bool) \<Rightarrow> enriched_hit list \<Rightarrow> message_hit \<Rightarrow> bool" where
  "in_context before after visible anchors r \<longleftrightarrow> near_any before after anchors r \<and> visible r"

text \<open>The rows up to the last hit are settled; the union holds those behind it in its session.\<close>

definition settled :: "enriched_hit list \<Rightarrow> message_hit \<Rightarrow> bool" where
  "settled anchors r \<longleftrightarrow> anchors \<noteq> [] \<and> \<not> key_before (eh_message (last anchors)) r"

definition union_after ::
  "message_hit list \<Rightarrow> (message_hit \<Rightarrow> bool) \<Rightarrow> enriched_hit list \<Rightarrow> window_union \<Rightarrow> bool" where
  "union_after rows shown anchors u \<longleftrightarrow>
     (if anchors = [] then u = empty_union
      else
        let a = eh_message (last anchors)
        in wu_session u = Some (mh_session_id a) \<and> wu_last_anchor u = Some (mh_seq a) \<and>
           wu_last_emitted u = Some (mh_seq a) \<and>
           wu_pending u = map (\<lambda>r. (mh_seq r, surrounding r))
             (filter (\<lambda>r. shown r \<and> \<not> settled anchors r) (filter (\<lambda>r. mh_session_id r = mh_session_id a) rows)))"

definition given_out :: "message_hit list \<Rightarrow> (message_hit \<Rightarrow> bool) \<Rightarrow> enriched_hit list \<Rightarrow> pending_row list" where
  "given_out rows shown anchors = map (marked anchors) (filter (\<lambda>r. shown r \<and> settled anchors r) rows)"

lemma in_context_snoc:
  "in_context before after visible (anchors @ [anchor]) r \<longleftrightarrow>
     in_context before after visible anchors r \<or> near before after (eh_message anchor) r \<and> visible r"
  by (auto simp: in_context_def near_any_def)

lemma settled_snoc:
  assumes "sorted_wrt key_before (map eh_message (anchors @ [anchor]))" and "settled anchors r"
  shows "settled (anchors @ [anchor]) r" and "r \<noteq> eh_message anchor"
proof -
  have "key_before (eh_message (last anchors)) (eh_message anchor)"
    using assms by (auto simp: settled_def sorted_wrt_append)
  then show "settled (anchors @ [anchor]) r" "r \<noteq> eh_message anchor"
    using assms(2) key_order(1) unfolding settled_def by auto
qed

lemma settled_context:
  assumes "sorted_wrt key_before (map eh_message (anchors @ [anchor]))" and "0 \<le> after"
    and "\<forall>a \<in> set anchors. i64 (mh_seq (eh_message a))" and "settled anchors r"
  shows "in_context before after visible (anchors @ [anchor]) r \<longleftrightarrow> in_context before after visible anchors r"
proof -
  define a where "a = eh_message (last anchors)"
  have some: "anchors \<noteq> []"
    using assms(4) by (simp add: settled_def)
  have a: "last anchors \<in> set anchors" "key_before a (eh_message anchor)" "\<not> key_before a r" "i64 (mh_seq a)"
    using some assms by (simp_all add: settled_def sorted_wrt_append a_def)
  have "near before after a r" if "near before after (eh_message anchor) r"
  proof (rule near_earlier [OF assms(2) a(4) _ _ that])
    have r: "mh_session_id r = mh_session_id (eh_message anchor)"
      using that by (simp add: near_def)
    then show "mh_session_id a = mh_session_id (eh_message anchor)"
      using a(2,3) by (auto simp: key_before_def)
    then show "mh_seq a < mh_seq (eh_message anchor)" "mh_seq r \<le> mh_seq a"
      using a(2,3) r by (auto simp: key_before_def)
  qed
  then show ?thesis
    using a(1) unfolding in_context_snoc unfolding in_context_def near_any_def a_def by blast
qed

lemma unsettled_session:
  assumes "sorted_wrt key_before (map eh_message anchors)" and "anchors \<noteq> []"
    and "in_context before after visible anchors r" and "\<not> settled anchors r"
  shows "mh_session_id r = mh_session_id (eh_message (last anchors))"
proof -
  obtain a where a: "a \<in> set anchors" "mh_session_id r = mh_session_id (eh_message a)"
    using assms(3) by (auto simp: in_context_def near_any_def near_def)
  obtain front where front: "anchors = front @ [last anchors]"
    using assms(2) by (metis append_butlast_last_id)
  have "sorted_wrt key_before (map eh_message (front @ [last anchors]))"
    using assms(1) front by simp
  moreover have "a \<in> set front \<or> a = last anchors"
    using a(1) front by (metis Un_iff empty_iff empty_set set_ConsD set_append)
  ultimately have "a = last anchors \<or> key_before (eh_message a) (eh_message (last anchors))"
    by (auto simp: sorted_wrt_append)
  then show ?thesis
    using a(2) assms(2,4) by (auto simp: settled_def key_before_def)
qed

lemma enter_after:
  fixes anchors :: "enriched_hit list" and anchor :: enriched_hit
  defines "b \<equiv> eh_message anchor"
  assumes "sorted_wrt key_before (map eh_message (anchors @ [anchor]))"
    and "union_after rows shown anchors u" and "\<forall>r. shown r \<longrightarrow> settled anchors r \<or> anchors \<noteq> [] \<and>
      mh_session_id r = mh_session_id (eh_message (last anchors))"
  shows "\<exists>v. enter_session (mh_session_id b) u =
      Inr (map surrounding (filter (\<lambda>r. shown r \<and> \<not> settled anchors r \<and> mh_session_id r \<noteq> mh_session_id b) rows), v) \<and>
    wu_session v = Some (mh_session_id b) \<and>
    is_none_or (wu_last_anchor v) (\<lambda>l. l < mh_seq b) \<and> is_none_or (wu_last_emitted v) (\<lambda>l. l < mh_seq b) \<and>
    wu_pending v = map (\<lambda>x. (mh_seq x, surrounding x))
      (filter (\<lambda>r. shown r \<and> \<not> settled anchors r) (filter (\<lambda>r. mh_session_id r = mh_session_id b) rows)) \<and>
    (\<forall>x. mh_session_id x = mh_session_id b \<longrightarrow> is_none_or (wu_last_emitted v) (\<lambda>e. e < mh_seq x) \<longleftrightarrow> \<not> settled anchors x)"
proof (cases "anchors = []")
  case True
  then have none: "\<not> shown r" for r
    using assms(4) by (simp add: settled_def)
  show ?thesis
    using True assms(3) by (simp add: union_after_def enter_session_def empty_union_def drain_pending_def none
      is_none_or_def settled_def)
next
  case False
  define a where "a = eh_message (last anchors)"
  have ab: "key_before a b"
    using assms(2) False by (simp add: sorted_wrt_append a_def b_def)
  have state: "wu_session u = Some (mh_session_id a)" "wu_last_anchor u = Some (mh_seq a)"
    "wu_last_emitted u = Some (mh_seq a)"
    "wu_pending u = map (\<lambda>r. (mh_seq r, surrounding r))
       (filter (\<lambda>r. shown r \<and> \<not> settled anchors r) (filter (\<lambda>r. mh_session_id r = mh_session_id a) rows))"
    using assms(3) False by (simp_all add: union_after_def a_def Let_def)
  have unsettled: "settled anchors r \<or> mh_session_id r = mh_session_id a" if "shown r" for r
    using assms(4) that by (auto simp: a_def)
  show ?thesis
  proof (cases "mh_session_id a = mh_session_id b")
    case True
    have "filter (\<lambda>r. shown r \<and> \<not> settled anchors r \<and> mh_session_id r \<noteq> mh_session_id b) rows = []"
      using unsettled True by (auto simp: filter_empty_conv)
    moreover have "mh_seq a < mh_seq b"
      using ab True by (simp add: key_before_def)
    ultimately show ?thesis
      using True False state by (simp add: enter_session_def is_none_or_def settled_def a_def [symmetric] key_before_def)
  next
    case other: False
    then have less: "mh_session_id a < mh_session_id b"
      using ab by (simp add: key_before_def)
    have "filter (\<lambda>r. shown r \<and> \<not> settled anchors r \<and> mh_session_id r \<noteq> mh_session_id b) rows =
      filter (\<lambda>r. shown r \<and> \<not> settled anchors r) (filter (\<lambda>r. mh_session_id r = mh_session_id a) rows)"
      unfolding filter_filter using unsettled other by (intro filter_cong) auto
    moreover have "filter (\<lambda>r. shown r \<and> \<not> settled anchors r) (filter (\<lambda>r. mh_session_id r = mh_session_id b) rows) = []"
      using unsettled other by (fastforce simp: filter_empty_conv)
    ultimately show ?thesis
      using less other False state
      by (simp add: enter_session_def drain_pending_def is_none_or_def comp_def settled_def a_def [symmetric] key_before_def)
  qed
qed

lemma sorted_wrt_last: "sorted_wrt R xs \<Longrightarrow> x \<in> set xs \<Longrightarrow> x = last xs \<or> R x (last xs)"
  by (induction xs) (auto split: if_splits)

lemma emitted_parts:
  assumes rows: "sorted_wrt key_before rows"
    and early: "\<And>x y. st x \<Longrightarrow> \<not> st y \<Longrightarrow> \<not> key_before y x"
    and mid: "\<And>x. old x \<Longrightarrow> \<not> st x \<Longrightarrow> mh_session_id x \<noteq> sb \<Longrightarrow> mh_session_id x < sb"
    and here: "\<And>x. x \<in> set rows \<Longrightarrow> mh_session_id x = sb \<Longrightarrow> st' x \<longleftrightarrow> mh_seq x \<le> n"
    and past: "\<And>x. mh_session_id x < sb \<Longrightarrow> st' x" and kept: "\<And>x. st x \<Longrightarrow> st' x \<and> (new x \<longleftrightarrow> old x)"
    and other: "\<And>x. mh_session_id x \<noteq> sb \<Longrightarrow> new x \<longleftrightarrow> old x"
  shows "filter (\<lambda>r. new r \<and> st' r) rows =
    filter (\<lambda>r. old r \<and> st r) rows @ filter (\<lambda>r. old r \<and> \<not> st r \<and> mh_session_id r \<noteq> sb) rows @
    filter (\<lambda>r. mh_session_id r = sb \<and> new r \<and> \<not> st r \<and> mh_seq r \<le> n) rows"
proof -
  define A where "A = (\<lambda>r. old r \<and> st r)"
  define B where "B = (\<lambda>r. old r \<and> \<not> st r \<and> mh_session_id r \<noteq> sb)"
  define C where "C = (\<lambda>r. mh_session_id r = sb \<and> new r \<and> \<not> st r \<and> mh_seq r \<le> n)"
  have "filter B rows @ filter C rows = filter (\<lambda>x. B x \<or> C x) rows"
  proof (rule filter_parts [OF rows]; intro ballI impI notI)
    fix x y assume "B x" "C y" "key_before y x"
    then show False
      using mid [of x] by (auto simp: B_def C_def key_before_def)
  next
    fix x assume "B x \<and> C x"
    then show False
      unfolding B_def C_def by blast
  qed
  moreover have "filter A rows @ filter (\<lambda>x. B x \<or> C x) rows = filter (\<lambda>x. A x \<or> B x \<or> C x) rows"
  proof (rule filter_parts [OF rows]; intro ballI impI notI)
    fix x y assume "A x" "B y \<or> C y" "key_before y x"
    then show False
      using early [of x y] by (auto simp: A_def B_def C_def)
  next
    fix x assume "A x \<and> (B x \<or> C x)"
    then show False
      unfolding A_def B_def C_def by blast
  qed
  moreover have "filter (\<lambda>r. new r \<and> st' r) rows = filter (\<lambda>x. A x \<or> B x \<or> C x) rows"
    by (rule filter_cong [OF refl]) (use here kept other mid past in \<open>auto simp: A_def B_def C_def\<close>)
  ultimately show ?thesis
    unfolding A_def [symmetric] B_def [symmetric] C_def [symmetric] by simp
qed

lemma push_step:
  fixes anchors :: "enriched_hit list" and anchor :: enriched_hit
  defines "b \<equiv> eh_message anchor" and "wider \<equiv> anchors @ [anchor]"
  assumes rows: "sorted_wrt key_before rows" and order: "sorted_wrt key_before (map eh_message (anchors @ [anchor]))"
    and mem: "set (map eh_message (anchors @ [anchor])) \<subseteq> set rows" and vis: "visible b"
    and width: "0 \<le> before" "0 \<le> after" and bound: "\<forall>r \<in> set rows. i64 (mh_seq r)"
    and u: "union_after rows (in_context before after visible anchors) anchors u"
  shows "\<exists>ready v. push_anchor anchor (filter (\<lambda>r. near before after b r \<and> visible r) rows) u = Inr (ready, v) \<and>
    union_after rows (in_context before after visible wider) wider v \<and>
    given_out rows (in_context before after visible wider) wider =
      given_out rows (in_context before after visible anchors) anchors @ ready"
proof -
  define window where "window = filter (\<lambda>r. near before after b r \<and> visible r) rows"
  define xs where "xs = filter (\<lambda>r. mh_session_id r = mh_session_id b) rows"
  define h where "h = (\<lambda>x. if x = b then mark_match (eh_evidence anchor) (surrounding x) else surrounding x)"
  define old where "old = in_context before after visible anchors"
  define new where "new = in_context before after visible wider"
  have b: "b \<in> set rows" "near before after b b"
    using mem near_self [OF width, of b] bound by (auto simp: b_def)
  have win: "set window \<subseteq> set xs"
    by (auto simp: window_def xs_def near_def)
  have new: "new r \<longleftrightarrow> old r \<or> near before after b r \<and> visible r" for r
    by (simp add: new_def old_def wider_def b_def in_context_snoc)
  have bounded: "\<forall>a \<in> set anchors. i64 (mh_seq (eh_message a))"
    using mem bound by auto
  have sets: "settled wider r" "r \<noteq> b" "new r \<longleftrightarrow> old r" if "settled anchors r" for r
    using settled_snoc [OF order that] settled_context [OF order width(2) bounded that]
    by (simp_all add: wider_def b_def new_def old_def)
  have sb: "\<not> settled anchors b"
    using sets(2) by blast
  have order': "sorted_wrt key_before (map eh_message anchors)"
    using order by (simp add: sorted_wrt_append)
  have last: "\<forall>r. old r \<longrightarrow> settled anchors r \<or> anchors \<noteq> [] \<and>
      mh_session_id r = mh_session_id (eh_message (last anchors))"
  proof (intro allI impI)
    fix r assume "old r"
    then have "anchors \<noteq> []"
      by (auto simp: old_def in_context_def near_any_def)
    then show "settled anchors r \<or> anchors \<noteq> [] \<and> mh_session_id r = mh_session_id (eh_message (last anchors))"
      using unsettled_session [OF order' \<open>anchors \<noteq> []\<close>, of before after visible r] \<open>old r\<close> by (auto simp: old_def)
  qed
  obtain v where v: "enter_session (mh_session_id b) u =
      Inr (map surrounding (filter (\<lambda>r. old r \<and> \<not> settled anchors r \<and> mh_session_id r \<noteq> mh_session_id b) rows), v)"
    "wu_session v = Some (mh_session_id b)"
    "is_none_or (wu_last_anchor v) (\<lambda>l. l < mh_seq b)" "is_none_or (wu_last_emitted v) (\<lambda>l. l < mh_seq b)"
    "wu_pending v = map (\<lambda>x. (mh_seq x, surrounding x)) (filter (\<lambda>r. old r \<and> \<not> settled anchors r) xs)"
    "\<forall>x. mh_session_id x = mh_session_id b \<longrightarrow>
       is_none_or (wu_last_emitted v) (\<lambda>e. e < mh_seq x) \<longleftrightarrow> \<not> settled anchors x"
    using enter_after [OF order u last [unfolded old_def]] unfolding b_def xs_def old_def by blast
  define Q where "Q = (\<lambda>x. ((old x \<and> \<not> settled anchors x) \<or>
      x \<in> set window \<and> is_none_or (wu_last_emitted v) (\<lambda>e. e < mh_seq x)) \<or> x = b)"
  have Q: "Q x \<longleftrightarrow> new x \<and> \<not> settled anchors x" if "x \<in> set xs" for x
    using that v(6) b vis sb by (auto simp: Q_def xs_def window_def new)
  have below: "settled wider x \<longleftrightarrow> mh_seq x \<le> mh_seq b" if "x \<in> set xs" for x
    using that by (auto simp: settled_def wider_def xs_def key_before_def b_def [symmetric])
  have push: "push_anchor anchor window u =
    Inr (map surrounding (filter (\<lambda>r. old r \<and> \<not> settled anchors r \<and> mh_session_id r \<noteq> mh_session_id b) rows) @
         map h (filter (\<lambda>x. Q x \<and> mh_seq x \<le> mh_seq b) xs),
       v\<lparr>wu_last_anchor := Some (mh_seq b), wu_last_emitted := Some (mh_seq b),
         wu_pending := map (\<lambda>x. (mh_seq x, surrounding x)) (filter (\<lambda>x. Q x \<and> mh_seq b < mh_seq x) xs)\<rparr>)"
    unfolding Q_def h_def b_def xs_def
    by (rule push_core [OF rows b(1) [unfolded b_def] win [unfolded xs_def b_def] v(1) [unfolded b_def]
          v(3) [unfolded b_def] v(4) [unfolded b_def] v(5) [unfolded b_def xs_def]])
  have pend: "filter (\<lambda>x. Q x \<and> mh_seq b < mh_seq x) xs = filter (\<lambda>x. new x \<and> \<not> settled wider x) xs"
    using Q below sets(1) by (intro filter_cong) auto
  have after: "union_after rows new wider (v\<lparr>wu_last_anchor := Some (mh_seq b), wu_last_emitted := Some (mh_seq b),
         wu_pending := map (\<lambda>x. (mh_seq x, surrounding x)) (filter (\<lambda>x. Q x \<and> mh_seq b < mh_seq x) xs)\<rparr>)"
    using v(2) by (simp add: union_after_def wider_def b_def [symmetric] pend [unfolded wider_def])
      (simp add: xs_def)
  have here: "filter (\<lambda>x. Q x \<and> mh_seq x \<le> mh_seq b) xs =
    filter (\<lambda>r. mh_session_id r = mh_session_id b \<and> new r \<and> \<not> settled anchors r \<and> mh_seq r \<le> mh_seq b) rows"
    using Q unfolding xs_def filter_filter by (intro filter_cong) auto
  have front: "filter (\<lambda>r. new r \<and> settled wider r) rows =
    filter (\<lambda>r. old r \<and> settled anchors r) rows @
    filter (\<lambda>r. old r \<and> \<not> settled anchors r \<and> mh_session_id r \<noteq> mh_session_id b) rows @
    filter (\<lambda>x. Q x \<and> mh_seq x \<le> mh_seq b) xs"
    unfolding here
  proof (rule emitted_parts [OF rows])
    show "\<not> key_before y x" if "settled anchors x" "\<not> settled anchors y" for x y
      using that key_order(1) unfolding settled_def by blast
    show "mh_session_id x < mh_session_id b" if "old x" "\<not> settled anchors x" "mh_session_id x \<noteq> mh_session_id b" for x
    proof -
      have "anchors \<noteq> []" "mh_session_id x = mh_session_id (eh_message (last anchors))"
        using that last by auto
      moreover from this have "key_before (eh_message (last anchors)) b"
        using order by (simp add: sorted_wrt_append b_def)
      ultimately show ?thesis
        using that by (auto simp: key_before_def)
    qed
    show "settled wider x \<longleftrightarrow> mh_seq x \<le> mh_seq b" if "x \<in> set rows" "mh_session_id x = mh_session_id b" for x
      using below [of x] that by (simp add: xs_def)
    show "settled wider x" if "mh_session_id x < mh_session_id b" for x
      using that by (auto simp: settled_def wider_def key_before_def b_def)
    show "settled wider x \<and> (new x \<longleftrightarrow> old x)" if "settled anchors x" for x
      using sets [OF that] by simp
    show "new x \<longleftrightarrow> old x" if "mh_session_id x \<noteq> mh_session_id b" for x
      using that by (auto simp: new near_def)
  qed
  have first: "map (marked wider) (filter (\<lambda>r. old r \<and> settled anchors r) rows) =
    map (marked anchors) (filter (\<lambda>r. old r \<and> settled anchors r) rows)"
    using sets(2) by (auto simp: marked_snoc wider_def b_def)
  have rest: "marked wider r = h r" if "\<not> settled anchors r" for r
  proof -
    have "r \<notin> eh_message ` set anchors"
    proof
      assume "r \<in> eh_message ` set anchors"
      then obtain a where a: "a \<in> set anchors" "r = eh_message a" "anchors \<noteq> []"
        by (metis imageE empty_iff empty_set)
      then have "r = eh_message (last anchors) \<or> key_before r (eh_message (last anchors))"
        using sorted_wrt_last [OF order', of r] by (auto simp: last_map)
      then show False
        using that a key_order(2,3) by (auto simp: settled_def)
    qed
    then show ?thesis
      by (simp add: wider_def marked_snoc marked_other h_def b_def)
  qed
  have second: "map (marked wider) (filter (\<lambda>r. old r \<and> \<not> settled anchors r \<and> mh_session_id r \<noteq> mh_session_id b) rows) =
    map surrounding (filter (\<lambda>r. old r \<and> \<not> settled anchors r \<and> mh_session_id r \<noteq> mh_session_id b) rows)"
    using rest by (auto simp: h_def)
  have third: "map (marked wider) (filter (\<lambda>x. Q x \<and> mh_seq x \<le> mh_seq b) xs) =
    map h (filter (\<lambda>x. Q x \<and> mh_seq x \<le> mh_seq b) xs)"
    using rest Q by auto
  show ?thesis
    unfolding window_def [symmetric] push new_def [symmetric] old_def [symmetric]
    using after unfolding given_out_def front map_append first second third by (intro exI conjI refl) simp_all
qed

lemma push_all_union:
  assumes rows: "sorted_wrt key_before rows" "\<forall>r \<in> set rows. i64 (mh_seq r)" and width: "0 \<le> before" "0 \<le> after"
    and "sorted_wrt key_before (map eh_message (anchors @ more_anchors))"
    and "set (map eh_message (anchors @ more_anchors)) \<subseteq> set rows"
    and "\<forall>a \<in> set more_anchors. visible (eh_message a)"
    and "union_after rows (in_context before after visible anchors) anchors u"
  shows "\<exists>out v. push_all lines u (map (\<lambda>a. (a, filter (\<lambda>r. near before after (eh_message a) r \<and> visible r) rows)) more_anchors) =
      (map (from_pending lines) out, Inr v) \<and>
    union_after rows (in_context before after visible (anchors @ more_anchors)) (anchors @ more_anchors) v \<and>
    given_out rows (in_context before after visible (anchors @ more_anchors)) (anchors @ more_anchors) =
      given_out rows (in_context before after visible anchors) anchors @ out"
  using assms(5-8)
proof (induction more_anchors arbitrary: anchors u)
  case Nil
  then show ?case by simp
next
  case (Cons a as)
  have order: "sorted_wrt key_before (map eh_message (anchors @ [a]))"
    "set (map eh_message (anchors @ [a])) \<subseteq> set rows" "visible (eh_message a)"
    using Cons.prems by (auto simp: sorted_wrt_append)
  obtain ready v where step:
    "push_anchor a (filter (\<lambda>r. near before after (eh_message a) r \<and> visible r) rows) u = Inr (ready, v)"
    "union_after rows (in_context before after visible (anchors @ [a])) (anchors @ [a]) v"
    "given_out rows (in_context before after visible (anchors @ [a])) (anchors @ [a]) =
      given_out rows (in_context before after visible anchors) anchors @ ready"
    using push_step [where visible = visible, OF rows(1) order width rows(2) Cons.prems(4)] by blast
  obtain out w where rest:
    "push_all lines v (map (\<lambda>a. (a, filter (\<lambda>r. near before after (eh_message a) r \<and> visible r) rows)) as) =
      (map (from_pending lines) out, Inr w)"
    "union_after rows (in_context before after visible (anchors @ a # as)) (anchors @ a # as) w"
    "given_out rows (in_context before after visible (anchors @ a # as)) (anchors @ a # as) =
      given_out rows (in_context before after visible (anchors @ [a])) (anchors @ [a]) @ out"
    using Cons.IH [of "anchors @ [a]" v] Cons.prems step(2) by auto
  show ?case
    using rest(2) by (intro exI [of _ "ready @ out"] exI [of _ w]) (simp add: step rest)
qed

lemma drained_union:
  assumes "sorted_wrt key_before rows" and "sorted_wrt key_before (map eh_message anchors)"
    and "union_after rows (in_context before after visible anchors) anchors u"
  shows "given_out rows (in_context before after visible anchors) anchors @ drain_pending u =
    map (marked anchors) (filter (in_context before after visible anchors) rows)"
proof (cases "anchors = []")
  case True
  then show ?thesis
    using assms(3) by (simp add: union_after_def given_out_def empty_union_def drain_pending_def in_context_def near_any_def)
next
  case False
  define shown where "shown = in_context before after visible anchors"
  define a where "a = eh_message (last anchors)"
  have unsettled: "mh_session_id r = mh_session_id a" if "shown r" "\<not> settled anchors r" for r
    using unsettled_session [OF assms(2) False, of before after visible r] that by (simp add: a_def shown_def)
  have later: "r \<notin> eh_message ` set anchors" if "\<not> settled anchors r" for r
  proof
    assume "r \<in> eh_message ` set anchors"
    then have "r = a \<or> key_before r a"
      using sorted_wrt_last [OF assms(2), of r] False by (auto simp: last_map a_def)
    then show False
      using that False key_order(2,3) by (auto simp: settled_def a_def)
  qed
  have "drain_pending u = map surrounding (filter (\<lambda>r. shown r \<and> \<not> settled anchors r)
      (filter (\<lambda>r. mh_session_id r = mh_session_id a) rows))"
    using assms(3) False by (simp add: union_after_def drain_pending_def comp_def Let_def a_def shown_def)
  also have "filter (\<lambda>r. shown r \<and> \<not> settled anchors r) (filter (\<lambda>r. mh_session_id r = mh_session_id a) rows) =
      filter (\<lambda>r. shown r \<and> \<not> settled anchors r) rows"
    unfolding filter_filter using unsettled by (intro filter_cong) auto
  also have "map surrounding (filter (\<lambda>r. shown r \<and> \<not> settled anchors r) rows) =
      map (marked anchors) (filter (\<lambda>r. shown r \<and> \<not> settled anchors r) rows)"
    using later by (auto simp: marked_other)
  finally have drain: "drain_pending u = map (marked anchors) (filter (\<lambda>r. shown r \<and> \<not> settled anchors r) rows)" .
  have "filter (\<lambda>r. shown r \<and> settled anchors r) rows @ filter (\<lambda>r. shown r \<and> \<not> settled anchors r) rows =
      filter (\<lambda>x. (shown x \<and> settled anchors x) \<or> (shown x \<and> \<not> settled anchors x)) rows"
  proof (rule filter_parts [OF assms(1)]; intro ballI impI notI)
    fix x y assume "shown x \<and> settled anchors x" "shown y \<and> \<not> settled anchors y" "key_before y x"
    then show False
      using key_order(1) unfolding settled_def by blast
  qed auto
  also have "\<dots> = filter shown rows"
    by (rule filter_cong) auto
  finally have parts: "filter (\<lambda>r. shown r \<and> settled anchors r) rows @
      filter (\<lambda>r. shown r \<and> \<not> settled anchors r) rows = filter shown rows" .
  show ?thesis
    unfolding drain given_out_def shown_def [symmetric] map_append [symmetric] parts ..
qed

lemma windows_near:
  assumes "context_windows_of rows visible b a hits = Inr near_rows" and "b \<noteq> 0 \<or> a \<noteq> 0"
  shows "near_rows = map (\<lambda>h. filter (\<lambda>r. near (int b) (int a) (eh_message h) r \<and> visible r) rows) hits"
  using assms
  by (auto simp: context_windows_of_def message_context_windows_def res_cases i64_try_from_def near_def
      intro!: filter_cong split: if_splits)

lemma write_union:
  assumes rows: "sorted_wrt key_before rows" "\<forall>r \<in> set rows. i64 (mh_seq r)" and width: "b \<noteq> 0 \<or> a \<noteq> 0"
    and "sorted_wrt key_before (map eh_message (anchors @ concat (map fst batches)))"
    and "set (map eh_message (anchors @ concat (map fst batches))) \<subseteq> set rows"
    and "\<forall>h \<in> set (concat (map fst batches)). visible (eh_message h)"
    and "\<forall>(hits, near_rows) \<in> set batches. context_windows_of rows visible b a hits = Inr near_rows"
    and "union_after rows (in_context (int b) (int a) visible anchors) anchors u"
    and "all = anchors @ concat (map fst batches)"
  shows "\<exists>out. write_context_batches lines u None batches = (map (from_pending lines) out, None) \<and>
    given_out rows (in_context (int b) (int a) visible anchors) anchors @ out =
      map (marked all) (filter (in_context (int b) (int a) visible all) rows)"
  using assms(4-9)
proof (induction batches arbitrary: anchors u)
  case Nil
  then show ?case
    using drained_union [OF rows(1), of anchors] by auto
next
  case (Cons batch batches)
  obtain hits near_rows where batch: "batch = (hits, near_rows)"
    by (cases batch)
  have near: "near_rows = map (\<lambda>h. filter (\<lambda>r. near (int b) (int a) (eh_message h) r \<and> visible r) rows) hits"
    using Cons.prems(4) windows_near [OF _ width] by (simp add: batch)
  have zip: "zip hits near_rows = map (\<lambda>h. (h, filter (\<lambda>r. near (int b) (int a) (eh_message h) r \<and> visible r) rows)) hits"
    unfolding near by (induction hits) auto
  have order: "sorted_wrt key_before (map eh_message (anchors @ hits))"
    "set (map eh_message (anchors @ hits)) \<subseteq> set rows" "\<forall>h \<in> set hits. visible (eh_message h)"
    using Cons.prems(1-3) by (auto simp: batch sorted_wrt_append)
  obtain out v where push: "push_all lines u (zip hits near_rows) = (map (from_pending lines) out, Inr v)"
    "union_after rows (in_context (int b) (int a) visible (anchors @ hits)) (anchors @ hits) v"
    "given_out rows (in_context (int b) (int a) visible (anchors @ hits)) (anchors @ hits) =
      given_out rows (in_context (int b) (int a) visible anchors) anchors @ out"
    using push_all_union [OF rows _ _ order Cons.prems(5), of lines] unfolding zip by auto
  obtain more_out where rest: "write_context_batches lines v None batches = (map (from_pending lines) more_out, None)"
    "given_out rows (in_context (int b) (int a) visible (anchors @ hits)) (anchors @ hits) @ more_out =
      map (marked all) (filter (in_context (int b) (int a) visible all) rows)"
    using Cons.IH [OF _ _ _ _ push(2)] Cons.prems(1-4,6) by (auto simp: batch)
  have "length hits = length near_rows"
    by (simp add: near)
  then have "write_context_batches lines u None (batch # batches) = (map (from_pending lines) (out @ more_out), None)"
    by (simp add: batch push(1) rest(1))
  moreover have "given_out rows (in_context (int b) (int a) visible anchors) anchors @ out @ more_out =
      map (marked all) (filter (in_context (int b) (int a) visible all) rows)"
    using rest(2) push(3) by simp
  ultimately show ?case
    by blast
qed

text \<open>
  C22: the rows written for a search with context are the union of the windows around its hits, each
  message once and in order, however the hits are spread over batches and however their windows
  overlap: a hit is marked and shows its evidence, any other row is context. It is so where no two
  messages share a session and a sequence number.
\<close>

theorem context_rows_are_the_union:
  assumes "sorted_wrt key_before rows" and "\<forall>r \<in> set rows. i64 (mh_seq r)"
    and "messages_before \<noteq> 0 \<or> messages_after \<noteq> 0" and "hits = concat (map fst batches)"
    and "sorted_wrt key_before (map eh_message hits)" and "eh_message ` set hits \<subseteq> {r \<in> set rows. visible r}"
    and "\<forall>(results, near_rows) \<in> set batches.
      context_windows_of rows visible messages_before messages_after results = Inr near_rows"
  shows "write_context_batches lines empty_union None batches =
    (map (from_pending lines \<circ> marked hits)
      (filter (in_context (int messages_before) (int messages_after) visible hits) rows), None)"
proof -
  have start: "union_after rows (in_context (int messages_before) (int messages_after) visible []) [] empty_union"
    "given_out rows (in_context (int messages_before) (int messages_after) visible []) [] = []"
    by (simp_all add: union_after_def given_out_def settled_def)
  have "\<exists>out. write_context_batches lines empty_union None batches = (map (from_pending lines) out, None) \<and>
    given_out rows (in_context (int messages_before) (int messages_after) visible []) [] @ out =
      map (marked hits) (filter (in_context (int messages_before) (int messages_after) visible hits) rows)"
    by (rule write_union [OF assms(1-3) _ _ _ assms(7) start(1)]) (use assms(4-6) in auto)
  then show ?thesis
    unfolding start(2) by auto
qed

definition plain_hit :: "int \<Rightarrow> scalars \<Rightarrow> message_hit" where
  "plain_hit n text = \<lparr>mh_session_id = ''s'', mh_provider = Codex, mh_seq = n, mh_role = RoleUser,
     mh_kind = KindConversation, mh_ts = None, mh_tool_name = None, mh_tool_call_id = None,
     mh_fuzzy_score = None, mh_content = text\<rparr>"

definition plain_match :: "message_hit \<Rightarrow> enriched_hit" where
  "plain_match m = \<lparr>eh_message = m, eh_evidence = None, eh_literal = None\<rparr>"

theorem context_rows_are_the_union_witness:
  "\<exists>near_rows. map cr_match (fst (write_context_batches 0 empty_union None
      [([plain_match (plain_hit 2 [65])], near_rows)])) = [False, True, False]"
proof -
  define rows where "rows = [plain_hit 1 [], plain_hit 2 [65], plain_hit 3 []]"
  have sorted: "sorted_wrt key_before rows"
    by (simp add: rows_def key_before_def plain_hit_def)
  have bounds: "\<forall>r \<in> set rows. i64 (mh_seq r)"
    by (simp add: rows_def plain_hit_def i64_def i64_min_def i64_max_def)
  obtain near_rows where near: "context_windows_of rows (\<lambda>_. True) 1 1 [plain_match (plain_hit 2 [65])] = Inr near_rows"
    by (simp add: context_windows_of_def message_context_windows_def i64_try_from_def i64_max_def)
  have "write_context_batches 0 empty_union None [([plain_match (plain_hit 2 [65])], near_rows)] =
    (map (from_pending 0 \<circ> marked [plain_match (plain_hit 2 [65])])
      (filter (in_context (int 1) (int 1) (\<lambda>_. True) [plain_match (plain_hit 2 [65])]) rows), None)"
    by (rule context_rows_are_the_union [OF sorted bounds, of 1 1])
      (use near in \<open>simp_all add: rows_def plain_match_def\<close>)
  then show ?thesis
    by (intro exI [of _ near_rows])
      (simp add: rows_def in_context_def near_any_def near_def seq_between_def plain_match_def plain_hit_def
        i64_saturating_sub_def i64_saturating_add_def i64_min_def i64_max_def marked_def from_pending_def
        mark_match_def surrounding_def)
qed

text \<open>
  C37: messages may share a session and a sequence number, and then the union is wrong. A hit whose
  number an earlier message of its window has is not written: the earlier message takes its place,
  marked as the match and with the evidence of the hit. If both match, the output stops with an error.
\<close>

theorem tied_rows_break_the_union:
  assumes "mh_session_id r = mh_session_id m" and "mh_seq r = mh_seq m" and "i64 (mh_seq m)"
    and "eh_message hit = m" and "eh_message other = r"
    and "context_windows_of [r, m] (\<lambda>_. True) messages_before messages_after [hit] = Inr one"
    and "context_windows_of [r, m] (\<lambda>_. True) messages_before messages_after [other, hit] = Inr two"
    and "messages_before \<noteq> 0 \<or> messages_after \<noteq> 0"
  shows "write_context_batches lines empty_union None [([hit], one)] =
      ([from_pending lines (mark_match (eh_evidence hit) (surrounding r))], None) \<and>
    write_context_batches lines empty_union None [([other, hit], two)] =
      ([from_pending lines (mark_match (eh_evidence other) (surrounding r))],
       Some (AnchorsUnordered (mh_session_id m) (mh_seq m) (mh_seq m)))"
proof -
  have near: "near (int messages_before) (int messages_after) x y" if "x \<in> {r, m}" "y \<in> {r, m}" for x y
    using near_self [of "int messages_before" "int messages_after" m] that assms(1-3) by (auto simp: near_def seq_between_def)
  have "one = [[r, m]]" "two = [[r, m], [r, m]]"
    using windows_near [OF assms(6,8)] windows_near [OF assms(7,8)] near assms(4,5) by simp_all
  then show ?thesis
    using assms(1-5)
    by (simp add: push_anchor_def enter_session_def empty_union_def is_none_or_def drain_pending_def surrounding_def
        mark_match_def Let_def)
qed

theorem tied_rows_break_the_union_witness:
  "\<exists>near_rows. map (mh_content \<circ> cr_hit) (fst (write_context_batches 0 empty_union None
      [([plain_match (plain_hit 2 [65])], near_rows)])) = [[66]]"
proof -
  define r where "r = plain_hit 2 [66]"
  define m where "m = plain_hit 2 [65]"
  obtain one two where near: "context_windows_of [r, m] (\<lambda>_. True) 1 0 [plain_match m] = Inr one"
    "context_windows_of [r, m] (\<lambda>_. True) 1 0 [plain_match r, plain_match m] = Inr two"
    by (simp add: context_windows_of_def message_context_windows_def i64_try_from_def i64_max_def)
  have "write_context_batches 0 empty_union None [([plain_match m], one)] =
    ([from_pending 0 (mark_match (eh_evidence (plain_match m)) (surrounding r))], None)"
    using tied_rows_break_the_union [OF _ _ _ _ _ near, of 0]
    by (simp add: r_def m_def plain_hit_def plain_match_def i64_def i64_min_def i64_max_def)
  then show ?thesis
    unfolding m_def
    by (intro exI [of _ one]) (simp add: r_def plain_hit_def from_pending_def mark_match_def surrounding_def
      select_message_lines_def)
qed

end
