(* ===== verification/Phrases.thy ===== *)
theory Phrases
  imports DisplayText OrderedMap "HOL-Library.Multiset"
begin

text \<open>
  Recurring phrases of \<open>analysis_pipeline.rs\<close>: the tokens of a text (\<open>normalized_tokens\<close> of
  \<open>analytics.rs\<close>), the filter for prose lines, the phrases of a document (\<open>phrase_delta\<close>), and the
  aggregator that takes the text in chunks (\<open>StreamingPhraseAggregator\<close>).

  The Unicode tables behind \<open>is_alphanumeric\<close>, \<open>is_numeric\<close>, \<open>is_alphabetic\<close> and \<open>to_lowercase\<close> are the
  fields of \<open>char_tables\<close>. A \<open>BTreeMap<String, u64>\<close> is an \<open>ordered_map\<close>: strings compare by their
  scalar values as by their bytes.
\<close>

section \<open>Tokens\<close>

record char_tables =
  ct_lower :: "scalar \<Rightarrow> scalars"
  ct_alphanumeric :: "scalar \<Rightarrow> bool"
  ct_numeric :: "scalar \<Rightarrow> bool"
  ct_alphabetic :: "scalar \<Rightarrow> bool"

fun token_loop :: "char_tables \<Rightarrow> scalars \<Rightarrow> scalars \<Rightarrow> scalars list" where
  "token_loop ct current [] = (if current \<noteq> [] then [current] else [])"
| "token_loop ct current (c # cs) =
     (if ct_alphanumeric ct c then token_loop ct (current @ fold_caseless_char (ct_lower ct) c) cs
      else if current \<noteq> [] then current # token_loop ct [] cs
      else token_loop ct [] cs)"

definition normalized_tokens :: "char_tables \<Rightarrow> scalars \<Rightarrow> scalars list" where
  "normalized_tokens ct content = token_loop ct [] content"

lemma token_loop_separator:
  "\<not> ct_alphanumeric ct c \<Longrightarrow> token_loop ct current (a @ c # b) = token_loop ct current a @ token_loop ct [] b"
  by (induction a arbitrary: current) auto

lemma tokens_separator:
  "\<not> ct_alphanumeric ct c \<Longrightarrow> normalized_tokens ct (a @ c # b) = normalized_tokens ct a @ normalized_tokens ct b"
  by (simp add: normalized_tokens_def token_loop_separator)

lemma tokens_Nil [simp]: "normalized_tokens ct [] = []"
  by (simp add: normalized_tokens_def)

section \<open>Prose\<close>

definition ascii_lower_scalar :: "scalar \<Rightarrow> scalar" where
  "ascii_lower_scalar c = (if 65 \<le> c \<and> c \<le> 90 then c + 32 else c)"

text \<open>\<open>split_once(d)\<close>, the part before the delimiter.\<close>

definition before_delimiter :: "scalar \<Rightarrow> scalars \<Rightarrow> scalars option" where
  "before_delimiter d s = (if d \<in> set s then Some (takeWhile (\<lambda>c. c \<noteq> d) s) else None)"

definition code_keywords :: "scalars list" where
  "code_keywords = map lit [''import'', ''from'', ''def'', ''class'', ''return'', ''if'', ''elif'', ''else'', ''for'',
     ''while'', ''try'', ''except'', ''with'', ''async'', ''await'']"

definition is_identifier_text :: "char_tables \<Rightarrow> scalars \<Rightarrow> bool" where
  "is_identifier_text ct s \<longleftrightarrow> s \<noteq> [] \<and> list_all (\<lambda>c. ct_alphanumeric ct c \<or> c = 95) s"

text \<open>The state is \<open>in_fence\<close>; the result is the new state and whether the line is kept.\<close>

definition keep_line :: "char_tables \<Rightarrow> bool \<Rightarrow> scalars \<Rightarrow> bool \<times> bool" where
  "keep_line ct in_fence line =
     (let trimmed = trim_start_matches is_whitespace line
      in if prefix (lit ''```'') trimmed then (\<not> in_fence, False)
         else if in_fence \<or> prefix (lit ''    '') line \<or> prefix [9] line then (in_fence, False)
         else
           let first_token = map ascii_lower_scalar
                 (takeWhile (\<lambda>c. ct_alphanumeric ct c \<or> c = 95) trimmed);
               keyword_code = (first_token \<in> set code_keywords);
               assignment = (case before_delimiter 61 trimmed of
                   Some l \<Rightarrow>
                     let identifier = trim l
                     in is_identifier_text ct identifier \<and>
                        (ct_alphabetic ct (hd identifier) \<or> hd identifier = 95)
                 | None \<Rightarrow> False);
               function_call = (case before_delimiter 40 trimmed of
                   Some l \<Rightarrow> is_identifier_text ct (trim l)
                 | None \<Rightarrow> False);
               structural_code = (prefix [123] trimmed \<or> prefix [91] trimmed \<or> prefix (lit ''</'') trimmed \<or>
                 prefix [35] trimmed \<or> assignment \<or> function_call)
           in (in_fence, \<not> (keyword_code \<or> structural_code)))"

fun prose_loop :: "char_tables \<Rightarrow> bool \<Rightarrow> scalars list \<Rightarrow> scalars" where
  "prose_loop ct in_fence [] = []"
| "prose_loop ct in_fence (line # ls) =
     (case keep_line ct in_fence line of
        (in_fence, keep) \<Rightarrow> (if keep then line @ [10] else []) @ prose_loop ct in_fence ls)"

definition prose_only :: "char_tables \<Rightarrow> scalars \<Rightarrow> scalars" where
  "prose_only ct content = prose_loop ct False (str_lines content)"

section \<open>The phrases of a document\<close>

datatype phrase_text_mode = UserTextMode | ProseOnlyMode

record phrase_spec =
  ps_widths :: "nat list"
  ps_max_unique :: nat
  ps_min_tokens :: nat
  ps_excluded :: "scalars list"
  ps_exclude_numeric :: bool
  ps_text_mode :: phrase_text_mode

datatype phrase_error = UniqueExceeded nat | OccurrenceOverflow scalars | TokenOverflow

type_synonym phrase_counts = "(scalars, nat) ordered_map"

definition passed_window :: "char_tables \<Rightarrow> phrase_spec \<Rightarrow> scalars list \<Rightarrow> bool" where
  "passed_window ct spec window \<longleftrightarrow>
     ps_exclude_numeric spec \<and> list_ex (list_ex (ct_numeric ct)) window \<or>
     (window \<noteq> [] \<and> hd window \<in> set (ps_excluded spec)) \<or>
     list_all (\<lambda>t. t \<in> set (ps_excluded spec)) window"

definition count_phrase :: "scalars \<Rightarrow> phrase_counts \<Rightarrow> phrase_error + phrase_counts" where
  "count_phrase phrase counts =
     (case usize_checked_add (case map_of counts phrase of None \<Rightarrow> 0 | Some n \<Rightarrow> n) 1 of
        None \<Rightarrow> Inl (OccurrenceOverflow phrase)
      | Some n \<Rightarrow> Inr (map_insert phrase n counts))"

fun window_loop :: "char_tables \<Rightarrow> phrase_spec \<Rightarrow> scalars list list \<Rightarrow> phrase_counts \<Rightarrow> phrase_error + phrase_counts" where
  "window_loop ct spec [] counts = Inr counts"
| "window_loop ct spec (window # ws) counts =
     (if passed_window ct spec window then window_loop ct spec ws counts
      else
        let phrase = join [32] window
        in if map_of counts phrase = None \<and> ps_max_unique spec \<le> length counts
           then Inl (UniqueExceeded (ps_max_unique spec))
           else res_bind (count_phrase phrase counts) (window_loop ct spec ws))"

fun width_loop :: "char_tables \<Rightarrow> phrase_spec \<Rightarrow> scalars list \<Rightarrow> nat list \<Rightarrow> phrase_counts \<Rightarrow> phrase_error + phrase_counts" where
  "width_loop ct spec tokens [] counts = Inr counts"
| "width_loop ct spec tokens (width # widths) counts =
     res_bind (window_loop ct spec (windows width tokens) counts) (width_loop ct spec tokens widths)"

definition phrase_delta :: "char_tables \<Rightarrow> phrase_spec \<Rightarrow> scalars \<Rightarrow> phrase_error + phrase_counts" where
  "phrase_delta ct spec content =
     (let content = (case ps_text_mode spec of UserTextMode \<Rightarrow> content | ProseOnlyMode \<Rightarrow> prose_only ct content);
          tokens = normalized_tokens ct content
      in if length tokens < ps_min_tokens spec then Inr []
         else width_loop ct spec tokens (ps_widths spec) [])"

section \<open>The phrases of a stream of chunks\<close>

record phrase_aggregator =
  ag_prose :: "(scalars \<times> bool) option"
  ag_recent :: "scalars list"
  ag_max_width :: nat
  ag_total :: nat
  ag_counts :: phrase_counts
  ag_exceeded :: bool

text \<open>\<open>widths.max().expect(..)\<close>: a compiled vocabulary has a width.\<close>

definition new_aggregator :: "phrase_spec \<Rightarrow> phrase_aggregator" where
  "new_aggregator spec =
     \<lparr>ag_prose = (if ps_text_mode spec = ProseOnlyMode then Some ([], False) else None), ag_recent = [],
      ag_max_width = fold max (ps_widths spec) 0, ag_total = 0, ag_counts = [], ag_exceeded = False\<rparr>"

fun push_widths ::
  "char_tables \<Rightarrow> phrase_spec \<Rightarrow> nat list \<Rightarrow> phrase_aggregator \<Rightarrow> phrase_error + phrase_aggregator" where
  "push_widths ct spec [] ag = Inr ag"
| "push_widths ct spec (width # widths) ag =
     (if length (ag_recent ag) < width then push_widths ct spec widths ag
      else
        let window = drop (length (ag_recent ag) - width) (ag_recent ag)
        in if passed_window ct spec window \<or> ag_exceeded ag then push_widths ct spec widths ag
           else
             let phrase = join [32] window
             in if map_of (ag_counts ag) phrase = None \<and> ps_max_unique spec \<le> length (ag_counts ag)
                then push_widths ct spec widths (ag\<lparr>ag_exceeded := True\<rparr>)
                else res_bind (count_phrase phrase (ag_counts ag))
                  (\<lambda>counts. push_widths ct spec widths (ag\<lparr>ag_counts := counts\<rparr>)))"

definition push_token ::
  "char_tables \<Rightarrow> phrase_spec \<Rightarrow> scalars \<Rightarrow> phrase_aggregator \<Rightarrow> phrase_error + phrase_aggregator" where
  "push_token ct spec token ag =
     (case usize_checked_add (ag_total ag) 1 of
        None \<Rightarrow> Inl TokenOverflow
      | Some n \<Rightarrow>
          let recent = ag_recent ag @ [token];
              recent = (if ag_max_width ag < length recent then tl recent else recent)
          in res_bind (push_widths ct spec (ps_widths spec) (ag\<lparr>ag_total := n, ag_recent := recent\<rparr>)) (\<lambda>ag.
               if ag_exceeded ag \<and> ps_min_tokens spec \<le> ag_total ag
               then Inl (UniqueExceeded (ps_max_unique spec)) else Inr ag))"

fun push_tokens ::
  "char_tables \<Rightarrow> phrase_spec \<Rightarrow> scalars list \<Rightarrow> phrase_aggregator \<Rightarrow> phrase_error + phrase_aggregator" where
  "push_tokens ct spec [] ag = Inr ag"
| "push_tokens ct spec (t # ts) ag = res_bind (push_token ct spec t ag) (push_tokens ct spec ts)"

text \<open>A complete line reaches the filter; \<open>ag_prose\<close> holds the incomplete one and the state of the fence.\<close>

definition process_prose_line ::
  "char_tables \<Rightarrow> phrase_spec \<Rightarrow> bool \<Rightarrow> scalars \<Rightarrow> scalars \<Rightarrow> phrase_aggregator \<Rightarrow> phrase_error + phrase_aggregator" where
  "process_prose_line ct spec in_fence rest line ag =
     (case keep_line ct in_fence line of
        (in_fence, keep) \<Rightarrow>
          let ag = ag\<lparr>ag_prose := Some (rest, in_fence)\<rparr>
          in if keep then push_tokens ct spec (normalized_tokens ct line) ag else Inr ag)"

fun push_parts ::
  "char_tables \<Rightarrow> phrase_spec \<Rightarrow> scalars list \<Rightarrow> phrase_aggregator \<Rightarrow> phrase_error + phrase_aggregator" where
  "push_parts ct spec [] ag = Inr ag"
| "push_parts ct spec (part # parts) ag =
     (case ag_prose ag of
        None \<Rightarrow> Inr ag
      | Some (pending, in_fence) \<Rightarrow>
          res_bind (process_prose_line ct spec in_fence part (strip_cr pending) ag) (push_parts ct spec parts))"

definition push_phrase_chunk ::
  "char_tables \<Rightarrow> phrase_spec \<Rightarrow> scalars \<Rightarrow> bool \<Rightarrow> phrase_aggregator \<Rightarrow> phrase_error + phrase_aggregator" where
  "push_phrase_chunk ct spec chunk joiner ag =
     (case ag_prose ag of
        None \<Rightarrow> push_tokens ct spec (normalized_tokens ct chunk) ag
      | Some (pending, in_fence) \<Rightarrow>
          let parts = split_on 10 chunk;
              pending = pending @ (if joiner then [32] else []) @ hd parts
          in push_parts ct spec (tl parts) (ag\<lparr>ag_prose := Some (pending, in_fence)\<rparr>))"

definition finish_phrases :: "char_tables \<Rightarrow> phrase_spec \<Rightarrow> phrase_aggregator \<Rightarrow> phrase_error + phrase_counts" where
  "finish_phrases ct spec ag =
     res_bind
       (case ag_prose ag of
          None \<Rightarrow> Inr ag
        | Some (pending, in_fence) \<Rightarrow>
            if pending \<noteq> [] then process_prose_line ct spec in_fence [] pending ag else Inr ag)
       (\<lambda>ag. if ag_total ag < ps_min_tokens spec then Inr []
         else if ag_exceeded ag then Inl (UniqueExceeded (ps_max_unique spec))
         else Inr (ag_counts ag))"

section \<open>Counting the phrases of a list of windows\<close>

text \<open>The phrases of a token list, as a multiset: those of the windows of every width that are not passed over.\<close>

definition phrases_of :: "char_tables \<Rightarrow> phrase_spec \<Rightarrow> scalars list list \<Rightarrow> scalars multiset" where
  "phrases_of ct spec ws = mset (map (join [32]) (filter (\<lambda>w. \<not> passed_window ct spec w) ws))"

lemma phrases_of_simps [simp]:
  "phrases_of ct spec [] = {#}"
  "phrases_of ct spec (w # ws) =
     (if passed_window ct spec w then phrases_of ct spec ws else add_mset (join [32] w) (phrases_of ct spec ws))"
  by (simp_all add: phrases_of_def)

lemma phrases_of_append: "phrases_of ct spec (vs @ ws) = phrases_of ct spec vs + phrases_of ct spec ws"
  by (induction vs) simp_all

lemma size_phrases_of: "size (phrases_of ct spec ws) \<le> length ws"
  by (induction ws) auto

fun all_phrases :: "char_tables \<Rightarrow> phrase_spec \<Rightarrow> nat list \<Rightarrow> scalars list \<Rightarrow> scalars multiset" where
  "all_phrases ct spec [] tokens = {#}"
| "all_phrases ct spec (width # widths) tokens =
     phrases_of ct spec (windows width tokens) + all_phrases ct spec widths tokens"

definition counts_of :: "scalars multiset \<Rightarrow> phrase_counts \<Rightarrow> bool" where
  "counts_of M m \<longleftrightarrow> ordered m \<and> map_of m = (\<lambda>p. if p \<in># M then Some (count M p) else None)"

lemma counts_of_unique: "counts_of M m \<Longrightarrow> counts_of M m' \<Longrightarrow> m = m'"
  by (auto simp: counts_of_def intro: ordered_map_eqI)

lemma counts_of_empty [simp]: "counts_of {#} []"
  by (simp add: counts_of_def fun_eq_iff)

lemma counts_of_length: "counts_of M m \<Longrightarrow> length m = card (set_mset M)"
proof -
  assume m: "counts_of M m"
  then have "fst ` set m = set_mset M"
    by (auto simp: counts_of_def dom_map_of_conv_image_fst [symmetric] dom_def split: if_splits)
  moreover have "ordered m"
    using m by (simp add: counts_of_def)
  ultimately show ?thesis
    using length_keys [of m] by metis
qed

lemma count_phrase_counts:
  assumes "counts_of M m" and "size M < usize_max"
  shows "\<exists>m'. count_phrase p m = Inr m' \<and> counts_of (M + {#p#}) m'"
proof -
  have old: "(case map_of m p of None \<Rightarrow> 0 | Some n \<Rightarrow> n) = count M p"
    using assms(1) by (auto simp: counts_of_def not_in_iff split: option.splits)
  have "count M p < usize_max"
    using count_le_size [of M p] assms(2) by simp
  then have "count_phrase p m = Inr (map_insert p (count M p + 1) m)"
    by (simp add: count_phrase_def old usize_checked_add_def)
  moreover have "counts_of (M + {#p#}) (map_insert p (count M p + 1) m)"
    using assms(1) by (auto simp: counts_of_def map_insert_def lookup_entry fun_eq_iff)
  ultimately show ?thesis
    by blast
qed

lemma card_add_mset: "card (set_mset (M + {#p#})) = (if p \<in># M then card (set_mset M) else Suc (card (set_mset M)))"
  by (simp add: insert_absorb)

lemma card_mset_mono: "M \<subseteq># N \<Longrightarrow> card (set_mset M) \<le> card (set_mset N)"
  by (simp add: card_mono set_mset_mono)

lemma window_loop_counts:
  assumes "counts_of M m" and "card (set_mset M) \<le> ps_max_unique spec" and "size M + length ws \<le> usize_max"
  shows "if card (set_mset (M + phrases_of ct spec ws)) \<le> ps_max_unique spec
    then \<exists>m'. window_loop ct spec ws m = Inr m' \<and> counts_of (M + phrases_of ct spec ws) m'
    else window_loop ct spec ws m = Inl (UniqueExceeded (ps_max_unique spec))"
  using assms
proof (induction ws arbitrary: M m)
  case Nil
  then show ?case by auto
next
  case (Cons w ws)
  show ?case
  proof (cases "passed_window ct spec w")
    case True
    then show ?thesis
      using Cons.IH [OF Cons.prems(1,2)] Cons.prems(3) by simp
  next
    case False
    define p where "p = join [32] w"
    have phr: "M + phrases_of ct spec (w # ws) = (M + {#p#}) + phrases_of ct spec ws"
      using False by (simp add: p_def)
    have fresh: "map_of m p = None \<longleftrightarrow> p \<notin># M"
      using Cons.prems(1) by (auto simp: counts_of_def)
    show ?thesis
    proof (cases "card (set_mset (M + {#p#})) \<le> ps_max_unique spec")
      case True
      then have no: "\<not> (map_of m p = None \<and> ps_max_unique spec \<le> length m)"
        using fresh card_add_mset [of M p] counts_of_length [OF Cons.prems(1)] by auto
      obtain m' where m': "count_phrase p m = Inr m'" "counts_of (M + {#p#}) m'"
        using count_phrase_counts [OF Cons.prems(1), of p] Cons.prems(3) by auto
      have "window_loop ct spec (w # ws) m = window_loop ct spec ws m'"
        using False m'(1) unfolding window_loop.simps Let_def p_def [symmetric] if_not_P [OF no] by simp
      then show ?thesis
        unfolding phr by (simp only:) (rule Cons.IH [OF m'(2) True], use Cons.prems(3) in simp)
    next
      case exceeded: False
      then have "map_of m p = None \<and> ps_max_unique spec \<le> length m"
        using fresh card_add_mset [of M p] counts_of_length [OF Cons.prems(1)] Cons.prems(2) by (auto split: if_splits)
      then have "window_loop ct spec (w # ws) m = Inl (UniqueExceeded (ps_max_unique spec))"
        using False by (simp add: p_def [symmetric] Let_def)
      moreover have "\<not> card (set_mset (M + phrases_of ct spec (w # ws))) \<le> ps_max_unique spec"
        using exceeded card_mset_mono [of "M + {#p#}" "M + {#p#} + phrases_of ct spec ws"] unfolding phr by simp
      ultimately show ?thesis
        by simp
    qed
  qed
qed

lemma width_loop_counts:
  assumes "counts_of M m" and "card (set_mset M) \<le> ps_max_unique spec"
    and "size M + length ts * length widths \<le> usize_max" and "0 \<notin> set widths"
  shows "if card (set_mset (M + all_phrases ct spec widths ts)) \<le> ps_max_unique spec
    then \<exists>m'. width_loop ct spec ts widths m = Inr m' \<and> counts_of (M + all_phrases ct spec widths ts) m'
    else width_loop ct spec ts widths m = Inl (UniqueExceeded (ps_max_unique spec))"
  using assms
proof (induction widths arbitrary: M m)
  case Nil
  then show ?case by auto
next
  case (Cons w widths)
  define N where "N = M + phrases_of ct spec (windows w ts)"
  have few: "length (windows w ts) \<le> length ts"
    using Cons.prems(4) by (auto simp: windows_def)
  have "size (phrases_of ct spec (windows w ts)) \<le> length ts"
    using few size_phrases_of [of ct spec "windows w ts"] by simp
  then have size: "size N + length ts * length widths \<le> usize_max" "size M + length (windows w ts) \<le> usize_max"
    using Cons.prems(3) few by (simp_all add: N_def)
  have all: "M + all_phrases ct spec (w # widths) ts = N + all_phrases ct spec widths ts"
    by (simp add: N_def)
  show ?case
  proof (cases "card (set_mset N) \<le> ps_max_unique spec")
    case True
    then obtain m' where m': "window_loop ct spec (windows w ts) m = Inr m'" "counts_of N m'"
      using window_loop_counts [OF Cons.prems(1,2) size(2), of ct] by (auto simp: N_def)
    then show ?thesis
      using Cons.IH [OF m'(2) True size(1)] Cons.prems(4) unfolding all by simp
  next
    case False
    then have "width_loop ct spec ts (w # widths) m = Inl (UniqueExceeded (ps_max_unique spec))"
      using window_loop_counts [OF Cons.prems(1,2) size(2), of ct] by (simp add: N_def)
    moreover have "\<not> card (set_mset (M + all_phrases ct spec (w # widths) ts)) \<le> ps_max_unique spec"
      using False card_mset_mono [of N "N + all_phrases ct spec widths ts"] unfolding all by simp
    ultimately show ?thesis
      by simp
  qed
qed

section \<open>The aggregator over a list of tokens\<close>

definition last_window :: "nat \<Rightarrow> 'a list \<Rightarrow> 'a list list" where
  "last_window w ts = (if w \<le> length ts then [drop (length ts - w) ts] else [])"

lemma windows_snoc: "0 < w \<Longrightarrow> windows w (ts @ [t]) = windows w ts @ last_window w (ts @ [t])"
proof -
  assume w: "0 < w"
  show ?thesis
  proof (cases "w \<le> Suc (length ts)")
    case True
    then have n: "Suc (length (ts @ [t])) - w = Suc (Suc (length ts) - w)"
      by simp
    have "map (\<lambda>i. take w (drop i (ts @ [t]))) [0..<Suc (length ts) - w] =
        map (\<lambda>i. take w (drop i ts)) [0..<Suc (length ts) - w]"
      using w by (intro map_cong) auto
    moreover have "take w (drop (Suc (length ts) - w) (ts @ [t])) = drop (Suc (length ts) - w) (ts @ [t])"
      using True by (intro take_all) simp
    ultimately show ?thesis
      unfolding windows_def n upt_Suc_append [OF le0] map_append last_window_def using True by simp
  next
    case False
    then show ?thesis
      by (simp add: windows_def last_window_def)
  qed
qed

fun new_phrases :: "char_tables \<Rightarrow> phrase_spec \<Rightarrow> nat list \<Rightarrow> scalars list \<Rightarrow> scalars multiset" where
  "new_phrases ct spec [] recent = {#}"
| "new_phrases ct spec (w # ws) recent = phrases_of ct spec (last_window w recent) + new_phrases ct spec ws recent"

lemma all_phrases_snoc:
  "0 \<notin> set widths \<Longrightarrow> all_phrases ct spec widths (ts @ [t]) =
     all_phrases ct spec widths ts + new_phrases ct spec widths (ts @ [t])"
  by (induction widths) (auto simp: windows_snoc phrases_of_append)

lemma new_phrases_recent:
  "\<forall>w \<in> set widths. w \<le> n \<Longrightarrow> new_phrases ct spec widths (drop (length ts - n) ts) = new_phrases ct spec widths ts"
proof (induction widths)
  case (Cons w widths)
  have "last_window w (drop (length ts - n) ts) = last_window w ts"
    using Cons.prems by (auto simp: last_window_def)
  then show ?case
    using Cons by simp
qed simp

lemma size_new_phrases: "size (new_phrases ct spec widths ts) \<le> length widths"
proof (induction widths)
  case (Cons w widths)
  have "size (phrases_of ct spec (last_window w ts)) \<le> 1"
    using size_phrases_of [of ct spec "last_window w ts"] by (auto simp: last_window_def)
  then show ?case
    using Cons by simp
qed simp

lemma size_all_phrases:
  assumes "0 \<notin> set widths"
  shows "size (all_phrases ct spec widths ts) \<le> length ts * length widths"
  using assms
proof (induction widths)
  case (Cons w widths)
  have "length (windows w ts) \<le> length ts"
    using Cons.prems by (auto simp: windows_def)
  then have "size (phrases_of ct spec (windows w ts)) \<le> length ts"
    using size_phrases_of [of ct spec "windows w ts"] by simp
  then show ?case
    using Cons by simp
qed simp

text \<open>The aggregator has counted \<open>M\<close>, or has noticed that \<open>M\<close> has too many phrases.\<close>

definition tallied :: "phrase_spec \<Rightarrow> phrase_aggregator \<Rightarrow> scalars multiset \<Rightarrow> bool" where
  "tallied spec ag M \<longleftrightarrow>
     (if ag_exceeded ag then ps_max_unique spec < card (set_mset M)
      else counts_of M (ag_counts ag) \<and> card (set_mset M) \<le> ps_max_unique spec)"

lemma tallied_more: "tallied spec ag M \<Longrightarrow> ag_exceeded ag \<Longrightarrow> tallied spec ag (M + N)"
  using card_mset_mono [of M "M + N"] by (simp add: tallied_def)

lemma push_widths_tallied:
  assumes "tallied spec ag M" and "size M + length widths \<le> usize_max"
  shows "\<exists>counts exceeded. push_widths ct spec widths ag = Inr (ag\<lparr>ag_counts := counts, ag_exceeded := exceeded\<rparr>) \<and>
    tallied spec (ag\<lparr>ag_counts := counts, ag_exceeded := exceeded\<rparr>) (M + new_phrases ct spec widths (ag_recent ag))"
  using assms
proof (induction widths arbitrary: ag M)
  case Nil
  then show ?case
    by (intro exI [of _ "ag_counts ag"] exI [of _ "ag_exceeded ag"]) simp
next
  case (Cons w widths)
  define window where "window = drop (length (ag_recent ag) - w) (ag_recent ag)"
  define p where "p = join [32] window"
  have next_one: ?case if "push_widths ct spec (w # widths) ag = push_widths ct spec widths (ag\<lparr>ag_counts := c, ag_exceeded := e\<rparr>)"
    and "tallied spec (ag\<lparr>ag_counts := c, ag_exceeded := e\<rparr>) (M + phrases_of ct spec (last_window w (ag_recent ag)))"
    for c e
  proof -
    have "size (phrases_of ct spec (last_window w (ag_recent ag))) \<le> 1"
      using size_phrases_of [of ct spec "last_window w (ag_recent ag)"] by (auto simp: last_window_def)
    then have "size (M + phrases_of ct spec (last_window w (ag_recent ag))) + length widths \<le> usize_max"
      using Cons.prems(2) by simp
    from Cons.IH [OF that(2) this] show ?thesis
      unfolding that(1) by (simp add: add.assoc)
  qed
  consider (short) "length (ag_recent ag) < w" | (passed) "w \<le> length (ag_recent ag)" "passed_window ct spec window"
    | (stopped) "w \<le> length (ag_recent ag)" "\<not> passed_window ct spec window" "ag_exceeded ag"
    | (fresh) "w \<le> length (ag_recent ag)" "\<not> passed_window ct spec window" "\<not> ag_exceeded ag"
    by linarith
  then show ?case
  proof cases
    case short
    then show ?thesis
      using Cons.prems(1) by (intro next_one [where c = "ag_counts ag" and e = "ag_exceeded ag"]) (simp_all add: last_window_def)
  next
    case passed
    then show ?thesis
      using Cons.prems(1)
      by (intro next_one [where c = "ag_counts ag" and e = "ag_exceeded ag"]) (simp_all add: last_window_def window_def [symmetric] Let_def)
  next
    case stopped
    have same: "ag\<lparr>ag_exceeded := True\<rparr> = ag"
      using stopped(3) by (cases ag) simp
    have "push_widths ct spec (w # widths) ag = push_widths ct spec widths (ag\<lparr>ag_counts := ag_counts ag, ag_exceeded := True\<rparr>)"
      using stopped by (simp add: same window_def [symmetric] Let_def)
    then show ?thesis
      by (rule next_one) (simp add: same tallied_more [OF Cons.prems(1) stopped(3)])
  next
    case fresh
    have counts: "counts_of M (ag_counts ag)" "card (set_mset M) \<le> ps_max_unique spec"
      using Cons.prems(1) fresh(3) by (simp_all add: tallied_def)
    have phr: "phrases_of ct spec (last_window w (ag_recent ag)) = {#p#}"
      using fresh by (simp add: last_window_def window_def [symmetric] p_def)
    have unfold: "push_widths ct spec (w # widths) ag =
      (if map_of (ag_counts ag) p = None \<and> ps_max_unique spec \<le> length (ag_counts ag)
       then push_widths ct spec widths (ag\<lparr>ag_exceeded := True\<rparr>)
       else res_bind (count_phrase p (ag_counts ag)) (\<lambda>counts. push_widths ct spec widths (ag\<lparr>ag_counts := counts\<rparr>)))"
      using fresh by (simp add: window_def [symmetric] p_def [symmetric] Let_def)
    have new: "map_of (ag_counts ag) p = None \<longleftrightarrow> p \<notin># M"
      using counts(1) by (auto simp: counts_of_def)
    show ?thesis
    proof (cases "map_of (ag_counts ag) p = None \<and> ps_max_unique spec \<le> length (ag_counts ag)")
      case True
      then have "ps_max_unique spec < card (set_mset (M + {#p#}))"
        using new counts_of_length [OF counts(1)] unfolding card_add_mset by auto
      then show ?thesis
        using True unfold phr by (intro next_one [where c = "ag_counts ag" and e = True]) (simp_all add: tallied_def)
    next
      case False
      obtain m where m: "count_phrase p (ag_counts ag) = Inr m" "counts_of (M + {#p#}) m"
        using count_phrase_counts [OF counts(1), of p] Cons.prems(2) by auto
      have "card (set_mset (M + {#p#})) \<le> ps_max_unique spec"
        using False new counts(2) counts_of_length [OF counts(1)] unfolding card_add_mset by auto
      moreover have same: "ag\<lparr>ag_exceeded := False\<rparr> = ag"
        using fresh(3) by (cases ag) simp
      have "ag\<lparr>ag_counts := m\<rparr> = ag\<lparr>ag_counts := m, ag_exceeded := False\<rparr>"
        using fresh(3) by (cases ag) simp
      then have "push_widths ct spec (w # widths) ag = push_widths ct spec widths (ag\<lparr>ag_counts := m, ag_exceeded := False\<rparr>)"
        unfolding unfold if_not_P [OF False] m(1) by simp
      ultimately show ?thesis
        using m(2) by (intro next_one [where c = m and e = False]) (simp_all add: tallied_def phr)
    qed
  qed
qed

lemma fold_max_ge: "w \<in> set ws \<or> w \<le> n \<Longrightarrow> (w :: nat) \<le> fold max ws n"
proof (induction ws arbitrary: n)
  case (Cons v ws)
  then have "w \<in> set ws \<or> w \<le> max v n"
    by (auto simp: le_max_iff_disj)
  from Cons.IH [OF this] show ?case
    by simp
qed simp

definition spec_ok :: "phrase_spec \<Rightarrow> bool" where
  "spec_ok spec \<longleftrightarrow> 0 \<notin> set (ps_widths spec) \<and> 0 < ps_max_unique spec"

text \<open>Too many phrases in a document long enough to be counted: the error of both ways.\<close>

definition too_many :: "char_tables \<Rightarrow> phrase_spec \<Rightarrow> scalars list \<Rightarrow> bool" where
  "too_many ct spec ts \<longleftrightarrow>
     ps_max_unique spec < card (set_mset (all_phrases ct spec (ps_widths spec) ts)) \<and> ps_min_tokens spec \<le> length ts"

definition within_u64 :: "phrase_spec \<Rightarrow> scalars list \<Rightarrow> bool" where
  "within_u64 spec ts \<longleftrightarrow> length ts * Suc (length (ps_widths spec)) \<le> usize_max"

definition after_tokens :: "char_tables \<Rightarrow> phrase_spec \<Rightarrow> scalars list \<Rightarrow> phrase_aggregator \<Rightarrow> bool" where
  "after_tokens ct spec ts ag \<longleftrightarrow>
     ag_max_width ag = fold max (ps_widths spec) 0 \<and> ag_total ag = length ts \<and>
     ag_recent ag = drop (length ts - ag_max_width ag) ts \<and>
     tallied spec ag (all_phrases ct spec (ps_widths spec) ts) \<and> \<not> too_many ct spec ts"

lemma all_phrases_mono:
  assumes "0 \<notin> set widths"
  shows "all_phrases ct spec widths ts \<subseteq># all_phrases ct spec widths (ts @ us)"
proof (induction us rule: rev_induct)
  case (snoc u us)
  have "all_phrases ct spec widths (ts @ us) \<subseteq># all_phrases ct spec widths ((ts @ us) @ [u])"
    unfolding all_phrases_snoc [OF assms] by simp
  then show ?case
    using snoc subset_mset.order_trans by fastforce
qed simp

lemma too_many_mono: "spec_ok spec \<Longrightarrow> too_many ct spec ts \<Longrightarrow> too_many ct spec (ts @ us)"
  using card_mset_mono [OF all_phrases_mono, of "ps_widths spec" ct spec ts us]
  by (auto simp: too_many_def spec_ok_def)

lemma within_u64_prefix: "within_u64 spec (ts @ us) \<Longrightarrow> within_u64 spec ts"
  by (simp add: within_u64_def add_mult_distrib)

lemma push_token_after:
  assumes "spec_ok spec" and "after_tokens ct spec ts ag" and "within_u64 spec (ts @ [t])"
  shows "if too_many ct spec (ts @ [t]) then push_token ct spec t ag = Inl (UniqueExceeded (ps_max_unique spec))
    else \<exists>ag'. push_token ct spec t ag = Inr ag' \<and> after_tokens ct spec (ts @ [t]) ag' \<and> ag_prose ag' = ag_prose ag"
proof -
  define n where "n = fold max (ps_widths spec) 0"
  define M where "M = all_phrases ct spec (ps_widths spec) ts"
  have ag: "ag_max_width ag = n" "ag_total ag = length ts" "ag_recent ag = drop (length ts - n) ts" "tallied spec ag M"
    using assms(2) by (auto simp: after_tokens_def n_def M_def)
  have le: "\<forall>w \<in> set (ps_widths spec). w \<le> n"
    by (simp add: n_def fold_max_ge)
  have wide: "0 \<notin> set (ps_widths spec)"
    using assms(1) by (simp add: spec_ok_def)
  define recent where "recent = (let r = ag_recent ag @ [t] in if ag_max_width ag < length r then tl r else r)"
  have recent: "recent = drop (length (ts @ [t]) - n) (ts @ [t])"
  proof (cases "length ts < n")
    case True
    then show ?thesis
      by (simp add: recent_def ag)
  next
    case False
    then have "recent = tl (drop (length ts - n) (ts @ [t]))"
      by (auto simp: recent_def ag Let_def)
    also have "\<dots> = drop (length (ts @ [t]) - n) (ts @ [t])"
      using False by (simp add: drop_Suc [symmetric] tl_drop drop_tl Suc_diff_le del: drop_append)
    finally show ?thesis .
  qed
  have more: "all_phrases ct spec (ps_widths spec) (ts @ [t]) = M + new_phrases ct spec (ps_widths spec) recent"
    unfolding recent new_phrases_recent [OF le] all_phrases_snoc [OF wide] M_def ..
  define ag1 where "ag1 = ag\<lparr>ag_total := length ts + 1, ag_recent := recent\<rparr>"
  have total: "usize_checked_add (ag_total ag) 1 = Some (length ts + 1)"
    using assms(3) by (simp add: ag usize_checked_add_def within_u64_def)
  have "size M + length (ps_widths spec) \<le> length ts * length (ps_widths spec) + length (ps_widths spec)"
    using size_all_phrases [OF wide, of ct spec ts] by (simp add: M_def)
  also have "\<dots> \<le> usize_max"
    using assms(3) by (simp add: within_u64_def add_mult_distrib)
  finally have "size M + length (ps_widths spec) \<le> usize_max" .
  moreover have "tallied spec ag1 M"
    using ag(4) by (simp add: ag1_def tallied_def)
  ultimately obtain counts exceeded where push:
    "push_widths ct spec (ps_widths spec) ag1 = Inr (ag1\<lparr>ag_counts := counts, ag_exceeded := exceeded\<rparr>)"
    "tallied spec (ag1\<lparr>ag_counts := counts, ag_exceeded := exceeded\<rparr>)
       (all_phrases ct spec (ps_widths spec) (ts @ [t]))"
    using push_widths_tallied [of spec ag1 M "ps_widths spec" ct] unfolding more by (auto simp: ag1_def)
  have exceeded: "exceeded \<longleftrightarrow> ps_max_unique spec < card (set_mset (all_phrases ct spec (ps_widths spec) (ts @ [t])))"
    using push(2) by (auto simp: tallied_def split: if_splits)
  have res: "push_token ct spec t ag =
    (if exceeded \<and> ps_min_tokens spec \<le> length ts + 1 then Inl (UniqueExceeded (ps_max_unique spec))
     else Inr (ag1\<lparr>ag_counts := counts, ag_exceeded := exceeded\<rparr>))"
    using push(1) total unfolding push_token_def recent_def [symmetric] ag1_def by (simp add: Let_def recent_def)
  have bad: "too_many ct spec (ts @ [t]) \<longleftrightarrow> exceeded \<and> ps_min_tokens spec \<le> length ts + 1"
    by (simp add: too_many_def exceeded)
  show ?thesis
    unfolding bad res using push(2) recent bad
    by (auto simp: after_tokens_def ag1_def ag n_def [symmetric])
qed

lemma push_tokens_after:
  assumes "spec_ok spec" and "after_tokens ct spec ts ag" and "within_u64 spec (ts @ us)"
  shows "if too_many ct spec (ts @ us) then push_tokens ct spec us ag = Inl (UniqueExceeded (ps_max_unique spec))
    else \<exists>ag'. push_tokens ct spec us ag = Inr ag' \<and> after_tokens ct spec (ts @ us) ag' \<and> ag_prose ag' = ag_prose ag"
  using assms(2,3)
proof (induction us arbitrary: ts ag)
  case Nil
  then show ?case
    by (simp add: after_tokens_def)
next
  case (Cons u us)
  have "within_u64 spec (ts @ [u])"
    using within_u64_prefix [of spec "ts @ [u]" us] Cons.prems(2) by simp
  note step = push_token_after [OF assms(1) Cons.prems(1) this]
  show ?case
  proof (cases "too_many ct spec (ts @ [u])")
    case True
    then show ?thesis
      using step too_many_mono [OF assms(1) True, of us] by simp
  next
    case False
    then obtain ag' where "push_token ct spec u ag = Inr ag'" "after_tokens ct spec (ts @ [u]) ag'"
      "ag_prose ag' = ag_prose ag"
      using step by auto
    then show ?thesis
      using Cons.IH [of "ts @ [u]" ag'] Cons.prems(2) by (cases "too_many ct spec (ts @ u # us)") simp_all
  qed
qed

lemma finish_after:
  assumes "spec_ok spec" and "after_tokens ct spec ts ag" and "within_u64 spec ts"
  shows "(if ag_total ag < ps_min_tokens spec then Inr []
      else if ag_exceeded ag then Inl (UniqueExceeded (ps_max_unique spec)) else Inr (ag_counts ag)) =
    (if length ts < ps_min_tokens spec then Inr [] else width_loop ct spec ts (ps_widths spec) [])"
proof (cases "length ts < ps_min_tokens spec")
  case True
  then show ?thesis
    using assms(2) by (simp add: after_tokens_def)
next
  case False
  define M where "M = all_phrases ct spec (ps_widths spec) ts"
  have few: "card (set_mset M) \<le> ps_max_unique spec"
    using assms(2) False by (auto simp: after_tokens_def too_many_def M_def)
  then have "\<not> ag_exceeded ag" "counts_of M (ag_counts ag)"
    using assms(2) by (auto simp: after_tokens_def tallied_def M_def split: if_splits)
  moreover obtain m where "width_loop ct spec ts (ps_widths spec) [] = Inr m" "counts_of M m"
    using width_loop_counts [OF counts_of_empty, of spec ts "ps_widths spec" ct] few assms(1,3)
    by (auto simp: M_def spec_ok_def within_u64_def)
  ultimately show ?thesis
    using False assms(2) counts_of_unique by (auto simp: after_tokens_def)
qed

lemma width_loop_too_many:
  assumes "spec_ok spec" and "too_many ct spec ts" and "within_u64 spec ts"
  shows "width_loop ct spec ts (ps_widths spec) [] = Inl (UniqueExceeded (ps_max_unique spec))"
  using width_loop_counts [OF counts_of_empty, of spec ts "ps_widths spec" ct] assms
  by (auto simp: spec_ok_def within_u64_def too_many_def)

section \<open>The aggregator over chunks of a text\<close>

definition separators_ok :: "char_tables \<Rightarrow> bool" where
  "separators_ok ct \<longleftrightarrow> \<not> ct_alphanumeric ct 32 \<and> \<not> ct_alphanumeric ct 10"

fun filter_lines :: "char_tables \<Rightarrow> bool \<Rightarrow> scalars list \<Rightarrow> bool \<times> scalars list" where
  "filter_lines ct in_fence [] = (in_fence, [])"
| "filter_lines ct in_fence (line # ls) =
     (case keep_line ct in_fence line of (f, keep) \<Rightarrow>
       (case filter_lines ct f ls of (f', ts) \<Rightarrow>
         (f', (if keep then normalized_tokens ct line else []) @ ts)))"

lemma filter_lines_append:
  "filter_lines ct f (as @ bs) =
     (case filter_lines ct f as of (f1, ts) \<Rightarrow> (case filter_lines ct f1 bs of (f2, us) \<Rightarrow> (f2, ts @ us)))"
  by (induction as arbitrary: f) (auto split: prod.splits)

lemma tokens_prose:
  "separators_ok ct \<Longrightarrow> normalized_tokens ct (prose_loop ct f ls) = snd (filter_lines ct f ls)"
  by (induction ls arbitrary: f) (auto simp: separators_ok_def tokens_separator split: prod.splits)

lemma pieces_append:
  "split_on d (s @ t) =
     butlast (split_on d s) @ (last (split_on d s) @ hd (split_on d t)) # tl (split_on d t)"
proof (induction s)
  case Nil
  then show ?case
    by (cases "split_on d t") simp_all
next
  case (Cons c s)
  obtain p ps where sp: "split_on d s = p # ps"
    using split_on_ne [of d s] by (cases "split_on d s") simp_all
  show ?case
    using Cons sp by (cases "c = d"; cases ps) simp_all
qed

text \<open>The complete lines of a text and the incomplete one behind them.\<close>

definition complete_lines :: "scalars \<Rightarrow> scalars list" where
  "complete_lines t = map strip_cr (butlast (split_on 10 t))"

definition pending_line :: "scalars \<Rightarrow> scalars" where
  "pending_line t = last (split_on 10 t)"

lemma str_lines_split:
  "str_lines t = complete_lines t @ (if pending_line t = [] then [] else [pending_line t])"
  by (simp add: str_lines_def complete_lines_def pending_line_def Let_def)

definition tokens_seen :: "char_tables \<Rightarrow> phrase_spec \<Rightarrow> scalars \<Rightarrow> scalars list" where
  "tokens_seen ct spec t =
     (case ps_text_mode spec of
        UserTextMode \<Rightarrow> normalized_tokens ct t
      | ProseOnlyMode \<Rightarrow> snd (filter_lines ct False (complete_lines t)))"

definition all_tokens :: "char_tables \<Rightarrow> phrase_spec \<Rightarrow> scalars \<Rightarrow> scalars list" where
  "all_tokens ct spec t =
     normalized_tokens ct (case ps_text_mode spec of UserTextMode \<Rightarrow> t | ProseOnlyMode \<Rightarrow> prose_only ct t)"

definition after_text :: "char_tables \<Rightarrow> phrase_spec \<Rightarrow> scalars \<Rightarrow> phrase_aggregator \<Rightarrow> bool" where
  "after_text ct spec t ag \<longleftrightarrow> after_tokens ct spec (tokens_seen ct spec t) ag \<and>
     ag_prose ag =
       (case ps_text_mode spec of
          UserTextMode \<Rightarrow> None
        | ProseOnlyMode \<Rightarrow> Some (pending_line t, fst (filter_lines ct False (complete_lines t))))"

lemma after_tokens_prose [simp]: "after_tokens ct spec ts (ag\<lparr>ag_prose := x\<rparr>) = after_tokens ct spec ts ag"
  by (simp add: after_tokens_def tallied_def)

lemma process_line_after:
  assumes "spec_ok spec" and "after_tokens ct spec ts ag" and "filter_lines ct f [line] = (f', us)"
    and "within_u64 spec (ts @ us)"
  shows "if too_many ct spec (ts @ us) then process_prose_line ct spec f rest line ag = Inl (UniqueExceeded (ps_max_unique spec))
    else \<exists>ag'. process_prose_line ct spec f rest line ag = Inr ag' \<and> after_tokens ct spec (ts @ us) ag' \<and>
      ag_prose ag' = Some (rest, f')"
proof -
  obtain k where k: "keep_line ct f line = (f', k)" "us = (if k then normalized_tokens ct line else [])"
    using assms(3) by (auto split: prod.splits)
  show ?thesis
  proof (cases k)
    case True
    then show ?thesis
      using push_tokens_after [OF assms(1), of ct ts "ag\<lparr>ag_prose := Some (rest, f')\<rparr>" us] assms(2,4) k
      by (auto simp: process_prose_line_def split: if_splits)
  next
    case False
    then show ?thesis
      using assms(2) k by (auto simp: process_prose_line_def after_tokens_def tallied_def)
  qed
qed

lemma push_parts_after:
  assumes "spec_ok spec" and "after_tokens ct spec ts ag" and "ag_prose ag = Some (p, f)"
    and "filter_lines ct f (map strip_cr (butlast (p # parts))) = (f', us)" and "within_u64 spec (ts @ us)"
  shows "if too_many ct spec (ts @ us) then push_parts ct spec parts ag = Inl (UniqueExceeded (ps_max_unique spec))
    else \<exists>ag'. push_parts ct spec parts ag = Inr ag' \<and> after_tokens ct spec (ts @ us) ag' \<and>
      ag_prose ag' = Some (last (p # parts), f')"
  using assms(2-)
proof (induction parts arbitrary: ts ag p f us)
  case Nil
  then show ?case
    by (auto simp: after_tokens_def)
next
  case (Cons q parts)
  obtain f1 us1 us2 where split: "filter_lines ct f [strip_cr p] = (f1, us1)"
    "filter_lines ct f1 (map strip_cr (butlast (q # parts))) = (f', us2)" "us = us1 @ us2"
    using Cons.prems(3) filter_lines_append [of ct f "[strip_cr p]" "map strip_cr (butlast (q # parts))"]
    by (auto split: prod.splits)
  have within: "within_u64 spec (ts @ us1)"
    using within_u64_prefix [of spec "ts @ us1" us2] Cons.prems(4) split(3) by simp
  note line = process_line_after [OF assms(1) Cons.prems(1) split(1) within, of q]
  have unfold: "push_parts ct spec (q # parts) ag =
      res_bind (process_prose_line ct spec f q (strip_cr p) ag) (push_parts ct spec parts)"
    using Cons.prems(2) by simp
  show ?case
  proof (cases "too_many ct spec (ts @ us1)")
    case True
    then have "process_prose_line ct spec f q (strip_cr p) ag = Inl (UniqueExceeded (ps_max_unique spec))"
      using line by simp
    then show ?thesis
      using too_many_mono [OF assms(1) True, of us2] split(3) unfolding unfold by simp
  next
    case False
    then obtain ag' where ag': "process_prose_line ct spec f q (strip_cr p) ag = Inr ag'"
      "after_tokens ct spec (ts @ us1) ag'" "ag_prose ag' = Some (q, f1)"
      using line by auto
    have "within_u64 spec ((ts @ us1) @ us2)"
      using Cons.prems(4) split(3) by simp
    from Cons.IH [OF ag'(2,3) split(2) this] show ?thesis
      unfolding unfold ag'(1) split(3) append_assoc last_ConsR [OF list.distinct(2)] res_bind_simps .
  qed
qed

lemma seen_join:
  assumes "separators_ok ct" and "joiner \<or> t = []"
  shows "\<exists>us. tokens_seen ct spec (t @ (if joiner then [32] else []) @ c) = tokens_seen ct spec t @ us"
proof (cases "ps_text_mode spec")
  case UserTextMode
  then show ?thesis
    using assms by (cases joiner) (auto simp: tokens_seen_def separators_ok_def tokens_separator)
next
  case ProseOnlyMode
  define j where "j = (if joiner then [32 :: scalar] else [])"
  have "complete_lines (t @ j @ c) = complete_lines t @ map strip_cr (butlast ((pending_line t @ hd (split_on 10 (j @ c))) # tl (split_on 10 (j @ c))))"
    by (simp add: complete_lines_def pending_line_def pieces_append butlast_append)
  then show ?thesis
    using ProseOnlyMode by (auto simp: tokens_seen_def j_def filter_lines_append split: prod.splits)
qed

lemma all_tokens_seen:
  assumes "separators_ok ct"
  shows "\<exists>us. all_tokens ct spec t = tokens_seen ct spec t @ us"
  using tokens_prose [OF assms]
  by (auto simp: all_tokens_def tokens_seen_def prose_only_def str_lines_split filter_lines_append
      split: phrase_text_mode.splits prod.splits)

lemma push_chunk_after:
  fixes t c :: scalars and joiner :: bool
  defines "t' \<equiv> t @ (if joiner then [32] else []) @ c"
  assumes "spec_ok spec" and "separators_ok ct" and "after_text ct spec t ag" and "joiner \<or> t = []"
    and "within_u64 spec (tokens_seen ct spec t')"
  shows "if too_many ct spec (tokens_seen ct spec t')
    then push_phrase_chunk ct spec c joiner ag = Inl (UniqueExceeded (ps_max_unique spec))
    else \<exists>ag'. push_phrase_chunk ct spec c joiner ag = Inr ag' \<and> after_text ct spec t' ag'"
proof (cases "ps_text_mode spec")
  case UserTextMode
  have "tokens_seen ct spec t' = tokens_seen ct spec t @ normalized_tokens ct c"
    using UserTextMode assms(3,5) by (cases joiner) (auto simp: t'_def tokens_seen_def separators_ok_def tokens_separator)
  then show ?thesis
    using push_tokens_after [OF assms(2), of ct "tokens_seen ct spec t" ag "normalized_tokens ct c"] assms(4,6) UserTextMode
    by (auto simp: push_phrase_chunk_def after_text_def split: if_splits)
next
  case ProseOnlyMode
  define j where "j = (if joiner then [32 :: scalar] else [])"
  define f where "f = fst (filter_lines ct False (complete_lines t))"
  define p where "p = pending_line t @ j @ hd (split_on 10 c)"
  have "split_on 10 (j @ c) = (j @ hd (split_on 10 c)) # tl (split_on 10 c)"
    by (simp add: j_def pieces_append)
  then have pieces: "split_on 10 t' = butlast (split_on 10 t) @ p # tl (split_on 10 c)"
    by (simp add: t'_def j_def [symmetric] pieces_append p_def pending_line_def)
  have whole: "complete_lines t' = complete_lines t @ map strip_cr (butlast (p # tl (split_on 10 c)))"
    "pending_line t' = last (p # tl (split_on 10 c))"
    by (simp_all add: complete_lines_def pending_line_def pieces butlast_append)
  obtain f' us where us: "filter_lines ct f (map strip_cr (butlast (p # tl (split_on 10 c)))) = (f', us)"
    by fastforce
  have seen: "tokens_seen ct spec t' = tokens_seen ct spec t @ us" "fst (filter_lines ct False (complete_lines t')) = f'"
    using us by (auto simp: tokens_seen_def ProseOnlyMode whole filter_lines_append f_def split: prod.splits)
  have chunk: "push_phrase_chunk ct spec c joiner ag = push_parts ct spec (tl (split_on 10 c)) (ag\<lparr>ag_prose := Some (p, f)\<rparr>)"
    using assms(4) ProseOnlyMode by (simp add: push_phrase_chunk_def after_text_def p_def j_def f_def Let_def)
  have "after_tokens ct spec (tokens_seen ct spec t) (ag\<lparr>ag_prose := Some (p, f)\<rparr>)"
    using assms(4) by (simp add: after_text_def)
  note parts = push_parts_after [OF assms(2) this _ us assms(6) [unfolded seen(1)]]
  have at: "after_text ct spec t' ag' \<longleftrightarrow> after_tokens ct spec (tokens_seen ct spec t @ us) ag' \<and>
      ag_prose ag' = Some (last (p # tl (split_on 10 c)), f')" for ag'
    unfolding after_text_def seen whole(2) by (simp add: ProseOnlyMode)
  show ?thesis
    unfolding chunk seen(1) at by (rule parts) simp
qed

lemma finish_text:
  assumes "spec_ok spec" and "separators_ok ct" and "after_text ct spec t ag" and "within_u64 spec (all_tokens ct spec t)"
  shows "finish_phrases ct spec ag = phrase_delta ct spec t"
proof -
  have delta: "phrase_delta ct spec t =
    (if length (all_tokens ct spec t) < ps_min_tokens spec then Inr []
     else width_loop ct spec (all_tokens ct spec t) (ps_widths spec) [])"
    by (simp add: phrase_delta_def all_tokens_def Let_def)
  show ?thesis
  proof (cases "ag_prose ag = None \<or> (\<exists>f. ag_prose ag = Some ([], f))")
    case True
    then have "tokens_seen ct spec t = all_tokens ct spec t"
      using assms(3) tokens_prose [OF assms(2)]
      by (auto simp: after_text_def all_tokens_def tokens_seen_def prose_only_def str_lines_split
          split: phrase_text_mode.splits)
    then show ?thesis
      using finish_after [OF assms(1), of ct "all_tokens ct spec t" ag] assms(3,4) True unfolding delta
      by (auto simp: finish_phrases_def after_text_def split: option.splits)
  next
    case False
    then have mode: "ps_text_mode spec = ProseOnlyMode" "pending_line t \<noteq> []"
      using assms(3) by (auto simp: after_text_def split: phrase_text_mode.splits)
    define f where "f = fst (filter_lines ct False (complete_lines t))"
    obtain f' us where us: "filter_lines ct f [pending_line t] = (f', us)"
      by fastforce
    have all: "all_tokens ct spec t = tokens_seen ct spec t @ us"
      using us tokens_prose [OF assms(2), of False "str_lines t"] mode
      by (auto simp: all_tokens_def tokens_seen_def prose_only_def str_lines_split filter_lines_append f_def
          split: prod.splits if_splits)
    have tokens: "after_tokens ct spec (tokens_seen ct spec t) ag" "ag_prose ag = Some (pending_line t, f)"
      using assms(3) mode(1) by (simp_all add: after_text_def f_def)
    note line = process_line_after [OF assms(1) tokens(1) us assms(4) [unfolded all], of "[]", folded all]
    show ?thesis
    proof (cases "too_many ct spec (all_tokens ct spec t)")
      case True
      then have "process_prose_line ct spec f [] (pending_line t) ag = Inl (UniqueExceeded (ps_max_unique spec))"
        using line by simp
      then show ?thesis
        using True tokens(2) mode(2) width_loop_too_many [OF assms(1) True assms(4)] unfolding delta
        by (simp add: finish_phrases_def too_many_def)
    next
      case False
      then obtain ag' where "process_prose_line ct spec f [] (pending_line t) ag = Inr ag'"
        "after_tokens ct spec (all_tokens ct spec t) ag'"
        using line by auto
      then show ?thesis
        using tokens(2) mode(2) finish_after [OF assms(1) _ assms(4)] unfolding delta by (simp add: finish_phrases_def)
    qed
  qed
qed

lemma too_many_delta:
  assumes "spec_ok spec" and "separators_ok ct" and "too_many ct spec (tokens_seen ct spec t)"
    and "within_u64 spec (all_tokens ct spec t)"
  shows "phrase_delta ct spec t = Inl (UniqueExceeded (ps_max_unique spec))"
proof -
  obtain us where "all_tokens ct spec t = tokens_seen ct spec t @ us"
    using all_tokens_seen [OF assms(2)] by blast
  then have "too_many ct spec (all_tokens ct spec t)"
    using too_many_mono [OF assms(1,3)] by simp
  then show ?thesis
    using width_loop_too_many [OF assms(1) _ assms(4)]
    by (simp add: phrase_delta_def all_tokens_def [symmetric] too_many_def Let_def)
qed

lemma no_phrases: "0 \<notin> set widths \<Longrightarrow> all_phrases ct spec widths [] = {#}"
  by (induction widths) (auto simp: windows_def)

lemma new_aggregator_after: "spec_ok spec \<Longrightarrow> after_text ct spec [] (new_aggregator spec)"
  by (simp add: after_text_def tokens_seen_def complete_lines_def pending_line_def new_aggregator_def
      after_tokens_def tallied_def too_many_def no_phrases spec_ok_def split: phrase_text_mode.splits)

end
