(* ===== verification/Analysis.thy ===== *)
theory Analysis
  imports Phrases "HOL-Library.Product_Lexorder"
begin

text \<open>
  The analysis of sessions in \<open>analysis_pipeline.rs\<close>: classification rules, recurring phrases and
  relationship hints over documents, and the path that takes the text of a session as a stream of
  messages (\<open>StreamingDocumentText\<close>).

  The regular-expression engine is a parameter: \<open>is_match\<close>, and \<open>parent_capture\<close>, whose outer
  \<open>option\<close> is whether the expression matches and whose inner one whether the group took part. Of a
  session record only the fields the module reads are kept.
\<close>

section \<open>Policies and documents\<close>

datatype classification_target = TargetTitle | TargetSummary | TargetFirstUserText | TargetUserText | TargetAny

record 're classification_rule =
  cl_dimension :: scalars
  cl_label :: scalars
  cl_target :: classification_target
  cl_weight :: int
  cl_regex :: 're

datatype relationship_kind = Branch | Copy | Version

record 're relationship_rule =
  rl_id :: scalars
  rl_kind :: relationship_kind
  rl_regex :: 're

record 're analysis_policy =
  ap_classifications :: "'re classification_rule list"
  ap_relationships :: "'re relationship_rule list"
  ap_phrases :: "phrase_spec option"
  ap_max_chars :: "nat option"

record session_info =
  si_id :: scalars
  si_title :: "scalars option"
  si_summary :: "scalars option"

record analysis_document =
  ad_session :: session_info
  ad_user_text :: scalars
  ad_first_user_text :: "scalars option"
  ad_message_count :: int
  ad_user_message_count :: int

record classification_match =
  cm_dimension :: scalars
  cm_label :: scalars
  cm_target :: classification_target
  cm_weight :: int

datatype relationship_resolution = Unresolved | Resolved scalars | Ambiguous "scalars list"

record relationship_hint =
  rh_rule :: scalars
  rh_kind :: relationship_kind
  rh_parent_title :: scalars
  rh_resolution :: relationship_resolution

record analyzed_session =
  an_session :: session_info
  an_has_user_text :: bool
  an_classifications :: "classification_match list"
  an_score :: int
  an_hints :: "relationship_hint list"
  an_message_count :: int
  an_user_message_count :: int

record phrase_frequency =
  pf_phrase :: scalars
  pf_words :: nat
  pf_documents :: nat
  pf_occurrences :: nat

datatype 'io analysis_error =
  EmptySessionId
| DuplicateSession scalars
| ScoreOverflow scalars
| PhrasesFailed scalars phrase_error
| VocabularySizeOverflow
| VocabularyExceeded nat scalars
| OccurrencesOverflow scalars
| DocumentsOverflow scalars
| Unusable
| EmptyParent scalars scalars
| ChunkFailed 'io

text \<open>The text of a document as \<open>analysis_document_page\<close> of \<open>db.rs\<close> joins it from the messages.\<close>

fun join_user_text :: "scalars \<Rightarrow> scalars list \<Rightarrow> scalars" where
  "join_user_text user_text [] = user_text"
| "join_user_text user_text (content # rest) =
     join_user_text (user_text @ (if user_text \<noteq> [] then [32] else []) @ content) rest"

definition document_of :: "session_info \<Rightarrow> int \<Rightarrow> int \<Rightarrow> scalars list \<Rightarrow> analysis_document" where
  "document_of session message_count human_count contents =
     \<lparr>ad_session = session, ad_user_text = join_user_text [] contents,
      ad_first_user_text = (case contents of [] \<Rightarrow> None | c # _ \<Rightarrow> Some c),
      ad_message_count = message_count, ad_user_message_count = human_count\<rparr>"

section \<open>Classification\<close>

definition char_prefix :: "scalars \<Rightarrow> nat option \<Rightarrow> scalars" where
  "char_prefix value max_chars = (case max_chars of None \<Rightarrow> value | Some limit \<Rightarrow> take limit value)"

definition classification_matches ::
  "('re \<Rightarrow> scalars \<Rightarrow> bool) \<Rightarrow> 're classification_rule \<Rightarrow> analysis_document \<Rightarrow> nat option \<Rightarrow> bool" where
  "classification_matches is_match rule document max_user_chars =
     (let matches = (\<lambda>value. case value of None \<Rightarrow> False | Some v \<Rightarrow> is_match (cl_regex rule) v);
          user_text = char_prefix (ad_user_text document) max_user_chars;
          first_user_text = map_option (\<lambda>v. char_prefix v max_user_chars) (ad_first_user_text document)
      in case cl_target rule of
           TargetTitle \<Rightarrow> matches (si_title (ad_session document))
         | TargetSummary \<Rightarrow> matches (si_summary (ad_session document))
         | TargetFirstUserText \<Rightarrow> matches first_user_text
         | TargetUserText \<Rightarrow> is_match (cl_regex rule) user_text
         | TargetAny \<Rightarrow>
             matches (si_title (ad_session document)) \<or> matches (si_summary (ad_session document)) \<or>
             matches first_user_text \<or> is_match (cl_regex rule) user_text)"

definition classify ::
  "('re \<Rightarrow> scalars \<Rightarrow> bool) \<Rightarrow> 're analysis_policy \<Rightarrow> analysis_document \<Rightarrow> classification_match list" where
  "classify is_match policy document =
     map (\<lambda>rule. \<lparr>cm_dimension = cl_dimension rule, cm_label = cl_label rule, cm_target = cl_target rule,
            cm_weight = cl_weight rule\<rparr>)
       (filter (\<lambda>rule. classification_matches is_match rule document (ap_max_chars policy)) (ap_classifications policy))"

section \<open>The accumulator\<close>

record accumulator =
  ac_sessions :: "(scalars, analyzed_session) ordered_map"
  ac_titles :: "(scalars, scalars list) ordered_map"
  ac_vocabulary :: "(scalars, phrase_frequency) ordered_map"
  ac_failed :: bool

definition new_accumulator :: accumulator where
  "new_accumulator = \<lparr>ac_sessions = [], ac_titles = [], ac_vocabulary = [], ac_failed = False\<rparr>"

fun total_score :: "int \<Rightarrow> classification_match list \<Rightarrow> int option" where
  "total_score acc [] = Some acc"
| "total_score acc (c # cs) = Option.bind (i64_checked_add acc (cm_weight c)) (\<lambda>acc. total_score acc cs)"

fun check_merge :: "(scalars, phrase_frequency) ordered_map \<Rightarrow> phrase_counts \<Rightarrow> 'io analysis_error + unit" where
  "check_merge vocabulary [] = Inr ()"
| "check_merge vocabulary ((phrase, occurrences) # delta) =
     (case map_of vocabulary phrase of
        None \<Rightarrow> check_merge vocabulary delta
      | Some existing \<Rightarrow>
          if usize_checked_add (pf_occurrences existing) occurrences = None then Inl (OccurrencesOverflow phrase)
          else if usize_checked_add (pf_documents existing) 1 = None then Inl (DocumentsOverflow phrase)
          else check_merge vocabulary delta)"

fun merge_delta :: "(scalars, phrase_frequency) ordered_map \<Rightarrow> phrase_counts \<Rightarrow> (scalars, phrase_frequency) ordered_map" where
  "merge_delta vocabulary [] = vocabulary"
| "merge_delta vocabulary ((phrase, occurrences) # delta) =
     merge_delta
       (entry_or_insert phrase
          \<lparr>pf_phrase = phrase, pf_words = length (split_whitespace phrase), pf_documents = 0, pf_occurrences = 0\<rparr>
          (\<lambda>e. e\<lparr>pf_documents := pf_documents e + 1, pf_occurrences := pf_occurrences e + occurrences\<rparr>)
          vocabulary)
       delta"

definition merge_vocabulary ::
  "phrase_spec option \<Rightarrow> phrase_counts option \<Rightarrow> scalars \<Rightarrow> (scalars, phrase_frequency) ordered_map \<Rightarrow>
     'io analysis_error + (scalars, phrase_frequency) ordered_map" where
  "merge_vocabulary spec delta session_id vocabulary =
     (case (spec, delta) of
        (Some spec, Some delta) \<Rightarrow>
          let new_phrases = length (filter (\<lambda>(phrase, _). map_of vocabulary phrase = None) delta)
          in (case usize_checked_add (length vocabulary) new_phrases of
                None \<Rightarrow> Inl VocabularySizeOverflow
              | Some combined \<Rightarrow>
                  if ps_max_unique spec < combined then Inl (VocabularyExceeded (ps_max_unique spec) session_id)
                  else res_map (\<lambda>_. merge_delta vocabulary delta) (check_merge vocabulary delta))
      | _ \<Rightarrow> Inr vocabulary)"

definition merge_session ::
  "'re analysis_policy \<Rightarrow> session_info \<Rightarrow> classification_match list \<Rightarrow> phrase_counts option \<Rightarrow> bool \<Rightarrow> int \<Rightarrow> int \<Rightarrow>
     accumulator \<Rightarrow> 'io analysis_error + accumulator" where
  "merge_session policy session classifications delta has_user_text message_count user_message_count ac =
     res_bind (ok_or (ScoreOverflow (si_id session)) (total_score 0 classifications)) (\<lambda>score.
     res_bind (merge_vocabulary (ap_phrases policy) delta (si_id session) (ac_vocabulary ac)) (\<lambda>vocabulary.
       Inr (ac\<lparr>ac_vocabulary := vocabulary,
         ac_titles := (case si_title session of
             None \<Rightarrow> ac_titles ac
           | Some title \<Rightarrow> entry_or_insert title [] (\<lambda>ids. ids @ [si_id session]) (ac_titles ac)),
         ac_sessions := map_insert (si_id session)
           \<lparr>an_session = session, an_has_user_text = has_user_text, an_classifications = classifications,
            an_score = score, an_hints = [], an_message_count = message_count,
            an_user_message_count = user_message_count\<rparr> (ac_sessions ac)\<rparr>)))"

definition require_new_session :: "session_info \<Rightarrow> accumulator \<Rightarrow> 'io analysis_error + unit" where
  "require_new_session session ac =
     (if trim (si_id session) = [] then Inl EmptySessionId
      else if map_of (ac_sessions ac) (si_id session) \<noteq> None then Inl (DuplicateSession (si_id session))
      else Inr ())"

definition with_context :: "scalars \<Rightarrow> phrase_error + 'a \<Rightarrow> 'io analysis_error + 'a" where
  "with_context session_id r = (case r of Inl e \<Rightarrow> Inl (PhrasesFailed session_id e) | Inr v \<Rightarrow> Inr v)"

definition try_push ::
  "char_tables \<Rightarrow> ('re \<Rightarrow> scalars \<Rightarrow> bool) \<Rightarrow> 're analysis_policy \<Rightarrow> analysis_document \<Rightarrow> accumulator \<Rightarrow>
     'io analysis_error + accumulator" where
  "try_push ct is_match policy document ac =
     (let session_id = si_id (ad_session document)
      in res_bind (require_new_session (ad_session document) ac) (\<lambda>_.
           let classifications = classify is_match policy document
           in res_bind
                (case ap_phrases policy of
                   None \<Rightarrow> Inr None
                 | Some spec \<Rightarrow> res_map Some (with_context session_id (phrase_delta ct spec (ad_user_text document))))
                (\<lambda>delta. merge_session policy (ad_session document) classifications delta
                   (trim (ad_user_text document) \<noteq> []) (ad_message_count document)
                   (ad_user_message_count document) ac)))"

definition guarded ::
  "(accumulator \<Rightarrow> 'io analysis_error + accumulator) \<Rightarrow> accumulator \<Rightarrow> ('io analysis_error + unit) \<times> accumulator" where
  "guarded f ac =
     (if ac_failed ac then (Inl Unusable, ac)
      else (case f ac of
          Inl e \<Rightarrow> (Inl e, ac\<lparr>ac_failed := True\<rparr>)
        | Inr ac \<Rightarrow> (Inr (), ac)))"

definition push_document ::
  "char_tables \<Rightarrow> ('re \<Rightarrow> scalars \<Rightarrow> bool) \<Rightarrow> 're analysis_policy \<Rightarrow> analysis_document \<Rightarrow> accumulator \<Rightarrow>
     ('io analysis_error + unit) \<times> accumulator" where
  "push_document ct is_match policy document = guarded (try_push ct is_match policy document)"

section \<open>The text of a session as a stream\<close>

datatype classification_text =
  ClassUnused
| ClassBounded scalars nat
| ClassFull scalars

fun push_class_chunk :: "classification_text \<Rightarrow> scalars \<Rightarrow> bool \<Rightarrow> classification_text" where
  "push_class_chunk ClassUnused chunk joiner = ClassUnused"
| "push_class_chunk (ClassFull t) chunk joiner = ClassFull (t @ (if joiner then [32] else []) @ chunk)"
| "push_class_chunk (ClassBounded t remaining) chunk joiner =
     (let (t, remaining) = (if joiner \<and> 0 < remaining then (t @ [32], remaining - 1) else (t, remaining))
      in ClassBounded (t @ take remaining chunk) (remaining - length (take remaining chunk)))"

fun class_text :: "classification_text \<Rightarrow> scalars" where
  "class_text ClassUnused = []"
| "class_text (ClassFull t) = t"
| "class_text (ClassBounded t remaining) = t"

record stream_text =
  sx_saw_first :: bool
  sx_joined_nonempty :: bool
  sx_has_user_text :: bool
  sx_first_user_text :: "scalars option"
  sx_class :: classification_text
  sx_phrases :: "phrase_aggregator option"

definition needs_user_text :: "'re analysis_policy \<Rightarrow> bool" where
  "needs_user_text policy \<longleftrightarrow>
     list_ex (\<lambda>rule. cl_target rule = TargetUserText \<or> cl_target rule = TargetAny) (ap_classifications policy)"

definition new_stream_text :: "'re analysis_policy \<Rightarrow> stream_text" where
  "new_stream_text policy =
     \<lparr>sx_saw_first = False, sx_joined_nonempty = False, sx_has_user_text = False, sx_first_user_text = None,
      sx_class =
        (if \<not> needs_user_text policy then ClassUnused
         else case ap_max_chars policy of Some max_chars \<Rightarrow> ClassBounded [] max_chars | None \<Rightarrow> ClassFull []),
      sx_phrases = map_option new_aggregator (ap_phrases policy)\<rparr>"

definition push_text_chunk ::
  "char_tables \<Rightarrow> phrase_spec option \<Rightarrow> scalars \<Rightarrow> stream_text \<Rightarrow> phrase_error + stream_text" where
  "push_text_chunk ct spec chunk sx =
     (let joiner = sx_joined_nonempty sx;
          sx = sx\<lparr>sx_saw_first := True,
                 sx_first_user_text := (if sx_saw_first sx then sx_first_user_text sx else Some chunk),
                 sx_joined_nonempty := (sx_joined_nonempty sx \<or> chunk \<noteq> []),
                 sx_has_user_text := (if sx_has_user_text sx then True else list_ex (\<lambda>c. \<not> is_whitespace c) chunk),
                 sx_class := push_class_chunk (sx_class sx) chunk joiner\<rparr>
      in case (spec, sx_phrases sx) of
           (Some spec, Some ag) \<Rightarrow>
             res_map (\<lambda>ag. sx\<lparr>sx_phrases := Some ag\<rparr>) (push_phrase_chunk ct spec chunk joiner ag)
         | _ \<Rightarrow> Inr sx)"

definition finish_text_stream ::
  "char_tables \<Rightarrow> phrase_spec option \<Rightarrow> stream_text \<Rightarrow> phrase_error + phrase_counts option" where
  "finish_text_stream ct spec sx =
     (case (spec, sx_phrases sx) of
        (Some spec, Some ag) \<Rightarrow> res_map Some (finish_phrases ct spec ag)
      | _ \<Rightarrow> Inr None)"

fun stream_chunks ::
  "char_tables \<Rightarrow> phrase_spec option \<Rightarrow> scalars \<Rightarrow> ('io + scalars) list \<Rightarrow> stream_text \<Rightarrow>
     'io analysis_error + stream_text" where
  "stream_chunks ct spec session_id [] sx = Inr sx"
| "stream_chunks ct spec session_id (chunk # chunks) sx =
     (case chunk of
        Inl e \<Rightarrow> Inl (ChunkFailed e)
      | Inr c \<Rightarrow> res_bind (with_context session_id (push_text_chunk ct spec c sx)) (stream_chunks ct spec session_id chunks))"

definition try_push_stream ::
  "char_tables \<Rightarrow> ('re \<Rightarrow> scalars \<Rightarrow> bool) \<Rightarrow> 're analysis_policy \<Rightarrow> session_info \<Rightarrow> int \<Rightarrow> int \<Rightarrow>
     ('io + scalars) list \<Rightarrow> accumulator \<Rightarrow> 'io analysis_error + accumulator" where
  "try_push_stream ct is_match policy session message_count user_message_count chunks ac =
     res_bind (require_new_session session ac) (\<lambda>_.
     res_bind (stream_chunks ct (ap_phrases policy) (si_id session) chunks (new_stream_text policy)) (\<lambda>sx.
     res_bind (with_context (si_id session) (finish_text_stream ct (ap_phrases policy) sx)) (\<lambda>delta.
       let document = \<lparr>ad_session = session, ad_user_text = class_text (sx_class sx),
             ad_first_user_text = sx_first_user_text sx, ad_message_count = message_count,
             ad_user_message_count = user_message_count\<rparr>
       in merge_session policy session (classify is_match policy document) delta (sx_has_user_text sx)
            message_count user_message_count ac)))"

definition push_session_text_stream ::
  "char_tables \<Rightarrow> ('re \<Rightarrow> scalars \<Rightarrow> bool) \<Rightarrow> 're analysis_policy \<Rightarrow> session_info \<Rightarrow> int \<Rightarrow> int \<Rightarrow>
     ('io + scalars) list \<Rightarrow> accumulator \<Rightarrow> ('io analysis_error + unit) \<times> accumulator" where
  "push_session_text_stream ct is_match policy session message_count user_message_count chunks =
     guarded (try_push_stream ct is_match policy session message_count user_message_count chunks)"

section \<open>The result\<close>

definition resolve_hint :: "scalars \<Rightarrow> (scalars, scalars list) ordered_map \<Rightarrow> scalars \<Rightarrow> relationship_resolution" where
  "resolve_hint session_id titles parent_title =
     (let candidates = filter (\<lambda>c. c \<noteq> session_id) (case map_of titles parent_title of None \<Rightarrow> [] | Some ids \<Rightarrow> ids)
      in case candidates of [] \<Rightarrow> Unresolved | [c] \<Rightarrow> Resolved c | _ \<Rightarrow> Ambiguous candidates)"

fun hints_of ::
  "('re \<Rightarrow> scalars \<Rightarrow> scalars option option) \<Rightarrow> (scalars, scalars list) ordered_map \<Rightarrow> scalars \<Rightarrow> scalars \<Rightarrow>
     're relationship_rule list \<Rightarrow> 'io analysis_error + relationship_hint list" where
  "hints_of parent_capture titles session_id title [] = Inr []"
| "hints_of parent_capture titles session_id title (rule # rules) =
     (case parent_capture (rl_regex rule) title of
        None \<Rightarrow> hints_of parent_capture titles session_id title rules
      | Some capture \<Rightarrow>
          (case capture of
             None \<Rightarrow> Inl (EmptyParent (rl_id rule) session_id)
           | Some v \<Rightarrow>
               if trim v = [] then Inl (EmptyParent (rl_id rule) session_id)
               else res_map ((#) \<lparr>rh_rule = rl_id rule, rh_kind = rl_kind rule, rh_parent_title = trim v,
                        rh_resolution = resolve_hint session_id titles (trim v)\<rparr>)
                      (hints_of parent_capture titles session_id title rules)))"

fun resolve_sessions ::
  "('re \<Rightarrow> scalars \<Rightarrow> scalars option option) \<Rightarrow> 're relationship_rule list \<Rightarrow> (scalars, scalars list) ordered_map \<Rightarrow>
     (scalars, analyzed_session) ordered_map \<Rightarrow> 'io analysis_error + (scalars, analyzed_session) ordered_map" where
  "resolve_sessions parent_capture rules titles [] = Inr []"
| "resolve_sessions parent_capture rules titles ((session_id, analyzed) # rest) =
     (case si_title (an_session analyzed) of
        None \<Rightarrow> res_map ((#) (session_id, analyzed)) (resolve_sessions parent_capture rules titles rest)
      | Some title \<Rightarrow>
          res_bind (hints_of parent_capture titles session_id title rules) (\<lambda>hints.
            res_map ((#) (session_id, analyzed\<lparr>an_hints := an_hints analyzed @ hints\<rparr>))
              (resolve_sessions parent_capture rules titles rest)))"

record analysis_result =
  ar_sessions :: "(scalars, analyzed_session) ordered_map"
  ar_vocabulary :: "phrase_frequency list"

definition finish_analysis ::
  "('re \<Rightarrow> scalars \<Rightarrow> scalars option option) \<Rightarrow> 're analysis_policy \<Rightarrow> accumulator \<Rightarrow>
     'io analysis_error + analysis_result" where
  "finish_analysis parent_capture policy ac =
     (if ac_failed ac then Inl Unusable
      else
        let titles = map (\<lambda>(title, ids). (title, sort_dedup ids)) (ac_titles ac)
        in res_map (\<lambda>sessions.
             \<lparr>ar_sessions = sessions,
              ar_vocabulary = sort_key (\<lambda>f. (- int (pf_occurrences f), - int (pf_documents f), - int (pf_words f),
                pf_phrase f)) (map snd (ac_vocabulary ac))\<rparr>)
             (resolve_sessions parent_capture (ap_relationships policy) titles (ac_sessions ac)))"

fun push_documents ::
  "char_tables \<Rightarrow> ('re \<Rightarrow> scalars \<Rightarrow> bool) \<Rightarrow> 're analysis_policy \<Rightarrow> analysis_document list \<Rightarrow> accumulator \<Rightarrow>
     'io analysis_error + accumulator" where
  "push_documents ct is_match policy [] ac = Inr ac"
| "push_documents ct is_match policy (document # documents) ac =
     (case push_document ct is_match policy document ac of
        (Inl e, ac) \<Rightarrow> Inl e
      | (Inr _, ac) \<Rightarrow> push_documents ct is_match policy documents ac)"

definition analyze ::
  "char_tables \<Rightarrow> ('re \<Rightarrow> scalars \<Rightarrow> bool) \<Rightarrow> ('re \<Rightarrow> scalars \<Rightarrow> scalars option option) \<Rightarrow> 're analysis_policy \<Rightarrow>
     analysis_document list \<Rightarrow> 'io analysis_error + analysis_result" where
  "analyze ct is_match parent_capture policy documents =
     res_bind (push_documents ct is_match policy documents new_accumulator) (finish_analysis parent_capture policy)"

text \<open>\<open>AnalysisService::run\<close>: the sessions of the corpus with their messages, visited in order.\<close>

record 'io visited_session =
  vs_session :: session_info
  vs_message_count :: int
  vs_user_message_count :: int
  vs_chunks :: "('io + scalars) list"

fun visit_sessions ::
  "char_tables \<Rightarrow> ('re \<Rightarrow> scalars \<Rightarrow> bool) \<Rightarrow> 're analysis_policy \<Rightarrow> 'io visited_session list \<Rightarrow> accumulator \<Rightarrow>
     'io analysis_error + accumulator" where
  "visit_sessions ct is_match policy [] ac = Inr ac"
| "visit_sessions ct is_match policy (v # vs) ac =
     (case push_session_text_stream ct is_match policy (vs_session v) (vs_message_count v)
             (vs_user_message_count v) (vs_chunks v) ac of
        (Inl e, ac) \<Rightarrow> Inl e
      | (Inr _, ac) \<Rightarrow> visit_sessions ct is_match policy vs ac)"

definition run_analysis ::
  "char_tables \<Rightarrow> ('re \<Rightarrow> scalars \<Rightarrow> bool) \<Rightarrow> ('re \<Rightarrow> scalars \<Rightarrow> scalars option option) \<Rightarrow> 're analysis_policy \<Rightarrow>
     'io visited_session list \<Rightarrow> 'io analysis_error + analysis_result" where
  "run_analysis ct is_match parent_capture policy sessions =
     res_bind (visit_sessions ct is_match policy sessions new_accumulator) (finish_analysis parent_capture policy)"

section \<open>The stream of a session\<close>

lemma join_user_text_snoc:
  "join_user_text u (cs @ [c]) =
     join_user_text u cs @ (if join_user_text u cs \<noteq> [] then [32] else []) @ c"
  by (induction cs arbitrary: u) auto

lemma tokens_seen_chain:
  assumes "separators_ok ct"
  shows "\<exists>us. tokens_seen ct spec (join_user_text [] (cs @ rest)) = tokens_seen ct spec (join_user_text [] cs) @ us"
proof (induction rest rule: rev_induct)
  case (snoc c rest)
  obtain us where us: "tokens_seen ct spec (join_user_text [] (cs @ rest)) = tokens_seen ct spec (join_user_text [] cs) @ us"
    using snoc by blast
  define t where "t = join_user_text [] (cs @ rest)"
  have "join_user_text [] (cs @ rest @ [c]) = t @ (if t \<noteq> [] then [32] else []) @ c"
    using join_user_text_snoc [of "[]" "cs @ rest" c] by (simp add: t_def)
  then show ?case
    using seen_join [OF assms, of "t \<noteq> []" t spec c] us by (auto simp: t_def)
qed simp

definition class_of :: "'re analysis_policy \<Rightarrow> scalars \<Rightarrow> classification_text" where
  "class_of policy t =
     (if \<not> needs_user_text policy then ClassUnused
      else case ap_max_chars policy of Some n \<Rightarrow> ClassBounded (take n t) (n - length t) | None \<Rightarrow> ClassFull t)"

lemma push_class_of:
  "push_class_chunk (class_of policy t) c (t \<noteq> []) = class_of policy (t @ (if t \<noteq> [] then [32] else []) @ c)"
  by (auto simp: class_of_def take_Cons' min_def split: option.splits)

definition after_chunks :: "char_tables \<Rightarrow> 're analysis_policy \<Rightarrow> scalars list \<Rightarrow> stream_text \<Rightarrow> bool" where
  "after_chunks ct policy cs sx \<longleftrightarrow>
     (let t = join_user_text [] cs
      in sx_saw_first sx = (cs \<noteq> []) \<and> sx_joined_nonempty sx = (t \<noteq> []) \<and>
         sx_has_user_text sx = list_ex (\<lambda>c. \<not> is_whitespace c) t \<and>
         sx_first_user_text sx = (case cs of [] \<Rightarrow> None | c # _ \<Rightarrow> Some c) \<and>
         sx_class sx = class_of policy t \<and>
         (case (ap_phrases policy, sx_phrases sx) of
            (None, None) \<Rightarrow> True
          | (Some spec, Some ag) \<Rightarrow> after_text ct spec t ag
          | _ \<Rightarrow> False))"

definition phrases_ok :: "char_tables \<Rightarrow> 're analysis_policy \<Rightarrow> scalars \<Rightarrow> bool" where
  "phrases_ok ct policy t \<longleftrightarrow>
     (\<forall>spec. ap_phrases policy = Some spec \<longrightarrow> spec_ok spec \<and> within_u64 spec (all_tokens ct spec t))"

lemma new_stream_text_after:
  "phrases_ok ct policy t \<Longrightarrow> after_chunks ct policy [] (new_stream_text policy)"
  by (auto simp: after_chunks_def new_stream_text_def class_of_def phrases_ok_def new_aggregator_after
      split: option.splits)

lemma push_text_chunk_after:
  assumes "separators_ok ct" and "after_chunks ct policy cs sx" and "phrases_ok ct policy (join_user_text [] (cs @ c # rest))"
  shows "(\<exists>sx'. push_text_chunk ct (ap_phrases policy) c sx = Inr sx' \<and> after_chunks ct policy (cs @ [c]) sx') \<or>
    (\<exists>spec n. ap_phrases policy = Some spec \<and> push_text_chunk ct (ap_phrases policy) c sx = Inl (UniqueExceeded n) \<and>
       phrase_delta ct spec (join_user_text [] (cs @ c # rest)) = Inl (UniqueExceeded n))"
proof -
  define t where "t = join_user_text [] cs"
  define t' where "t' = t @ (if t \<noteq> [] then [32] else []) @ c"
  have t': "join_user_text [] (cs @ [c]) = t'"
    by (simp add: t'_def t_def join_user_text_snoc)
  define sx1 where "sx1 = sx\<lparr>sx_saw_first := True,
      sx_first_user_text := (if sx_saw_first sx then sx_first_user_text sx else Some c),
      sx_joined_nonempty := (sx_joined_nonempty sx \<or> c \<noteq> []),
      sx_has_user_text := (if sx_has_user_text sx then True else list_ex (\<lambda>c. \<not> is_whitespace c) c),
      sx_class := push_class_chunk (sx_class sx) c (sx_joined_nonempty sx)\<rparr>"
  have sx: "sx_saw_first sx = (cs \<noteq> [])" "sx_joined_nonempty sx = (t \<noteq> [])"
    "sx_has_user_text sx = list_ex (\<lambda>c. \<not> is_whitespace c) t" "sx_class sx = class_of policy t"
    "sx_first_user_text sx = (case cs of [] \<Rightarrow> None | c # _ \<Rightarrow> Some c)"
    using assms(2) by (simp_all add: after_chunks_def Let_def t_def)
  have one: "sx_saw_first sx1" "sx_joined_nonempty sx1 = (t' \<noteq> [])"
    "sx_has_user_text sx1 = list_ex (\<lambda>c. \<not> is_whitespace c) t'" "sx_class sx1 = class_of policy t'"
    "sx_first_user_text sx1 = (case cs @ [c] of [] \<Rightarrow> None | c # _ \<Rightarrow> Some c)" "sx_phrases sx1 = sx_phrases sx"
    by (auto simp: sx1_def sx t'_def push_class_of is_whitespace_def split: list.splits)
  show ?thesis
  proof (cases "ap_phrases policy")
    case None
    then have "push_text_chunk ct (ap_phrases policy) c sx = Inr sx1"
      by (simp add: push_text_chunk_def Let_def sx1_def)
    moreover have "after_chunks ct policy (cs @ [c]) sx1"
      using assms(2) None by (simp add: after_chunks_def t' one Let_def split: option.splits)
    ultimately show ?thesis
      by blast
  next
    case (Some spec)
    obtain ag where ag: "sx_phrases sx = Some ag" "after_text ct spec t ag"
      using assms(2) Some by (auto simp: after_chunks_def Let_def t_def split: option.splits)
    have ok: "spec_ok spec" "within_u64 spec (all_tokens ct spec (join_user_text [] (cs @ c # rest)))"
      using assms(3) Some by (simp_all add: phrases_ok_def)
    obtain us vs where us: "tokens_seen ct spec (join_user_text [] (cs @ c # rest)) = tokens_seen ct spec t' @ us"
      "all_tokens ct spec (join_user_text [] (cs @ c # rest)) = tokens_seen ct spec t' @ us @ vs"
      using tokens_seen_chain [OF assms(1), of spec "cs @ [c]" rest]
        all_tokens_seen [OF assms(1), of spec "join_user_text [] (cs @ c # rest)"] by (auto simp: t')
    have "within_u64 spec (tokens_seen ct spec t')"
      using ok(2) us(2) within_u64_prefix by metis
    then have step: "if too_many ct spec (tokens_seen ct spec t')
      then push_phrase_chunk ct spec c (t \<noteq> []) ag = Inl (UniqueExceeded (ps_max_unique spec))
      else \<exists>ag'. push_phrase_chunk ct spec c (t \<noteq> []) ag = Inr ag' \<and> after_text ct spec t' ag'"
      using push_chunk_after [OF ok(1) assms(1) ag(2), of "t \<noteq> []" c] unfolding t'_def by simp
    have push: "push_text_chunk ct (ap_phrases policy) c sx =
      res_map (\<lambda>ag. sx1\<lparr>sx_phrases := Some ag\<rparr>) (push_phrase_chunk ct spec c (t \<noteq> []) ag)"
      using Some ag(1) sx(2) by (simp add: push_text_chunk_def Let_def sx1_def)
    show ?thesis
    proof (cases "too_many ct spec (tokens_seen ct spec t')")
      case True
      then have "too_many ct spec (tokens_seen ct spec (join_user_text [] (cs @ c # rest)))"
        unfolding us(1) by (rule too_many_mono [OF ok(1)])
      then show ?thesis
        using too_many_delta [OF ok(1) assms(1) _ ok(2)] True step Some unfolding push by simp
    next
      case False
      then obtain ag' where "push_phrase_chunk ct spec c (t \<noteq> []) ag = Inr ag'" "after_text ct spec t' ag'"
        using step by auto
      then show ?thesis
        using Some unfolding push by (simp add: after_chunks_def t' one Let_def)
    qed
  qed
qed

lemma stream_chunks_after:
  assumes "separators_ok ct" and "after_chunks ct policy cs sx" and "phrases_ok ct policy (join_user_text [] (cs @ rest))"
  shows "(\<exists>sx'. stream_chunks ct (ap_phrases policy) session_id (map Inr rest) sx = Inr sx' \<and>
      after_chunks ct policy (cs @ rest) sx') \<or>
    (\<exists>spec e. ap_phrases policy = Some spec \<and>
       stream_chunks ct (ap_phrases policy) session_id (map Inr rest) sx = Inl (PhrasesFailed session_id e) \<and>
       phrase_delta ct spec (join_user_text [] (cs @ rest)) = Inl e)"
  using assms(2,3)
proof (induction rest arbitrary: cs sx)
  case Nil
  then show ?case by simp
next
  case (Cons c rest)
  from push_text_chunk_after [OF assms(1) Cons.prems]
  show ?case
  proof (elim disjE exE conjE)
    fix sx' assume "push_text_chunk ct (ap_phrases policy) c sx = Inr sx'" "after_chunks ct policy (cs @ [c]) sx'"
    then show ?thesis
      using Cons.IH [of "cs @ [c]" sx'] Cons.prems(2) by (simp add: with_context_def)
  qed (auto simp: with_context_def)
qed

lemma classify_stream:
  "classify is_match policy \<lparr>ad_session = s, ad_user_text = class_text (class_of policy t), ad_first_user_text = f,
      ad_message_count = m, ad_user_message_count = u\<rparr> =
   classify is_match policy \<lparr>ad_session = s, ad_user_text = t, ad_first_user_text = f,
      ad_message_count = m, ad_user_message_count = u\<rparr>"
proof (cases "needs_user_text policy")
  case True
  then have "char_prefix (class_text (class_of policy t)) (ap_max_chars policy) = char_prefix t (ap_max_chars policy)"
    by (auto simp: class_of_def char_prefix_def split: option.splits)
  then show ?thesis
    by (simp add: classify_def classification_matches_def Let_def cong: classification_target.case_cong)
next
  case False
  then have "cl_target rule \<noteq> TargetUserText \<and> cl_target rule \<noteq> TargetAny" if "rule \<in> set (ap_classifications policy)" for rule
    using that by (auto simp: needs_user_text_def list_ex_iff)
  then show ?thesis
    unfolding classify_def
    by (intro arg_cong [where f = "map _"] filter_cong refl)
      (auto simp: classification_matches_def Let_def split: classification_target.splits)
qed

lemma stream_equals_document:
  assumes "separators_ok ct" and "phrases_ok ct policy (join_user_text [] contents)"
  shows "try_push_stream ct is_match policy session m u (map Inr contents) ac =
    (try_push ct is_match policy (document_of session m u contents) ac :: 'io analysis_error + accumulator)"
proof -
  define t where "t = join_user_text [] contents"
  define first where "first = (case contents of [] \<Rightarrow> None | c # _ \<Rightarrow> Some c)"
  have white: "list_ex (\<lambda>c. \<not> is_whitespace c) t \<longleftrightarrow> trim t \<noteq> []"
    by (auto simp: trim_Nil_iff list_ex_iff list_all_iff)
  have start: "after_chunks ct policy [] (new_stream_text policy)"
    using new_stream_text_after [OF assms(2)] .
  have cases: "(\<exists>sx. stream_chunks ct (ap_phrases policy) (si_id session) (map Inr contents) (new_stream_text policy) =
        (Inr sx :: 'io analysis_error + stream_text) \<and> after_chunks ct policy contents sx) \<or>
    (\<exists>spec e. ap_phrases policy = Some spec \<and>
       stream_chunks ct (ap_phrases policy) (si_id session) (map Inr contents) (new_stream_text policy) =
         (Inl (PhrasesFailed (si_id session) e) :: 'io analysis_error + stream_text) \<and>
       phrase_delta ct spec (join_user_text [] contents) = Inl e)"
    using stream_chunks_after [OF assms(1) start, of contents "si_id session"] assms(2) by simp
  have "res_bind (stream_chunks ct (ap_phrases policy) (si_id session) (map Inr contents) (new_stream_text policy)) (\<lambda>sx.
     res_bind (with_context (si_id session) (finish_text_stream ct (ap_phrases policy) sx)) (\<lambda>delta.
       merge_session policy session (classify is_match policy
          \<lparr>ad_session = session, ad_user_text = class_text (sx_class sx), ad_first_user_text = sx_first_user_text sx,
           ad_message_count = m, ad_user_message_count = u\<rparr>) delta (sx_has_user_text sx) m u ac)) =
    res_bind (case ap_phrases policy of
        None \<Rightarrow> Inr None
      | Some spec \<Rightarrow> res_map Some (with_context (si_id session) (phrase_delta ct spec t)))
     (\<lambda>delta. merge_session policy session (classify is_match policy
          \<lparr>ad_session = session, ad_user_text = t, ad_first_user_text = first,
           ad_message_count = m, ad_user_message_count = u\<rparr>) delta (trim t \<noteq> []) m u ac
         :: 'io analysis_error + accumulator)"
    using cases
  proof (elim disjE exE conjE)
    fix sx assume sx: "stream_chunks ct (ap_phrases policy) (si_id session) (map Inr contents) (new_stream_text policy) =
        (Inr sx :: 'io analysis_error + stream_text)"
      "after_chunks ct policy contents sx"
    have facts: "sx_class sx = class_of policy t" "sx_first_user_text sx = first" "sx_has_user_text sx \<longleftrightarrow> trim t \<noteq> []"
      using sx(2) white by (simp_all add: after_chunks_def t_def first_def Let_def)
    have finish: "(with_context (si_id session) (finish_text_stream ct (ap_phrases policy) sx)
        :: 'io analysis_error + phrase_counts option) =
      (case ap_phrases policy of
        None \<Rightarrow> Inr None
      | Some spec \<Rightarrow> res_map Some (with_context (si_id session) (phrase_delta ct spec t)))"
    proof (cases "ap_phrases policy")
      case None
      then show ?thesis
        by (simp add: finish_text_stream_def with_context_def)
    next
      case (Some spec)
      then obtain ag where ag: "sx_phrases sx = Some ag" "after_text ct spec t ag"
        using sx(2) by (auto simp: after_chunks_def Let_def t_def split: option.splits)
      then have "finish_phrases ct spec ag = phrase_delta ct spec t"
        using finish_text [OF _ assms(1) ag(2)] assms(2) Some by (simp add: phrases_ok_def t_def)
      then show ?thesis
        using Some ag(1) by (simp add: finish_text_stream_def with_context_def split: sum.splits)
    qed
    show ?thesis
      unfolding sx(1) res_bind_simps finish facts classify_stream ..
  next
    fix spec e assume "ap_phrases policy = Some spec" "phrase_delta ct spec (join_user_text [] contents) = Inl e"
      "stream_chunks ct (ap_phrases policy) (si_id session) (map Inr contents) (new_stream_text policy) =
       (Inl (PhrasesFailed (si_id session) e) :: 'io analysis_error + stream_text)"
    then show ?thesis
      by (simp add: with_context_def t_def)
  qed
  then show ?thesis
    by (simp add: try_push_stream_def try_push_def document_of_def t_def first_def Let_def
        cong: option.case_cong)
qed

section \<open>Streams and documents\<close>

type_synonym session_texts = "session_info \<times> int \<times> int \<times> scalars list"

fun visited :: "session_texts \<Rightarrow> 'io visited_session" where
  "visited (session, m, u, contents) =
     \<lparr>vs_session = session, vs_message_count = m, vs_user_message_count = u, vs_chunks = map Inr contents\<rparr>"

fun document :: "session_texts \<Rightarrow> analysis_document" where
  "document (session, m, u, contents) = document_of session m u contents"

definition session_text :: "session_texts \<Rightarrow> scalars" where
  "session_text x = join_user_text [] (snd (snd (snd x)))"

lemma visit_sessions_documents:
  assumes "separators_ok ct" and "\<forall>x \<in> set sessions. phrases_ok ct policy (session_text x)"
  shows "visit_sessions ct is_match policy (map visited sessions) ac =
    (push_documents ct is_match policy (map document sessions) ac :: 'io analysis_error + accumulator)"
  using assms(2)
proof (induction sessions arbitrary: ac)
  case (Cons x sessions)
  obtain session m u contents where x: "x = (session, m, u, contents)"
    by (cases x)
  have ok: "phrases_ok ct policy (join_user_text [] contents)"
    using Cons.prems by (simp add: x session_text_def)
  have "try_push_stream ct is_match policy session m u (map Inr contents) =
      (try_push ct is_match policy (document_of session m u contents) :: _ \<Rightarrow> 'io analysis_error + accumulator)"
    by (rule ext) (rule stream_equals_document [OF assms(1) ok])
  then have "push_session_text_stream ct is_match policy session m u (map Inr contents) ac =
      (push_document ct is_match policy (document_of session m u contents) ac :: ('io analysis_error + unit) \<times> accumulator)"
    by (simp add: push_session_text_stream_def push_document_def)
  then show ?case
    using Cons by (auto simp: x split: prod.splits sum.splits)
qed simp

text \<open>
  C21: analysing the sessions from the stream of their messages gives exactly what analysing the
  documents with the joined texts gives, results and errors alike, for every policy: phrases that
  span messages, lines of prose and fences that do, the bound on the classified text and the bound
  on the number of phrases. Texts of more than 2^64 windows are excluded.
\<close>

theorem streamed_analysis_is_document_analysis:
  assumes "separators_ok ct" and "\<forall>x \<in> set sessions. phrases_ok ct policy (session_text x)"
  shows "run_analysis ct is_match parent_capture policy (map visited sessions) =
    analyze ct is_match parent_capture policy (map document sessions)"
  unfolding run_analysis_def analyze_def visit_sessions_documents [OF assms] ..

definition ascii_tables :: char_tables where
  "ascii_tables =
     \<lparr>ct_lower = \<lambda>c. [c], ct_alphanumeric = \<lambda>c. 97 \<le> c \<and> c \<le> 122 \<or> 48 \<le> c \<and> c \<le> 57,
      ct_numeric = \<lambda>c. 48 \<le> c \<and> c \<le> 57, ct_alphabetic = \<lambda>c. 97 \<le> c \<and> c \<le> 122\<rparr>"

definition pair_spec :: phrase_spec where
  "pair_spec = \<lparr>ps_widths = [2], ps_max_unique = 5, ps_min_tokens = 0, ps_excluded = [],
     ps_exclude_numeric = True, ps_text_mode = UserTextMode\<rparr>"

definition pair_policy :: "unit analysis_policy" where
  "pair_policy = \<lparr>ap_classifications = [], ap_relationships = [], ap_phrases = Some pair_spec, ap_max_chars = None\<rparr>"

definition two_messages :: session_texts where
  "two_messages = (\<lparr>si_id = [115], si_title = None, si_summary = None\<rparr>, 2, 2, [[97, 98], [99, 100]])"

lemma pair_phrases:
  "phrase_delta ascii_tables pair_spec [97, 98, 32, 99, 100] = Inr [([97, 98, 32, 99, 100], 1)]"
proof -
  have "normalized_tokens ascii_tables [97, 98, 32, 99, 100] = [[97, 98], [99, 100]]"
    by (simp add: normalized_tokens_def ascii_tables_def fold_caseless_char_def)
  moreover have "\<not> passed_window ascii_tables pair_spec [[97, 98], [99, 100]]"
    by (simp add: passed_window_def ascii_tables_def pair_spec_def)
  moreover have "windows 2 [[97::nat, 98], [99, 100]] = [[[97, 98], [99, 100]]]"
    by code_simp
  moreover have "count_phrase p [] = Inr [(p, 1)]" for p
    by (simp add: count_phrase_def usize_checked_add_def usize_max_def map_insert_def)
  moreover have "ps_widths pair_spec = [2]" "ps_min_tokens pair_spec = 0" "ps_max_unique pair_spec = 5"
      "ps_text_mode pair_spec = UserTextMode"
    by (simp_all add: pair_spec_def)
  ultimately show ?thesis
    by (simp add: phrase_delta_def del: One_nat_def)
qed

lemma two_messages_document:
  "\<exists>r. analyze ascii_tables (\<lambda>_ _. False) (\<lambda>_ _. None) pair_policy [document two_messages] =
     (Inr r :: unit analysis_error + _) \<and>
   map pf_phrase (ar_vocabulary r) = [[97, 98, 32, 99, 100]]"
proof -
  have doc: "document two_messages =
      \<lparr>ad_session = \<lparr>si_id = [115], si_title = None, si_summary = None\<rparr>,
       ad_user_text = [97, 98, 32, 99, 100], ad_first_user_text = Some [97, 98],
       ad_message_count = 2, ad_user_message_count = 2\<rparr>"
    by (simp add: two_messages_def document_of_def)
  have policy: "ap_phrases pair_policy = Some pair_spec" "ap_classifications pair_policy = []"
      "ap_relationships pair_policy = []" "ps_max_unique pair_spec = 5"
    by (simp_all add: pair_policy_def pair_spec_def)
  have id: "trim [115::nat] \<noteq> []"
    by (simp add: trim_def is_whitespace_def)
  show ?thesis
    by (simp add: doc analyze_def push_document_def guarded_def new_accumulator_def try_push_def
        require_new_session_def id policy pair_phrases with_context_def merge_session_def merge_vocabulary_def
        usize_checked_add_def usize_max_def classify_def finish_analysis_def map_insert_def)
qed

theorem streamed_analysis_is_document_analysis_witness:
  "\<exists>r. run_analysis ascii_tables (\<lambda>_ _. False) (\<lambda>_ _. None) pair_policy [visited two_messages] =
     (Inr r :: unit analysis_error + _) \<and>
   map pf_phrase (ar_vocabulary r) = [[97, 98, 32, 99, 100]]"
proof -
  have "separators_ok ascii_tables"
    by (simp add: separators_ok_def ascii_tables_def)
  moreover have "\<forall>x \<in> set [two_messages]. phrases_ok ascii_tables pair_policy (session_text x)"
    by (simp add: two_messages_def phrases_ok_def pair_policy_def pair_spec_def spec_ok_def session_text_def all_tokens_def
        within_u64_def normalized_tokens_def ascii_tables_def fold_caseless_char_def usize_max_def)
  ultimately have "run_analysis ascii_tables (\<lambda>_ _. False) (\<lambda>_ _. None) pair_policy (map visited [two_messages]) =
    (analyze ascii_tables (\<lambda>_ _. False) (\<lambda>_ _. None) pair_policy (map document [two_messages]) :: unit analysis_error + _)"
    by (rule streamed_analysis_is_document_analysis)
  then show ?thesis
    using two_messages_document by simp
qed

end
