(* ===== verification/Spec2Isabelle.thy ===== *)
theory Spec2Isabelle
  imports Main ContentSearch TailParse Batches Dates Keymap Recovery TransactionRecovery ContextUnion Analysis
begin

text \<open>
  A verification development for \<open>aise\<close>, the search tool over the transcripts of coding agents: the
  logic of \<open>src/rust/ai-session-search-core/src\<close>. File names below are relative to that directory.

  \<^bold>\<open>The program.\<close> Provider logs are parsed, incrementally (\<open>tail.rs\<close>), into the data model
  (\<open>models.rs\<close>) and stored in SQLite (\<open>db.rs\<close>). A message search is a typed request
  (\<open>message_search.rs\<close>) that the service resolves against the configuration into a plan (\<open>service.rs\<close>,
  \<open>config.rs\<close>), restricted to the access scope (\<open>search_scope.rs\<close>) and to time bounds (\<open>dates.rs\<close>).
  Regular expressions are narrowed by trigrams (\<open>trigram.rs\<close>) over a posting index
  (\<open>trigram_index.rs\<close>) before they are verified. The rows come back as a page or, through a worker
  thread, in batches (\<open>message_search_batches.rs\<close>), and are enriched with evidence of the match and
  bounded views of the text (\<open>message_search.rs\<close>, \<open>util.rs\<close>). Files edited in a session are
  reconstructed and published (\<open>files.rs\<close>, \<open>durable_fs.rs\<close>); several files and links change together
  in recoverable transactions (\<open>text_file_transaction.rs\<close>, \<open>integrations.rs\<close>). The terminal browser
  reads its keys from a table (\<open>keymap.rs\<close>).

  \<^bold>\<open>The theories.\<close> Each builds on those it imports; each opens with what it holds.

  \<^item> \<open>Prelude\<close>: results with their \<open>?\<close> operator, Rust's string operations, list lemmas, the
    collections \<open>res_simps\<close> and \<open>str_simps\<close>. \<open>Utf8Text\<close>: strings as scalar values with byte offsets;
    a slice off a character boundary is a panic.
  \<^item> \<open>TrigramIndex\<close> (\<open>decode_ids\<close>, \<open>encode_ids\<close>, \<open>build\<close>, \<open>build_postings\<close>, \<open>candidates\<close>): the codec on
    machine words, the map-reduce build with the chunks and the shape of the reduction explicit, the
    query. The locale \<open>candidate_source\<close> is what the search needs of an index; the built index
    interprets it. \<open>Trigram\<close>: from the literals of a pattern to groups of trigrams, with every fallback
    to no prefilter. \<open>ContentSearch\<close>: when the base is built and which rows a query verifies.
    Shown: candidates are exact for every schedule, the prefilter never loses a match, and on every
    reachable database the search answers as a full scan would.
  \<^item> \<open>TailParse\<close> (\<open>tail_parse\<close> and what it calls): fingerprint, last complete line, overlap, polls.
    Shown: the tail parse together with what is stored equals a full parse.
  \<^item> \<open>Models\<close>: the vocabularies, all instances of the locale \<open>vocabulary\<close>, provenance and filters.
    \<open>MessageSearch\<close>: the request, its builder as a fold of steps, the rules in registry order, page
    descriptions. \<open>SearchPlan\<close>: resolution of each part of a plan and the storage filters with their
    validation. Shown: what builds is well-formed, what plans passes the storage checks, configuration
    never changes membership, validated configurations keep the budgets.
  \<^item> \<open>SearchPages\<close> (\<open>search_in_snapshot\<close>, \<open>visit_messages_in_batches\<close>): pages and traversals cut from
    ordered rows. \<open>Batches\<close>: producer, rendezvous channels, cancellation, panics and the calls
    \<open>next_batch\<close>, \<open>close\<close>, \<open>completion\<close> as an inductive step relation. Shown: pages tile the result,
    batches and pages agree, no call can deadlock (a rank decreases with every internal step), and
    the delivered batches refine the search under every interleaving.
  \<^item> \<open>Dates\<close>: one token to a span of instants, three flags to bounds, over a calendar contract.
    \<open>Keymap\<close>: chords, table, overrides, validation. \<open>SearchScope\<close>: roots against a file system,
    containment, the SQL condition.
  \<^item> \<open>CaselessMatch\<close> (\<open>UnicodeLowerNeedle\<close>): the Knuth-Morris-Pratt table, the scan with its byte skip,
    restarts and polls, the walk back to the first source character. Shown: the scan terminates,
    never slices off a boundary, and finds the first occurrence in the folded text or stops when the
    callback says so. \<open>DisplayText\<close>: compaction, truncation, line selection, snippets.
  \<^item> \<open>MatchEvidence\<close>, \<open>EvidenceExact\<close> (\<open>PreparedMatchEvidence\<close>, \<open>attach_match_evidence_cancellable\<close>):
    excerpts, markers, literal occurrences for every query mode, and that they are true of the field.
    \<open>FieldViews\<close> (\<open>selected_field_view\<close>, \<open>apply_message_presentation_cancellable\<close>): the views returned.
  \<^item> \<open>FileHistory\<close> (\<open>files.rs\<close>): staging, replay, the version iterator. \<open>DurableFs\<close> (\<open>durable_fs.rs\<close>):
    a file system in which any call may fail and other processes may act before any call, and the
    atomic write. \<open>Recovery\<close>: staged directories, publication of all versions, restoration.
  \<^item> \<open>CrashLogic\<close>: triples for programs that may be cut off at any system call. \<open>Transactions\<close>
    (\<open>text_file_transaction.rs\<close>): receipts, publication, rollback, recovery. \<open>TransactionSteps\<close>,
    \<open>TransactionSafety\<close>, \<open>TransactionRecovery\<close>: what each operation may leave behind, crash safety of
    execution and of recovery, and that both succeed undisturbed. The locale \<open>link_publisher\<close> is the
    contract of the two ways to publish a link; both are interpretations.

  \<^bold>\<open>Conventions.\<close> Errors of the code are the left side of a sum. Where a definition gives an
  \<open>option\<close> besides, \<open>None\<close> is a panic or a loop that does not end, so a theorem that the result is \<open>Some\<close>
  says that neither happens. \<open>usize\<close> is a natural number; its bound is written out where the code
  checks it (\<open>checked_add\<close>, \<open>try_from\<close>), and saturating additions of lengths of existing text are plain
  additions. \<open>i64\<close> is an integer with its range written out, and the codec and the fingerprint work on
  machine words. A callback that may cancel is a function from the number of polls so far.

  \<^bold>\<open>Bounds and fuel.\<close> A path is resolved through at most 40 symbolic links, as on Linux
  (\<open>link_depth\<close> is 41); beyond that the resolution is an error, as in the kernel. Loops that the code
  bounds by data are structural or have a measure; the loops of the matcher and of the claim of a
  recovery name are \<open>partial_function\<close>s, and their termination, or that they do not end, is a theorem.

  \<^bold>\<open>Parameters.\<close> Third-party code is an argument with its documented behaviour as a named
  hypothesis, and each such property has a witness with a concrete instance: \<open>regex-syntax\<close> and
  \<open>unicode-segmentation\<close> (\<open>regex_lib\<close>), the regex engine, the fuzzy matcher and JSON (\<open>match_lib\<close>), the
  calendar, EDTF and phrase crates (\<open>date_lib\<close>), SHA-256, the JSON of receipts, the advisory lock, the
  provider's line parser, SQLite's \<open>LIKE\<close>, and the Unicode case tables of the standard library.

  \<^bold>\<open>Not modelled.\<close> The text of SQL statements and the FTS5 path of the current schema, whose meaning
  is SQLite's; migrations and index building, which move data between SQLite and provider files; the
  provider parsers, whose input formats are documented nowhere in the repository; the MCP server, the
  command line, the Python bindings and the terminal drawing, which convert and render; the editors of
  other programs' configuration in \<open>integrations.rs\<close>; skills, corrections, analysis and self update.
  Windows and Apple variants of path and file operations are left out; the Unix ones are modelled.
\<close>

end
